(* ===== verification/Flare_Base.thy ===== *)
theory Flare_Base
  imports Main "HOL-Library.Word" "HOL-Library.Multiset" "HOL-Library.AList"
    "HOL-Library.Char_ord" "HOL-Library.List_Lexorder"
begin

text \<open>
  Shared vocabulary of the FlareDB development: the outcome type of fallible Rust code
  (a value, an error of a \<open>Result\<close>, or a panic), Rust's fixed-width integers as HOL
  integers with explicit conversions, and models of the two map types of Rust's standard
  library (\<open>HashMap\<close> as an association list, \<open>BTreeMap\<close> as an association list in
  strictly increasing key order) behind one interface, the locale \<open>rust_map\<close>.
  The collection \<open>flare_simps\<close> holds the unfolding rules the component proofs share.
\<close>

named_theorems flare_simps \<open>unfolding rules shared by the component proofs\<close>

section \<open>Outcomes of Rust code\<close>

text \<open>
  \<open>Ok\<close> and \<open>Err\<close> are the constructors of Rust's \<open>Result\<close>; \<open>Panic\<close> stands for an
  unwinding panic (an index out of range, a failed \<open>assert!\<close>, a read past the end of a
  \<open>bytes::Buf\<close>, an explicit \<open>panic!\<close>).
\<close>

datatype ('e, 'a) rust = Ok 'a | Err 'e | Panic

fun rbind :: "('e, 'a) rust \<Rightarrow> ('a \<Rightarrow> ('e, 'b) rust) \<Rightarrow> ('e, 'b) rust" where
  "rbind (Ok x) f = f x"
| "rbind (Err e) f = Err e"
| "rbind Panic f = Panic"

lemma rbind_eq_Ok [simp]: "rbind m f = Ok y \<longleftrightarrow> (\<exists>x. m = Ok x \<and> f x = Ok y)"
  by (cases m) auto

fun unwrap_or :: "('e, 'a) rust \<Rightarrow> 'a \<Rightarrow> 'a" where
  "unwrap_or (Ok x) d = x"
| "unwrap_or (Err e) d = d"
| "unwrap_or Panic d = d"

lemma rbind_cong [fundef_cong]:
  "m = m' \<Longrightarrow> (\<And>x. m' = Ok x \<Longrightarrow> f x = g x) \<Longrightarrow> rbind m f = rbind m' g"
  by (cases m') auto

subsection \<open>Loops that may fail\<close>

primrec rfold :: "('x \<Rightarrow> 's \<Rightarrow> ('e, 's) rust) \<Rightarrow> 'x list \<Rightarrow> 's \<Rightarrow> ('e, 's) rust" where
  "rfold f [] s = Ok s"
| "rfold f (x # xs) s = rbind (f x s) (rfold f xs)"

lemma rfold_cong [fundef_cong]:
  "xs = ys \<Longrightarrow> s = t \<Longrightarrow> (\<And>x u. x \<in> set ys \<Longrightarrow> f x u = g x u) \<Longrightarrow> rfold f xs s = rfold g ys t"
proof (induction xs arbitrary: ys s t)
  case (Cons x xs)
  then show ?case
    by (cases "f x s") auto
qed simp

lemma rfold_invariant:
  assumes "rfold f xs s = Ok t" and "P s" and "\<And>x s t. x \<in> set xs \<Longrightarrow> P s \<Longrightarrow> f x s = Ok t \<Longrightarrow> P t"
  shows "P t"
  using assms
proof (induction xs arbitrary: s)
  case (Cons x xs)
  obtain s1 where s1: "f x s = Ok s1" "rfold f xs s1 = Ok t"
    using Cons.prems(1) by auto
  have "P s1"
    using Cons.prems(2) Cons.prems(3) [of x s s1] s1(1) by simp
  then show ?case
    by (rule Cons.IH [OF s1(2)]) (use Cons.prems(3) in \<open>meson list.set_intros(2)\<close>)
qed simp

section \<open>Machine integers\<close>

type_synonym byte = "8 word"
type_synonym bytes = "8 word list"

text \<open>
  An \<open>i64\<close> is an \<open>int\<close> within range; \<open>as_u64\<close> and \<open>as_i64\<close> are the Rust casts
  \<open>as u64\<close> and \<open>as i64\<close> (two's complement). Plain \<open>+\<close> and \<open>-\<close> on \<open>i64\<close> wrap around
  in the release profile the project ships, which \<open>wrap_i64\<close> writes out; the saturating
  operations clamp to the range.
\<close>

definition i64_min :: int where "i64_min = - (2 ^ 63)"
definition i64_max :: int where "i64_max = 2 ^ 63 - 1"

definition in_i64 :: "int \<Rightarrow> bool" where
  "in_i64 x \<longleftrightarrow> i64_min \<le> x \<and> x \<le> i64_max"

definition as_u64 :: "int \<Rightarrow> 64 word" where "as_u64 x = word_of_int x"
definition as_i64 :: "64 word \<Rightarrow> int" where "as_i64 w = sint w"

definition wrap_i64 :: "int \<Rightarrow> int" where "wrap_i64 x = as_i64 (as_u64 x)"

definition saturating_add :: "int \<Rightarrow> int \<Rightarrow> int" where
  "saturating_add x y = max i64_min (min i64_max (x + y))"

definition saturating_sub :: "int \<Rightarrow> int \<Rightarrow> int" where
  "saturating_sub x y = max i64_min (min i64_max (x - y))"

definition checked_add :: "int \<Rightarrow> int \<Rightarrow> int option" where
  "checked_add x y = (if in_i64 (x + y) then Some (x + y) else None)"

lemmas i64_range_defs = in_i64_def i64_min_def i64_max_def

lemma as_i64_as_u64 [simp]: "in_i64 x \<Longrightarrow> as_i64 (as_u64 x) = x"
  by (simp add: as_i64_def as_u64_def i64_range_defs sint_sbintrunc' signed_take_bit_int_eq_self)

lemma as_u64_as_i64 [simp]: "as_u64 (as_i64 w) = w"
  by (simp add: as_i64_def as_u64_def)

lemma in_i64_as_i64 [simp]: "in_i64 (as_i64 w)"
  using sint_greater_eq [of w] sint_less [of w]
  by (simp add: as_i64_def i64_range_defs)

lemma wrap_i64_id [simp]: "in_i64 x \<Longrightarrow> wrap_i64 x = x"
  by (simp add: wrap_i64_def)

lemma in_i64_wrap [simp]: "in_i64 (wrap_i64 x)"
  by (simp add: wrap_i64_def)

lemma as_u64_eq_iff: "in_i64 x \<Longrightarrow> in_i64 y \<Longrightarrow> as_u64 x = as_u64 y \<longleftrightarrow> x = y"
  by (metis as_i64_as_u64)

lemma in_i64_saturating [simp]: "in_i64 (saturating_add x y)" "in_i64 (saturating_sub x y)"
  by (auto simp: saturating_add_def saturating_sub_def i64_range_defs)

section \<open>Maps of the standard library\<close>

text \<open>
  The operations both map types have, and their laws. The clients below never depend on
  more than these laws and on the order in which a \<open>BTreeMap\<close> iterates.
\<close>

locale rust_map =
  fixes get :: "'m \<Rightarrow> 'k \<Rightarrow> 'v option"
    and insert :: "'k \<Rightarrow> 'v \<Rightarrow> 'm \<Rightarrow> 'm"
    and remove :: "'k \<Rightarrow> 'm \<Rightarrow> 'm"
    and wf :: "'m \<Rightarrow> bool"
  assumes get_insert: "wf m \<Longrightarrow> get (insert k v m) k' = (if k' = k then Some v else get m k')"
    and get_remove: "wf m \<Longrightarrow> get (remove k m) k' = (if k' = k then None else get m k')"
    and wf_insert: "wf m \<Longrightarrow> wf (insert k v m)"
    and wf_remove: "wf m \<Longrightarrow> wf (remove k m)"
begin

lemma get_insert_same: "wf m \<Longrightarrow> get (insert k v m) k = Some v"
  by (simp add: get_insert)

lemma get_insert_twice: "wf m \<Longrightarrow> get (insert k v (insert k w m)) = get (insert k v m)"
  by (rule ext) (simp add: get_insert wf_insert)

lemma get_remove_insert: "wf m \<Longrightarrow> get m k = None \<Longrightarrow> get (remove k (insert k v m)) = get m"
  by (rule ext) (simp add: get_insert get_remove wf_insert)

end

subsection \<open>HashMap\<close>

text \<open>
  A \<open>HashMap\<close> is an association list without repeated keys. Rust leaves the iteration
  order open; every loop over a \<open>HashMap\<close> that the development models either treats the
  entries independently of each other or sorts what it collects, so the order of the
  list is immaterial there.
\<close>

type_synonym ('k, 'v) hashmap = "('k \<times> 'v) list"

definition hm_wf :: "('k, 'v) hashmap \<Rightarrow> bool" where "hm_wf m \<longleftrightarrow> distinct (map fst m)"

abbreviation hm_get :: "('k, 'v) hashmap \<Rightarrow> 'k \<Rightarrow> 'v option" where "hm_get \<equiv> map_of"
abbreviation hm_insert :: "'k \<Rightarrow> 'v \<Rightarrow> ('k, 'v) hashmap \<Rightarrow> ('k, 'v) hashmap" where
  "hm_insert \<equiv> AList.update"
abbreviation hm_remove :: "'k \<Rightarrow> ('k, 'v) hashmap \<Rightarrow> ('k, 'v) hashmap" where
  "hm_remove \<equiv> AList.delete"
abbreviation hm_keys :: "('k, 'v) hashmap \<Rightarrow> 'k list" where "hm_keys m \<equiv> map fst m"

text \<open>\<open>for (key, value) in map.iter_mut()\<close>: every value rewritten in place.\<close>

definition hm_map_values :: "('k \<Rightarrow> 'v \<Rightarrow> 'v) \<Rightarrow> ('k, 'v) hashmap \<Rightarrow> ('k, 'v) hashmap" where
  "hm_map_values f m = map (\<lambda>(k, v). (k, f k v)) m"

lemma hm_get_insert [simp]: "hm_get (hm_insert k v m) = (hm_get m)(k \<mapsto> v)"
  by (rule update_conv')

lemma hm_get_remove [simp]: "hm_get (hm_remove k m) = (hm_get m)(k := None)"
  by (rule delete_conv')

lemma hm_wf_insert [simp]: "hm_wf m \<Longrightarrow> hm_wf (hm_insert k v m)"
  by (simp add: hm_wf_def distinct_update)

lemma hm_wf_remove [simp]: "hm_wf m \<Longrightarrow> hm_wf (hm_remove k m)"
  by (simp add: hm_wf_def distinct_delete)

lemma hm_wf_Nil [simp]: "hm_wf []"
  by (simp add: hm_wf_def)

lemma hm_keys_map_values [simp]: "hm_keys (hm_map_values f m) = hm_keys m"
  by (simp add: hm_map_values_def case_prod_unfold comp_def)

lemma hm_wf_map_values [simp]: "hm_wf (hm_map_values f m) = hm_wf m"
  by (simp only: hm_wf_def hm_keys_map_values)

lemma hm_get_map_values [simp]: "hm_get (hm_map_values f m) k = map_option (f k) (hm_get m k)"
  by (induction m) (auto simp: hm_map_values_def)

lemma hm_keys_insert_present: "hm_get m k \<noteq> None \<Longrightarrow> hm_keys (hm_insert k v m) = hm_keys m"
  by (induction m) (auto split: if_splits)

lemma hm_get_mem: "hm_get m k = Some v \<Longrightarrow> (k, v) \<in> set m"
  by (rule map_of_SomeD)

lemma hm_get_iff_mem: "hm_wf m \<Longrightarrow> hm_get m k = Some v \<longleftrightarrow> (k, v) \<in> set m"
  by (simp add: hm_wf_def map_of_eq_Some_iff)

lemma hm_insert_all:
  "\<forall>e \<in> set m. Q (snd e) \<Longrightarrow> Q v \<Longrightarrow> \<forall>e \<in> set (hm_insert k v m). Q (snd e)"
  by (induction m) auto

interpretation hm: rust_map hm_get hm_insert hm_remove hm_wf
  by unfold_locales auto

subsection \<open>BTreeMap\<close>

text \<open>
  A \<open>BTreeMap\<close> is an association list in strictly increasing key order, so that
  iteration, \<open>keys().next()\<close> and equality are those of the tree.
\<close>

type_synonym ('k, 'v) btreemap = "('k \<times> 'v) list"

definition bt_wf :: "('k::linorder, 'v) btreemap \<Rightarrow> bool" where
  "bt_wf m \<longleftrightarrow> sorted_wrt (<) (map fst m)"

fun bt_insert :: "'k::linorder \<Rightarrow> 'v \<Rightarrow> ('k, 'v) btreemap \<Rightarrow> ('k, 'v) btreemap" where
  "bt_insert k v [] = [(k, v)]"
| "bt_insert k v (e # m) =
     (if fst e < k then e # bt_insert k v m
      else if fst e = k then (k, v) # m
      else (k, v) # e # m)"

fun bt_remove :: "'k::linorder \<Rightarrow> ('k, 'v) btreemap \<Rightarrow> ('k, 'v) btreemap" where
  "bt_remove k [] = []"
| "bt_remove k (e # m) = (if fst e = k then m else e # bt_remove k m)"

definition bt_first_key :: "('k, 'v) btreemap \<Rightarrow> 'k option" where
  "bt_first_key m = (case m of [] \<Rightarrow> None | e # _ \<Rightarrow> Some (fst e))"

lemma bt_wf_Nil [simp]: "bt_wf []"
  by (simp add: bt_wf_def)

lemma bt_wf_Cons [simp]: "bt_wf (e # m) \<longleftrightarrow> (\<forall>k \<in> fst ` set m. fst e < k) \<and> bt_wf m"
  by (simp add: bt_wf_def)

lemma fst_set_bt_insert [simp]: "fst ` set (bt_insert k v m) = insert k (fst ` set m)"
  by (induction m) auto

lemma set_bt_remove: "set (bt_remove k m) \<subseteq> set m"
  by (induction m) auto

lemma bt_wf_insert [simp]: "bt_wf m \<Longrightarrow> bt_wf (bt_insert k v m)"
  by (induction m) auto

lemma bt_wf_remove [simp]: "bt_wf m \<Longrightarrow> bt_wf (bt_remove k m)"
  using set_bt_remove [of k] by (induction m) (auto dest: subsetD)

lemma map_of_bt_insert [simp]: "bt_wf m \<Longrightarrow> map_of (bt_insert k v m) = (map_of m)(k \<mapsto> v)"
  by (induction m) (auto simp: fun_eq_iff)

lemma map_of_bt_remove [simp]: "bt_wf m \<Longrightarrow> map_of (bt_remove k m) = (map_of m)(k := None)"
proof (induction m)
  case (Cons e m)
  then have "k = fst e \<Longrightarrow> map_of m k = None"
    by (auto simp: map_of_eq_None_iff)
  with Cons show ?case
    by (auto simp: fun_eq_iff)
qed simp

lemma bt_wf_distinct: "bt_wf m \<Longrightarrow> distinct (map fst m)"
  by (simp add: bt_wf_def strict_sorted_iff)

interpretation bt: rust_map map_of bt_insert bt_remove bt_wf
  by unfold_locales auto

section \<open>Lists and options\<close>

lemma set_map_filter_iff: "y \<in> set (List.map_filter f xs) \<longleftrightarrow> (\<exists>x \<in> set xs. f x = Some y)"
  by (induction xs) (auto simp: List.map_filter_simps split: option.split)

text \<open>A search through the numbered candidates \<open>f 0\<close>, \<open>f 1\<close> and so on for a free one makes progress.\<close>

lemma search_decreases:
  assumes "inj f" and "f k \<in> set taken"
  shows "card {j. Suc k \<le> j \<and> f j \<in> set taken} < card {j. k \<le> j \<and> f j \<in> set taken}"
proof (rule psubset_card_mono)
  have "finite {j. f j \<in> set taken}"
    using finite_vimageI [OF finite_set assms(1), of taken] by (simp add: vimage_def)
  then show "finite {j. k \<le> j \<and> f j \<in> set taken}"
    by simp
  have "k \<in> {j. k \<le> j \<and> f j \<in> set taken}" "k \<notin> {j. Suc k \<le> j \<and> f j \<in> set taken}"
    using assms(2) by simp_all
  moreover have "{j. Suc k \<le> j \<and> f j \<in> set taken} \<subseteq> {j. k \<le> j \<and> f j \<in> set taken}"
    by auto
  ultimately show "{j. Suc k \<le> j \<and> f j \<in> set taken} \<subset> {j. k \<le> j \<and> f j \<in> set taken}"
    by blast
qed

text \<open>A fold of \<open>min\<close> is what Rust writes as a loop \<open>watermark = watermark.min(x)\<close>.\<close>

lemma fold_min_le_iff: "(w :: int) \<le> fold (\<lambda>x acc. min acc (f x)) xs a \<longleftrightarrow> w \<le> a \<and> (\<forall>x \<in> set xs. w \<le> f x)"
  by (induction xs arbitrary: a) auto

lemma fold_min_le_start: "fold (\<lambda>x acc. min acc (f x)) xs a \<le> (a :: int)"
  using fold_min_le_iff [of "fold (\<lambda>x acc. min acc (f x)) xs a" f xs a] by simp

lemma fold_min_le_elem: "x \<in> set xs \<Longrightarrow> fold (\<lambda>x acc. min acc (f x)) xs a \<le> (f x :: int)"
  using fold_min_le_iff [of "fold (\<lambda>x acc. min acc (f x)) xs a" f xs a] by simp

lemma fold_min_mono:
  assumes "\<And>x. x \<in> set xs \<Longrightarrow> (f x :: int) \<le> g x" and "a \<le> b"
  shows "fold (\<lambda>x acc. min acc (f x)) xs a \<le> fold (\<lambda>x acc. min acc (g x)) xs b"
  using fold_min_le_start [of f xs a] fold_min_le_elem [of _ xs f a] assms
  by (fastforce simp: fold_min_le_iff)

lemmas fold_min_facts = fold_min_le_iff fold_min_le_start fold_min_le_elem

end
