(* ===== verification/Wire.thy ===== *)
theory Wire
  imports Flare_Base
begin

unbundle bit_operations_syntax

text \<open>
  Byte-level encodings of \<open>coders/primitives.rs\<close>: varints, big-endian integers,
  order-preserving timestamps and length-delimited payloads. A reader takes the bytes of
  the buffer and returns the value with the bytes left; reading past the end panics, as
  the \<open>get_*\<close> and \<open>copy_to_slice\<close> methods of \<open>bytes::Buf\<close> do. The locale \<open>wire_codec\<close>
  states what a coder pair promises; it is interpreted for every encoding below and its
  lemmas (injectivity, unique parsing of concatenations, round trip of sequences) are
  what the composite coders use.
\<close>

section \<open>Readers\<close>

datatype coders_error = WhileDecoding string

type_synonym 'a reader = "bytes \<Rightarrow> (coders_error, 'a \<times> bytes) rust"

definition get_u8 :: "byte reader" where
  "get_u8 buf = (case buf of [] \<Rightarrow> Panic | b # rest \<Rightarrow> Ok (b, rest))"

text \<open>\<open>buf.copy_to_slice(&mut bytes)\<close> for a slice of \<open>n\<close> bytes.\<close>

definition get_slice :: "nat \<Rightarrow> bytes reader" where
  "get_slice n buf = (if n \<le> length buf then Ok (take n buf, drop n buf) else Panic)"

text \<open>\<open>for _ in 0..n { values.push(read(buf)) }\<close>\<close>

primrec get_many :: "'a reader \<Rightarrow> nat \<Rightarrow> 'a list reader" where
  "get_many rd 0 buf = Ok ([], buf)"
| "get_many rd (Suc n) buf =
     rbind (rd buf) (\<lambda>(x, rest). rbind (get_many rd n rest) (\<lambda>(xs, rest'). Ok (x # xs, rest')))"

lemma get_u8_Cons [simp]: "get_u8 (b # rest) = Ok (b, rest)"
  by (simp add: get_u8_def)

lemma get_slice_append [simp]: "n = length xs \<Longrightarrow> get_slice n (xs @ rest) = Ok (xs, rest)"
  by (simp add: get_slice_def)

section \<open>The contract of a coder\<close>

locale wire_codec =
  fixes encode :: "'a \<Rightarrow> bytes" and decode :: "'a reader" and valid :: "'a \<Rightarrow> bool"
  assumes roundtrip: "valid x \<Longrightarrow> decode (encode x @ rest) = Ok (x, rest)"
begin

lemma encode_append_inject:
  "valid x \<Longrightarrow> valid y \<Longrightarrow> encode x @ r = encode y @ s \<longleftrightarrow> x = y \<and> r = s"
  by (metis roundtrip rust.inject(1) prod.inject)

lemma encode_inject: "valid x \<Longrightarrow> valid y \<Longrightarrow> encode x = encode y \<longleftrightarrow> x = y"
  using encode_append_inject [of x y "[]" "[]"] by simp

lemma roundtrip_many:
  "list_all valid xs \<Longrightarrow> get_many decode (length xs) (concat (map encode xs) @ rest) = Ok (xs, rest)"
  by (induction xs) (simp_all add: roundtrip)

end

section \<open>Varints\<close>

lemma unat_drop7: "unat (drop_bit 7 (v :: 64 word)) = unat v div 2 ^ 7"
  unfolding unat_drop_bit_eq by (rule drop_bit_eq_div)

text \<open>\<open>encode_varint\<close>: seven bits per byte, least significant first, the top bit of a byte
  set when more bytes follow.\<close>

function encode_varint :: "64 word \<Rightarrow> bytes" where
  "encode_varint v =
     (let b = (ucast (v AND 0x7F) :: byte);
          v' = drop_bit 7 v
      in if v' \<noteq> 0 then (b OR 0x80) # encode_varint v' else [b])"
  by pat_completeness auto
termination
proof (relation "measure unat")
  fix v v' :: "64 word"
  assume v': "v' = drop_bit 7 v" "v' \<noteq> 0"
  then have "0 < unat v"
    by (metis drop_bit_of_0 unat_gt_0)
  then have "unat v div 2 ^ 7 < unat v"
    by (intro div_less_dividend) simp_all
  then show "(v', v) \<in> measure unat"
    by (simp add: v'(1) unat_drop7 del: unat_drop_bit_eq)
qed simp

declare encode_varint.simps [simp del]

text \<open>
  \<open>decode_varint\<close>: in the release profile the shift amount of \<open><<\<close> is taken modulo 64, so
  an over-long encoding wraps around instead of failing; the buffer running out panics.
\<close>

primrec decode_varint_loop :: "bytes \<Rightarrow> 64 word \<Rightarrow> nat \<Rightarrow> (coders_error, 64 word \<times> bytes) rust" where
  "decode_varint_loop [] result shift = Panic"
| "decode_varint_loop (b # rest) result shift =
     (let result' = result OR push_bit (shift mod 64) (ucast (b AND 0x7F))
      in if b AND 0x80 = 0 then Ok (result', rest) else decode_varint_loop rest result' (shift + 7))"

definition decode_varint :: "64 word reader" where
  "decode_varint buf = decode_varint_loop buf 0 0"

definition encode_signed_varint :: "int \<Rightarrow> bytes" where
  "encode_signed_varint v = encode_varint (as_u64 v)"

definition decode_signed_varint :: "int reader" where
  "decode_signed_varint buf = rbind (decode_varint buf) (\<lambda>(w, rest). Ok (as_i64 w, rest))"

subsection \<open>Round trip\<close>

lemma bit_0x7F [simp]: "bit (0x7F :: int) n \<longleftrightarrow> n < 7"
proof -
  have "(0x7F :: int) = mask 7"
    by (simp add: mask_eq_exp_minus_1)
  then show ?thesis
    by (simp only: bit_mask_iff possible_bit_int) simp
qed

lemma bit_0x80 [simp]: "bit (0x80 :: int) n \<longleftrightarrow> n = 7"
proof -
  have "(0x80 :: int) = 2 ^ 7"
    by simp
  then show ?thesis
    by (simp only: bit_exp_iff possible_bit_int) auto
qed

lemma payload_bits:
  "ucast ((ucast (v AND 0x7F) :: byte) AND 0x7F) = take_bit 7 (v :: 64 word)"
  "ucast (((ucast (v AND 0x7F) :: byte) OR 0x80) AND 0x7F) = take_bit 7 (v :: 64 word)"
  by (rule bit_word_eqI, auto simp: bit_simps)+

lemma continuation_bit:
  "(ucast (v AND 0x7F :: 64 word) :: byte) AND 0x80 = 0"
  "((ucast (v AND 0x7F :: 64 word) :: byte) OR 0x80) AND 0x80 \<noteq> 0"
proof -
  show "(ucast (v AND 0x7F :: 64 word) :: byte) AND 0x80 = 0"
    by (rule bit_word_eqI) (auto simp: bit_simps)
  have "bit (((ucast (v AND 0x7F :: 64 word) :: byte) OR 0x80) AND 0x80) 7"
    by (simp add: bit_simps)
  then show "((ucast (v AND 0x7F :: 64 word) :: byte) OR 0x80) AND 0x80 \<noteq> 0"
    by (metis bit_0_eq bot_apply bot_bool_def)
qed

text \<open>The part of a word that a shift keeps.\<close>

lemma shift_split:
  "push_bit s (take_bit 7 v) OR push_bit (s + 7) (drop_bit 7 v) = push_bit s (v :: 64 word)"
proof (rule bit_word_eqI)
  fix n :: nat
  show "bit (push_bit s (take_bit 7 v) OR push_bit (s + 7) (drop_bit 7 v)) n = bit (push_bit s v) n"
  proof (cases "s + 7 \<le> n")
    case True
    then obtain k where "n = s + 7 + k"
      using le_Suc_ex by blast
    then show ?thesis
      by (simp add: bit_simps add.assoc)
  qed (auto simp: bit_simps)
qed

lemma shift_low: "drop_bit 7 v = 0 \<Longrightarrow> take_bit 7 v = (v :: 64 word)"
  using bits_ident [of 7 v] by simp

lemma drop7_bound:
  assumes "drop_bit 7 v \<noteq> (0 :: 64 word)" and "unat v < 2 ^ (64 - s)" and "s < 64"
  shows "s + 7 < 64" and "unat (drop_bit 7 v) < 2 ^ (64 - (s + 7))"
proof -
  have pos: "0 < unat v div 2 ^ 7"
    using assms(1) by (metis unat_drop7 unat_gt_0)
  then have "2 ^ 7 \<le> unat v"
    by (simp add: div_greater_zero_iff)
  then have "(2::nat) ^ 7 < 2 ^ (64 - s)"
    using assms(2) by linarith
  then show s: "s + 7 < 64"
    using power_less_imp_less_exp [of "2::nat" 7 "64 - s"] by linarith
  then have "(2::nat) ^ (64 - s) = 2 ^ (64 - (s + 7)) * 2 ^ 7"
    using power_add [of "2::nat" "64 - (s + 7)" 7] by simp
  then show "unat (drop_bit 7 v) < 2 ^ (64 - (s + 7))"
    using assms(2) by (simp only: unat_drop7) (rule less_mult_imp_div_less, simp only:)
qed

lemma decode_varint_loop_encode:
  "s < 64 \<Longrightarrow> unat v < 2 ^ (64 - s) \<Longrightarrow>
   decode_varint_loop (encode_varint v @ rest) acc s = Ok (acc OR push_bit s v, rest)"
proof (induction v arbitrary: acc s rule: encode_varint.induct)
  case (1 v)
  show ?case
  proof (cases "drop_bit 7 v = 0")
    case True
    with 1 show ?thesis
      by (subst encode_varint.simps) (simp add: Let_def payload_bits continuation_bit shift_low)
  next
    case False
    have "decode_varint_loop (encode_varint (drop_bit 7 v) @ rest) (acc OR push_bit s (take_bit 7 v)) (s + 7)
        = Ok ((acc OR push_bit s (take_bit 7 v)) OR push_bit (s + 7) (drop_bit 7 v), rest)"
      using "1.IH" [OF refl refl False] drop7_bound [OF False "1.prems"(2,1)] by blast
    with False "1.prems" show ?thesis
      by (subst encode_varint.simps)
        (simp add: Let_def payload_bits continuation_bit shift_split or.assoc)
  qed
qed

lemma varint_roundtrip: "decode_varint (encode_varint v @ rest) = Ok (v, rest)"
  using decode_varint_loop_encode [of 0 v rest 0] unsigned_less [of v, where 'a = nat] by (simp add: decode_varint_def)

lemma signed_varint_roundtrip:
  "in_i64 v \<Longrightarrow> decode_signed_varint (encode_signed_varint v @ rest) = Ok (v, rest)"
  by (simp add: decode_signed_varint_def encode_signed_varint_def varint_roundtrip)

lemma encode_varint_length:
  "1 \<le> length (encode_varint v)" "length (encode_varint v) \<le> 10"
proof -
  have "unat w < 2 ^ (7 * Suc k) \<Longrightarrow> 1 \<le> length (encode_varint w) \<and> length (encode_varint w) \<le> Suc k" for w k
  proof (induction k arbitrary: w)
    case 0
    then have "drop_bit 7 w = 0"
      by (simp add: word_unat_eq_iff unat_drop7 del: unat_drop_bit_eq)
    then show ?case
      by (subst encode_varint.simps, subst (2) encode_varint.simps) (simp add: Let_def)
  next
    case (Suc k)
    have "unat (drop_bit 7 w) < 2 ^ (7 * Suc k)"
      using Suc.prems by (simp only: unat_drop7) (simp add: less_mult_imp_div_less power_add mult.commute)
    from Suc.IH [OF this] show ?case
      by (subst encode_varint.simps, subst (2) encode_varint.simps) (simp add: Let_def)
  qed
  from this [of v 9] unsigned_less [of v, where 'a = nat]
  show "1 \<le> length (encode_varint v)" "length (encode_varint v) \<le> 10"
    by simp_all
qed

interpretation varint: wire_codec encode_varint decode_varint "\<lambda>_. True"
  by unfold_locales (rule varint_roundtrip)

interpretation svarint: wire_codec encode_signed_varint decode_signed_varint in_i64
  by unfold_locales (rule signed_varint_roundtrip)

section \<open>Big-endian integers\<close>

text \<open>\<open>to_be_bytes\<close> and \<open>from_be_bytes\<close>: the \<open>k\<close> base-256 digits of a number, most
  significant first.\<close>

primrec be_bytes :: "nat \<Rightarrow> nat \<Rightarrow> bytes" where
  "be_bytes 0 n = []"
| "be_bytes (Suc k) n = be_bytes k (n div 256) @ [of_nat n]"

lemma be_bytes_numeral:
  "be_bytes (numeral k) n = be_bytes (pred_numeral k) (n div 256) @ [of_nat n]"
  using be_bytes.simps(2) [of "pred_numeral k" n] by (simp only: numeral_eq_Suc [symmetric])

definition from_be :: "bytes \<Rightarrow> nat" where
  "from_be bs = foldl (\<lambda>acc b. acc * 256 + unat b) 0 bs"

definition u32_be :: "32 word \<Rightarrow> bytes" where "u32_be w = be_bytes 4 (unat w)"
definition u64_be :: "64 word \<Rightarrow> bytes" where "u64_be w = be_bytes 8 (unat w)"

definition get_u32 :: "32 word reader" where
  "get_u32 buf = rbind (get_slice 4 buf) (\<lambda>(bs, rest). Ok (of_nat (from_be bs), rest))"

definition get_u64 :: "64 word reader" where
  "get_u64 buf = rbind (get_slice 8 buf) (\<lambda>(bs, rest). Ok (of_nat (from_be bs), rest))"

lemma length_be_bytes [simp]: "length (be_bytes k n) = k"
  by (induction k arbitrary: n) auto

lemma from_be_snoc [simp]: "from_be (bs @ [b]) = from_be bs * 256 + unat b"
  by (simp add: from_be_def)

lemma from_be_Nil [simp]: "from_be [] = 0"
  by (simp add: from_be_def)

lemma unat_of_nat_byte: "unat (of_nat n :: byte) = n mod 256"
  by (simp add: unat_of_nat)

lemma from_be_be_bytes: "from_be (be_bytes k n) = n mod 256 ^ k"
proof (induction k arbitrary: n)
  case (Suc k)
  have "n mod 256 ^ Suc k = (n div 256) mod 256 ^ k * 256 + n mod 256"
    by (simp add: mod_mult2_eq)
  then show ?case
    by (simp only: be_bytes.simps from_be_snoc Suc.IH unat_of_nat_byte)
qed simp

lemma from_be_less: "from_be bs < 256 ^ length bs"
proof (induction bs rule: rev_induct)
  case (snoc b bs)
  have "unat b < 256"
    using unsigned_less [of b, where 'a = nat] by simp
  with snoc show ?case
    by simp
qed simp

lemma be_bytes_from_be: "k = length bs \<Longrightarrow> be_bytes k (from_be bs) = bs"
proof (induction bs arbitrary: k rule: rev_induct)
  case (snoc b bs)
  have b: "unat b < 256"
    using unsigned_less [of b, where 'a = nat] by simp
  have div: "(from_be bs * 256 + unat b) div 256 = from_be bs"
    using b by simp
  have "(of_nat (from_be bs * 256 + unat b) :: byte) = b"
    using b by (simp add: word_unat_eq_iff unat_of_nat del: of_nat_add of_nat_mult)
  then show ?case
    using snoc div by (simp del: of_nat_add of_nat_mult)
qed simp

lemma from_be_u64_be [simp]: "from_be (u64_be w) = unat w"
  using unsigned_less [of w, where 'a = nat] by (simp add: u64_be_def from_be_be_bytes)

lemma from_be_u32_be [simp]: "from_be (u32_be w) = unat w"
  using unsigned_less [of w, where 'a = nat] by (simp add: u32_be_def from_be_be_bytes)

lemma length_u64_be [simp]: "length (u64_be w) = 8"
  by (simp add: u64_be_def)

lemma length_u32_be [simp]: "length (u32_be w) = 4"
  by (simp add: u32_be_def)

lemma u64_be_roundtrip: "get_u64 (u64_be w @ rest) = Ok (w, rest)"
  by (simp add: get_u64_def)

lemma u32_be_roundtrip: "get_u32 (u32_be w @ rest) = Ok (w, rest)"
  by (simp add: get_u32_def)

interpretation u64_codec: wire_codec u64_be get_u64 "\<lambda>_. True"
  by unfold_locales (rule u64_be_roundtrip)

interpretation u32_codec: wire_codec u32_be get_u32 "\<lambda>_. True"
  by unfold_locales (rule u32_be_roundtrip)

text \<open>Byte strings of one length compare lexicographically as the numbers they spell.\<close>

lemma snoc_less_iff:
  "length xs = length ys \<Longrightarrow>
   (xs @ [a] < ys @ [b]) \<longleftrightarrow> xs < ys \<or> (xs = ys \<and> a < (b :: 'a :: linorder))"
  by (induction xs ys rule: list_induct2) auto

lemma digit_less_iff:
  assumes "x < 256" and "y < (256 :: nat)"
  shows "a * 256 + x < b * 256 + y \<longleftrightarrow> a < b \<or> (a = b \<and> x < y)"
proof (cases a b rule: linorder_cases)
  case less
  then have "a * 256 + 256 \<le> b * 256"
    using mult_le_mono1 [of "Suc a" b 256] by simp
  with less assms show ?thesis
    by linarith
next
  case greater
  then have "b * 256 + 256 \<le> a * 256"
    using mult_le_mono1 [of "Suc b" a 256] by simp
  with greater assms show ?thesis
    by linarith
qed simp

lemma be_less_iff:
  "length xs = length ys \<Longrightarrow> (xs < ys) \<longleftrightarrow> from_be xs < from_be ys"
proof (induction xs arbitrary: ys rule: rev_induct)
  case (snoc x xs)
  obtain zs y where ys: "ys = zs @ [y]" "length xs = length zs"
    using snoc.prems by (cases ys rule: rev_cases) auto
  have bounds: "unat x < 256" "unat y < 256"
    using unsigned_less [of x, where 'a = nat] unsigned_less [of y, where 'a = nat] by simp_all
  have eq: "xs = zs \<longleftrightarrow> from_be xs = from_be zs"
    using ys(2) be_bytes_from_be [OF refl, of xs] be_bytes_from_be [OF refl, of zs] by metis
  note digit_less_iff [OF bounds, of "from_be xs" "from_be zs"]
  then show ?case
    using snoc.IH [OF ys(2)] eq ys by (simp add: snoc_less_iff word_less_nat_alt)
qed simp

section \<open>Ordered timestamps\<close>

text \<open>
  \<open>encode_timestamp_millis\<close> and \<open>ordered_i64_bytes\<close> flip the sign bit, so that the bytes
  order as the timestamps do.
\<close>

definition flip_sign :: "64 word \<Rightarrow> 64 word" where
  "flip_sign w = w XOR 0x8000000000000000"

definition encode_timestamp_millis :: "int \<Rightarrow> bytes" where
  "encode_timestamp_millis t = u64_be (flip_sign (as_u64 t))"

definition decode_timestamp_millis :: "int reader" where
  "decode_timestamp_millis buf =
     rbind (get_u64 buf) (\<lambda>(w, rest). Ok (as_i64 (flip_sign w), rest))"

lemma flip_sign_flip_sign [simp]: "flip_sign (flip_sign w) = w"
  by (simp add: flip_sign_def xor.assoc)

lemma flip_sign_add: "flip_sign w = w + 2 ^ 63"
proof (cases "bit w 63")
  case True
  define v where "v = w XOR 2 ^ 63"
  have w: "w = v XOR 2 ^ 63"
    by (simp add: v_def xor.assoc del: power_numeral)
  have "v AND 2 ^ 63 = 0"
    unfolding v_def using True by (intro bit_word_eqI) (auto simp: bit_simps simp del: power_numeral)
  then have "v + 2 ^ 63 = w"
    unfolding w by (rule disjunctive_add_eq_xor)
  moreover have "v + 2 ^ 63 + 2 ^ 63 = v"
    by (simp add: add.assoc)
  ultimately show ?thesis
    by (simp add: flip_sign_def v_def)
next
  case False
  then have "w AND 2 ^ 63 = 0"
    by (intro bit_word_eqI) (auto simp: bit_simps simp del: power_numeral)
  then show ?thesis
    using disjunctive_add_eq_xor [of w "2 ^ 63"] by (simp add: flip_sign_def)
qed

lemma unat_flip_sign: "in_i64 t \<Longrightarrow> unat (flip_sign (as_u64 t)) = nat (t + 2 ^ 63)"
proof -
  assume t: "in_i64 t"
  have "flip_sign (as_u64 t) = word_of_int (t + 2 ^ 63)"
    by (simp add: flip_sign_add as_u64_def)
  moreover have "(t + 2 ^ 63) mod 2 ^ 64 = t + 2 ^ 63"
    using t by (intro mod_pos_pos_trivial) (auto simp: i64_range_defs)
  ultimately have "uint (flip_sign (as_u64 t)) = t + 2 ^ 63"
    by (simp only: uint_word_of_int len_num0 len_bit0 len_bit1 len_num1) simp
  then show ?thesis
    by (simp only: nat_uint_eq [symmetric])
qed

lemma timestamp_roundtrip:
  "in_i64 t \<Longrightarrow> decode_timestamp_millis (encode_timestamp_millis t @ rest) = Ok (t, rest)"
  by (simp add: decode_timestamp_millis_def encode_timestamp_millis_def u64_be_roundtrip)

interpretation timestamp: wire_codec encode_timestamp_millis decode_timestamp_millis in_i64
  by unfold_locales (rule timestamp_roundtrip)

lemma encode_timestamp_less:
  assumes "in_i64 s" and "in_i64 t"
  shows "encode_timestamp_millis s < encode_timestamp_millis t \<longleftrightarrow> s < t"
proof -
  have "encode_timestamp_millis s < encode_timestamp_millis t \<longleftrightarrow> nat (s + 2 ^ 63) < nat (t + 2 ^ 63)"
    using assms by (simp only: encode_timestamp_millis_def be_less_iff length_u64_be from_be_u64_be unat_flip_sign)
  then show ?thesis
    using assms unfolding i64_range_defs by linarith
qed

section \<open>Length-delimited payloads\<close>

definition encode_length_delimited :: "bytes \<Rightarrow> bytes" where
  "encode_length_delimited bs = encode_varint (of_nat (length bs)) @ bs"

definition decode_length_delimited :: "string \<Rightarrow> bytes reader" where
  "decode_length_delimited coder_name buf =
     rbind (decode_varint buf) (\<lambda>(len, rest).
       if unat len > length rest then Err (WhileDecoding coder_name) else get_slice (unat len) rest)"

definition fits_u64 :: "nat \<Rightarrow> bool" where "fits_u64 n \<longleftrightarrow> n < 2 ^ 64"

lemma unat_of_nat_fits [simp]: "fits_u64 n \<Longrightarrow> unat (of_nat n :: 64 word) = n"
  by (simp add: fits_u64_def unat_of_nat)

lemma length_delimited_roundtrip:
  "fits_u64 (length bs) \<Longrightarrow> decode_length_delimited nm (encode_length_delimited bs @ rest) = Ok (bs, rest)"
  by (simp add: decode_length_delimited_def encode_length_delimited_def varint_roundtrip)

interpretation delimited: wire_codec encode_length_delimited "decode_length_delimited nm" "\<lambda>bs. fits_u64 (length bs)" for nm
  by unfold_locales (rule length_delimited_roundtrip)

section \<open>Strings\<close>

text \<open>
  A Rust \<open>String\<close> is a HOL \<open>string\<close> of its UTF-8 bytes. \<open>utf8_valid\<close> is the check of
  \<open>str::from_utf8\<close>: well-formed byte sequences as the Unicode standard tabulates them.
\<close>

definition byte_of_char :: "char \<Rightarrow> byte" where "byte_of_char c = of_nat (of_char c)"
definition char_of_byte :: "byte \<Rightarrow> char" where "char_of_byte b = char_of (unat b)"

definition as_bytes :: "string \<Rightarrow> bytes" where "as_bytes s = map byte_of_char s"

definition utf8_cont :: "byte \<Rightarrow> bool" where "utf8_cont b \<longleftrightarrow> 0x80 \<le> b \<and> b \<le> 0xBF"

text \<open>What the second byte must satisfy and how many bytes follow it, by the first byte.\<close>

definition utf8_second :: "byte \<Rightarrow> byte \<Rightarrow> bool" where
  "utf8_second b c =
     (if b = 0xE0 then 0xA0 \<le> c \<and> c \<le> 0xBF
      else if b = 0xED then 0x80 \<le> c \<and> c \<le> 0x9F
      else if b = 0xF0 then 0x90 \<le> c \<and> c \<le> 0xBF
      else if b = 0xF4 then 0x80 \<le> c \<and> c \<le> 0x8F
      else utf8_cont c)"

fun utf8_valid :: "bytes \<Rightarrow> bool" where
  "utf8_valid [] = True"
| "utf8_valid (b # rest) =
     (if b < 0x80 then utf8_valid rest
      else if 0xC2 \<le> b \<and> b \<le> 0xDF then
        (case rest of c # rest1 \<Rightarrow> utf8_cont c \<and> utf8_valid rest1 | _ \<Rightarrow> False)
      else if 0xE0 \<le> b \<and> b \<le> 0xEF then
        (case rest of c # d # rest2 \<Rightarrow> utf8_second b c \<and> utf8_cont d \<and> utf8_valid rest2 | _ \<Rightarrow> False)
      else if 0xF0 \<le> b \<and> b \<le> 0xF4 then
        (case rest of c # d # e # rest3 \<Rightarrow>
           utf8_second b c \<and> utf8_cont d \<and> utf8_cont e \<and> utf8_valid rest3 | _ \<Rightarrow> False)
      else False)"

definition from_utf8 :: "bytes \<Rightarrow> string option" where
  "from_utf8 bs = (if utf8_valid bs then Some (map char_of_byte bs) else None)"

definition rust_string :: "string \<Rightarrow> bool" where "rust_string s \<longleftrightarrow> utf8_valid (as_bytes s)"

lemma char_of_byte_of_char [simp]: "char_of_byte (byte_of_char c) = c"
  by (simp add: char_of_byte_def byte_of_char_def unat_of_nat)

lemma byte_of_char_of_byte [simp]: "byte_of_char (char_of_byte b) = b"
proof -
  have "unat b mod 256 = unat b"
    using unsigned_less [of b, where 'a = nat] by simp
  then show ?thesis
    by (simp add: char_of_byte_def byte_of_char_def)
qed

lemma map_char_of_as_bytes [simp]: "map char_of_byte (as_bytes s) = s"
  by (simp add: as_bytes_def comp_def)

lemma as_bytes_map_char_of [simp]: "as_bytes (map char_of_byte bs) = bs"
  by (simp add: as_bytes_def comp_def)

lemma length_as_bytes [simp]: "length (as_bytes s) = length s"
  by (simp add: as_bytes_def)

lemma as_bytes_append: "as_bytes (s @ t) = as_bytes s @ as_bytes t"
  by (simp add: as_bytes_def)

lemma as_bytes_inject [simp]: "as_bytes s = as_bytes t \<longleftrightarrow> s = t"
  by (metis map_char_of_as_bytes)

lemma from_utf8_as_bytes: "rust_string s \<Longrightarrow> from_utf8 (as_bytes s) = Some s"
  by (simp add: from_utf8_def rust_string_def)

lemma from_utf8_eq_Some: "from_utf8 bs = Some s \<longleftrightarrow> utf8_valid bs \<and> bs = as_bytes s"
  by (auto simp: from_utf8_def)

section \<open>Unknown-length sequences\<close>

text \<open>
  The \<open>loop\<close> both \<open>IterableCoder::decode\<close> and \<open>decode_windows\<close> run for a negative count: a
  varint chunk size, that many elements, and so on until a chunk size of zero. Every
  round consumes at least the byte of its varint, so the length of the buffer is enough
  fuel (\<open>get_chunks_fuel\<close>).
\<close>

fun get_chunks :: "'a reader \<Rightarrow> nat \<Rightarrow> 'a list reader" where
  "get_chunks rd 0 buf = Panic"
| "get_chunks rd (Suc fuel) buf =
     rbind (decode_varint buf) (\<lambda>(n, rest).
       if n = 0 then Ok ([], rest)
       else rbind (get_many rd (unat n) rest) (\<lambda>(xs, rest1).
         rbind (get_chunks rd fuel rest1) (\<lambda>(ys, rest2). Ok (xs @ ys, rest2))))"

definition shrinks :: "'a reader \<Rightarrow> bool" where
  "shrinks rd \<longleftrightarrow> (\<forall>buf x rest. rd buf = Ok (x, rest) \<longrightarrow> length rest \<le> length buf)"

lemma decode_varint_loop_shrinks:
  "decode_varint_loop buf acc s = Ok (w, rest) \<Longrightarrow> length rest < length buf"
  by (induction buf arbitrary: acc s) (fastforce simp: Let_def split: if_splits)+

lemma decode_varint_shrinks: "decode_varint buf = Ok (w, rest) \<Longrightarrow> length rest < length buf"
  unfolding decode_varint_def by (rule decode_varint_loop_shrinks)

lemma get_many_shrinks: "shrinks rd \<Longrightarrow> shrinks (get_many rd n)"
proof (induction n)
  case (Suc n)
  have rd: "length r \<le> length b" if "rd b = Ok (x, r)" for b x r
    using Suc.prems that by (simp add: shrinks_def)
  have many: "length r \<le> length b" if "get_many rd n b = Ok (x, r)" for b x r
    using Suc that by (simp add: shrinks_def)
  show ?case
    unfolding shrinks_def using rd many by (fastforce intro: order_trans)
qed (simp add: shrinks_def)

lemma get_chunks_fuel:
  "shrinks rd \<Longrightarrow> length buf < fuel \<Longrightarrow> get_chunks rd fuel buf = get_chunks rd (Suc (length buf)) buf"
proof (induction fuel arbitrary: buf rule: less_induct)
  case (less fuel)
  obtain f where f: "fuel = Suc f"
    using less.prems(2) by (cases fuel) auto
  have step: "get_chunks rd f rest1 = get_chunks rd (length buf) rest1"
    if dec: "decode_varint buf = Ok (n, rest)" and many: "get_many rd (unat n) rest = Ok (xs, rest1)" for n rest xs rest1
  proof -
    have len: "length rest1 < length buf"
      using decode_varint_shrinks [OF dec] get_many_shrinks [OF less.prems(1), of "unat n"] many
      by (fastforce simp: shrinks_def)
    have "get_chunks rd f rest1 = get_chunks rd (Suc (length rest1)) rest1"
      using less.IH [of f rest1] less.prems len f by simp
    moreover have "get_chunks rd (length buf) rest1 = get_chunks rd (Suc (length rest1)) rest1"
      using less.IH [of "length buf" rest1] less.prems len f by simp
    ultimately show ?thesis
      by simp
  qed
  show ?case
    unfolding f get_chunks.simps
    by (intro rbind_cong refl) (auto intro!: rbind_cong simp: step split: prod.splits)
qed

end
