(* ===== verification/Watermark.thy ===== *)
theory Watermark
  imports Flare_Base
begin

text \<open>
  The watermark manager of \<open>engine/watermark.rs\<close>: the per-stage state (watermarks, holds,
  pending and in-flight bookkeeping) and every operation on it, in the order of the
  source. Timestamps are \<open>int\<close>s (only compared, never added here); \<open>BTreeSet\<close>s of
  PCollection ids are HOL sets; a \<open>Result\<close> is \<open>Ok\<close> or \<open>Err\<close>. The recursion of
  \<open>upstream_chain_is_quiescent\<close> follows producers and does not stop on a cyclic wiring
  (the process would exhaust its stack), so it takes fuel and running out is \<open>None\<close>;
  \<open>Watermark_Props\<close> shows that the fuel used is enough on every acyclic wiring.
\<close>

section \<open>Constants and identifiers\<close>

definition BEAM_MIN_TIMESTAMP_MILLIS :: int where
  "BEAM_MIN_TIMESTAMP_MILLIS = - 9223372036854775"

definition BEAM_MAX_TIMESTAMP_MILLIS :: int where
  "BEAM_MAX_TIMESTAMP_MILLIS = 9223372036854775"

definition GLOBAL_WINDOW_MAX_TIMESTAMP_MILLIS :: int where
  "GLOBAL_WINDOW_MAX_TIMESTAMP_MILLIS = 9223371950454775"

definition MIN_TIMESTAMP :: int where "MIN_TIMESTAMP = BEAM_MIN_TIMESTAMP_MILLIS"
definition MAX_TIMESTAMP :: int where "MAX_TIMESTAMP = BEAM_MAX_TIMESTAMP_MILLIS"

lemmas timestamp_defs = MIN_TIMESTAMP_def MAX_TIMESTAMP_def BEAM_MIN_TIMESTAMP_MILLIS_def
  BEAM_MAX_TIMESTAMP_MILLIS_def GLOBAL_WINDOW_MAX_TIMESTAMP_MILLIS_def

lemma MIN_le_MAX [simp]: "MIN_TIMESTAMP \<le> MAX_TIMESTAMP" "\<not> MAX_TIMESTAMP \<le> MIN_TIMESTAMP"
    "MIN_TIMESTAMP < MAX_TIMESTAMP"
  by (simp_all add: timestamp_defs)

type_synonym stage_id = string
type_synonym pcollection_id = string

definition DEFAULT_PARTITION :: string where "DEFAULT_PARTITION = ''''"

section \<open>State\<close>

record partition_watermark =
  pw_watermark :: int
  pw_idle :: bool

text \<open>\<open>#[derive(Default)]\<close>: the default of an \<open>i64\<close> is \<open>0\<close>.\<close>

definition partition_default :: partition_watermark where
  "partition_default = \<lparr>pw_watermark = 0, pw_idle = False\<rparr>"

record source_state =
  partitions :: "(string, partition_watermark) btreemap"
  finished :: bool
  auto_finish :: bool

definition source_default :: source_state where
  "source_default = \<lparr>partitions = [], finished = False, auto_finish = True\<rparr>"

datatype stage_kind = Ordinary | WatermarkGated | TimeSortedInputWatermarkGated

record stage_state =
  main_inputs :: "pcollection_id list"
  side_inputs :: "pcollection_id list"
  outputs :: "pcollection_id list"
  source :: "source_state option"
  input_wm :: int
  output_wm :: int
  watermark_holds :: "(int, nat) btreemap"
  residual_holds :: "(int, nat) btreemap"
  unproduced :: "pcollection_id set"
  unproduced_side_inputs :: "pcollection_id set"
  pending :: "pcollection_id set"
  pending_min :: int
  in_flight :: nat
  queued :: nat
  max_in_flight :: nat
  completed :: bool
  rerun_pending :: bool
  kind :: stage_kind
  time_sorted_input_closed :: bool
  required_watermark :: int
  watermark_at_last_run :: int
  pending_empty :: "pcollection_id set"

record watermark_manager =
  stages :: "(stage_id, stage_state) hashmap"
  producers :: "(pcollection_id, stage_id) hashmap"
  consumers :: "(pcollection_id, stage_id list) hashmap"
  side_input_consumers :: "(pcollection_id, stage_id list) hashmap"

datatype wm_error =
    UnknownStage stage_id
  | NotASource stage_id
  | MaximumInFlight stage_id
  | FirstBundleInFlight stage_id
  | NotRearmed stage_id
  | UnproducedMainInputs stage_id
  | NoBundleInFlight stage_id
  | InvariantViolated stage_id int stage_id int

type_synonym 'a wm_result = "(wm_error, 'a) rust"

section \<open>Stage-level functions\<close>

text \<open>\<open>SourceState::output\<close>\<close>

definition source_output :: "source_state \<Rightarrow> int" where
  "source_output s =
     (if finished s then MAX_TIMESTAMP
      else if partitions s = [] then MIN_TIMESTAMP
      else fold (\<lambda>p wm. if pw_idle p then wm else min wm (pw_watermark p))
             (map snd (partitions s)) MAX_TIMESTAMP)"

definition is_source :: "stage_state \<Rightarrow> bool" where
  "is_source s \<longleftrightarrow> source s \<noteq> None"

text \<open>\<open>StageState::min_hold\<close>\<close>

definition stage_min_hold :: "stage_state \<Rightarrow> int option" where
  "stage_min_hold s =
     (case (bt_first_key (watermark_holds s), bt_first_key (residual_holds s)) of
        (Some timer, Some residual) \<Rightarrow> Some (min timer residual)
      | (Some timer, None) \<Rightarrow> Some timer
      | (None, Some residual) \<Rightarrow> Some residual
      | (None, None) \<Rightarrow> None)"

definition has_work :: "stage_state \<Rightarrow> bool" where
  "has_work s =
     (if completed s
      then rerun_pending s \<or> queued s > 0 \<or> pending s \<noteq> {}
        \<or> (kind s = WatermarkGated \<and> min (input_wm s) (pending_min s) > watermark_at_last_run s)
      else True)"

definition is_ready_without_upstream_barrier :: "stage_state \<Rightarrow> bool" where
  "is_ready_without_upstream_barrier s =
     (if in_flight s \<ge> max_in_flight s \<or> unproduced s \<noteq> {} \<or> unproduced_side_inputs s \<noteq> {}
      then False
      else if \<not> completed s \<and> in_flight s > 0 \<and> queued s = 0 then False
      else if \<not> has_work s then False
      else (case kind s of
              Ordinary \<Rightarrow> True
            | WatermarkGated \<Rightarrow> input_wm s \<ge> required_watermark s
            | TimeSortedInputWatermarkGated \<Rightarrow> input_wm s \<ge> required_watermark s))"

section \<open>Construction and lookup\<close>

definition new_manager :: watermark_manager where
  "new_manager = \<lparr>stages = [], producers = [], consumers = [], side_input_consumers = []\<rparr>"

text \<open>\<open>entry(input).or_default()\<close> followed by a push when the stage is not yet listed.\<close>

definition register_consumer ::
  "stage_id \<Rightarrow> pcollection_id \<Rightarrow> (pcollection_id, stage_id list) hashmap
   \<Rightarrow> (pcollection_id, stage_id list) hashmap" where
  "register_consumer stage p cs =
     (let old = (case hm_get cs p of None \<Rightarrow> [] | Some l \<Rightarrow> l)
      in hm_insert p (if stage \<in> set old then old else old @ [stage]) cs)"

definition new_stage ::
  "pcollection_id list \<Rightarrow> pcollection_id list \<Rightarrow> pcollection_id list \<Rightarrow> stage_state" where
  "new_stage mains sides outs =
     \<lparr>main_inputs = mains, side_inputs = sides, outputs = outs,
      source = (if mains = [] then Some source_default else None),
      input_wm = (if mains = [] then MAX_TIMESTAMP else MIN_TIMESTAMP),
      output_wm = MIN_TIMESTAMP,
      watermark_holds = [], residual_holds = [],
      unproduced = set mains, unproduced_side_inputs = set sides,
      pending = {}, pending_min = MAX_TIMESTAMP,
      in_flight = 0, queued = 0, max_in_flight = 1,
      completed = False, rerun_pending = False,
      kind = Ordinary, time_sorted_input_closed = False,
      required_watermark = MIN_TIMESTAMP, watermark_at_last_run = MIN_TIMESTAMP,
      pending_empty = {}\<rparr>"

definition add_stage ::
  "stage_id \<Rightarrow> pcollection_id list \<Rightarrow> pcollection_id list \<Rightarrow> pcollection_id list
   \<Rightarrow> watermark_manager \<Rightarrow> watermark_manager" where
  "add_stage stage mains sides outs m =
     m\<lparr>producers := fold (\<lambda>out ps. hm_insert out stage ps) outs (producers m),
       consumers := fold (register_consumer stage) mains (consumers m),
       side_input_consumers := fold (register_consumer stage) sides (side_input_consumers m),
       stages := hm_insert stage (new_stage mains sides outs) (stages m)\<rparr>"

definition contains_stage :: "watermark_manager \<Rightarrow> stage_id \<Rightarrow> bool" where
  "contains_stage m stage \<longleftrightarrow> hm_get (stages m) stage \<noteq> None"

definition stage_ids :: "watermark_manager \<Rightarrow> stage_id list" where
  "stage_ids m = sort (hm_keys (stages m))"

text \<open>\<open>stage_mut\<close> and a write through the returned reference.\<close>

definition stage_mut ::
  "stage_id \<Rightarrow> (stage_state \<Rightarrow> stage_state) \<Rightarrow> watermark_manager \<Rightarrow> watermark_manager wm_result"
where
  "stage_mut stage f m =
     (case hm_get (stages m) stage of
        None \<Rightarrow> Err (UnknownStage stage)
      | Some s \<Rightarrow> Ok (m\<lparr>stages := hm_insert stage (f s) (stages m)\<rparr>))"

definition source_mut ::
  "stage_id \<Rightarrow> (source_state \<Rightarrow> source_state) \<Rightarrow> watermark_manager \<Rightarrow> watermark_manager wm_result"
where
  "source_mut stage f m =
     (case hm_get (stages m) stage of
        None \<Rightarrow> Err (UnknownStage stage)
      | Some s \<Rightarrow>
          (case source s of
             None \<Rightarrow> Err (NotASource stage)
           | Some src \<Rightarrow>
               Ok (m\<lparr>stages := hm_insert stage (s\<lparr>source := Some (f src)\<rparr>) (stages m)\<rparr>)))"

section \<open>Source reports\<close>

text \<open>\<open>partitions.entry(p).or_default()\<close> followed by a write through the entry.\<close>

definition partition_mut ::
  "string \<Rightarrow> (partition_watermark \<Rightarrow> partition_watermark) \<Rightarrow> source_state \<Rightarrow> source_state" where
  "partition_mut p f s =
     (let old = (case map_of (partitions s) p of None \<Rightarrow> partition_default | Some e \<Rightarrow> e)
      in s\<lparr>partitions := bt_insert p (f old) (partitions s)\<rparr>)"

definition report_source_partition_watermark ::
  "stage_id \<Rightarrow> string \<Rightarrow> int \<Rightarrow> watermark_manager \<Rightarrow> watermark_manager wm_result" where
  "report_source_partition_watermark stage p timestamp =
     source_mut stage
       (partition_mut p (\<lambda>e. e\<lparr>pw_watermark := max (pw_watermark e) timestamp, pw_idle := False\<rparr>))"

definition report_source_watermark ::
  "stage_id \<Rightarrow> int \<Rightarrow> watermark_manager \<Rightarrow> watermark_manager wm_result" where
  "report_source_watermark stage timestamp =
     report_source_partition_watermark stage DEFAULT_PARTITION timestamp"

definition set_source_partition_idle ::
  "stage_id \<Rightarrow> string \<Rightarrow> bool \<Rightarrow> watermark_manager \<Rightarrow> watermark_manager wm_result" where
  "set_source_partition_idle stage p idle =
     source_mut stage (partition_mut p (\<lambda>e. e\<lparr>pw_idle := idle\<rparr>))"

definition report_source_finished ::
  "stage_id \<Rightarrow> watermark_manager \<Rightarrow> watermark_manager wm_result" where
  "report_source_finished stage = source_mut stage (\<lambda>s. s\<lparr>finished := True\<rparr>)"

definition set_source_auto_finish ::
  "stage_id \<Rightarrow> bool \<Rightarrow> watermark_manager \<Rightarrow> watermark_manager wm_result" where
  "set_source_auto_finish stage b = source_mut stage (\<lambda>s. s\<lparr>auto_finish := b\<rparr>)"

definition source_auto_finishes :: "watermark_manager \<Rightarrow> stage_id \<Rightarrow> bool" where
  "source_auto_finishes m stage =
     (case hm_get (stages m) stage of
        None \<Rightarrow> True
      | Some s \<Rightarrow> (case source s of None \<Rightarrow> True | Some src \<Rightarrow> auto_finish src))"

section \<open>Holds\<close>

text \<open>\<open>*holds.entry(t).or_insert(0) += 1\<close>\<close>

definition hold_add :: "int \<Rightarrow> (int, nat) btreemap \<Rightarrow> (int, nat) btreemap" where
  "hold_add t h = bt_insert t (case map_of h t of None \<Rightarrow> 1 | Some c \<Rightarrow> c + 1) h"

definition hold_release :: "int \<Rightarrow> (int, nat) btreemap \<Rightarrow> (int, nat) btreemap" where
  "hold_release t h =
     (case map_of h t of
        None \<Rightarrow> h
      | Some c \<Rightarrow> if c - 1 = 0 then bt_remove t h else bt_insert t (c - 1) h)"

definition add_hold :: "stage_id \<Rightarrow> int \<Rightarrow> watermark_manager \<Rightarrow> watermark_manager wm_result" where
  "add_hold stage t = stage_mut stage (\<lambda>s. s\<lparr>watermark_holds := hold_add t (watermark_holds s)\<rparr>)"

definition holds_from :: "(stage_id, int list) hashmap \<Rightarrow> stage_id \<Rightarrow> (int, nat) btreemap" where
  "holds_from hs stage =
     (case hm_get hs stage of None \<Rightarrow> [] | Some ts \<Rightarrow> fold hold_add ts [])"

definition set_event_time_holds ::
  "(stage_id, int list) hashmap \<Rightarrow> watermark_manager \<Rightarrow> watermark_manager" where
  "set_event_time_holds hs m =
     m\<lparr>stages := hm_map_values (\<lambda>stage s. s\<lparr>watermark_holds := holds_from hs stage\<rparr>) (stages m)\<rparr>"

definition set_residual_holds ::
  "(stage_id, int list) hashmap \<Rightarrow> watermark_manager \<Rightarrow> watermark_manager" where
  "set_residual_holds hs m =
     m\<lparr>stages := hm_map_values (\<lambda>stage s. s\<lparr>residual_holds := holds_from hs stage\<rparr>) (stages m)\<rparr>"

definition release_hold :: "stage_id \<Rightarrow> int \<Rightarrow> watermark_manager \<Rightarrow> watermark_manager wm_result" where
  "release_hold stage t =
     stage_mut stage (\<lambda>s. s\<lparr>watermark_holds := hold_release t (watermark_holds s)\<rparr>)"

definition min_hold :: "watermark_manager \<Rightarrow> stage_id \<Rightarrow> int option" where
  "min_hold m stage = Option.bind (hm_get (stages m) stage) stage_min_hold"

section \<open>Watermark queries\<close>

definition input_watermark :: "watermark_manager \<Rightarrow> stage_id \<Rightarrow> int option" where
  "input_watermark m stage = map_option input_wm (hm_get (stages m) stage)"

definition bundle_input_watermark :: "watermark_manager \<Rightarrow> stage_id \<Rightarrow> int option" where
  "bundle_input_watermark m stage = map_option watermark_at_last_run (hm_get (stages m) stage)"

definition effective_input_watermark :: "watermark_manager \<Rightarrow> stage_id \<Rightarrow> int option" where
  "effective_input_watermark m stage =
     map_option (\<lambda>s. min (input_wm s) (pending_min s)) (hm_get (stages m) stage)"

definition output_watermark :: "watermark_manager \<Rightarrow> stage_id \<Rightarrow> int option" where
  "output_watermark m stage = map_option output_wm (hm_get (stages m) stage)"

definition pcollection_watermark :: "watermark_manager \<Rightarrow> pcollection_id \<Rightarrow> int option" where
  "pcollection_watermark m p = Option.bind (hm_get (producers m) p) (output_watermark m)"

text \<open>
  The hold an upstream producer imposes on a bundle: the watermark of an outstanding
  first wave, the earliest explicit hold, or the smaller of the two.
\<close>

definition outstanding_hold :: "stage_state \<Rightarrow> int option" where
  "outstanding_hold producer =
     (let bundle = (if \<not> completed producer \<and> (in_flight producer > 0 \<or> queued producer > 0)
                    then Some (watermark_at_last_run producer) else None)
      in case (bundle, stage_min_hold producer) of
           (Some b, Some explicit) \<Rightarrow> Some (min b explicit)
         | (Some b, None) \<Rightarrow> Some b
         | (None, Some explicit) \<Rightarrow> Some explicit
         | (None, None) \<Rightarrow> None)"

fun validate_inputs ::
  "watermark_manager \<Rightarrow> stage_id \<Rightarrow> int \<Rightarrow> pcollection_id list \<Rightarrow> unit wm_result" where
  "validate_inputs m stage wm [] = Ok ()"
| "validate_inputs m stage wm (i # inputs) =
     (case hm_get (producers m) i of
        None \<Rightarrow> validate_inputs m stage wm inputs
      | Some pid \<Rightarrow>
          (case hm_get (stages m) pid of
             None \<Rightarrow> validate_inputs m stage wm inputs
           | Some producer \<Rightarrow>
               (case outstanding_hold producer of
                  None \<Rightarrow> validate_inputs m stage wm inputs
                | Some h \<Rightarrow>
                    if wm > h then Err (InvariantViolated stage wm pid h)
                    else validate_inputs m stage wm inputs)))"

definition validate_bundle_input_watermark ::
  "watermark_manager \<Rightarrow> stage_id \<Rightarrow> int \<Rightarrow> unit wm_result" where
  "validate_bundle_input_watermark m stage wm =
     (case hm_get (stages m) stage of
        None \<Rightarrow> Err (UnknownStage stage)
      | Some s \<Rightarrow> validate_inputs m stage wm (main_inputs s @ side_inputs s))"

section \<open>Configuration and bookkeeping\<close>

definition stage_kind_of :: "watermark_manager \<Rightarrow> stage_id \<Rightarrow> stage_kind option" where
  "stage_kind_of m stage = map_option kind (hm_get (stages m) stage)"

definition set_stage_kind ::
  "stage_id \<Rightarrow> stage_kind \<Rightarrow> watermark_manager \<Rightarrow> watermark_manager wm_result" where
  "set_stage_kind stage k = stage_mut stage (\<lambda>s. s\<lparr>kind := k\<rparr>)"

definition required_watermark_of :: "watermark_manager \<Rightarrow> stage_id \<Rightarrow> int option" where
  "required_watermark_of m stage = map_option required_watermark (hm_get (stages m) stage)"

definition set_required_watermark ::
  "stage_id \<Rightarrow> int \<Rightarrow> watermark_manager \<Rightarrow> watermark_manager wm_result" where
  "set_required_watermark stage wm = stage_mut stage (\<lambda>s. s\<lparr>required_watermark := wm\<rparr>)"

definition is_source_stage :: "watermark_manager \<Rightarrow> stage_id \<Rightarrow> bool" where
  "is_source_stage m stage =
     (case hm_get (stages m) stage of None \<Rightarrow> False | Some s \<Rightarrow> is_source s)"

definition is_stage_completed :: "watermark_manager \<Rightarrow> stage_id \<Rightarrow> bool" where
  "is_stage_completed m stage =
     (case hm_get (stages m) stage of None \<Rightarrow> False | Some s \<Rightarrow> completed s)"

definition is_stage_in_flight :: "watermark_manager \<Rightarrow> stage_id \<Rightarrow> bool" where
  "is_stage_in_flight m stage =
     (case hm_get (stages m) stage of None \<Rightarrow> False | Some s \<Rightarrow> in_flight s > 0)"

definition side_inputs_produced :: "watermark_manager \<Rightarrow> stage_id \<Rightarrow> bool" where
  "side_inputs_produced m stage =
     (case hm_get (stages m) stage of None \<Rightarrow> False | Some s \<Rightarrow> unproduced_side_inputs s = {})"

definition queued_bundles :: "watermark_manager \<Rightarrow> stage_id \<Rightarrow> nat" where
  "queued_bundles m stage = (case hm_get (stages m) stage of None \<Rightarrow> 0 | Some s \<Rightarrow> queued s)"

definition in_flight_bundles :: "watermark_manager \<Rightarrow> stage_id \<Rightarrow> nat" where
  "in_flight_bundles m stage = (case hm_get (stages m) stage of None \<Rightarrow> 0 | Some s \<Rightarrow> in_flight s)"

definition max_in_flight_of :: "watermark_manager \<Rightarrow> stage_id \<Rightarrow> nat" where
  "max_in_flight_of m stage = (case hm_get (stages m) stage of None \<Rightarrow> 1 | Some s \<Rightarrow> max_in_flight s)"

definition set_max_in_flight ::
  "stage_id \<Rightarrow> nat \<Rightarrow> watermark_manager \<Rightarrow> watermark_manager wm_result" where
  "set_max_in_flight stage n = stage_mut stage (\<lambda>s. s\<lparr>max_in_flight := max n 1\<rparr>)"

definition enqueue_bundles ::
  "stage_id \<Rightarrow> nat \<Rightarrow> watermark_manager \<Rightarrow> watermark_manager wm_result" where
  "enqueue_bundles stage n = stage_mut stage (\<lambda>s. s\<lparr>queued := queued s + n\<rparr>)"

definition mark_rerun :: "stage_id \<Rightarrow> watermark_manager \<Rightarrow> watermark_manager wm_result" where
  "mark_rerun stage = stage_mut stage (\<lambda>s. s\<lparr>rerun_pending := True\<rparr>)"

section \<open>Readiness\<close>

text \<open>\<open>Iterator::all\<close> with a test that may not return: it stops at the first \<open>False\<close>.\<close>

primrec all_opt :: "('a \<Rightarrow> bool option) \<Rightarrow> 'a list \<Rightarrow> bool option" where
  "all_opt f [] = Some True"
| "all_opt f (x # xs) =
     (case f x of None \<Rightarrow> None | Some b \<Rightarrow> if b then all_opt f xs else Some False)"

definition upstream_stages :: "watermark_manager \<Rightarrow> stage_state \<Rightarrow> stage_state list" where
  "upstream_stages m s =
     List.map_filter (hm_get (stages m))
       (List.map_filter (hm_get (producers m)) (main_inputs s @ side_inputs s))"

definition producer_is_idle :: "stage_state \<Rightarrow> bool" where
  "producer_is_idle p \<longleftrightarrow>
     completed p \<and> in_flight p = 0 \<and> queued p = 0 \<and> pending p = {} \<and> \<not> rerun_pending p
     \<and> pending_empty p = {} \<and> stage_min_hold p = None"

primrec upstream_chain_is_quiescent ::
  "nat \<Rightarrow> watermark_manager \<Rightarrow> stage_state \<Rightarrow> bool option" where
  "upstream_chain_is_quiescent 0 m s = None"
| "upstream_chain_is_quiescent (Suc fuel) m s =
     all_opt (\<lambda>p. if producer_is_idle p then upstream_chain_is_quiescent fuel m p else Some False)
       (upstream_stages m s)"

definition quiescence_fuel :: "watermark_manager \<Rightarrow> nat" where
  "quiescence_fuel m = Suc (length (stages m))"

definition stage_is_ready :: "watermark_manager \<Rightarrow> stage_id \<Rightarrow> bool option" where
  "stage_is_ready m stage =
     (case hm_get (stages m) stage of
        None \<Rightarrow> Some False
      | Some s \<Rightarrow>
          if \<not> is_ready_without_upstream_barrier s then Some False
          else if kind s = Ordinary then Some True
          else upstream_chain_is_quiescent (quiescence_fuel m) m s)"

primrec filter_opt :: "('a \<Rightarrow> bool option) \<Rightarrow> 'a list \<Rightarrow> 'a list option" where
  "filter_opt f [] = Some []"
| "filter_opt f (x # xs) =
     (case f x of
        None \<Rightarrow> None
      | Some b \<Rightarrow> map_option (\<lambda>ys. if b then x # ys else ys) (filter_opt f xs))"

definition ready_stages :: "watermark_manager \<Rightarrow> stage_id list option" where
  "ready_stages m = map_option sort (filter_opt (stage_is_ready m) (hm_keys (stages m)))"

section \<open>Bundles\<close>

definition start_stage :: "stage_state \<Rightarrow> stage_state" where
  "start_stage s =
     (let s1 = s\<lparr>in_flight := in_flight s + 1, queued := queued s - 1, rerun_pending := False\<rparr>;
          s2 = (if kind s1 = TimeSortedInputWatermarkGated \<and> input_wm s1 \<ge> required_watermark s1
                then s1\<lparr>time_sorted_input_closed := True\<rparr> else s1)
      in if in_flight s2 = 1
         then s2\<lparr>pending := {}, pending_min := MAX_TIMESTAMP,
                 watermark_at_last_run := min (input_wm s2) (pending_min s2)\<rparr>
         else s2)"

definition start_bundle :: "stage_id \<Rightarrow> watermark_manager \<Rightarrow> watermark_manager wm_result" where
  "start_bundle stage m =
     (case hm_get (stages m) stage of
        None \<Rightarrow> Err (UnknownStage stage)
      | Some s \<Rightarrow>
          if in_flight s \<ge> max_in_flight s then Err (MaximumInFlight stage)
          else if \<not> completed s \<and> in_flight s > 0 \<and> queued s = 0
          then Err (FirstBundleInFlight stage)
          else if completed s \<and> \<not> rerun_pending s \<and> queued s = 0
            \<and> \<not> (kind s = WatermarkGated \<and> input_wm s > watermark_at_last_run s)
            \<and> pending s = {}
          then Err (NotRearmed stage)
          else if unproduced s \<noteq> {} then Err (UnproducedMainInputs stage)
          else Ok (m\<lparr>stages := hm_insert stage (start_stage s) (stages m)\<rparr>))"

text \<open>What one appended output PCollection does to a main-input consumer and to a
  side-input consumer.\<close>

definition wake_main :: "pcollection_id \<Rightarrow> bool \<Rightarrow> int option \<Rightarrow> stage_state \<Rightarrow> stage_state" where
  "wake_main p no_rows min_ts s =
     (let s1 = s\<lparr>unproduced := unproduced s - {p}\<rparr>
      in if time_sorted_input_closed s1 then s1
         else let s2 = s1\<lparr>pending := insert p (pending s1),
                          pending_empty := (if no_rows then insert p (pending_empty s1)
                                            else pending_empty s1 - {p})\<rparr>
              in (case min_ts of
                    None \<Rightarrow> s2
                  | Some t \<Rightarrow> s2\<lparr>pending_min := min (pending_min s2) t\<rparr>))"

definition wake_side :: "pcollection_id \<Rightarrow> bool \<Rightarrow> stage_state \<Rightarrow> stage_state" where
  "wake_side p no_rows s =
     (if no_rows then s\<lparr>pending_empty := insert p (pending_empty s)\<rparr>
      else s\<lparr>pending_empty := pending_empty s - {p},
             unproduced_side_inputs := unproduced_side_inputs s - {p}\<rparr>)"

definition modify_stage ::
  "stage_id \<Rightarrow> (stage_state \<Rightarrow> stage_state) \<Rightarrow> watermark_manager \<Rightarrow> watermark_manager" where
  "modify_stage stage f m =
     (case hm_get (stages m) stage of
        None \<Rightarrow> m
      | Some s \<Rightarrow> m\<lparr>stages := hm_insert stage (f s) (stages m)\<rparr>)"

fun wake_consumers ::
  "(stage_state \<Rightarrow> stage_state) \<Rightarrow> stage_id list \<Rightarrow> watermark_manager \<Rightarrow> stage_id list
   \<Rightarrow> (watermark_manager \<times> stage_id list) option" where
  "wake_consumers f [] m newly = Some (m, newly)"
| "wake_consumers f (c # cs) m newly =
     (let m' = modify_stage c f m
      in case stage_is_ready m' c of
           None \<Rightarrow> None
         | Some b \<Rightarrow> wake_consumers f cs m' (if b then newly @ [c] else newly))"

definition consumers_of ::
  "(pcollection_id, stage_id list) hashmap \<Rightarrow> pcollection_id \<Rightarrow> stage_id list" where
  "consumers_of cs p = (case hm_get cs p of None \<Rightarrow> [] | Some l \<Rightarrow> l)"

fun propagate_outputs ::
  "pcollection_id list \<Rightarrow> bool \<Rightarrow> int option \<Rightarrow> watermark_manager \<Rightarrow> stage_id list
   \<Rightarrow> (watermark_manager \<times> stage_id list) option" where
  "propagate_outputs [] no_rows min_ts m newly = Some (m, newly)"
| "propagate_outputs (p # ps) no_rows min_ts m newly =
     (case wake_consumers (wake_main p no_rows min_ts) (consumers_of (consumers m) p) m newly of
        None \<Rightarrow> None
      | Some (m1, newly1) \<Rightarrow>
          (case wake_consumers (wake_side p no_rows)
                  (consumers_of (side_input_consumers m1) p) m1 newly1 of
             None \<Rightarrow> None
           | Some (m2, newly2) \<Rightarrow> propagate_outputs ps no_rows min_ts m2 newly2))"

definition complete_bundle_with_min_and_input ::
  "stage_id \<Rightarrow> int option \<Rightarrow> nat option \<Rightarrow> watermark_manager
   \<Rightarrow> (watermark_manager \<times> stage_id list) wm_result" where
  "complete_bundle_with_min_and_input stage output_min_ts input_count m =
     (case hm_get (stages m) stage of
        None \<Rightarrow> Err (UnknownStage stage)
      | Some s \<Rightarrow>
          if in_flight s = 0 then Err (NoBundleInFlight stage)
          else
            let stage_has_empty_inputs = (pending_empty s \<noteq> {});
                produced_nothing = (output_min_ts = None \<and> input_count = Some 0);
                propagates_empty_input = (produced_nothing \<or> stage_has_empty_inputs);
                propagated_min =
                  (if stage_has_empty_inputs then Some MIN_TIMESTAMP else output_min_ts);
                m1 = m\<lparr>stages := hm_insert stage
                         (s\<lparr>in_flight := in_flight s - 1, completed := True\<rparr>) (stages m)\<rparr>
            in (case propagate_outputs (outputs s) propagates_empty_input propagated_min m1 [] of
                  None \<Rightarrow> Panic
                | Some (m2, newly) \<Rightarrow> Ok (m2, remdups_adj (sort newly))))"

definition complete_bundle_with_min ::
  "stage_id \<Rightarrow> int option \<Rightarrow> watermark_manager
   \<Rightarrow> (watermark_manager \<times> stage_id list) wm_result" where
  "complete_bundle_with_min stage output_min_ts =
     complete_bundle_with_min_and_input stage output_min_ts None"

definition complete_bundle ::
  "stage_id \<Rightarrow> watermark_manager \<Rightarrow> (watermark_manager \<times> stage_id list) wm_result" where
  "complete_bundle stage = complete_bundle_with_min stage None"

text \<open>\<open>WatermarkManager::is_complete\<close>\<close>

definition stage_is_done :: "stage_state \<Rightarrow> bool" where
  "stage_is_done s \<longleftrightarrow>
     completed s \<and> unproduced_side_inputs s = {} \<and> pending s = {} \<and> \<not> rerun_pending s
     \<and> queued s = 0 \<and> in_flight s = 0
     \<and> \<not> (kind s = WatermarkGated \<and> input_wm s > watermark_at_last_run s)"

definition is_complete :: "watermark_manager \<Rightarrow> bool" where
  "is_complete m \<longleftrightarrow> list_all (\<lambda>(_, s). stage_is_done s) (stages m)"

end
