(* ===== verification/Windows.thy ===== *)
theory Windows
  imports Wire Watermark
begin

text \<open>
  Windows and panes of \<open>coders/primitives.rs\<close>: \<open>BeamWindow\<close> with its two persistent keys,
  \<open>PaneInfo\<close> and its wire form, \<open>WindowCoder\<close>, and the header of a \<open>WindowedValue\<close>.
  The keys are proved to be round trips; the binary key is moreover canonical and orders
  interval windows as their bounds.
\<close>

section \<open>Windows\<close>

datatype beam_window =
    Global
  | Interval (start_millis: int) (end_millis: int)
  | Opaque (window_coder_id: string) (window_bytes: bytes)

text \<open>The values a Rust \<open>BeamWindow\<close> can have: \<open>i64\<close> bounds and a valid \<open>String\<close>.\<close>

fun window_ok :: "beam_window \<Rightarrow> bool" where
  "window_ok Global = True"
| "window_ok (Interval s e) = (in_i64 s \<and> in_i64 e)"
| "window_ok (Opaque c bs) = (rust_string c \<and> fits_u64 (length bs))"

fun max_timestamp_millis :: "beam_window \<Rightarrow> int" where
  "max_timestamp_millis Global = GLOBAL_WINDOW_MAX_TIMESTAMP_MILLIS"
| "max_timestamp_millis (Interval s e) = wrap_i64 (e - 1)"
| "max_timestamp_millis (Opaque c bs) = BEAM_MAX_TIMESTAMP_MILLIS"

section \<open>Decimal and hexadecimal text\<close>

text \<open>\<open>Display\<close> and \<open>FromStr\<close> of \<open>i64\<close>: an optional sign (\<open>+\<close> is accepted), at least one
  digit, nothing else, and the value in range.\<close>

definition digit_char :: "nat \<Rightarrow> char" where "digit_char d = char_of (48 + d)"

fun show_nat :: "nat \<Rightarrow> string" where
  "show_nat n = (if n < 10 then [digit_char n] else show_nat (n div 10) @ [digit_char (n mod 10)])"

declare show_nat.simps [simp del]

definition show_i64 :: "int \<Rightarrow> string" where
  "show_i64 x = (if x < 0 then CHR ''-'' # show_nat (nat (- x)) else show_nat (nat x))"

definition digit_value :: "char \<Rightarrow> nat option" where
  "digit_value c = (let d = (of_char c :: nat) in if 48 \<le> d \<and> d \<le> 57 then Some (d - 48) else None)"

fun parse_digits :: "string \<Rightarrow> nat \<Rightarrow> nat option" where
  "parse_digits [] acc = Some acc"
| "parse_digits (c # cs) acc =
     (case digit_value c of None \<Rightarrow> None | Some d \<Rightarrow> parse_digits cs (acc * 10 + d))"

definition parse_i64 :: "string \<Rightarrow> int option" where
  "parse_i64 s =
     (let signed = (case s of c # cs \<Rightarrow> if c = CHR ''-'' then (True, cs) else if c = CHR ''+'' then (False, cs) else (False, s)
                            | [] \<Rightarrow> (False, s))
      in if snd signed = [] then None
         else (case parse_digits (snd signed) 0 of
                 None \<Rightarrow> None
               | Some n \<Rightarrow> let x = (if fst signed then - int n else int n) in if in_i64 x then Some x else None))"

definition hex_char :: "nat \<Rightarrow> char" where
  "hex_char d = (if d < 10 then char_of (48 + d) else char_of (87 + d))"

definition hex_encode :: "bytes \<Rightarrow> string" where
  "hex_encode bs = concat (map (\<lambda>b. [hex_char (unat b div 16), hex_char (unat b mod 16)]) bs)"

text \<open>\<open>char::to_digit(16)\<close>\<close>

definition to_digit16 :: "char \<Rightarrow> nat option" where
  "to_digit16 c =
     (let d = (of_char c :: nat)
      in if 48 \<le> d \<and> d \<le> 57 then Some (d - 48)
         else if 97 \<le> d \<and> d \<le> 102 then Some (d - 87)
         else if 65 \<le> d \<and> d \<le> 70 then Some (d - 55)
         else None)"

fun hex_decode :: "string \<Rightarrow> bytes option" where
  "hex_decode [] = Some []"
| "hex_decode [c] = None"
| "hex_decode (c # d # rest) =
     (case (to_digit16 c, to_digit16 d) of
        (Some high, Some low) \<Rightarrow> map_option ((#) (of_nat (high * 16 + low))) (hex_decode rest)
      | _ \<Rightarrow> None)"

lemma digit_value_char [simp]: "d < 10 \<Longrightarrow> digit_value (digit_char d) = Some d"
  by (simp add: digit_value_def digit_char_def Let_def)

lemma parse_digits_append:
  "parse_digits (s @ t) acc = Option.bind (parse_digits s acc) (parse_digits t)"
  by (induction s acc rule: parse_digits.induct) (auto split: option.splits)

lemma parse_show_nat: "parse_digits (show_nat n) 0 = Some n"
proof (induction n rule: show_nat.induct)
  case (1 n)
  then show ?case
    by (subst show_nat.simps) (simp add: parse_digits_append)
qed

lemma show_nat_first: "\<exists>d cs. show_nat n = digit_char d # cs \<and> d < 10"
proof (induction n rule: show_nat.induct)
  case (1 n)
  then show ?case
    by (subst show_nat.simps) (auto split: if_splits, metis)
qed

lemma set_show_nat: "c \<in> set (show_nat n) \<Longrightarrow> \<exists>d < 10. c = digit_char d"
proof (induction n rule: show_nat.induct)
  case (1 n)
  then show ?case
    by (subst (asm) show_nat.simps) (auto split: if_splits intro: exI [of _ "n mod 10"])
qed

lemma digit_char_neq:
  assumes "d < 10"
  shows "digit_char d \<noteq> CHR ''-''" "digit_char d \<noteq> CHR ''+''" "digit_char d \<noteq> CHR '':''"
proof -
  have d: "(of_char (digit_char d) :: nat) = 48 + d"
    using assms by (simp add: digit_char_def)
  show "digit_char d \<noteq> CHR ''-''" "digit_char d \<noteq> CHR ''+''" "digit_char d \<noteq> CHR '':''"
    using d assms by (auto dest!: arg_cong [where f = "of_char :: char \<Rightarrow> nat"])
qed

lemma parse_show_i64: "in_i64 x \<Longrightarrow> parse_i64 (show_i64 x) = Some x"
proof (cases "x < 0")
  case True
  then obtain d cs where "show_nat (nat (- x)) = digit_char d # cs"
    using show_nat_first by blast
  then show "in_i64 x \<Longrightarrow> ?thesis"
    using True parse_show_nat [of "nat (- x)"] by (simp add: show_i64_def parse_i64_def Let_def)
next
  case False
  then obtain d cs where d: "show_nat (nat x) = digit_char d # cs" "d < 10"
    using show_nat_first by blast
  then show "in_i64 x \<Longrightarrow> ?thesis"
    using False parse_show_nat [of "nat x"] digit_char_neq [OF d(2)]
    by (simp add: show_i64_def parse_i64_def Let_def)
qed

lemma show_i64_no_colon: "CHR '':'' \<notin> set (show_i64 x)"
proof -
  have "CHR '':'' \<notin> set (show_nat n)" for n
    using set_show_nat [of "CHR '':''" n] digit_char_neq(3) by metis
  then show ?thesis
    by (simp add: show_i64_def)
qed

lemma to_digit16_hex [simp]: "d < 16 \<Longrightarrow> to_digit16 (hex_char d) = Some d"
  by (auto simp: to_digit16_def hex_char_def Let_def)

lemma hex_roundtrip: "hex_decode (hex_encode bs) = Some bs"
proof (induction bs)
  case (Cons b bs)
  have "unat b div 16 < 16"
    using unsigned_less [of b, where 'a = nat] by simp
  moreover have "(of_nat (unat b div 16 * 16 + unat b mod 16) :: byte) = b"
    by (simp only: div_mult_mod_eq of_nat_unat ucast_id)
  ultimately show ?case
    using Cons by (simp add: hex_encode_def del: of_nat_add of_nat_mult)
qed (simp add: hex_encode_def)

lemma hex_no_colon: "CHR '':'' \<notin> set (hex_encode bs)"
proof -
  have "hex_char d \<noteq> CHR '':''" if "d < 16" for d
    using to_digit16_hex [OF that] by (auto simp: to_digit16_def)
  moreover have "unat b div 16 < 16" for b :: byte
    using unsigned_less [of b, where 'a = nat] by simp
  ultimately show ?thesis
    by (auto simp: hex_encode_def) (metis mod_less_divisor zero_less_numeral)+
qed

section \<open>Window keys\<close>

definition strip_prefix :: "string \<Rightarrow> string \<Rightarrow> string option" where
  "strip_prefix pre s = (if take (length pre) s = pre then Some (drop (length pre) s) else None)"

definition split_once :: "char \<Rightarrow> string \<Rightarrow> (string \<times> string) option" where
  "split_once c s =
     (case dropWhile (\<lambda>x. x \<noteq> c) s of [] \<Rightarrow> None | _ # rest \<Rightarrow> Some (takeWhile (\<lambda>x. x \<noteq> c) s, rest))"

definition rsplit_once :: "char \<Rightarrow> string \<Rightarrow> (string \<times> string) option" where
  "rsplit_once c s = map_option (\<lambda>(a, b). (rev b, rev a)) (split_once c (rev s))"

fun canonical_key :: "beam_window \<Rightarrow> string" where
  "canonical_key Global = ''global''"
| "canonical_key (Interval s e) = ''interval:'' @ show_i64 s @ '':'' @ show_i64 e"
| "canonical_key (Opaque c bs) = ''opaque:'' @ c @ '':'' @ hex_encode bs"

definition from_canonical_key :: "string \<Rightarrow> beam_window option" where
  "from_canonical_key key =
     (if key = ''global'' then Some Global
      else case strip_prefix ''opaque:'' key of
        Some rest \<Rightarrow>
          Option.bind (rsplit_once (CHR '':'') rest) (\<lambda>(c, encoded).
            map_option (Opaque c) (hex_decode encoded))
      | None \<Rightarrow>
          Option.bind (strip_prefix ''interval:'' key) (\<lambda>bounds.
            Option.bind (split_once (CHR '':'') bounds) (\<lambda>(s, e).
              Option.bind (parse_i64 s) (\<lambda>start. map_option (Interval start) (parse_i64 e)))))"

definition ordered_i64_bytes :: "int \<Rightarrow> bytes" where
  "ordered_i64_bytes v = u64_be (as_u64 v XOR 0x8000000000000000)"

definition ordered_i64_from_bytes :: "bytes \<Rightarrow> int option" where
  "ordered_i64_from_bytes bs =
     (if length bs = 8 then Some (as_i64 (of_nat (from_be bs) XOR 0x8000000000000000)) else None)"

text \<open>\<open>u32::try_from(coder_id.len()).expect(..)\<close> panics on a coder id of 4 GiB or more.\<close>

fun to_binary_key :: "beam_window \<Rightarrow> (coders_error, bytes) rust" where
  "to_binary_key Global = Ok [0]"
| "to_binary_key (Interval s e) = Ok (1 # ordered_i64_bytes s @ ordered_i64_bytes e)"
| "to_binary_key (Opaque c bs) =
     (if length c < 2 ^ 32 then Ok (2 # u32_be (of_nat (length c)) @ as_bytes c @ bs) else Panic)"

text \<open>On a 64-bit target \<open>4usize.checked_add(coder_len)\<close> of a 32-bit length never overflows.\<close>

definition from_binary_key :: "bytes \<Rightarrow> beam_window option" where
  "from_binary_key key =
     (case key of
        [] \<Rightarrow> None
      | tag # body \<Rightarrow>
          if tag = 0 \<and> body = [] then Some Global
          else if tag = 1 \<and> length body = 16 then
            Option.bind (ordered_i64_from_bytes (take 8 body)) (\<lambda>s.
              map_option (Interval s) (ordered_i64_from_bytes (drop 8 body)))
          else if tag = 2 \<and> length body \<ge> 4 then
            let coder_end = 4 + from_be (take 4 body)
            in if coder_end > length body then None
               else map_option (\<lambda>c. Opaque c (drop coder_end body))
                      (from_utf8 (take (coder_end - 4) (drop 4 body)))
          else None)"

lemma strip_prefix_append [simp]: "strip_prefix pre (pre @ s) = Some s"
  by (simp add: strip_prefix_def)

lemma split_once_append: "c \<notin> set s \<Longrightarrow> split_once c (s @ c # t) = Some (s, t)"
  by (auto simp: split_once_def takeWhile_append dropWhile_append)

lemma rsplit_once_append: "c \<notin> set t \<Longrightarrow> rsplit_once c (s @ c # t) = Some (s, t)"
  using split_once_append [of c "rev t" "rev s"] by (simp add: rsplit_once_def)

lemma canonical_roundtrip: "window_ok w \<Longrightarrow> from_canonical_key (canonical_key w) = Some w"
proof (cases w)
  case Global
  then show ?thesis
    by (simp add: from_canonical_key_def)
next
  case (Interval s e)
  have "strip_prefix ''opaque:'' (canonical_key w) = None"
    by (simp add: Interval strip_prefix_def)
  moreover have "strip_prefix ''interval:'' (canonical_key w) = Some (show_i64 s @ CHR '':'' # show_i64 e)"
    by (simp add: Interval strip_prefix_def)
  moreover have "canonical_key w \<noteq> ''global''"
    by (simp add: Interval)
  ultimately show "window_ok w \<Longrightarrow> ?thesis"
    using Interval by (simp add: from_canonical_key_def split_once_append show_i64_no_colon parse_show_i64)
next
  case (Opaque c bs)
  have "strip_prefix ''opaque:'' (canonical_key w) = Some (c @ CHR '':'' # hex_encode bs)"
    by (simp add: Opaque strip_prefix_def)
  moreover have "canonical_key w \<noteq> ''global''"
    by (simp add: Opaque)
  ultimately show ?thesis
    using Opaque by (simp add: from_canonical_key_def rsplit_once_append hex_no_colon hex_roundtrip)
qed

lemma ordered_roundtrip: "in_i64 v \<Longrightarrow> ordered_i64_from_bytes (ordered_i64_bytes v) = Some v"
  by (simp add: ordered_i64_from_bytes_def ordered_i64_bytes_def xor.assoc)

lemma ordered_is_timestamp: "ordered_i64_bytes v = encode_timestamp_millis v"
  by (simp add: ordered_i64_bytes_def encode_timestamp_millis_def flip_sign_def)

lemma length_ordered [simp]: "length (ordered_i64_bytes v) = 8"
  by (simp add: ordered_i64_bytes_def)

lemma ordered_from_bytes_inverse:
  "ordered_i64_from_bytes bs = Some v \<Longrightarrow> in_i64 v \<and> ordered_i64_bytes v = bs"
proof -
  assume some: "ordered_i64_from_bytes bs = Some v"
  then have len: "length bs = 8" and v: "v = as_i64 (of_nat (from_be bs) XOR 0x8000000000000000)"
    by (auto simp: ordered_i64_from_bytes_def split: if_splits)
  have "from_be bs < 2 ^ 64"
    using from_be_less [of bs] len by simp
  then have "unat (of_nat (from_be bs) :: 64 word) = from_be bs"
    by (simp add: unat_of_nat)
  then show ?thesis
    using len by (simp add: v ordered_i64_bytes_def u64_be_def xor.assoc be_bytes_from_be)
qed

lemma unat_of_nat_u32: "n < 2 ^ 32 \<Longrightarrow> unat (of_nat n :: 32 word) = n"
  by (simp add: unat_of_nat)

lemma binary_roundtrip:
  assumes "window_ok w" and "to_binary_key w = Ok key"
  shows "from_binary_key key = Some w"
proof (cases w)
  case (Opaque c bs)
  with assms have len: "length c < 2 ^ 32" and key: "key = 2 # u32_be (of_nat (length c)) @ as_bytes c @ bs"
    by (auto split: if_splits)
  have "from_be (u32_be (of_nat (length c))) = length c"
    using unat_of_nat_u32 [OF len] by simp
  with assms(1) Opaque show ?thesis
    by (simp add: key from_binary_key_def Let_def from_utf8_as_bytes)
qed (use assms in \<open>auto simp: from_binary_key_def ordered_roundtrip\<close>)

lemma binary_canonical:
  assumes "from_binary_key key = Some w"
  shows "to_binary_key w = Ok key"
proof -
  obtain tag body where key: "key = tag # body"
    using assms by (cases key) (auto simp: from_binary_key_def)
  consider (g) "tag = 0" "body = []" | (i) "tag = 1" "length body = 16" | (o) "tag = 2" "4 \<le> length body"
    using assms by (auto simp: from_binary_key_def key split: if_splits)
  then show ?thesis
  proof cases
    case g
    then show ?thesis
      using assms by (simp add: from_binary_key_def key)
  next
    case i
    then obtain s e where w: "w = Interval s e" "ordered_i64_from_bytes (take 8 body) = Some s"
        "ordered_i64_from_bytes (drop 8 body) = Some e"
      using assms by (auto simp: from_binary_key_def key bind_eq_Some_conv)
    show ?thesis
      using ordered_from_bytes_inverse [OF w(2)] ordered_from_bytes_inverse [OF w(3)]
      by (simp add: w(1) key i(1))
  next
    case o
    define n where "n = from_be (take 4 body)"
    obtain c where w: "w = Opaque c (drop (4 + n) body)" "from_utf8 (take n (drop 4 body)) = Some c"
        "4 + n \<le> length body"
      using assms o by (auto simp: from_binary_key_def key n_def Let_def split: if_splits)
    have bytes: "as_bytes c = take n (drop 4 body)"
      using w(2) by (simp add: from_utf8_eq_Some)
    then have len: "length c = n"
      using w(3) by (metis diff_add_inverse length_as_bytes length_drop length_take le_diff_conv2 min.absorb2 add.commute o(2))
    have n: "n < 2 ^ 32"
      using from_be_less [of "take 4 body"] o(2) by (simp add: n_def)
    have "unat (of_nat n :: 32 word) = from_be (take 4 body)"
      using unat_of_nat_u32 [OF n] by (simp add: n_def)
    then have "u32_be (of_nat n) = take 4 body"
      using o(2) by (simp add: u32_be_def be_bytes_from_be)
    moreover have "take 4 body @ take n (drop 4 body) @ drop (4 + n) body = body"
      by (metis append_take_drop_id drop_drop add.commute)
    ultimately show ?thesis
      using n by (simp add: w(1) len key o(1) bytes)
  qed
qed

subsection \<open>Key order\<close>

lemma append_less_iff:
  "length xs = length ys \<Longrightarrow> (xs @ us < ys @ vs) \<longleftrightarrow> xs < ys \<or> (xs = ys \<and> us < (vs :: 'a :: linorder list))"
  by (induction xs ys rule: list_induct2) auto

lemma interval_key_less:
  assumes "in_i64 s" "in_i64 e" "in_i64 s'" "in_i64 e'"
  shows "ordered_i64_bytes s @ ordered_i64_bytes e < ordered_i64_bytes s' @ ordered_i64_bytes e'
    \<longleftrightarrow> s < s' \<or> (s = s' \<and> e < e')"
  using assms
  by (simp add: append_less_iff ordered_is_timestamp encode_timestamp_less timestamp.encode_inject
      length_ordered [unfolded ordered_is_timestamp])

section \<open>Panes\<close>

datatype pane_timing_kind = Early | OnTime | Late | Unknown

definition timing_from_bits :: "byte \<Rightarrow> pane_timing_kind" where
  "timing_from_bits b = (if b = 0 then Early else if b = 1 then OnTime else if b = 2 then Late else Unknown)"

fun timing_bits :: "pane_timing_kind \<Rightarrow> byte" where
  "timing_bits Early = 0"
| "timing_bits OnTime = 1"
| "timing_bits Late = 2"
| "timing_bits Unknown = 3"

record pane_info_rec =
  is_first :: bool
  is_last :: bool
  timing :: pane_timing_kind
  pane_index :: int
  non_speculative_index :: int

definition no_firing :: pane_info_rec where
  "no_firing = \<lparr>is_first = True, is_last = True, timing = Unknown, pane_index = 0, non_speculative_index = 0\<rparr>"

definition on_time_firing :: pane_info_rec where
  "on_time_firing = \<lparr>is_first = True, is_last = True, timing = OnTime, pane_index = 0, non_speculative_index = 0\<rparr>"

definition encode_pane_info :: "pane_info_rec \<Rightarrow> bytes" where
  "encode_pane_info pane =
     (let b0 = push_bit 2 (timing_bits (timing pane));
          b1 = (if is_first pane then b0 OR 0x01 else b0);
          b2 = (if is_last pane then b1 OR 0x02 else b1);
          has_index = (pane_index pane \<noteq> 0);
          derived = (if timing pane = Early then - 1 else pane_index pane);
          has_non_speculative = (non_speculative_index pane \<noteq> derived);
          b3 = (if has_non_speculative then b2 OR 0x20 else if has_index then b2 OR 0x10 else b2)
      in b3 # (if has_non_speculative
               then encode_signed_varint (pane_index pane) @ encode_signed_varint (non_speculative_index pane)
               else if has_index then encode_signed_varint (pane_index pane) else []))"

definition decode_pane_info :: "pane_info_rec reader" where
  "decode_pane_info buf =
     rbind (get_u8 buf) (\<lambda>(b, rest0).
       let encoding = drop_bit 4 b;
           tm = timing_from_bits (drop_bit 2 b AND 0x03)
       in rbind (if encoding \<ge> 1 then decode_signed_varint rest0 else Ok (0, rest0)) (\<lambda>(idx, rest1).
         rbind (if encoding \<ge> 2 then decode_signed_varint rest1
                else Ok (if tm = Early then - 1 else idx, rest1)) (\<lambda>(nsi, rest2).
           Ok (\<lparr>is_first = (b AND 0x01 \<noteq> 0), is_last = (b AND 0x02 \<noteq> 0), timing = tm,
                pane_index = idx, non_speculative_index = nsi\<rparr>, rest2))))"

definition pane_ok :: "pane_info_rec \<Rightarrow> bool" where
  "pane_ok pane \<longleftrightarrow> in_i64 (pane_index pane) \<and> in_i64 (non_speculative_index pane)"

text \<open>The first byte as a function of its fields, and what reading it gives back.\<close>

definition pane_byte :: "pane_timing_kind \<Rightarrow> bool \<Rightarrow> bool \<Rightarrow> byte \<Rightarrow> byte" where
  "pane_byte tm f l enc =
     (let b0 = push_bit 2 (timing_bits tm);
          b1 = (if f then b0 OR 0x01 else b0);
          b2 = (if l then b1 OR 0x02 else b1)
      in if enc = 0 then b2 else b2 OR enc)"

lemma pane_byte_fields:
  assumes "enc \<in> {0, 0x10, 0x20}"
  shows "timing_from_bits (drop_bit 2 (pane_byte tm f l enc) AND 0x03) = tm"
    and "(pane_byte tm f l enc AND 0x01 \<noteq> 0) = f" and "(pane_byte tm f l enc AND 0x02 \<noteq> 0) = l"
    and "drop_bit 4 (pane_byte tm f l enc) = drop_bit 4 enc"
  using assms by (cases tm; cases f; cases l; auto simp: pane_byte_def timing_from_bits_def drop_bit_eq_div push_bit_eq_mult)+

lemma pane_roundtrip:
  assumes "pane_ok pane"
  shows "decode_pane_info (encode_pane_info pane @ rest) = Ok (pane, rest)"
proof -
  define derived where "derived = (if timing pane = Early then - 1 else pane_index pane)"
  define enc :: byte where
    "enc = (if non_speculative_index pane \<noteq> derived then 0x20 else if pane_index pane \<noteq> 0 then 0x10 else 0)"
  have encode: "encode_pane_info pane =
      pane_byte (timing pane) (is_first pane) (is_last pane) enc #
      (if non_speculative_index pane \<noteq> derived
       then encode_signed_varint (pane_index pane) @ encode_signed_varint (non_speculative_index pane)
       else if pane_index pane \<noteq> 0 then encode_signed_varint (pane_index pane) else [])"
    by (simp add: encode_pane_info_def Let_def pane_byte_def enc_def derived_def)
  have enc: "enc \<in> {0, 0x10, 0x20}"
    by (simp add: enc_def)
  have sel: "drop_bit 4 enc = (if non_speculative_index pane \<noteq> derived then 2 else if pane_index pane \<noteq> 0 then 1 else 0)"
    by (simp add: enc_def drop_bit_eq_div)
  have le: "(1 :: byte) \<le> 2" "\<not> (2 :: byte) \<le> 1"
    by (simp_all add: word_le_nat_alt)
  note rt = signed_varint_roundtrip assms [unfolded pane_ok_def]
  consider "non_speculative_index pane \<noteq> derived" | "non_speculative_index pane = derived" "pane_index pane \<noteq> 0"
    | "non_speculative_index pane = derived" "pane_index pane = 0"
    by blast
  then show ?thesis
    by cases (simp_all add: encode decode_pane_info_def Let_def pane_byte_fields [OF enc] sel rt le derived_def)
qed

interpretation pane: wire_codec encode_pane_info decode_pane_info pane_ok
  by unfold_locales (rule pane_roundtrip)

section \<open>Window coders\<close>

datatype window_coder =
    WindowCoderGlobal
  | WindowCoderInterval
  | WindowCoderOpaqueLengthPrefixed (inner_coder_id: string)

text \<open>What the code reads of the generated \<open>Coder\<close> message: the URN of its spec, if it has
  one, and its component ids.\<close>

record coder_proto =
  coder_urn :: "string option"
  component_coder_ids :: "string list"

definition GLOBAL_WINDOW_CODER :: string where "GLOBAL_WINDOW_CODER = ''beam:coder:global_window:v1''"
definition INTERVAL_WINDOW_CODER :: string where "INTERVAL_WINDOW_CODER = ''beam:coder:interval_window:v1''"
definition LENGTH_PREFIX_CODER :: string where "LENGTH_PREFIX_CODER = ''beam:coder:length_prefix:v1''"

definition from_urn_known :: "string \<Rightarrow> window_coder option" where
  "from_urn_known urn =
     (if urn = GLOBAL_WINDOW_CODER then Some WindowCoderGlobal
      else if urn = INTERVAL_WINDOW_CODER then Some WindowCoderInterval else None)"

definition window_coder_from_urn :: "string \<Rightarrow> (coders_error, window_coder) rust" where
  "window_coder_from_urn urn = (case from_urn_known urn of Some c \<Rightarrow> Ok c | None \<Rightarrow> Panic)"

definition window_try_from_coder ::
  "string \<Rightarrow> (string, coder_proto) hashmap \<Rightarrow> (string, window_coder) rust" where
  "window_try_from_coder coder_id coders =
     (case hm_get coders coder_id of
        None \<Rightarrow> (case from_urn_known coder_id of Some c \<Rightarrow> Ok c | None \<Rightarrow> Err coder_id)
      | Some coder \<Rightarrow>
          let urn = (case coder_urn coder of Some u \<Rightarrow> u | None \<Rightarrow> coder_id)
          in if urn = LENGTH_PREFIX_CODER \<and> length (component_coder_ids coder) = 1
             then Ok (WindowCoderOpaqueLengthPrefixed (hd (component_coder_ids coder)))
             else (case from_urn_known urn of Some c \<Rightarrow> Ok c | None \<Rightarrow> Err urn))"

definition window_from_coder ::
  "string \<Rightarrow> (string, coder_proto) hashmap \<Rightarrow> (string, window_coder) rust" where
  "window_from_coder coder_id coders =
     (case window_try_from_coder coder_id coders of Ok c \<Rightarrow> Ok c | _ \<Rightarrow> Panic)"

text \<open>\<open>(end - start) as u64\<close>: the difference wraps, and \<open>as_u64\<close> is the wrapped value.\<close>

fun encode_window :: "window_coder \<Rightarrow> beam_window \<Rightarrow> (coders_error, bytes) rust" where
  "encode_window WindowCoderGlobal Global = Ok []"
| "encode_window WindowCoderInterval (Interval s e) =
     Ok (encode_timestamp_millis e @ encode_varint (as_u64 (e - s)))"
| "encode_window (WindowCoderOpaqueLengthPrefixed inner) (Opaque c bs) =
     (if c = inner then Ok (encode_varint (of_nat (length bs)) @ bs) else Panic)"
| "encode_window _ _ = Panic"

fun decode_one_window :: "window_coder \<Rightarrow> beam_window reader" where
  "decode_one_window WindowCoderGlobal buf = Ok (Global, buf)"
| "decode_one_window WindowCoderInterval buf =
     rbind (decode_timestamp_millis buf) (\<lambda>(e, rest).
       rbind (decode_varint rest) (\<lambda>(w, rest1). Ok (Interval (wrap_i64 (e - as_i64 w)) e, rest1)))"
| "decode_one_window (WindowCoderOpaqueLengthPrefixed inner) buf =
     rbind (decode_varint buf) (\<lambda>(n, rest).
       rbind (get_slice (unat n) rest) (\<lambda>(bs, rest1). Ok (Opaque inner bs, rest1)))"

definition decode_window :: "window_coder \<Rightarrow> bytes \<Rightarrow> (coders_error, beam_window) rust" where
  "decode_window coder bs =
     rbind (case coder of
              WindowCoderOpaqueLengthPrefixed inner \<Rightarrow>
                rbind (decode_varint bs) (\<lambda>(n, rest).
                  if length rest < unat n then Err (WhileDecoding ''opaque window coder'')
                  else rbind (get_slice (unat n) rest) (\<lambda>(b, rest1). Ok (Opaque inner b, rest1)))
            | _ \<Rightarrow> decode_one_window coder bs)
       (\<lambda>(w, rest). if rest \<noteq> [] then Err (WhileDecoding ''trailing bytes'') else Ok w)"

primrec encode_all_windows :: "window_coder \<Rightarrow> beam_window list \<Rightarrow> (coders_error, bytes) rust" where
  "encode_all_windows coder [] = Ok []"
| "encode_all_windows coder (w # ws) =
     rbind (encode_window coder w) (\<lambda>b. rbind (encode_all_windows coder ws) (\<lambda>bs. Ok (b @ bs)))"

text \<open>\<open>put_i32(windows.len() as i32)\<close> keeps the low 32 bits of the length.\<close>

definition encode_windows :: "window_coder \<Rightarrow> beam_window list \<Rightarrow> (coders_error, bytes) rust" where
  "encode_windows coder ws =
     rbind (encode_all_windows coder ws) (\<lambda>bs. Ok (u32_be (of_nat (length ws)) @ bs))"

definition decode_windows :: "window_coder \<Rightarrow> beam_window list reader" where
  "decode_windows coder buf =
     rbind (get_u32 buf) (\<lambda>(n, rest).
       if sint n \<ge> 0 then get_many (decode_one_window coder) (nat (sint n)) rest
       else get_chunks (decode_one_window coder) (Suc (length rest)) rest)"

definition encode_windowed_value_header ::
  "int \<Rightarrow> beam_window list \<Rightarrow> window_coder \<Rightarrow> pane_info_rec \<Rightarrow> (coders_error, bytes) rust" where
  "encode_windowed_value_header t ws coder pane =
     rbind (encode_windows coder ws) (\<lambda>bs. Ok (encode_timestamp_millis t @ bs @ encode_pane_info pane))"

definition decode_windowed_value_header ::
  "window_coder \<Rightarrow> (int \<times> beam_window list \<times> pane_info_rec) reader" where
  "decode_windowed_value_header coder buf =
     rbind (decode_timestamp_millis buf) (\<lambda>(t, rest).
       rbind (decode_windows coder rest) (\<lambda>(ws, rest1).
         rbind (decode_pane_info rest1) (\<lambda>(pane, rest2). Ok ((t, ws, pane), rest2))))"

subsection \<open>Round trips\<close>

fun window_matches :: "window_coder \<Rightarrow> beam_window \<Rightarrow> bool" where
  "window_matches WindowCoderGlobal Global = True"
| "window_matches WindowCoderInterval (Interval s e) = True"
| "window_matches (WindowCoderOpaqueLengthPrefixed inner) (Opaque c bs) = (c = inner)"
| "window_matches _ _ = False"

definition window_fits :: "window_coder \<Rightarrow> beam_window \<Rightarrow> bool" where
  "window_fits coder w \<longleftrightarrow> window_matches coder w \<and> window_ok w"

lemma encode_window_ok_iff: "(\<exists>bs. encode_window coder w = Ok bs) \<longleftrightarrow> window_matches coder w"
  by (cases "(coder, w)" rule: window_matches.cases) auto

lemma interval_start_wraps: "in_i64 s \<Longrightarrow> wrap_i64 (e - as_i64 (as_u64 (e - s))) = s"
proof -
  assume s: "in_i64 s"
  have "as_u64 (e - as_i64 (as_u64 (e - s))) = as_u64 e - as_u64 (as_i64 (as_u64 (e - s)))"
    unfolding as_u64_def by (rule of_int_diff)
  also have "\<dots> = as_u64 e - as_u64 (e - s)"
    by simp
  also have "\<dots> = as_u64 s"
    by (simp add: as_u64_def)
  finally show ?thesis
    using s by (simp add: wrap_i64_def)
qed

lemma window_roundtrip:
  assumes "window_fits coder w"
  shows "decode_one_window coder (unwrap_or (encode_window coder w) [] @ rest) = Ok (w, rest)"
  using assms
  by (cases "(coder, w)" rule: window_matches.cases)
    (auto simp: window_fits_def timestamp_roundtrip varint_roundtrip interval_start_wraps)

interpretation window: wire_codec "\<lambda>w. unwrap_or (encode_window coder w) []" "decode_one_window coder" "window_fits coder"
  for coder
  by unfold_locales (rule window_roundtrip)

lemma encode_all_windows_fits:
  "list_all (window_fits coder) ws \<Longrightarrow>
   encode_all_windows coder ws = Ok (concat (map (\<lambda>w. unwrap_or (encode_window coder w) []) ws))"
proof (induction ws)
  case (Cons w ws)
  then obtain bs where "encode_window coder w = Ok bs"
    using encode_window_ok_iff [of coder w] by (auto simp: window_fits_def)
  with Cons show ?case
    by simp
qed simp

lemma sint_of_nat_i32: "n < 2 ^ 31 \<Longrightarrow> sint (of_nat n :: 32 word) = int n"
proof -
  assume n: "n < 2 ^ 31"
  have "sint (of_nat n :: 32 word) = signed_take_bit 31 (int n)"
    using sint_sbintrunc' [of "int n", where 'a = 32] by simp
  also have "\<dots> = int n"
    using n by (intro signed_take_bit_int_eq_self) auto
  finally show ?thesis .
qed

lemma windows_roundtrip:
  assumes "list_all (window_fits coder) ws" and "length ws < 2 ^ 31" and "encode_windows coder ws = Ok bs"
  shows "decode_windows coder (bs @ rest) = Ok (ws, rest)"
proof -
  have bs: "bs = u32_be (of_nat (length ws)) @ concat (map (\<lambda>w. unwrap_or (encode_window coder w) []) ws)"
    using assms(3) by (simp add: encode_windows_def encode_all_windows_fits [OF assms(1)])
  show ?thesis
    using window.roundtrip_many [OF assms(1), of rest] assms(2)
    by (simp add: bs decode_windows_def u32_be_roundtrip sint_of_nat_i32 del: rbind_eq_Ok)
qed

lemma header_roundtrip:
  assumes "encode_windowed_value_header t ws coder pane = Ok bs"
    and "in_i64 t" and "list_all (window_fits coder) ws" and "length ws < 2 ^ 31" and "pane_ok pane"
  shows "decode_windowed_value_header coder (bs @ rest) = Ok ((t, ws, pane), rest)"
proof -
  obtain wb where wb: "encode_windows coder ws = Ok wb" "bs = encode_timestamp_millis t @ wb @ encode_pane_info pane"
    using assms(1) by (auto simp: encode_windowed_value_header_def)
  show ?thesis
    using windows_roundtrip [OF assms(3,4) wb(1)] assms(2,5)
    by (simp add: wb(2) decode_windowed_value_header_def timestamp_roundtrip pane_roundtrip)
qed

section \<open>Properties\<close>

text \<open>
  C24: the binary window key is a faithful identity: it decodes to the window it was made
  from, every byte string that decodes is the key of the window it decodes to (so two
  windows share a key only if they are equal and malformed keys are rejected), the
  text key round trips as well, and among the windows of a kind the keys of intervals
  compare lexicographically as the pairs of their bounds.
\<close>

theorem window_keys_faithful:
  assumes "window_ok w"
  shows "from_canonical_key (canonical_key w) = Some w
    \<and> (\<forall>key. to_binary_key w = Ok key \<longleftrightarrow> from_binary_key key = Some w)
    \<and> (\<forall>s e s' e' k k'. w = Interval s e \<and> to_binary_key w = Ok k \<and> in_i64 s' \<and> in_i64 e' \<and> to_binary_key (Interval s' e') = Ok k'
         \<longrightarrow> (k < k' \<longleftrightarrow> s < s' \<or> (s = s' \<and> e < e')))"
proof (intro conjI allI impI)
  show "from_canonical_key (canonical_key w) = Some w"
    by (rule canonical_roundtrip [OF assms])
  show "to_binary_key w = Ok key \<longleftrightarrow> from_binary_key key = Some w" for key
    using binary_roundtrip [OF assms] binary_canonical by blast
  show "k < k' \<longleftrightarrow> s < s' \<or> (s = s' \<and> e < e')"
    if "w = Interval s e \<and> to_binary_key w = Ok k \<and> in_i64 s' \<and> in_i64 e' \<and> to_binary_key (Interval s' e') = Ok k'"
    for s e s' e' k k'
    using that assms interval_key_less [of s e s' e'] by auto
qed

theorem window_keys_faithful_witness:
  "to_binary_key (Opaque ''w'' [7]) = Ok [2, 0, 0, 0, 1, 119, 7]
    \<and> from_binary_key [2, 0, 0, 0, 1, 119, 7] = Some (Opaque ''w'' [7])"
proof -
  have key: "to_binary_key (Opaque ''w'' [7]) = Ok [2, 0, 0, 0, 1, 119, 7]"
    by (simp add: u32_be_def as_bytes_def byte_of_char_def be_bytes_numeral)
  have "window_ok (Opaque ''w'' [7])"
    by (simp add: rust_string_def as_bytes_def byte_of_char_def fits_u64_def)
  from window_keys_faithful [OF this] key show ?thesis
    by blast
qed

text \<open>
  C25: the header of a windowed value round trips: timestamp, windows and pane written by
  the encoder are read back, and the decoder stops exactly where the element begins, for
  every timestamp, every pane and every list of windows the window coder fits (less than
  2^31 of them).
\<close>

theorem windowed_value_header_roundtrip:
  assumes "list_all (window_fits coder) ws" and "length ws < 2 ^ 31" and "in_i64 t" and "pane_ok pane"
  shows "\<exists>bs. encode_windowed_value_header t ws coder pane = Ok bs
    \<and> (\<forall>rest. decode_windowed_value_header coder (bs @ rest) = Ok ((t, ws, pane), rest))"
proof -
  obtain bs where "encode_windowed_value_header t ws coder pane = Ok bs"
    by (auto simp: encode_windowed_value_header_def encode_windows_def encode_all_windows_fits [OF assms(1)])
  with header_roundtrip [OF this assms(3,1,2,4)] show ?thesis
    by blast
qed

theorem windowed_value_header_roundtrip_witness:
  "\<exists>bs. encode_windowed_value_header (- 5) [Interval (- 10) 10] WindowCoderInterval no_firing = Ok bs
    \<and> decode_windowed_value_header WindowCoderInterval (bs @ [42]) = Ok ((- 5, [Interval (- 10) 10], no_firing), [42])"
  using windowed_value_header_roundtrip [of WindowCoderInterval "[Interval (- 10) 10]" "- 5" no_firing]
  by (auto simp: window_fits_def pane_ok_def no_firing_def i64_range_defs)

end
