(* ===== verification/Pipeline_Model.thy ===== *)
theory Pipeline_Model
  imports Windows
begin

text \<open>
  The pipeline as the runner holds it: the protocol messages (records of the fields the
  code reads), the nodes, references and stages of \<open>fusion/pipeline.rs\<close>,
  \<open>fusion/refs.rs\<close> and \<open>fusion/stage.rs\<close>, and \<open>QueryablePipeline\<close> with the graph it
  builds and the queries over it. Decoding a \<open>ParDoPayload\<close> is generated code, an argument
  of the definitions that use it. A petgraph graph is the list of its node weights and the
  list of its edges, newest first. Error messages keep the identifier they name.
\<close>

section \<open>Ordered sets by key\<close>

text \<open>
  \<open>HashSet\<close> and \<open>IndexSet\<close> of nodes: equality and hashing look at the identifier only, so
  inserting a second value with the same key changes nothing. The order of the list is the
  insertion order of an \<open>IndexSet\<close>, and some iteration order of a \<open>HashSet\<close>.
\<close>

definition ins_by :: "('a \<Rightarrow> 'k) \<Rightarrow> 'a \<Rightarrow> 'a list \<Rightarrow> 'a list" where
  "ins_by key x xs = (if key x \<in> set (map key xs) then xs else xs @ [x])"

definition ext_by :: "('a \<Rightarrow> 'k) \<Rightarrow> 'a list \<Rightarrow> 'a list \<Rightarrow> 'a list" where
  "ext_by key xs ys = fold (ins_by key) ys xs"

lemma keys_ins_by [simp]: "set (map key (ins_by key x xs)) = insert (key x) (set (map key xs))"
  by (auto simp: ins_by_def)

lemma distinct_ins_by [simp]: "distinct (map key xs) \<Longrightarrow> distinct (map key (ins_by key x xs))"
  by (auto simp: ins_by_def)

lemma set_ins_by_subset: "set (ins_by key x xs) \<subseteq> insert x (set xs)"
  by (auto simp: ins_by_def)

lemma set_ins_by_mono: "set xs \<subseteq> set (ins_by key x xs)"
  by (auto simp: ins_by_def)

lemma ext_by_simps [simp]: "ext_by key xs [] = xs" "ext_by key xs (y # ys) = ext_by key (ins_by key y xs) ys"
  by (simp_all add: ext_by_def)

lemma keys_ext_by: "set (map key (ext_by key xs ys)) = set (map key xs) \<union> set (map key ys)"
  by (induction ys arbitrary: xs) (auto simp: ins_by_def)

lemma distinct_ext_by: "distinct (map key xs) \<Longrightarrow> distinct (map key (ext_by key xs ys))"
  by (induction ys arbitrary: xs) simp_all

lemma set_ext_by_subset: "set (ext_by key xs ys) \<subseteq> set xs \<union> set ys"
proof (induction ys arbitrary: xs)
  case (Cons y ys)
  then show ?case
    using set_ins_by_subset [of key y xs] by fastforce
qed simp

lemma set_ext_by_mono: "set xs \<subseteq> set (ext_by key xs ys)"
proof (induction ys arbitrary: xs)
  case (Cons y ys)
  then show ?case
    using set_ins_by_mono [of xs key y] by fastforce
qed simp

section \<open>Protocol messages\<close>

record function_spec =
  spec_urn :: string
  spec_payload :: bytes

record ptransform =
  pt_unique_name :: string
  pt_spec :: "function_spec option"
  pt_inputs :: "(string, string) hashmap"
  pt_outputs :: "(string, string) hashmap"
  pt_subtransforms :: "string list"
  pt_environment_id :: string

record pcollection =
  pc_unique_name :: string
  pc_coder_id :: string
  pc_is_bounded :: int
  pc_windowing_strategy_id :: string

record windowing_strategy =
  ws_window_fn :: "function_spec option"
  ws_allowed_lateness :: int

text \<open>An \<open>Environment\<close>: its URN, and the other fields as one value that equality compares.\<close>

record environment =
  env_urn :: string
  env_rest :: bytes

record components =
  c_transforms :: "(string, ptransform) hashmap"
  c_pcollections :: "(string, pcollection) hashmap"
  c_windowing_strategies :: "(string, windowing_strategy) hashmap"
  c_coders :: "(string, coder_proto) hashmap"
  c_environments :: "(string, environment) hashmap"

text \<open>A decoded \<open>ParDoPayload\<close>: the keys of its three maps and its sorted-input flag.\<close>

record pardo_payload =
  pp_side_inputs :: "string list"
  pp_state_specs :: "string list"
  pp_timer_family_specs :: "string list"
  pp_requires_time_sorted_input :: bool

text \<open>\<open>ParDoPayload::decode\<close>, \<open>None\<close> for a decode error.\<close>

type_synonym pardo_decoder = "bytes \<Rightarrow> pardo_payload option"

section \<open>URNs\<close>

definition CREATE_TRANSFORM :: string where "CREATE_TRANSFORM = ''beam:transform:create:v1''"
definition PAR_DO_TRANSFORM :: string where "PAR_DO_TRANSFORM = ''beam:transform:pardo:v1''"
definition FLATTEN_TRANSFORM :: string where "FLATTEN_TRANSFORM = ''beam:transform:flatten:v1''"
definition GROUP_BY_KEY_TRANSFORM :: string where "GROUP_BY_KEY_TRANSFORM = ''beam:transform:group_by_key:v1''"
definition GROUP_BY_KEY_WRAPPER_TRANSFORM :: string where
  "GROUP_BY_KEY_WRAPPER_TRANSFORM = ''beam:transform:group_by_key_wrapper:v1''"
definition IMPULSE_TRANSFORM :: string where "IMPULSE_TRANSFORM = ''beam:transform:impulse:v1''"
definition ASSIGN_WINDOWS_TRANSFORM :: string where "ASSIGN_WINDOWS_TRANSFORM = ''beam:transform:window_into:v1''"
definition TEST_STREAM_TRANSFORM :: string where "TEST_STREAM_TRANSFORM = ''beam:transform:teststream:v1''"
definition MAP_WINDOWS_TRANSFORM :: string where "MAP_WINDOWS_TRANSFORM = ''beam:transform:map_windows:v1''"
definition MERGE_WINDOWS_TRANSFORM :: string where "MERGE_WINDOWS_TRANSFORM = ''beam:transform:merge_windows:v1''"
definition TO_STRING_TRANSFORM :: string where "TO_STRING_TRANSFORM = ''beam:transform:to_string:v1''"
definition MANAGED_TRANSFORM :: string where "MANAGED_TRANSFORM = ''beam:transform:managed:v1''"
definition CREATE_VIEW_TRANSFORM :: string where "CREATE_VIEW_TRANSFORM = ''beam:transform:create_view:v1''"
definition GLOBAL_WINDOWS_FN :: string where "GLOBAL_WINDOWS_FN = ''beam:window_fn:global_windows:v1''"
definition COMBINE_PER_KEY_PRECOMBINE_TRANSFORM_URN :: string where
  "COMBINE_PER_KEY_PRECOMBINE_TRANSFORM_URN = ''beam:transform:combine_per_key_precombine:v1''"
definition COMBINE_PER_KEY_MERGE_ACCUMULATORS_TRANSFORM_URN :: string where
  "COMBINE_PER_KEY_MERGE_ACCUMULATORS_TRANSFORM_URN = ''beam:transform:combine_per_key_merge_accumulators:v1''"
definition COMBINE_PER_KEY_EXTRACT_OUTPUTS_TRANSFORM_URN :: string where
  "COMBINE_PER_KEY_EXTRACT_OUTPUTS_TRANSFORM_URN = ''beam:transform:combine_per_key_extract_outputs:v1''"
definition SPLITTABLE_PAIR_WITH_RESTRICTION_URN :: string where
  "SPLITTABLE_PAIR_WITH_RESTRICTION_URN = ''beam:transform:sdf_pair_with_restriction:v1''"
definition SPLITTABLE_TRUNCATE_SIZED_RESTRICTION_URN :: string where
  "SPLITTABLE_TRUNCATE_SIZED_RESTRICTION_URN = ''beam:transform:sdf_truncate_sized_restrictions:v1''"
definition SPLITTABLE_SPLIT_AND_SIZE_RESTRICTIONS_URN :: string where
  "SPLITTABLE_SPLIT_AND_SIZE_RESTRICTIONS_URN = ''beam:transform:sdf_split_and_size_restrictions:v1''"
definition SPLITTABLE_PROCESS_ELEMENTS_URN :: string where
  "SPLITTABLE_PROCESS_ELEMENTS_URN = ''beam:transform:sdf_process_elements:v1''"
definition SPLITTABLE_PROCESS_KEYED_URN :: string where
  "SPLITTABLE_PROCESS_KEYED_URN = ''beam:transform:sdf_process_keyed_elements:v1''"
definition SPLITTABLE_PROCESS_SIZED_ELEMENTS_AND_RESTRICTIONS_URN :: string where
  "SPLITTABLE_PROCESS_SIZED_ELEMENTS_AND_RESTRICTIONS_URN = ''beam:transform:sdf_process_sized_element_and_restrictions:v1''"

lemmas transform_urn_defs = CREATE_TRANSFORM_def PAR_DO_TRANSFORM_def FLATTEN_TRANSFORM_def GROUP_BY_KEY_TRANSFORM_def
  GROUP_BY_KEY_WRAPPER_TRANSFORM_def IMPULSE_TRANSFORM_def ASSIGN_WINDOWS_TRANSFORM_def TEST_STREAM_TRANSFORM_def
  MAP_WINDOWS_TRANSFORM_def MERGE_WINDOWS_TRANSFORM_def TO_STRING_TRANSFORM_def MANAGED_TRANSFORM_def CREATE_VIEW_TRANSFORM_def
  COMBINE_PER_KEY_PRECOMBINE_TRANSFORM_URN_def COMBINE_PER_KEY_MERGE_ACCUMULATORS_TRANSFORM_URN_def
  COMBINE_PER_KEY_EXTRACT_OUTPUTS_TRANSFORM_URN_def SPLITTABLE_PAIR_WITH_RESTRICTION_URN_def
  SPLITTABLE_TRUNCATE_SIZED_RESTRICTION_URN_def SPLITTABLE_SPLIT_AND_SIZE_RESTRICTIONS_URN_def
  SPLITTABLE_PROCESS_ELEMENTS_URN_def SPLITTABLE_PROCESS_KEYED_URN_def SPLITTABLE_PROCESS_SIZED_ELEMENTS_AND_RESTRICTIONS_URN_def

definition PRIMITIVES :: "string list" where
  "PRIMITIVES = [CREATE_TRANSFORM, PAR_DO_TRANSFORM, FLATTEN_TRANSFORM, GROUP_BY_KEY_TRANSFORM,
     GROUP_BY_KEY_WRAPPER_TRANSFORM, IMPULSE_TRANSFORM, ASSIGN_WINDOWS_TRANSFORM, TEST_STREAM_TRANSFORM,
     MAP_WINDOWS_TRANSFORM, MERGE_WINDOWS_TRANSFORM, TO_STRING_TRANSFORM, MANAGED_TRANSFORM,
     COMBINE_PER_KEY_PRECOMBINE_TRANSFORM_URN, COMBINE_PER_KEY_MERGE_ACCUMULATORS_TRANSFORM_URN,
     COMBINE_PER_KEY_EXTRACT_OUTPUTS_TRANSFORM_URN, SPLITTABLE_PAIR_WITH_RESTRICTION_URN,
     SPLITTABLE_SPLIT_AND_SIZE_RESTRICTIONS_URN, SPLITTABLE_TRUNCATE_SIZED_RESTRICTION_URN,
     SPLITTABLE_PROCESS_SIZED_ELEMENTS_AND_RESTRICTIONS_URN]"

definition FLARE :: "string list" where
  "FLARE = [GROUP_BY_KEY_TRANSFORM, IMPULSE_TRANSFORM, FLATTEN_TRANSFORM, TEST_STREAM_TRANSFORM]"

definition SPLITTABLE_PARDO_COMPONENTS :: "string list" where
  "SPLITTABLE_PARDO_COMPONENTS = [SPLITTABLE_PAIR_WITH_RESTRICTION_URN, SPLITTABLE_TRUNCATE_SIZED_RESTRICTION_URN,
     SPLITTABLE_SPLIT_AND_SIZE_RESTRICTIONS_URN, SPLITTABLE_PROCESS_SIZED_ELEMENTS_AND_RESTRICTIONS_URN]"

definition VALID_MAIN_INPUT_URNS :: "string list" where
  "VALID_MAIN_INPUT_URNS = [PAR_DO_TRANSFORM, SPLITTABLE_PAIR_WITH_RESTRICTION_URN,
     SPLITTABLE_SPLIT_AND_SIZE_RESTRICTIONS_URN, SPLITTABLE_TRUNCATE_SIZED_RESTRICTION_URN,
     SPLITTABLE_PROCESS_ELEMENTS_URN, SPLITTABLE_PROCESS_SIZED_ELEMENTS_AND_RESTRICTIONS_URN]"

definition VALID_SIDE_INPUT_URNS :: "string list" where
  "VALID_SIDE_INPUT_URNS = [PAR_DO_TRANSFORM, SPLITTABLE_PAIR_WITH_RESTRICTION_URN,
     SPLITTABLE_SPLIT_AND_SIZE_RESTRICTIONS_URN, SPLITTABLE_PROCESS_SIZED_ELEMENTS_AND_RESTRICTIONS_URN]"

section \<open>Nodes, references and stages\<close>

record ptransform_node =
  ptn_id :: string
  ptn_transform :: ptransform

record pcollection_node =
  pcn_id :: string
  pcn_collection :: pcollection

datatype translation_error = InvalidArgument string | InvalidState string | NotFound string

type_synonym 'a translation = "(translation_error, 'a) rust"

definition ok_or :: "'a option \<Rightarrow> translation_error \<Rightarrow> 'a translation" where
  "ok_or x e = (case x of Some v \<Rightarrow> Ok v | None \<Rightarrow> Err e)"

lemma ok_or_eq_Ok [simp]: "ok_or x e = Ok v \<longleftrightarrow> x = Some v"
  by (simp add: ok_or_def split: option.split)

record side_input_ref =
  sir_pcol :: pcollection_node
  sir_transform :: ptransform_node
  sir_name :: string

abbreviation sir_collection_id :: "side_input_ref \<Rightarrow> string" where
  "sir_collection_id s \<equiv> pcn_id (sir_pcol s)"

definition side_input_from_id :: "components \<Rightarrow> string \<Rightarrow> string \<Rightarrow> side_input_ref translation" where
  "side_input_from_id comps pt_id name =
     rbind (ok_or (hm_get (c_transforms comps) pt_id) (NotFound pt_id)) (\<lambda>transform.
     rbind (ok_or (hm_get (pt_inputs transform) name) (NotFound name)) (\<lambda>pcol_id.
     rbind (ok_or (hm_get (c_pcollections comps) pcol_id) (NotFound pcol_id)) (\<lambda>pcol.
       Ok \<lparr>sir_pcol = \<lparr>pcn_id = pcol_id, pcn_collection = pcol\<rparr>,
           sir_transform = \<lparr>ptn_id = pt_id, ptn_transform = transform\<rparr>, sir_name = name\<rparr>)))"

record timer_ref =
  tr_transform :: ptransform_node
  tr_name :: string

definition timer_from_id :: "components \<Rightarrow> string \<Rightarrow> string \<Rightarrow> timer_ref translation" where
  "timer_from_id comps pt_id name =
     rbind (ok_or (hm_get (c_transforms comps) pt_id) (NotFound pt_id)) (\<lambda>pt.
       Ok \<lparr>tr_transform = \<lparr>ptn_id = pt_id, ptn_transform = pt\<rparr>, tr_name = name\<rparr>)"

record user_state_ref =
  usr_transform :: ptransform_node
  usr_name :: string
  usr_pcol :: pcollection_node

definition get_main_input_name_from_payload :: "ptransform \<Rightarrow> pardo_payload \<Rightarrow> string translation" where
  "get_main_input_name_from_payload transform payload =
     (case filter (\<lambda>name. name \<notin> set (pp_side_inputs payload @ pp_timer_family_specs payload)) (hm_keys (pt_inputs transform)) of
        [name] \<Rightarrow> Ok name
      | _ \<Rightarrow> Err (InvalidArgument ''Expected exactly one main input''))"

definition get_main_input_name :: "pardo_decoder \<Rightarrow> ptransform \<Rightarrow> string translation" where
  "get_main_input_name dec transform =
     rbind (ok_or (pt_spec transform) (InvalidArgument ''Transform is missing spec'')) (\<lambda>spec.
       if spec_urn spec \<notin> set VALID_MAIN_INPUT_URNS then Err (InvalidArgument (spec_urn spec))
       else rbind (ok_or (dec (spec_payload spec)) (InvalidArgument ''Failed to decode ParDoPayload''))
              (get_main_input_name_from_payload transform))"

definition user_state_from_id :: "pardo_decoder \<Rightarrow> components \<Rightarrow> string \<Rightarrow> string \<Rightarrow> user_state_ref translation" where
  "user_state_from_id dec comps pt_id name =
     rbind (ok_or (hm_get (c_transforms comps) pt_id) (NotFound pt_id)) (\<lambda>transform.
     rbind (get_main_input_name dec transform) (\<lambda>main_input_name.
     rbind (ok_or (hm_get (pt_inputs transform) main_input_name) (NotFound main_input_name)) (\<lambda>pcol_id.
     rbind (ok_or (hm_get (c_pcollections comps) pcol_id) (NotFound pcol_id)) (\<lambda>pcol.
       Ok \<lparr>usr_transform = \<lparr>ptn_id = pt_id, ptn_transform = transform\<rparr>, usr_name = name,
           usr_pcol = \<lparr>pcn_id = pcol_id, pcn_collection = pcol\<rparr>\<rparr>))))"

text \<open>
  \<open>ExecutableStage\<close>; \<open>wire_coder\<close> is the empty set wherever a stage is built. Two stages
  are equal when their identifiers are.
\<close>

record executable_stage =
  es_id :: string
  es_components :: components
  es_environment :: environment
  es_input_pcol :: pcollection_node
  es_side_inputs :: "side_input_ref list"
  es_user_states :: "user_state_ref list"
  es_timers :: "timer_ref list"
  es_output_pcols :: "pcollection_node list"
  es_transforms :: "ptransform_node list"

record collection_consumers =
  cc_collection :: pcollection_node
  cc_transform :: ptransform_node

text \<open>The key \<open>Ord for CollectionConsumers\<close> compares.\<close>

definition cc_key :: "collection_consumers \<Rightarrow> string \<times> string" where
  "cc_key c = (pcn_id (cc_collection c), ptn_id (cc_transform c))"

record descendant_consumers =
  dc_unfusible :: "ptransform_node list"
  dc_fusible :: "collection_consumers list"

end
