(* ===== verification/Queryable_Pipeline.thy ===== *)
theory Queryable_Pipeline
  imports Pipeline_Model
begin

text \<open>
  \<open>QueryablePipeline\<close> of \<open>fusion/pipeline.rs\<close>: the primitive transforms of a pipeline, the
  bipartite graph of transforms and PCollections built from them, and the queries the
  fuser asks. The lemmas characterise every query by the pipeline's components alone, so
  that the proofs about fusion never mention node indices.
\<close>

section \<open>Primitive transforms\<close>

definition is_primitive_transform :: "ptransform \<Rightarrow> bool" where
  "is_primitive_transform t = (case pt_spec t of Some spec \<Rightarrow> spec_urn spec \<in> set PRIMITIVES | None \<Rightarrow> False)"

text \<open>
  The inner loop of \<open>get_primitives\<close>: a depth-first walk down the subtransforms. It does not
  end on a cyclic subtransform relation, so it takes fuel.
\<close>

fun primitive_leaves :: "nat \<Rightarrow> components \<Rightarrow> string list \<Rightarrow> string list \<Rightarrow> string list option" where
  "primitive_leaves fuel comps [] ids = Some ids"
| "primitive_leaves 0 comps (i # deque) ids = None"
| "primitive_leaves (Suc fuel) comps (i # deque) ids =
     (case hm_get (c_transforms comps) i of
        None \<Rightarrow> primitive_leaves fuel comps deque ids
      | Some t \<Rightarrow>
          if pt_subtransforms t = [] then primitive_leaves fuel comps deque (List.insert i ids)
          else primitive_leaves fuel comps (rev (pt_subtransforms t) @ deque) ids)"

fun collect_primitives :: "nat \<Rightarrow> components \<Rightarrow> (string \<times> ptransform) list \<Rightarrow> string list \<Rightarrow> string list option" where
  "collect_primitives fuel comps [] ids = Some ids"
| "collect_primitives fuel comps ((i, t) # ts) ids =
     (if is_primitive_transform t
      then Option.bind (primitive_leaves fuel comps [i] ids) (collect_primitives fuel comps ts)
      else collect_primitives fuel comps ts ids)"

definition get_primitives :: "nat \<Rightarrow> components \<Rightarrow> string list option" where
  "get_primitives fuel comps = collect_primitives fuel comps (c_transforms comps) []"

section \<open>Names declared by a ParDo\<close>

definition payload_names :: "pardo_decoder \<Rightarrow> string list \<Rightarrow> (pardo_payload \<Rightarrow> string list) \<Rightarrow> ptransform \<Rightarrow> string list translation" where
  "payload_names dec urns field t =
     (case pt_spec t of
        None \<Rightarrow> Ok []
      | Some spec \<Rightarrow>
          if spec_urn spec \<notin> set urns then Ok []
          else (case dec (spec_payload spec) of
                  Some p \<Rightarrow> Ok (remdups (field p))
                | None \<Rightarrow> Err (InvalidArgument ''Failed to decode ParDoPayload'')))"

definition get_local_side_input_names :: "pardo_decoder \<Rightarrow> ptransform \<Rightarrow> string list translation" where
  "get_local_side_input_names dec = payload_names dec VALID_SIDE_INPUT_URNS pp_side_inputs"

definition get_local_user_state_names :: "pardo_decoder \<Rightarrow> ptransform \<Rightarrow> string list translation" where
  "get_local_user_state_names dec = payload_names dec [PAR_DO_TRANSFORM] pp_state_specs"

definition get_local_timer_names :: "pardo_decoder \<Rightarrow> ptransform \<Rightarrow> string list translation" where
  "get_local_timer_names dec = payload_names dec [PAR_DO_TRANSFORM] pp_timer_family_specs"

section \<open>The graph\<close>

datatype pipeline_node = TransformNode ptransform_node | CollectionNode pcollection_node

datatype pipeline_edge = PerElement | SingletonEdge | TimerEdge

record queryable_pipeline =
  qp_nodes :: "pipeline_node list"
  qp_edges :: "(nat \<times> nat \<times> pipeline_edge) list"
  qp_transform_ids :: "(string, nat) hashmap"
  qp_pcollection_ids :: "(string, nat) hashmap"
  qp_components :: components
  qp_primitives :: "string list"

definition add_edge :: "nat \<Rightarrow> nat \<Rightarrow> pipeline_edge \<Rightarrow> queryable_pipeline \<Rightarrow> queryable_pipeline" where
  "add_edge i j e q = q\<lparr>qp_edges := (i, j, e) # qp_edges q\<rparr>"

text \<open>The node of a PCollection, created when it is met for the first time.\<close>

definition collection_index :: "string \<Rightarrow> pcollection \<Rightarrow> queryable_pipeline \<Rightarrow> nat \<times> queryable_pipeline" where
  "collection_index i pcol q =
     (case hm_get (qp_pcollection_ids q) i of
        Some idx \<Rightarrow> (idx, q)
      | None \<Rightarrow>
          (length (qp_nodes q),
           q\<lparr>qp_nodes := qp_nodes q @ [CollectionNode \<lparr>pcn_id = i, pcn_collection = pcol\<rparr>],
             qp_pcollection_ids := hm_insert i (length (qp_nodes q)) (qp_pcollection_ids q)\<rparr>))"

text \<open>The bodies of the loops over the outputs and inputs of a transform at index \<open>t\<close>.\<close>

definition link_output :: "nat \<Rightarrow> string \<times> string \<Rightarrow> queryable_pipeline \<Rightarrow> queryable_pipeline" where
  "link_output t out q =
     (case hm_get (c_pcollections (qp_components q)) (snd out) of
        None \<Rightarrow> q
      | Some pcol \<Rightarrow> (let (i, q1) = collection_index (snd out) pcol q in add_edge t i PerElement q1))"

definition input_edge :: "string list \<Rightarrow> string \<Rightarrow> pipeline_edge" where
  "input_edge sides name = (if name \<in> set sides then SingletonEdge else PerElement)"

definition link_input :: "pardo_decoder \<Rightarrow> ptransform \<Rightarrow> nat \<Rightarrow> string \<times> string \<Rightarrow> queryable_pipeline \<Rightarrow> queryable_pipeline" where
  "link_input dec transform t inp q =
     (case hm_get (c_pcollections (qp_components q)) (snd inp) of
        None \<Rightarrow> q
      | Some pcol \<Rightarrow>
          (let (i, q1) = collection_index (snd inp) pcol q
           in case get_local_side_input_names dec transform of
                Ok sides \<Rightarrow> add_edge i t (input_edge sides (fst inp)) q1
              | _ \<Rightarrow> q1))"

definition add_transform :: "pardo_decoder \<Rightarrow> string \<Rightarrow> queryable_pipeline \<Rightarrow> queryable_pipeline" where
  "add_transform dec i q =
     (case hm_get (c_transforms (qp_components q)) i of
        None \<Rightarrow> q
      | Some transform \<Rightarrow>
          (let t = length (qp_nodes q);
               q1 = q\<lparr>qp_nodes := qp_nodes q @ [TransformNode \<lparr>ptn_id = i, ptn_transform = transform\<rparr>],
                      qp_transform_ids := hm_insert i t (qp_transform_ids q)\<rparr>;
               q2 = fold (link_output t) (pt_outputs transform) q1
           in fold (link_input dec transform t) (pt_inputs transform) q2))"

definition build_graph :: "pardo_decoder \<Rightarrow> queryable_pipeline \<Rightarrow> queryable_pipeline" where
  "build_graph dec q =
     fold (add_transform dec) (qp_primitives q)
       (q\<lparr>qp_nodes := [], qp_edges := [], qp_transform_ids := [], qp_pcollection_ids := []\<rparr>)"

definition new_pipeline :: "pardo_decoder \<Rightarrow> nat \<Rightarrow> components \<Rightarrow> queryable_pipeline option" where
  "new_pipeline dec fuel comps =
     map_option (\<lambda>prims. build_graph dec
         \<lparr>qp_nodes = [], qp_edges = [], qp_transform_ids = [], qp_pcollection_ids = [],
          qp_components = comps, qp_primitives = prims\<rparr>)
       (get_primitives fuel comps)"

section \<open>Queries\<close>

definition node_at_index :: "queryable_pipeline \<Rightarrow> nat \<Rightarrow> pipeline_node option" where
  "node_at_index q i = (if i < length (qp_nodes q) then Some (qp_nodes q ! i) else None)"

definition successors :: "queryable_pipeline \<Rightarrow> nat \<Rightarrow> nat list" where
  "successors q i = map (\<lambda>(_, j, _). j) (filter (\<lambda>(s, _, _). s = i) (qp_edges q))"

definition predecessors :: "queryable_pipeline \<Rightarrow> nat \<Rightarrow> nat list" where
  "predecessors q i = map (\<lambda>(s, _, _). s) (filter (\<lambda>(_, j, _). j = i) (qp_edges q))"

definition as_transform :: "pipeline_node option \<Rightarrow> ptransform_node option" where
  "as_transform n = (case n of Some (TransformNode t) \<Rightarrow> Some t | _ \<Rightarrow> None)"

definition as_collection :: "pipeline_node option \<Rightarrow> pcollection_node option" where
  "as_collection n = (case n of Some (CollectionNode c) \<Rightarrow> Some c | _ \<Rightarrow> None)"

definition get_root_transforms :: "queryable_pipeline \<Rightarrow> ptransform_node list" where
  "get_root_transforms q =
     ext_by ptn_id [] (List.map_filter (\<lambda>i. as_transform (node_at_index q i))
       (filter (\<lambda>i. predecessors q i = []) [0..<length (qp_nodes q)]))"

text \<open>\<open>get_per_element_consumers\<close> and \<open>get_singleton_consumers\<close> differ in the edge they ask for.\<close>

definition consumers_by :: "pipeline_edge \<Rightarrow> queryable_pipeline \<Rightarrow> pcollection_node \<Rightarrow> ptransform_node list" where
  "consumers_by e q col =
     (case hm_get (qp_pcollection_ids q) (pcn_id col) of
        None \<Rightarrow> []
      | Some i \<Rightarrow>
          ext_by ptn_id [] (List.map_filter (\<lambda>j. as_transform (node_at_index q j))
            (filter (\<lambda>j. (i, j, e) \<in> set (qp_edges q)) (successors q i))))"

definition get_per_element_consumers :: "queryable_pipeline \<Rightarrow> pcollection_node \<Rightarrow> ptransform_node list" where
  "get_per_element_consumers = consumers_by PerElement"

definition get_singleton_consumers :: "queryable_pipeline \<Rightarrow> pcollection_node \<Rightarrow> ptransform_node list" where
  "get_singleton_consumers = consumers_by SingletonEdge"

definition get_output_pcol :: "queryable_pipeline \<Rightarrow> ptransform_node \<Rightarrow> pcollection_node list" where
  "get_output_pcol q t =
     (case hm_get (qp_transform_ids q) (ptn_id t) of
        None \<Rightarrow> []
      | Some i \<Rightarrow> ext_by pcn_id [] (List.map_filter (\<lambda>j. as_collection (node_at_index q j)) (successors q i)))"

definition flatten_has_different_input_and_output_coders :: "queryable_pipeline \<Rightarrow> ptransform \<Rightarrow> bool" where
  "flatten_has_different_input_and_output_coders q t =
     (case map snd (pt_outputs t) of
        [] \<Rightarrow> False
      | output_id # _ \<Rightarrow>
          (case hm_get (c_pcollections (qp_components q)) output_id of
             None \<Rightarrow> False
           | Some out \<Rightarrow>
               list_ex (\<lambda>i. case hm_get (c_pcollections (qp_components q)) i of
                              Some p \<Rightarrow> pc_coder_id p \<noteq> pc_coder_id out | None \<Rightarrow> False)
                 (map snd (pt_inputs t))))"

definition get_environment :: "queryable_pipeline \<Rightarrow> ptransform \<Rightarrow> environment option" where
  "get_environment q t =
     (case pt_spec t of
        Some spec \<Rightarrow>
          if spec_urn spec \<in> set FLARE
             \<and> \<not> (spec_urn spec = FLATTEN_TRANSFORM \<and> flatten_has_different_input_and_output_coders q t)
          then None
          else hm_get (c_environments (qp_components q)) (pt_environment_id t)
      | None \<Rightarrow> hm_get (c_environments (qp_components q)) (pt_environment_id t))"

text \<open>\<open>.map(..).collect::<Result<HashSet<_>, _>>()\<close>: the first error ends the iteration.\<close>

primrec collect_refs :: "('a \<Rightarrow> 'k) \<Rightarrow> (string \<Rightarrow> 'a translation) \<Rightarrow> string list \<Rightarrow> 'a list \<Rightarrow> 'a list translation" where
  "collect_refs key f [] acc = Ok acc"
| "collect_refs key f (n # ns) acc = rbind (f n) (\<lambda>r. collect_refs key f ns (ins_by key r acc))"

definition sir_key :: "side_input_ref \<Rightarrow> string \<times> string \<times> string" where
  "sir_key s = (pcn_id (sir_pcol s), ptn_id (sir_transform s), sir_name s)"

definition usr_key :: "user_state_ref \<Rightarrow> string \<times> string \<times> string" where
  "usr_key s = (ptn_id (usr_transform s), usr_name s, pcn_id (usr_pcol s))"

definition tr_key :: "timer_ref \<Rightarrow> string \<times> string" where
  "tr_key t = (ptn_id (tr_transform t), tr_name t)"

definition get_side_inputs :: "pardo_decoder \<Rightarrow> queryable_pipeline \<Rightarrow> ptransform_node \<Rightarrow> side_input_ref list translation" where
  "get_side_inputs dec q t =
     rbind (get_local_side_input_names dec (ptn_transform t)) (\<lambda>names.
       collect_refs sir_key (side_input_from_id (qp_components q) (ptn_id t)) names [])"

definition get_user_states :: "pardo_decoder \<Rightarrow> queryable_pipeline \<Rightarrow> ptransform_node \<Rightarrow> user_state_ref list translation" where
  "get_user_states dec q t =
     rbind (get_local_user_state_names dec (ptn_transform t)) (\<lambda>names.
       collect_refs usr_key (user_state_from_id dec (qp_components q) (ptn_id t)) names [])"

definition get_timers :: "pardo_decoder \<Rightarrow> queryable_pipeline \<Rightarrow> ptransform_node \<Rightarrow> timer_ref list translation" where
  "get_timers dec q t =
     rbind (get_local_timer_names dec (ptn_transform t)) (\<lambda>names.
       collect_refs tr_key (timer_from_id (qp_components q) (ptn_id t)) names [])"

section \<open>The graph by names\<close>

text \<open>Nodes are named by their identifiers, transforms on the left and PCollections on the right.\<close>

definition node_name :: "pipeline_node \<Rightarrow> string + string" where
  "node_name n = (case n of TransformNode t \<Rightarrow> Inl (ptn_id t) | CollectionNode c \<Rightarrow> Inr (pcn_id c))"

lemma node_name_simps [simp]:
  "node_name (TransformNode t) = Inl (ptn_id t)" "node_name (CollectionNode c) = Inr (pcn_id c)"
  by (simp_all add: node_name_def)

lemma node_name_eq_Inl: "node_name n = Inl i \<longleftrightarrow> (\<exists>t. n = TransformNode t \<and> ptn_id t = i)"
  by (cases n) auto

lemma node_name_eq_Inr: "node_name n = Inr i \<longleftrightarrow> (\<exists>c. n = CollectionNode c \<and> pcn_id c = i)"
  by (cases n) auto

definition name_at :: "queryable_pipeline \<Rightarrow> nat \<Rightarrow> string + string" where
  "name_at q i = node_name (qp_nodes q ! i)"

definition named_edges :: "queryable_pipeline \<Rightarrow> ((string + string) \<times> (string + string) \<times> pipeline_edge) set" where
  "named_edges q = (\<lambda>(a, b, e). (name_at q a, name_at q b, e)) ` set (qp_edges q)"

definition node_genuine :: "components \<Rightarrow> pipeline_node \<Rightarrow> bool" where
  "node_genuine comps n =
     (case n of
        TransformNode t \<Rightarrow> hm_get (c_transforms comps) (ptn_id t) = Some (ptn_transform t)
      | CollectionNode c \<Rightarrow> hm_get (c_pcollections comps) (pcn_id c) = Some (pcn_collection c))"

definition graph_wf :: "queryable_pipeline \<Rightarrow> bool" where
  "graph_wf q \<longleftrightarrow>
     (\<forall>(a, b, e) \<in> set (qp_edges q). a < length (qp_nodes q) \<and> b < length (qp_nodes q))
     \<and> distinct (map node_name (qp_nodes q))
     \<and> (\<forall>i n. hm_get (qp_transform_ids q) i = Some n \<longleftrightarrow> n < length (qp_nodes q) \<and> name_at q n = Inl i)
     \<and> (\<forall>i n. hm_get (qp_pcollection_ids q) i = Some n \<longleftrightarrow> n < length (qp_nodes q) \<and> name_at q n = Inr i)
     \<and> (\<forall>n \<in> set (qp_nodes q). node_genuine (qp_components q) n)"

lemma graph_wfD:
  assumes "graph_wf q"
  shows "(a, b, e) \<in> set (qp_edges q) \<Longrightarrow> a < length (qp_nodes q) \<and> b < length (qp_nodes q)"
    and "distinct (map node_name (qp_nodes q))"
    and "hm_get (qp_transform_ids q) i = Some n \<longleftrightarrow> n < length (qp_nodes q) \<and> name_at q n = Inl i"
    and "hm_get (qp_pcollection_ids q) i = Some n \<longleftrightarrow> n < length (qp_nodes q) \<and> name_at q n = Inr i"
    and "n < length (qp_nodes q) \<Longrightarrow> node_genuine (qp_components q) (qp_nodes q ! n)"
proof -
  show "(a, b, e) \<in> set (qp_edges q) \<Longrightarrow> a < length (qp_nodes q) \<and> b < length (qp_nodes q)"
    using assms by (fastforce simp: graph_wf_def)
  show "n < length (qp_nodes q) \<Longrightarrow> node_genuine (qp_components q) (qp_nodes q ! n)"
    using assms by (simp add: graph_wf_def)
qed (use assms in \<open>simp_all add: graph_wf_def\<close>)

lemma name_at_inject:
  "graph_wf q \<Longrightarrow> a < length (qp_nodes q) \<Longrightarrow> b < length (qp_nodes q) \<Longrightarrow> name_at q a = name_at q b \<longleftrightarrow> a = b"
  using nth_eq_iff_index_eq [of "map node_name (qp_nodes q)" a b] by (auto simp: name_at_def graph_wf_def)

lemma name_at_append:
  "i < length (qp_nodes q) \<Longrightarrow> qp_nodes q' = qp_nodes q @ ns \<Longrightarrow> name_at q' i = name_at q i"
  by (simp add: name_at_def nth_append)

lemma named_edges_append:
  assumes "graph_wf q" and "qp_nodes q' = qp_nodes q @ ns" and "qp_edges q' = qp_edges q"
  shows "named_edges q' = named_edges q"
proof -
  have "(name_at q' a, name_at q' b, e) = (name_at q a, name_at q b, e)" if "(a, b, e) \<in> set (qp_edges q)" for a b e
    using graph_wfD(1) [OF assms(1) that] name_at_append [OF _ assms(2)] by auto
  then show ?thesis
    unfolding named_edges_def assms(3) by (intro image_cong) auto
qed

lemma named_edges_iff:
  assumes "graph_wf q" and "a < length (qp_nodes q)" and "b < length (qp_nodes q)"
  shows "(name_at q a, name_at q b, e) \<in> named_edges q \<longleftrightarrow> (a, b, e) \<in> set (qp_edges q)"
proof
  assume "(name_at q a, name_at q b, e) \<in> named_edges q"
  then obtain a' b' where "(a', b', e) \<in> set (qp_edges q)" "name_at q a' = name_at q a" "name_at q b' = name_at q b"
    by (auto simp: named_edges_def)
  then show "(a, b, e) \<in> set (qp_edges q)"
    using graph_wfD(1) [OF assms(1)] name_at_inject [OF assms(1)] assms(2,3) by metis
qed (force simp: named_edges_def)

text \<open>Adding a node under a new name.\<close>

lemma graph_wf_add_node:
  assumes wf: "graph_wf q" and new: "node_name n \<notin> set (map node_name (qp_nodes q))" and gen: "node_genuine (qp_components q) n"
    and q': "qp_nodes q' = qp_nodes q @ [n]" "qp_edges q' = qp_edges q" "qp_components q' = qp_components q"
      "qp_transform_ids q' = (case n of TransformNode t \<Rightarrow> hm_insert (ptn_id t) (length (qp_nodes q)) (qp_transform_ids q) | _ \<Rightarrow> qp_transform_ids q)"
      "qp_pcollection_ids q' = (case n of CollectionNode c \<Rightarrow> hm_insert (pcn_id c) (length (qp_nodes q)) (qp_pcollection_ids q) | _ \<Rightarrow> qp_pcollection_ids q)"
  shows "graph_wf q'" and "named_edges q' = named_edges q"
proof -
  have name: "name_at q' i = (if i < length (qp_nodes q) then name_at q i else node_name n)" if "i < Suc (length (qp_nodes q))" for i
    using that by (auto simp: name_at_def q'(1) nth_append less_Suc_eq)
  have fresh: "\<not> (i < length (qp_nodes q) \<and> name_at q i = node_name n)" for i
    using new by (auto simp: name_at_def) (metis image_eqI nth_mem)
  have ids: "hm_get (qp_transform_ids q') i = Some k \<longleftrightarrow> k < Suc (length (qp_nodes q)) \<and> name_at q' k = Inl i" for i k
    using graph_wfD(3) [OF wf, of i k] fresh [of k] name [of k]
    by (cases n) (auto simp: q'(4) less_Suc_eq)
  have pids: "hm_get (qp_pcollection_ids q') i = Some k \<longleftrightarrow> k < Suc (length (qp_nodes q)) \<and> name_at q' k = Inr i" for i k
    using graph_wfD(4) [OF wf, of i k] fresh [of k] name [of k]
    by (cases n) (auto simp: q'(5) less_Suc_eq)
  have "\<forall>(a, b, e) \<in> set (qp_edges q'). a < length (qp_nodes q') \<and> b < length (qp_nodes q')"
    using graph_wfD(1) [OF wf] by (fastforce simp: q'(1,2))
  moreover have "distinct (map node_name (qp_nodes q'))" "\<forall>m \<in> set (qp_nodes q'). node_genuine (qp_components q') m"
    using wf new gen by (auto simp: graph_wf_def q'(1,3))
  ultimately show "graph_wf q'"
    using ids pids by (simp add: graph_wf_def q'(1))
  show "named_edges q' = named_edges q"
    by (rule named_edges_append [OF wf q'(1,2)])
qed

lemma add_edge_wf:
  assumes "graph_wf q" and "a < length (qp_nodes q)" and "b < length (qp_nodes q)"
  shows "graph_wf (add_edge a b e q)" and "named_edges (add_edge a b e q) = insert (name_at q a, name_at q b, e) (named_edges q)"
  using assms by (auto simp: graph_wf_def add_edge_def named_edges_def name_at_def)

text \<open>A graph in which the transform \<open>i\<close> sits at index \<open>t\<close>, over fixed components and transforms.\<close>

definition at_transform :: "components \<Rightarrow> (string, nat) hashmap \<Rightarrow> string \<Rightarrow> nat \<Rightarrow> queryable_pipeline \<Rightarrow> bool" where
  "at_transform comps tids i t q \<longleftrightarrow> graph_wf q \<and> qp_components q = comps \<and> qp_transform_ids q = tids
     \<and> t < length (qp_nodes q) \<and> name_at q t = Inl i"

lemma collection_index_wf:
  assumes at: "at_transform comps tids i t q" and known: "hm_get (c_pcollections comps) p = Some pcol"
    and eq: "collection_index p pcol q = (k, q1)"
  shows "at_transform comps tids i t q1 \<and> named_edges q1 = named_edges q \<and> k < length (qp_nodes q1) \<and> name_at q1 k = Inr p"
proof (cases "hm_get (qp_pcollection_ids q) p")
  case (Some idx)
  then show ?thesis
    using at eq graph_wfD(4) [of q p idx] by (auto simp: collection_index_def at_transform_def)
next
  case None
  let ?n = "CollectionNode \<lparr>pcn_id = p, pcn_collection = pcol\<rparr>"
  have wf: "graph_wf q"
    using at by (simp add: at_transform_def)
  have q1: "k = length (qp_nodes q)"
    "q1 = q\<lparr>qp_nodes := qp_nodes q @ [?n], qp_pcollection_ids := hm_insert p (length (qp_nodes q)) (qp_pcollection_ids q)\<rparr>"
    using None eq by (auto simp: collection_index_def)
  have new: "node_name ?n \<notin> set (map node_name (qp_nodes q))"
  proof
    assume "node_name ?n \<in> set (map node_name (qp_nodes q))"
    then obtain j where "j < length (qp_nodes q)" "name_at q j = Inr p"
      by (auto simp: in_set_conv_nth name_at_def)
    then show False
      using None graph_wfD(4) [OF wf, of p j] by simp
  qed
  have gen: "node_genuine (qp_components q) ?n"
    using known at by (simp add: node_genuine_def at_transform_def)
  have "graph_wf q1" "named_edges q1 = named_edges q"
    by (rule graph_wf_add_node [OF wf new gen]; simp add: q1(2))+
  then show ?thesis
    using at by (auto simp: at_transform_def q1 name_at_def nth_append)
qed

definition output_edges :: "components \<Rightarrow> string \<Rightarrow> (string \<times> string) list \<Rightarrow> ((string + string) \<times> (string + string) \<times> pipeline_edge) set" where
  "output_edges comps i outs =
     {(Inl i, Inr p, PerElement) | k p. (k, p) \<in> set outs \<and> hm_get (c_pcollections comps) p \<noteq> None}"

definition input_edges :: "pardo_decoder \<Rightarrow> components \<Rightarrow> string \<Rightarrow> ptransform \<Rightarrow> (string \<times> string) list
   \<Rightarrow> ((string + string) \<times> (string + string) \<times> pipeline_edge) set" where
  "input_edges dec comps i transform ins =
     {(Inr p, Inl i, input_edge sides k) | k p sides. (k, p) \<in> set ins
        \<and> hm_get (c_pcollections comps) p \<noteq> None \<and> get_local_side_input_names dec transform = Ok sides}"

lemma link_output_wf:
  assumes "at_transform comps tids i t q"
  shows "at_transform comps tids i t (link_output t out q)
    \<and> named_edges (link_output t out q) = named_edges q \<union> output_edges comps i [out]"
proof (cases "hm_get (c_pcollections comps) (snd out)")
  case None
  then show ?thesis
    using assms by (cases out) (auto simp: link_output_def at_transform_def output_edges_def)
next
  case (Some pcol)
  obtain k q1 where q1: "collection_index (snd out) pcol q = (k, q1)"
    by (cases "collection_index (snd out) pcol q")
  note c = collection_index_wf [OF assms Some q1]
  have "qp_components q = comps"
    using assms by (simp add: at_transform_def)
  then have eq: "link_output t out q = add_edge t k PerElement q1"
    using Some q1 by (simp add: link_output_def)
  have "graph_wf q1" "t < length (qp_nodes q1)" "k < length (qp_nodes q1)" "name_at q1 t = Inl i" "name_at q1 k = Inr (snd out)"
    using c by (auto simp: at_transform_def)
  moreover have "at_transform comps tids i t (add_edge t k PerElement q1)"
    using c add_edge_wf(1) [of q1 t k] by (auto simp: at_transform_def add_edge_def name_at_def)
  ultimately show ?thesis
    using c add_edge_wf(2) [of q1 t k PerElement] Some unfolding eq by (cases out) (auto simp: output_edges_def)
qed

lemma link_input_wf:
  assumes "at_transform comps tids i t q"
  shows "at_transform comps tids i t (link_input dec transform t inp q)
    \<and> named_edges (link_input dec transform t inp q) = named_edges q \<union> input_edges dec comps i transform [inp]"
proof (cases "hm_get (c_pcollections comps) (snd inp)")
  case None
  then show ?thesis
    using assms by (cases inp) (auto simp: link_input_def at_transform_def input_edges_def)
next
  case (Some pcol)
  obtain k q1 where q1: "collection_index (snd inp) pcol q = (k, q1)"
    by (cases "collection_index (snd inp) pcol q")
  note c = collection_index_wf [OF assms Some q1]
  have comps: "qp_components q = comps"
    using assms by (simp add: at_transform_def)
  have c': "graph_wf q1" "t < length (qp_nodes q1)" "k < length (qp_nodes q1)" "name_at q1 t = Inl i" "name_at q1 k = Inr (snd inp)"
    using c by (auto simp: at_transform_def)
  show ?thesis
  proof (cases "get_local_side_input_names dec transform")
    case (Ok sides)
    let ?e = "input_edge sides (fst inp)"
    have eq: "link_input dec transform t inp q = add_edge k t ?e q1"
      using Some q1 comps Ok by (simp add: link_input_def)
    have "at_transform comps tids i t (add_edge k t ?e q1)"
      using c c' add_edge_wf(1) [of q1 k t] by (auto simp: at_transform_def add_edge_def name_at_def)
    then show ?thesis
      using c c' add_edge_wf(2) [of q1 k t ?e] Some Ok unfolding eq by (cases inp) (auto simp: input_edges_def)
  qed (use Some q1 comps c in \<open>auto simp: link_input_def input_edges_def\<close>)
qed

lemma link_outputs_wf:
  "at_transform comps tids i t q \<Longrightarrow> at_transform comps tids i t (fold (link_output t) outs q)
    \<and> named_edges (fold (link_output t) outs q) = named_edges q \<union> output_edges comps i outs"
proof (induction outs arbitrary: q)
  case (Cons out outs)
  have "output_edges comps i (out # outs) = output_edges comps i [out] \<union> output_edges comps i outs"
    by (auto simp: output_edges_def)
  then show ?case
    using Cons.IH [of "link_output t out q"] link_output_wf [OF Cons.prems] by (simp add: Un_assoc)
qed (simp add: output_edges_def)

lemma link_inputs_wf:
  "at_transform comps tids i t q \<Longrightarrow> at_transform comps tids i t (fold (link_input dec transform t) ins q)
    \<and> named_edges (fold (link_input dec transform t) ins q) = named_edges q \<union> input_edges dec comps i transform ins"
proof (induction ins arbitrary: q)
  case (Cons inp ins)
  have "input_edges dec comps i transform (inp # ins) = input_edges dec comps i transform [inp] \<union> input_edges dec comps i transform ins"
    by (auto simp: input_edges_def)
  then show ?case
    using Cons.IH [of "link_input dec transform t inp q"] link_input_wf [OF Cons.prems] by (simp add: Un_assoc)
qed (simp add: input_edges_def)

definition transform_edges :: "pardo_decoder \<Rightarrow> components \<Rightarrow> string \<Rightarrow> ((string + string) \<times> (string + string) \<times> pipeline_edge) set" where
  "transform_edges dec comps i =
     (case hm_get (c_transforms comps) i of
        None \<Rightarrow> {}
      | Some t \<Rightarrow> output_edges comps i (pt_outputs t) \<union> input_edges dec comps i t (pt_inputs t))"

lemma add_transform_wf:
  assumes wf: "graph_wf q" and new: "hm_get (qp_transform_ids q) i = None"
  shows "graph_wf (add_transform dec i q)" and "qp_components (add_transform dec i q) = qp_components q"
    and "named_edges (add_transform dec i q) = named_edges q \<union> transform_edges dec (qp_components q) i"
    and "hm_get (qp_transform_ids (add_transform dec i q)) k \<noteq> None \<longleftrightarrow>
      hm_get (qp_transform_ids q) k \<noteq> None \<or> (k = i \<and> hm_get (c_transforms (qp_components q)) i \<noteq> None)"
proof -
  have "graph_wf (add_transform dec i q) \<and> qp_components (add_transform dec i q) = qp_components q
    \<and> named_edges (add_transform dec i q) = named_edges q \<union> transform_edges dec (qp_components q) i
    \<and> (hm_get (qp_transform_ids (add_transform dec i q)) k \<noteq> None \<longleftrightarrow>
      hm_get (qp_transform_ids q) k \<noteq> None \<or> (k = i \<and> hm_get (c_transforms (qp_components q)) i \<noteq> None))"
  proof (cases "hm_get (c_transforms (qp_components q)) i")
    case None
    then show ?thesis
      using wf by (simp add: add_transform_def transform_edges_def)
  next
    case (Some t)
    let ?n = "TransformNode \<lparr>ptn_id = i, ptn_transform = t\<rparr>"
    let ?k = "length (qp_nodes q)"
    define q1 where "q1 = q\<lparr>qp_nodes := qp_nodes q @ [?n], qp_transform_ids := hm_insert i ?k (qp_transform_ids q)\<rparr>"
    have fresh: "node_name ?n \<notin> set (map node_name (qp_nodes q))"
    proof
      assume "node_name ?n \<in> set (map node_name (qp_nodes q))"
      then obtain j where "j < ?k" "name_at q j = Inl i"
        by (auto simp: in_set_conv_nth name_at_def)
      then show False
        using new graph_wfD(3) [OF wf, of i j] by simp
    qed
    have gen: "node_genuine (qp_components q) ?n"
      using Some by (simp add: node_genuine_def)
    have "graph_wf q1" and ne: "named_edges q1 = named_edges q"
      by (rule graph_wf_add_node [OF wf fresh gen]; simp add: q1_def)+
    then have at: "at_transform (qp_components q) (hm_insert i ?k (qp_transform_ids q)) i ?k q1"
      by (simp add: at_transform_def q1_def name_at_def)
    define q2 where "q2 = fold (link_output ?k) (pt_outputs t) q1"
    note l2 = link_outputs_wf [OF at, of "pt_outputs t", folded q2_def]
    have "add_transform dec i q = fold (link_input dec t ?k) (pt_inputs t) q2"
      using Some by (simp add: add_transform_def q1_def q2_def Let_def)
    then show ?thesis
      using link_inputs_wf [OF conjunct1 [OF l2], of dec t "pt_inputs t"] l2 ne Some
      by (auto simp: at_transform_def transform_edges_def)
  qed
  then show "graph_wf (add_transform dec i q)" and "qp_components (add_transform dec i q) = qp_components q"
    and "named_edges (add_transform dec i q) = named_edges q \<union> transform_edges dec (qp_components q) i"
    and "hm_get (qp_transform_ids (add_transform dec i q)) k \<noteq> None \<longleftrightarrow>
      hm_get (qp_transform_ids q) k \<noteq> None \<or> (k = i \<and> hm_get (c_transforms (qp_components q)) i \<noteq> None)"
    by blast+
qed

lemma add_transforms_wf:
  "graph_wf q \<Longrightarrow> distinct ids \<Longrightarrow> \<forall>i \<in> set ids. hm_get (qp_transform_ids q) i = None \<Longrightarrow>
   graph_wf (fold (add_transform dec) ids q) \<and> qp_components (fold (add_transform dec) ids q) = qp_components q
   \<and> named_edges (fold (add_transform dec) ids q) = named_edges q \<union> (\<Union>i \<in> set ids. transform_edges dec (qp_components q) i)
   \<and> (\<forall>k. hm_get (qp_transform_ids (fold (add_transform dec) ids q)) k \<noteq> None \<longleftrightarrow>
       hm_get (qp_transform_ids q) k \<noteq> None \<or> (k \<in> set ids \<and> hm_get (c_transforms (qp_components q)) k \<noteq> None))"
proof (induction ids arbitrary: q)
  case (Cons i ids)
  let ?q = "add_transform dec i q"
  have new: "hm_get (qp_transform_ids q) i = None"
    using Cons.prems(3) by simp
  note a = add_transform_wf [OF Cons.prems(1) new, of dec]
  have "\<forall>k \<in> set ids. hm_get (qp_transform_ids ?q) k = None"
    using Cons.prems(2,3) a(4) by (metis distinct.simps(2) list.set_intros(2))
  then show ?case
    using Cons.IH [OF a(1)] Cons.prems(2) a(2-4) by (auto simp: Un_assoc)
qed simp

lemma primitive_leaves_distinct:
  "primitive_leaves fuel comps deque ids = Some out \<Longrightarrow> distinct ids \<Longrightarrow> distinct out"
  by (induction fuel comps deque ids rule: primitive_leaves.induct) (auto split: option.splits if_splits)

lemma collect_primitives_distinct:
  "collect_primitives fuel comps ts ids = Some out \<Longrightarrow> distinct ids \<Longrightarrow> distinct out"
  by (induction fuel comps ts ids rule: collect_primitives.induct)
    (auto dest: primitive_leaves_distinct split: if_splits bind_splits)

lemma build_graph_wf:
  assumes "distinct (qp_primitives q)"
  shows "graph_wf (build_graph dec q)" and "qp_components (build_graph dec q) = qp_components q"
    and "named_edges (build_graph dec q) = (\<Union>i \<in> set (qp_primitives q). transform_edges dec (qp_components q) i)"
    and "hm_get (qp_transform_ids (build_graph dec q)) k \<noteq> None \<longleftrightarrow>
      k \<in> set (qp_primitives q) \<and> hm_get (c_transforms (qp_components q)) k \<noteq> None"
proof -
  let ?q = "q\<lparr>qp_nodes := [], qp_edges := [], qp_transform_ids := [], qp_pcollection_ids := []\<rparr>"
  have "graph_wf ?q" "named_edges ?q = {}"
    by (auto simp: graph_wf_def named_edges_def)
  then show "graph_wf (build_graph dec q)" and "qp_components (build_graph dec q) = qp_components q"
    and "named_edges (build_graph dec q) = (\<Union>i \<in> set (qp_primitives q). transform_edges dec (qp_components q) i)"
    and "hm_get (qp_transform_ids (build_graph dec q)) k \<noteq> None \<longleftrightarrow>
      k \<in> set (qp_primitives q) \<and> hm_get (c_transforms (qp_components q)) k \<noteq> None"
    using add_transforms_wf [of ?q "qp_primitives q" dec] assms by (simp_all add: build_graph_def)
qed

section \<open>What the queries return\<close>

lemma successors_iff:
  "graph_wf q \<Longrightarrow> j \<in> set (successors q i) \<longleftrightarrow> (\<exists>e. (i, j, e) \<in> set (qp_edges q))"
  by (force simp: successors_def)

lemma distinct_keys_ext_by [simp]: "distinct (map key (ext_by key [] xs))"
  by (rule distinct_ext_by) simp

text \<open>Nodes of the graph with equal keys are equal, so collecting them by key loses none.\<close>

lemma set_ext_by_inj:
  assumes "\<And>x y. x \<in> set xs \<Longrightarrow> y \<in> set xs \<Longrightarrow> key x = key y \<Longrightarrow> x = y"
  shows "set (ext_by key [] xs) = set xs"
proof
  show sub: "set (ext_by key [] xs) \<subseteq> set xs"
    using set_ext_by_subset [of key "[]" xs] by simp
  show "set xs \<subseteq> set (ext_by key [] xs)"
  proof
    fix x
    assume x: "x \<in> set xs"
    then have "key x \<in> set (map key (ext_by key [] xs))"
      unfolding keys_ext_by by simp
    then obtain y where "y \<in> set (ext_by key [] xs)" "key y = key x"
      by auto
    then show "x \<in> set (ext_by key [] xs)"
      using assms [of x y] sub x by auto
  qed
qed

definition transform_node :: "queryable_pipeline \<Rightarrow> ptransform_node \<Rightarrow> bool" where
  "transform_node q t \<longleftrightarrow> hm_get (c_transforms (qp_components q)) (ptn_id t) = Some (ptn_transform t)"

definition collection_node :: "queryable_pipeline \<Rightarrow> pcollection_node \<Rightarrow> bool" where
  "collection_node q c \<longleftrightarrow> hm_get (c_pcollections (qp_components q)) (pcn_id c) = Some (pcn_collection c)"

lemma transform_node_eq: "transform_node q t \<Longrightarrow> transform_node q u \<Longrightarrow> ptn_id t = ptn_id u \<Longrightarrow> t = u"
  by (cases t; cases u) (auto simp: transform_node_def)

lemma collection_node_eq: "collection_node q c \<Longrightarrow> collection_node q d \<Longrightarrow> pcn_id c = pcn_id d \<Longrightarrow> c = d"
  by (cases c; cases d) (auto simp: collection_node_def)

lemma as_transform_at:
  assumes "graph_wf q"
  shows "as_transform (node_at_index q j) = Some t \<longleftrightarrow> j < length (qp_nodes q) \<and> name_at q j = Inl (ptn_id t) \<and> transform_node q t"
  using graph_wfD(5) [OF assms, of j]
  by (auto simp: as_transform_def node_at_index_def name_at_def node_genuine_def transform_node_def
      split: pipeline_node.splits)

lemma as_collection_at:
  assumes "graph_wf q"
  shows "as_collection (node_at_index q j) = Some c \<longleftrightarrow> j < length (qp_nodes q) \<and> name_at q j = Inr (pcn_id c) \<and> collection_node q c"
  using graph_wfD(5) [OF assms, of j]
  by (auto simp: as_collection_def node_at_index_def name_at_def node_genuine_def collection_node_def
      split: pipeline_node.splits)

lemma named_edge_ends:
  assumes "graph_wf q" and "(x, y, e) \<in> named_edges q"
  shows "(\<exists>a < length (qp_nodes q). name_at q a = x) \<and> (\<exists>b < length (qp_nodes q). name_at q b = y)"
proof -
  obtain a b where "(a, b, e) \<in> set (qp_edges q)" "name_at q a = x" "name_at q b = y"
    using assms(2) by (auto simp: named_edges_def)
  then show ?thesis
    using graph_wfD(1) [OF assms(1)] by blast
qed

lemma consumers_by_iff:
  assumes wf: "graph_wf q"
  shows "t \<in> set (consumers_by e q col) \<longleftrightarrow> (Inr (pcn_id col), Inl (ptn_id t), e) \<in> named_edges q \<and> transform_node q t"
proof (cases "hm_get (qp_pcollection_ids q) (pcn_id col)")
  case None
  have "(Inr (pcn_id col), x, e) \<notin> named_edges q" for x
  proof
    assume "(Inr (pcn_id col), x, e) \<in> named_edges q"
    then obtain a b where "(a, b, e) \<in> set (qp_edges q)" "name_at q a = Inr (pcn_id col)"
      by (auto simp: named_edges_def)
    then show False
      using graph_wfD(1) [OF wf] graph_wfD(4) [OF wf, of "pcn_id col" a] None by (metis option.distinct(1))
  qed
  then show ?thesis
    using None by (simp add: consumers_by_def)
next
  case (Some i)
  have i: "i < length (qp_nodes q)" "name_at q i = Inr (pcn_id col)"
    using Some graph_wfD(4) [OF wf] by auto
  let ?js = "filter (\<lambda>j. (i, j, e) \<in> set (qp_edges q)) (successors q i)"
  let ?ts = "List.map_filter (\<lambda>j. as_transform (node_at_index q j)) ?js"
  have mem: "u \<in> set ?ts \<longleftrightarrow> (Inr (pcn_id col), Inl (ptn_id u), e) \<in> named_edges q \<and> transform_node q u" for u
  proof -
    have "u \<in> set ?ts \<longleftrightarrow> (\<exists>j. (i, j, e) \<in> set (qp_edges q) \<and> as_transform (node_at_index q j) = Some u)"
      by (auto simp: set_map_filter_iff successors_iff [OF wf])
    also have "\<dots> \<longleftrightarrow> (\<exists>j < length (qp_nodes q). (name_at q i, name_at q j, e) \<in> named_edges q
        \<and> name_at q j = Inl (ptn_id u)) \<and> transform_node q u"
      unfolding as_transform_at [OF wf] using named_edges_iff [OF wf i(1)] by blast
    also have "(\<exists>j < length (qp_nodes q). (name_at q i, name_at q j, e) \<in> named_edges q \<and> name_at q j = Inl (ptn_id u))
        \<longleftrightarrow> (Inr (pcn_id col), Inl (ptn_id u), e) \<in> named_edges q"
      unfolding i(2) using named_edge_ends [OF wf, of _ "Inl (ptn_id u)" e] by metis
    finally show ?thesis .
  qed
  have "set (ext_by ptn_id [] ?ts) = set ?ts"
    by (rule set_ext_by_inj) (metis mem transform_node_eq)
  then show ?thesis
    using Some mem by (simp add: consumers_by_def)
qed

lemma get_output_pcol_iff:
  assumes wf: "graph_wf q"
  shows "c \<in> set (get_output_pcol q t) \<longleftrightarrow> (\<exists>e. (Inl (ptn_id t), Inr (pcn_id c), e) \<in> named_edges q) \<and> collection_node q c"
proof (cases "hm_get (qp_transform_ids q) (ptn_id t)")
  case None
  have "(Inl (ptn_id t), x, e) \<notin> named_edges q" for x e
  proof
    assume "(Inl (ptn_id t), x, e) \<in> named_edges q"
    then obtain a where "a < length (qp_nodes q)" "name_at q a = Inl (ptn_id t)"
      using named_edge_ends [OF wf] by blast
    then show False
      using graph_wfD(3) [OF wf, of "ptn_id t" a] None by simp
  qed
  then show ?thesis
    using None by (simp add: get_output_pcol_def)
next
  case (Some i)
  have i: "i < length (qp_nodes q)" "name_at q i = Inl (ptn_id t)"
    using Some graph_wfD(3) [OF wf] by auto
  let ?cs = "List.map_filter (\<lambda>j. as_collection (node_at_index q j)) (successors q i)"
  have mem: "u \<in> set ?cs \<longleftrightarrow> (\<exists>e. (Inl (ptn_id t), Inr (pcn_id u), e) \<in> named_edges q) \<and> collection_node q u" for u
  proof -
    have "u \<in> set ?cs \<longleftrightarrow> (\<exists>j e. (i, j, e) \<in> set (qp_edges q) \<and> as_collection (node_at_index q j) = Some u)"
      unfolding set_map_filter_iff Bex_def successors_iff [OF wf] by blast
    also have "\<dots> \<longleftrightarrow> (\<exists>e. \<exists>j < length (qp_nodes q). (name_at q i, name_at q j, e) \<in> named_edges q
        \<and> name_at q j = Inr (pcn_id u)) \<and> collection_node q u"
      unfolding as_collection_at [OF wf] using named_edges_iff [OF wf i(1)] by blast
    also have "(\<exists>e. \<exists>j < length (qp_nodes q). (name_at q i, name_at q j, e) \<in> named_edges q \<and> name_at q j = Inr (pcn_id u))
        \<longleftrightarrow> (\<exists>e. (Inl (ptn_id t), Inr (pcn_id u), e) \<in> named_edges q)"
      unfolding i(2) using named_edge_ends [OF wf, of _ "Inr (pcn_id u)"] by metis
    finally show ?thesis .
  qed
  have "set (ext_by pcn_id [] ?cs) = set ?cs"
    by (rule set_ext_by_inj) (metis mem collection_node_eq)
  then show ?thesis
    using Some mem by (simp add: get_output_pcol_def)
qed

text \<open>A built pipeline, and the edges of its graph in terms of the components.\<close>

definition pipeline_of :: "pardo_decoder \<Rightarrow> components \<Rightarrow> string list \<Rightarrow> queryable_pipeline" where
  "pipeline_of dec comps prims = build_graph dec
     \<lparr>qp_nodes = [], qp_edges = [], qp_transform_ids = [], qp_pcollection_ids = [],
      qp_components = comps, qp_primitives = prims\<rparr>"

lemma new_pipeline_of:
  assumes "new_pipeline dec fuel comps = Some q"
  obtains prims where "get_primitives fuel comps = Some prims" "distinct prims" "q = pipeline_of dec comps prims"
  using assms that collect_primitives_distinct [of fuel comps "c_transforms comps" "[]"]
  by (auto simp: new_pipeline_def pipeline_of_def get_primitives_def)

lemma pipeline_of_wf:
  assumes "distinct prims"
  shows "graph_wf (pipeline_of dec comps prims)" and "qp_components (pipeline_of dec comps prims) = comps"
    and "named_edges (pipeline_of dec comps prims) = (\<Union>i \<in> set prims. transform_edges dec comps i)"
  using build_graph_wf [of "\<lparr>qp_nodes = [], qp_edges = [], qp_transform_ids = [], qp_pcollection_ids = [],
      qp_components = comps, qp_primitives = prims\<rparr>" dec] assms
  by (simp_all add: pipeline_of_def)

text \<open>\<open>name\<close> is an input of the primitive transform \<open>t\<close>, a side input when \<open>side\<close>.\<close>

definition reads :: "pardo_decoder \<Rightarrow> components \<Rightarrow> string list \<Rightarrow> bool \<Rightarrow> string \<Rightarrow> ptransform_node \<Rightarrow> bool" where
  "reads dec comps prims side p t \<longleftrightarrow>
     ptn_id t \<in> set prims \<and> hm_get (c_transforms comps) (ptn_id t) = Some (ptn_transform t)
     \<and> hm_get (c_pcollections comps) p \<noteq> None
     \<and> (\<exists>sides name. get_local_side_input_names dec (ptn_transform t) = Ok sides
          \<and> (name, p) \<in> set (pt_inputs (ptn_transform t)) \<and> (name \<in> set sides \<longleftrightarrow> side))"

lemma transform_edges_in:
  "(Inr p, Inl i, e) \<in> transform_edges dec comps j \<longleftrightarrow> i = j \<and> (\<exists>tr sides k. hm_get (c_transforms comps) i = Some tr
     \<and> (k, p) \<in> set (pt_inputs tr) \<and> hm_get (c_pcollections comps) p \<noteq> None
     \<and> get_local_side_input_names dec tr = Ok sides \<and> e = input_edge sides k)"
  unfolding transform_edges_def output_edges_def input_edges_def by (cases "hm_get (c_transforms comps) j") auto

lemma transform_edges_out:
  "(Inl i, Inr p, e) \<in> transform_edges dec comps j \<longleftrightarrow> i = j \<and> e = PerElement \<and> (\<exists>tr k. hm_get (c_transforms comps) i = Some tr
     \<and> (k, p) \<in> set (pt_outputs tr) \<and> hm_get (c_pcollections comps) p \<noteq> None)"
  unfolding transform_edges_def output_edges_def input_edges_def by (cases "hm_get (c_transforms comps) j") auto

lemma input_edge_eq: "input_edge sides k = e \<longleftrightarrow> e \<noteq> TimerEdge \<and> (k \<in> set sides \<longleftrightarrow> e = SingletonEdge)"
  by (cases e) (auto simp: input_edge_def)

lemma reads_edge:
  assumes "e \<noteq> TimerEdge"
  shows "(Inr p, Inl (ptn_id t), e) \<in> (\<Union>i \<in> set prims. transform_edges dec comps i)
      \<and> hm_get (c_transforms comps) (ptn_id t) = Some (ptn_transform t)
    \<longleftrightarrow> reads dec comps prims (e = SingletonEdge) p t"
  unfolding UN_iff transform_edges_in reads_def eq_commute [of e] input_edge_eq using assms by auto

lemma consumers_read:
  assumes "distinct prims"
  shows "t \<in> set (get_per_element_consumers (pipeline_of dec comps prims) col) \<longleftrightarrow> reads dec comps prims False (pcn_id col) t"
    and "t \<in> set (get_singleton_consumers (pipeline_of dec comps prims) col) \<longleftrightarrow> reads dec comps prims True (pcn_id col) t"
  using reads_edge [of PerElement "pcn_id col" t dec comps prims] reads_edge [of SingletonEdge "pcn_id col" t dec comps prims]
    consumers_by_iff [OF pipeline_of_wf(1) [OF assms]] pipeline_of_wf [OF assms]
  by (simp_all add: get_per_element_consumers_def get_singleton_consumers_def transform_node_def)

end
