(* ===== verification/Fuser.thy ===== *)
theory Fuser
  imports Queryable_Pipeline "HOL-Library.Product_Lexorder"
begin

text \<open>
  Greedy fusion (\<open>fusion/fuser.rs\<close>): grouping sibling consumers, growing a stage from its
  roots, and walking the pipeline from the roots' consumers. A stage takes its identifier from \<open>uuid n\<close>, the \<open>n\<close>-th
  value of the process's random UUIDs, and \<open>n\<close> is threaded through. Sets of consumers
  (\<open>BTreeSet\<close>) are lists in the order of their keys.
\<close>

section \<open>URNs and environments\<close>

definition get_urn :: "ptransform_node \<Rightarrow> string" where
  "get_urn t = (case pt_spec (ptn_transform t) of Some spec \<Rightarrow> spec_urn spec | None \<Rightarrow> '''')"

definition COMBINE_FUSIBLE :: "string list" where
  "COMBINE_FUSIBLE = [COMBINE_PER_KEY_PRECOMBINE_TRANSFORM_URN, COMBINE_PER_KEY_MERGE_ACCUMULATORS_TRANSFORM_URN,
     COMBINE_PER_KEY_EXTRACT_OUTPUTS_TRANSFORM_URN]"

definition transform_has_splittable_process_urn :: "ptransform_node \<Rightarrow> bool" where
  "transform_has_splittable_process_urn t =
     (case pt_spec (ptn_transform t) of
        Some spec \<Rightarrow> spec_urn spec \<in> {SPLITTABLE_PROCESS_ELEMENTS_URN, SPLITTABLE_PROCESS_KEYED_URN,
                       SPLITTABLE_PROCESS_SIZED_ELEMENTS_AND_RESTRICTIONS_URN}
      | None \<Rightarrow> False)"

definition same_environment :: "environment \<Rightarrow> environment \<Rightarrow> bool" where
  "same_environment a b \<longleftrightarrow> env_urn a = env_urn b"

definition compatible_environments :: "queryable_pipeline \<Rightarrow> ptransform_node \<Rightarrow> ptransform_node \<Rightarrow> bool" where
  "compatible_environments q l r \<longleftrightarrow> get_environment q (ptn_transform l) = get_environment q (ptn_transform r)"

fun check_environments :: "queryable_pipeline \<Rightarrow> environment \<Rightarrow> ptransform_node list \<Rightarrow> unit translation" where
  "check_environments q env [] = Ok ()"
| "check_environments q env (t # ts) =
     rbind (ok_or (get_environment q (ptn_transform t)) (InvalidArgument ''Environment must be populated'')) (\<lambda>e.
       if same_environment env e then check_environments q env ts
       else Err (InvalidArgument ''All PTransformNodes must share an environment''))"

definition get_stage_environment :: "queryable_pipeline \<Rightarrow> ptransform_node list \<Rightarrow> environment translation" where
  "get_stage_environment q nodes =
     (case nodes of
        [] \<Rightarrow> Panic
      | t # _ \<Rightarrow>
          rbind (ok_or (get_environment q (ptn_transform t)) (InvalidArgument ''Environment must be populated'')) (\<lambda>env.
          rbind (check_environments q env nodes) (\<lambda>_. Ok env)))"

section \<open>Compatibility and fusibility of single transforms\<close>

definition has_side_inputs_in_payload :: "pardo_decoder \<Rightarrow> queryable_pipeline \<Rightarrow> ptransform_node \<Rightarrow> bool" where
  "has_side_inputs_in_payload dec q t = (case get_side_inputs dec q t of Ok sides \<Rightarrow> sides \<noteq> [] | _ \<Rightarrow> True)"

definition has_state_or_timers :: "pardo_decoder \<Rightarrow> ptransform_node \<Rightarrow> bool" where
  "has_state_or_timers dec t =
     (case pt_spec (ptn_transform t) of
        None \<Rightarrow> False
      | Some spec \<Rightarrow>
          if spec_payload spec = [] then False
          else (case dec (spec_payload spec) of
                  Some p \<Rightarrow> pp_state_specs p \<noteq> [] \<or> pp_timer_family_specs p \<noteq> []
                | None \<Rightarrow> True))"

definition par_do_compatibility :: "pardo_decoder \<Rightarrow> queryable_pipeline \<Rightarrow> ptransform_node \<Rightarrow> ptransform_node \<Rightarrow> bool" where
  "par_do_compatibility dec q t other \<longleftrightarrow>
     ptn_id t = ptn_id other
     \<or> \<not> has_side_inputs_in_payload dec q t \<and> \<not> has_state_or_timers dec t \<and> compatible_environments q t other"

definition is_compatible_one_way :: "pardo_decoder \<Rightarrow> queryable_pipeline \<Rightarrow> ptransform_node \<Rightarrow> ptransform_node \<Rightarrow> bool" where
  "is_compatible_one_way dec q t other =
     (let urn = get_urn t
      in if urn \<in> set SPLITTABLE_PARDO_COMPONENTS then False
         else if urn = PAR_DO_TRANSFORM then par_do_compatibility dec q t other
         else if urn \<in> set COMBINE_FUSIBLE \<or> urn = ASSIGN_WINDOWS_TRANSFORM then compatible_environments q t other
         else False)"

definition is_compatible :: "pardo_decoder \<Rightarrow> queryable_pipeline \<Rightarrow> ptransform_node \<Rightarrow> ptransform_node \<Rightarrow> bool" where
  "is_compatible dec q t other \<longleftrightarrow> is_compatible_one_way dec q t other \<and> is_compatible_one_way dec q other t"

definition env_matches :: "queryable_pipeline \<Rightarrow> ptransform_node \<Rightarrow> environment \<Rightarrow> bool" where
  "env_matches q t env = (case get_environment q (ptn_transform t) of Some e \<Rightarrow> same_environment e env | None \<Rightarrow> False)"

definition can_fuse_pardo :: "pardo_decoder \<Rightarrow> queryable_pipeline \<Rightarrow> ptransform_node \<Rightarrow> environment \<Rightarrow> pcollection_node \<Rightarrow> bool" where
  "can_fuse_pardo dec q t env candidate =
     (if \<not> env_matches q t env then False
      else (case pt_spec (ptn_transform t) of
              None \<Rightarrow> False
            | Some spec \<Rightarrow>
                if spec_payload spec = [] then False
                else (case dec (spec_payload spec) of
                        None \<Rightarrow> False
                      | Some p \<Rightarrow>
                          if list_ex (\<lambda>(k, v). k \<in> set (pp_timer_family_specs p) \<and> v = pcn_id candidate) (pt_inputs (ptn_transform t))
                          then True
                          else if pp_state_specs p \<noteq> [] \<or> pp_timer_family_specs p \<noteq> [] then False
                          else \<not> has_side_inputs_in_payload dec q t)))"

definition can_fuse_compatible_env :: "queryable_pipeline \<Rightarrow> ptransform_node \<Rightarrow> environment \<Rightarrow> bool" where
  "can_fuse_compatible_env q t env = env_matches q t env"

text \<open>\<open>GreedyCollectionFuser::can_fuse\<close>\<close>

definition can_fuse_node :: "pardo_decoder \<Rightarrow> queryable_pipeline \<Rightarrow> ptransform_node \<Rightarrow> environment \<Rightarrow> pcollection_node \<Rightarrow> bool" where
  "can_fuse_node dec q t env candidate =
     (let urn = get_urn t
      in if urn \<in> {PAR_DO_TRANSFORM, SPLITTABLE_PAIR_WITH_RESTRICTION_URN, SPLITTABLE_SPLIT_AND_SIZE_RESTRICTIONS_URN}
         then can_fuse_pardo dec q t env candidate
         else if urn \<in> {SPLITTABLE_PROCESS_KEYED_URN, SPLITTABLE_PROCESS_ELEMENTS_URN,
                   SPLITTABLE_PROCESS_SIZED_ELEMENTS_AND_RESTRICTIONS_URN, GROUP_BY_KEY_TRANSFORM, CREATE_VIEW_TRANSFORM}
         then False
         else if urn \<in> set COMBINE_FUSIBLE \<or> urn = ASSIGN_WINDOWS_TRANSFORM then can_fuse_compatible_env q t env
         else urn = FLATTEN_TRANSFORM)"

definition any_sideinputs :: "queryable_pipeline \<Rightarrow> ptransform_node \<Rightarrow> bool" where
  "any_sideinputs q t =
     list_ex (\<lambda>(_, i). case hm_get (c_pcollections (qp_components q)) i of
                Some col \<Rightarrow> get_singleton_consumers q \<lparr>pcn_id = i, pcn_collection = col\<rparr> \<noteq> [] | None \<Rightarrow> False)
       (pt_inputs (ptn_transform t))"

datatype pcollection_fusibility = FUSE | MATERIALIZE

definition can_fuse :: "pardo_decoder \<Rightarrow> queryable_pipeline \<Rightarrow> pcollection_node \<Rightarrow> environment \<Rightarrow> pcollection_fusibility" where
  "can_fuse dec q candidate env =
     (if list_ex (\<lambda>t. any_sideinputs q t \<or> \<not> can_fuse_node dec q t env candidate) (get_per_element_consumers q candidate)
      then MATERIALIZE
      else if get_singleton_consumers q candidate \<noteq> [] then MATERIALIZE
      else FUSE)"

section \<open>Growing a stage\<close>

definition stage_from ::
  "(nat \<Rightarrow> string) \<Rightarrow> nat \<Rightarrow> components \<Rightarrow> environment \<Rightarrow> pcollection_node \<Rightarrow> side_input_ref list \<Rightarrow> user_state_ref list
   \<Rightarrow> timer_ref list \<Rightarrow> pcollection_node list \<Rightarrow> ptransform_node list \<Rightarrow> executable_stage \<times> nat" where
  "stage_from uuid n comps env inp sides states ts outs transforms =
     (\<lparr>es_id = uuid n, es_components = comps, es_environment = env, es_input_pcol = inp, es_side_inputs = sides,
       es_user_states = states, es_timers = ts, es_output_pcols = outs, es_transforms = transforms\<rparr>, Suc n)"

text \<open>The sets a stage is grown in, and the queue of candidate PCollections.\<close>

record stage_growth =
  sg_transforms :: "ptransform_node list"
  sg_side_inputs :: "side_input_ref list"
  sg_fused :: "pcollection_node list"
  sg_materialized :: "pcollection_node list"

definition classified :: "stage_growth \<Rightarrow> string set" where
  "classified g = pcn_id ` set (sg_fused g) \<union> pcn_id ` set (sg_materialized g)"

text \<open>The loop over the consumers of a fused candidate: their outputs join the queue, their side inputs the stage.\<close>

fun add_consumers :: "pardo_decoder \<Rightarrow> queryable_pipeline \<Rightarrow> ptransform_node list \<Rightarrow> pcollection_node list \<Rightarrow> side_input_ref list
   \<Rightarrow> (pcollection_node list \<times> side_input_ref list) translation" where
  "add_consumers dec q [] queue sides = Ok (queue, sides)"
| "add_consumers dec q (t # ts) queue sides =
     rbind (get_side_inputs dec q t) (\<lambda>s. add_consumers dec q ts (queue @ get_output_pcol q t) (ext_by sir_key sides s))"

definition is_splittable_component :: "ptransform_node \<Rightarrow> bool" where
  "is_splittable_component t =
     (case pt_spec (ptn_transform t) of Some spec \<Rightarrow> spec_urn spec \<in> set SPLITTABLE_PARDO_COMPONENTS | None \<Rightarrow> False)"

definition unclassified :: "queryable_pipeline \<Rightarrow> stage_growth \<Rightarrow> nat" where
  "unclassified q g = card (set (hm_keys (qp_pcollection_ids q)) - classified g)"

lemma unclassified_grows:
  assumes "i \<notin> classified g" and "classified g' = insert i (classified g)"
  shows "unclassified q g' < unclassified q g \<or> (unclassified q g' = unclassified q g \<and> hm_get (qp_pcollection_ids q) i = None)"
proof (cases "i \<in> set (hm_keys (qp_pcollection_ids q))")
  case True
  have "set (hm_keys (qp_pcollection_ids q)) - classified g' \<subset> set (hm_keys (qp_pcollection_ids q)) - classified g"
    using True assms by auto
  then show ?thesis
    unfolding unclassified_def by (simp add: psubset_card_mono)
next
  case False
  then have "set (hm_keys (qp_pcollection_ids q)) - classified g' = set (hm_keys (qp_pcollection_ids q)) - classified g"
    using assms by auto
  then show ?thesis
    using False unfolding unclassified_def by (auto simp: map_of_eq_None_iff)
qed

lemma no_index_no_consumers: "hm_get (qp_pcollection_ids q) (pcn_id c) = None \<Longrightarrow> get_per_element_consumers q c = []"
  by (simp add: get_per_element_consumers_def consumers_by_def)

lemma add_consumers_Nil: "add_consumers dec q [] queue sides = Ok (queue', sides') \<Longrightarrow> queue' = queue"
  by simp

lemma classified_updates [simp]:
  "classified (g\<lparr>sg_materialized := ins_by pcn_id c (sg_materialized g)\<rparr>) = insert (pcn_id c) (classified g)"
  "classified (g\<lparr>sg_side_inputs := s, sg_transforms := t, sg_fused := ins_by pcn_id c (sg_fused g)\<rparr>) = insert (pcn_id c) (classified g)"
  by (auto simp: classified_def ins_by_def)

text \<open>
  The \<open>while\<close> loop of \<open>GreedyStageFuser::fuse\<close>. Every round classifies a new PCollection or
  drops a candidate, so it ends.
\<close>

function grow :: "pardo_decoder \<Rightarrow> queryable_pipeline \<Rightarrow> environment \<Rightarrow> bool \<Rightarrow> pcollection_node list \<Rightarrow> stage_growth \<Rightarrow> stage_growth translation" where
  "grow dec q env sdf [] g = Ok g"
| "grow dec q env sdf (c # queue) g =
     (if pcn_id c \<in> classified g then grow dec q env sdf queue g
      else (case can_fuse dec q c env of
              MATERIALIZE \<Rightarrow> grow dec q env sdf queue (g\<lparr>sg_materialized := ins_by pcn_id c (sg_materialized g)\<rparr>)
            | FUSE \<Rightarrow>
                if sdf \<and> list_ex is_splittable_component (get_per_element_consumers q c)
                then grow dec q env sdf queue (g\<lparr>sg_materialized := ins_by pcn_id c (sg_materialized g)\<rparr>)
                else (case add_consumers dec q (get_per_element_consumers q c) queue (sg_side_inputs g) of
                        Ok (queue', sides) \<Rightarrow>
                          grow dec q env sdf queue'
                            (g\<lparr>sg_side_inputs := sides,
                               sg_transforms := ext_by ptn_id (sg_transforms g) (get_per_element_consumers q c),
                               sg_fused := ins_by pcn_id c (sg_fused g)\<rparr>)
                      | Err e \<Rightarrow> Err e
                      | Panic \<Rightarrow> Panic)))"
  by pat_completeness auto

termination
proof (relation "measures [\<lambda>(dec, q, env, sdf, queue, g). unclassified q g, \<lambda>(dec, q, env, sdf, queue, g). length queue]",
    goal_cases)
  case (3 dec q env sdf c queue g)
  then show ?case
    using unclassified_grows [OF 3(1) classified_updates(1), of q] by auto
next
  case (4 dec q env sdf c queue g x queue' sides)
  then show ?case
    using unclassified_grows [OF 4(1) classified_updates(2), of q "ext_by ptn_id (sg_transforms g) (get_per_element_consumers q c)" sides]
      no_index_no_consumers [of q c] by auto
next
  case (5 dec q env sdf c queue g)
  then show ?case
    using unclassified_grows [OF 5(1) classified_updates(1), of q] by auto
qed auto

declare grow.simps [simp del]

text \<open>The loop over the initial nodes, and the whole of \<open>GreedyStageFuser::fuse\<close>.\<close>

fun initial_refs :: "pardo_decoder \<Rightarrow> queryable_pipeline \<Rightarrow> ptransform_node list
   \<Rightarrow> pcollection_node list \<times> side_input_ref list \<times> user_state_ref list \<times> timer_ref list
   \<Rightarrow> (pcollection_node list \<times> side_input_ref list \<times> user_state_ref list \<times> timer_ref list) translation" where
  "initial_refs dec q [] acc = Ok acc"
| "initial_refs dec q (t # ts) (queue, sides, states, tms) =
     rbind (get_side_inputs dec q t) (\<lambda>s.
     rbind (get_user_states dec q t) (\<lambda>u.
     rbind (get_timers dec q t) (\<lambda>m.
       initial_refs dec q ts (queue @ get_output_pcol q t, ext_by sir_key sides s, ext_by usr_key states u, ext_by tr_key tms m))))"

definition possible_inputs :: "executable_stage \<Rightarrow> string set" where
  "possible_inputs s =
     insert (pcn_id (es_input_pcol s))
       (pcn_id ` set (es_output_pcols s) \<union> sir_collection_id ` set (es_side_inputs s)
        \<union> set (List.map_filter (\<lambda>t. hm_get (pt_inputs (ptn_transform (tr_transform t))) (tr_name t)) (es_timers s))
        \<union> (\<Union>t \<in> set (es_transforms s). snd ` set (pt_outputs (ptn_transform t))))"

definition dangling_inputs :: "executable_stage \<Rightarrow> string list" where
  "dangling_inputs s =
     filter (\<lambda>i. i \<notin> possible_inputs s) (concat (map (\<lambda>t. map snd (pt_inputs (ptn_transform t))) (es_transforms s)))"

definition drop_inputs :: "string list \<Rightarrow> ptransform_node \<Rightarrow> ptransform_node" where
  "drop_inputs dangling t =
     t\<lparr>ptn_transform := (ptn_transform t)\<lparr>pt_inputs := filter (\<lambda>(_, i). i \<notin> set dangling) (pt_inputs (ptn_transform t))\<rparr>\<rparr>"

definition transforms_map :: "ptransform_node list \<Rightarrow> (string, ptransform) hashmap" where
  "transforms_map ts = fold (\<lambda>t m. hm_insert (ptn_id t) (ptn_transform t) m) ts []"

definition sanitize_dangling_ptransform_inputs :: "(nat \<Rightarrow> string) \<Rightarrow> nat \<Rightarrow> executable_stage \<Rightarrow> executable_stage \<times> nat" where
  "sanitize_dangling_ptransform_inputs uuid n s =
     (let dangling = dangling_inputs s
      in if dangling = [] then (s, n)
         else let ts = ext_by ptn_id [] (map (drop_inputs dangling) (es_transforms s));
                  comps = (es_components s)\<lparr>c_transforms := transforms_map ts,
                             c_pcollections := filter (\<lambda>(i, _). i \<notin> set dangling) (c_pcollections (es_components s))\<rparr>
              in stage_from uuid n comps (es_environment s) (es_input_pcol s) (es_side_inputs s) (es_user_states s)
                   (es_timers s) (es_output_pcols s) ts)"

definition fuse_stage :: "(nat \<Rightarrow> string) \<Rightarrow> pardo_decoder \<Rightarrow> queryable_pipeline \<Rightarrow> nat \<Rightarrow> pcollection_node \<Rightarrow> ptransform_node list
   \<Rightarrow> (executable_stage \<times> nat) translation" where
  "fuse_stage uuid dec q n input_pcol initial_nodes =
     (if initial_nodes = [] then Err (InvalidArgument ''must contain atleast one element GreedyStageFuser'')
      else rbind (get_stage_environment q initial_nodes) (\<lambda>env.
           rbind (initial_refs dec q initial_nodes ([], [], [], [])) (\<lambda>(queue, sides, states, tms).
           rbind (grow dec q env (list_ex transform_has_splittable_process_urn initial_nodes) queue
                    \<lparr>sg_transforms = initial_nodes, sg_side_inputs = sides, sg_fused = [], sg_materialized = []\<rparr>) (\<lambda>g.
             let (s, n1) = stage_from uuid n (qp_components q) env input_pcol (sg_side_inputs g) states tms
                             (sg_materialized g) (sg_transforms g)
             in Ok (sanitize_dangling_ptransform_inputs uuid n1 s)))))"

section \<open>Consumers below the runner's transforms\<close>

text \<open>Inserting into a \<open>BTreeSet\<close> ordered by \<open>key\<close>: an equal element stays as it is.\<close>

fun bts_insert :: "('a \<Rightarrow> 'k::linorder) \<Rightarrow> 'a \<Rightarrow> 'a list \<Rightarrow> 'a list" where
  "bts_insert key x [] = [x]"
| "bts_insert key x (y # ys) =
     (if key y < key x then y # bts_insert key x ys else if key y = key x then y # ys else x # y # ys)"

abbreviation no_descendants :: descendant_consumers where
  "no_descendants \<equiv> \<lparr>dc_unfusible = [], dc_fusible = []\<rparr>"

text \<open>The loop over output PCollections that adds what \<open>visit\<close> finds below each of them.\<close>

definition merge_descendants :: "descendant_consumers \<Rightarrow> descendant_consumers \<Rightarrow> descendant_consumers" where
  "merge_descendants d e =
     \<lparr>dc_unfusible = ext_by ptn_id (dc_unfusible d) (dc_unfusible e),
      dc_fusible = fold (bts_insert cc_key) (dc_fusible e) (dc_fusible d)\<rparr>"

definition add_descendants :: "(pcollection_node \<Rightarrow> descendant_consumers option) \<Rightarrow> pcollection_node list
   \<Rightarrow> descendant_consumers \<Rightarrow> descendant_consumers option" where
  "add_descendants visit outs d =
     fold (\<lambda>out acc. Option.bind acc (\<lambda>d. map_option (merge_descendants d) (visit out))) outs (Some d)"

text \<open>The body of the loop over the consumers of \<open>pcol\<close>.\<close>

definition visit_consumer :: "queryable_pipeline \<Rightarrow> (pcollection_node \<Rightarrow> descendant_consumers option) \<Rightarrow> pcollection_node
   \<Rightarrow> ptransform_node \<Rightarrow> descendant_consumers \<Rightarrow> descendant_consumers option" where
  "visit_consumer q visit pcol consumer d =
     (case get_environment q (ptn_transform consumer) of
        Some _ \<Rightarrow> Some (d\<lparr>dc_fusible := bts_insert cc_key \<lparr>cc_collection = pcol, cc_transform = consumer\<rparr> (dc_fusible d)\<rparr>)
      | None \<Rightarrow> add_descendants visit (get_output_pcol q consumer)
                  (d\<lparr>dc_unfusible := ins_by ptn_id consumer (dc_unfusible d)\<rparr>))"

text \<open>
  The recursion passes through runner transforms and does not end on a cycle of them, so it
  takes fuel; \<open>None\<close> stands for not returning.
\<close>

primrec get_descendant_consumers :: "nat \<Rightarrow> queryable_pipeline \<Rightarrow> pcollection_node \<Rightarrow> descendant_consumers option" where
  "get_descendant_consumers 0 q pcol = None"
| "get_descendant_consumers (Suc fuel) q pcol =
     fold (\<lambda>consumer acc. Option.bind acc (visit_consumer q (get_descendant_consumers fuel q) pcol consumer))
       (get_per_element_consumers q pcol) (Some no_descendants)"

definition get_root_consumers :: "nat \<Rightarrow> queryable_pipeline \<Rightarrow> ptransform_node \<Rightarrow> descendant_consumers option" where
  "get_root_consumers fuel q root = add_descendants (get_descendant_consumers fuel q) (get_output_pcol q root) no_descendants"

section \<open>Sibling groups\<close>

definition sibling_key :: "queryable_pipeline \<Rightarrow> collection_consumers \<Rightarrow> string \<times> environment option" where
  "sibling_key q c = (pcn_id (cc_collection c), get_environment q (ptn_transform (cc_transform c)))"

text \<open>A consumer joins the first group whose members it is all compatible with, or starts one.\<close>

fun place :: "pardo_decoder \<Rightarrow> queryable_pipeline \<Rightarrow> collection_consumers \<Rightarrow> collection_consumers list list \<Rightarrow> collection_consumers list list" where
  "place dec q c [] = [[c]]"
| "place dec q c (g # gs) =
     (if list_all (\<lambda>d. is_compatible dec q (cc_transform d) (cc_transform c)) g then bts_insert cc_key c g # gs
      else g # place dec q c gs)"

definition compactable :: "pardo_decoder \<Rightarrow> queryable_pipeline \<Rightarrow> collection_consumers list
   \<Rightarrow> (string \<times> environment option, collection_consumers list list) hashmap" where
  "compactable dec q new_consumers =
     fold (\<lambda>c m. hm_insert (sibling_key q c)
         (place dec q c (case hm_get m (sibling_key q c) of Some gs \<Rightarrow> gs | None \<Rightarrow> [])) m)
       new_consumers []"

definition group_siblings :: "pardo_decoder \<Rightarrow> queryable_pipeline \<Rightarrow> collection_consumers list \<Rightarrow> collection_consumers list list" where
  "group_siblings dec q new_consumers =
     fold (bts_insert (map cc_key)) (concat (map snd (compactable dec q new_consumers))) []"

definition fuse_siblings :: "(nat \<Rightarrow> string) \<Rightarrow> pardo_decoder \<Rightarrow> queryable_pipeline \<Rightarrow> nat \<Rightarrow> collection_consumers list
   \<Rightarrow> (executable_stage \<times> nat) translation" where
  "fuse_siblings uuid dec q n siblings =
     (case siblings of
        [] \<Rightarrow> Panic
      | root # _ \<Rightarrow> fuse_stage uuid dec q n (cc_collection root) (ext_by ptn_id [] (map cc_transform siblings)))"

section \<open>Walking the pipeline\<close>

record fusion_state =
  fs_pending :: "collection_consumers list list"
  fs_consumed :: "(string \<times> string, executable_stage) hashmap"
  fs_stages :: "executable_stage list"
  fs_unfused :: "ptransform_node list"
  fs_uuids :: nat

text \<open>The loop over the materialized outputs of a new stage.\<close>

fun expand_outputs :: "nat \<Rightarrow> pardo_decoder \<Rightarrow> queryable_pipeline \<Rightarrow> pcollection_node list \<Rightarrow> fusion_state \<Rightarrow> fusion_state option" where
  "expand_outputs fuel dec q [] s = Some s"
| "expand_outputs fuel dec q (c # cs) s =
     Option.bind (get_descendant_consumers fuel q c) (\<lambda>d.
       expand_outputs fuel dec q cs
         (s\<lparr>fs_unfused := ext_by ptn_id (fs_unfused s) (dc_unfusible d),
            fs_pending := fs_pending s @ group_siblings dec q (dc_fusible d)\<rparr>))"

definition record_stage :: "collection_consumers list \<Rightarrow> executable_stage \<Rightarrow> nat \<Rightarrow> fusion_state \<Rightarrow> fusion_state" where
  "record_stage siblings stage n s =
     s\<lparr>fs_consumed := fold (\<lambda>c. hm_insert (cc_key c) stage) siblings (fs_consumed s),
       fs_stages := ins_by es_id stage (fs_stages s), fs_uuids := n\<rparr>"

text \<open>One round of the loop, on the sibling group taken from the queue.\<close>

definition fuse_step :: "(nat \<Rightarrow> string) \<Rightarrow> nat \<Rightarrow> pardo_decoder \<Rightarrow> queryable_pipeline \<Rightarrow> collection_consumers list \<Rightarrow> fusion_state
   \<Rightarrow> fusion_state translation option" where
  "fuse_step uuid fuel dec q candidates s =
     (let siblings = filter (\<lambda>c. hm_get (fs_consumed s) (cc_key c) = None) candidates
      in if siblings \<noteq> candidates \<and> siblings \<noteq> []
         then Some (Err (InvalidState ''Inconsistent collection of siblings reported''))
         else if siblings = [] then Some (Ok s)
         else (case fuse_siblings uuid dec q (fs_uuids s) siblings of
                 Ok (stage, n) \<Rightarrow>
                   map_option Ok (expand_outputs fuel dec q (es_output_pcols stage) (record_stage siblings stage n s))
               | Err e \<Rightarrow> Some (Err e)
               | Panic \<Rightarrow> Some Panic))"

text \<open>
  The loop ends: a round consumes a pair that was not consumed before, or drops a group. The
  pairs that can still be met are those of the graph and those already pending.
\<close>

definition graph_pairs :: "queryable_pipeline \<Rightarrow> (string \<times> string) set" where
  "graph_pairs q = set (hm_keys (qp_pcollection_ids q)) \<times> {ptn_id t |t. TransformNode t \<in> set (qp_nodes q)}"

definition group_keys :: "collection_consumers list list \<Rightarrow> (string \<times> string) set" where
  "group_keys gs = cc_key ` set (concat gs)"

lemma group_keys_simps [simp]:
  "group_keys [] = {}" "group_keys (g # gs) = cc_key ` set g \<union> group_keys gs" "group_keys (gs @ hs) = group_keys gs \<union> group_keys hs"
  by (auto simp: group_keys_def)

definition pending_keys :: "fusion_state \<Rightarrow> (string \<times> string) set" where
  "pending_keys s = group_keys (fs_pending s)"

definition open_pairs :: "queryable_pipeline \<Rightarrow> fusion_state \<Rightarrow> (string \<times> string) set" where
  "open_pairs q s = (graph_pairs q \<union> pending_keys s) - set (hm_keys (fs_consumed s))"

lemma set_bts_insert: "set (bts_insert key x xs) \<subseteq> insert x (set xs)"
  by (induction key x xs rule: bts_insert.induct) auto

lemma keys_bts_insert: "key ` set (bts_insert key x xs) = insert (key x) (key ` set xs)"
  by (induction key x xs rule: bts_insert.induct) auto

lemma bts_insert_mono: "set xs \<subseteq> set (bts_insert key x xs)"
  by (induction key x xs rule: bts_insert.induct) auto

lemma set_fold_bts_insert: "set (fold (bts_insert key) xs ys) \<subseteq> set xs \<union> set ys"
proof (induction xs arbitrary: ys)
  case (Cons x xs)
  show ?case
    using Cons.IH [of "bts_insert key x ys"] set_bts_insert [of key x ys] by auto
qed simp

lemma keys_fold_bts_insert: "key ` set (fold (bts_insert key) xs ys) = key ` set xs \<union> key ` set ys"
  by (induction xs arbitrary: ys) (auto simp: keys_bts_insert)

lemma fold_bts_insert_mono: "set ys \<subseteq> set (fold (bts_insert key) xs ys)"
proof (induction xs arbitrary: ys)
  case (Cons x xs)
  show ?case
    using Cons.IH [of "bts_insert key x ys"] bts_insert_mono [of ys key x] by auto
qed simp

lemma finite_graph_pairs [simp]: "finite (graph_pairs q)"
proof -
  have "{ptn_id t |t. TransformNode t \<in> set (qp_nodes q)} \<subseteq> (\<lambda>n. case n of TransformNode t \<Rightarrow> ptn_id t | _ \<Rightarrow> '''') ` set (qp_nodes q)"
    by force
  then show ?thesis
    using finite_subset unfolding graph_pairs_def by blast
qed

lemma finite_open_pairs [simp]: "finite (open_pairs q s)"
  by (simp add: open_pairs_def pending_keys_def group_keys_def)

lemma set_ext_by_Nil: "x \<in> set (ext_by key [] ys) \<Longrightarrow> x \<in> set ys"
  using set_ext_by_subset [of key "[]" ys] by auto

lemma consumer_in_graph:
  assumes "t \<in> set (get_per_element_consumers q c)"
  shows "(pcn_id c, ptn_id t) \<in> graph_pairs q"
proof -
  obtain i where i: "hm_get (qp_pcollection_ids q) (pcn_id c) = Some i"
    using assms no_index_no_consumers [of q c] by fastforce
  have "pcn_id c \<in> set (hm_keys (qp_pcollection_ids q))"
    using hm_get_mem [OF i] by (metis in_set_zipE zip_map_fst_snd)
  moreover have "TransformNode t \<in> set (qp_nodes q)"
  proof -
    obtain j where "as_transform (node_at_index q j) = Some t"
      using assms i by (auto simp: get_per_element_consumers_def consumers_by_def set_map_filter_iff dest!: set_ext_by_Nil)
    then show ?thesis
      by (auto simp: as_transform_def node_at_index_def split: option.splits pipeline_node.splits if_splits) (metis nth_mem)
  qed
  ultimately show ?thesis
    by (auto simp: graph_pairs_def)
qed

lemma fold_bind_invariant:
  assumes "fold (\<lambda>x acc. Option.bind acc (f x)) xs (Some d) = Some e" and "P d"
    and "\<And>x d e. x \<in> set xs \<Longrightarrow> P d \<Longrightarrow> f x d = Some e \<Longrightarrow> P e"
  shows "P e"
  using assms
proof (induction xs arbitrary: d)
  case (Cons x xs)
  have none: "fold (\<lambda>x acc. Option.bind acc (f x)) ys None = None" for ys
    by (induction ys) auto
  obtain d' where d': "f x d = Some d'"
    using Cons.prems(1) none by (cases "f x d") auto
  show ?case
  proof (rule Cons.IH)
    show "fold (\<lambda>x acc. Option.bind acc (f x)) xs (Some d') = Some e"
      using Cons.prems(1) d' by simp
    show "P d'"
      using Cons.prems(3) [OF _ Cons.prems(2) d'] by simp
    show "P b" if "y \<in> set xs" "P a" "f y a = Some b" for y a b
      using Cons.prems(3) [OF _ that(2,3)] that(1) by simp
  qed
qed simp

definition fusible_keys :: "descendant_consumers \<Rightarrow> (string \<times> string) set" where
  "fusible_keys d = cc_key ` set (dc_fusible d)"

definition unfusible_ids :: "descendant_consumers \<Rightarrow> string set" where
  "unfusible_ids d = ptn_id ` set (dc_unfusible d)"

lemma descendant_keys [simp]:
  "fusible_keys no_descendants = {}" "unfusible_ids no_descendants = {}"
  "fusible_keys (merge_descendants d e) = fusible_keys d \<union> fusible_keys e"
  "unfusible_ids (merge_descendants d e) = unfusible_ids d \<union> unfusible_ids e"
  "fusible_keys (d\<lparr>dc_fusible := bts_insert cc_key c (dc_fusible d)\<rparr>) = insert (cc_key c) (fusible_keys d)"
  "unfusible_ids (d\<lparr>dc_fusible := cs\<rparr>) = unfusible_ids d"
  "fusible_keys (d\<lparr>dc_unfusible := ts\<rparr>) = fusible_keys d"
  "unfusible_ids (d\<lparr>dc_unfusible := ins_by ptn_id t (dc_unfusible d)\<rparr>) = insert (ptn_id t) (unfusible_ids d)"
  using keys_ext_by [of ptn_id "dc_unfusible d" "dc_unfusible e"] keys_ins_by [of ptn_id t "dc_unfusible d"]
  by (auto simp: fusible_keys_def unfusible_ids_def merge_descendants_def keys_fold_bts_insert keys_bts_insert)

lemma add_descendants_within:
  assumes "add_descendants visit outs d = Some e" and "fusible_keys d \<subseteq> K"
    and "\<And>c d. c \<in> set outs \<Longrightarrow> visit c = Some d \<Longrightarrow> fusible_keys d \<subseteq> K"
  shows "fusible_keys e \<subseteq> K"
  by (rule fold_bind_invariant [where P = "\<lambda>d. fusible_keys d \<subseteq> K", OF assms(1) [unfolded add_descendants_def] assms(2)])
    (auto dest: subsetD [OF assms(3)])

lemma descendants_in_graph: "get_descendant_consumers fuel q c = Some d \<Longrightarrow> fusible_keys d \<subseteq> graph_pairs q"
proof (induction fuel arbitrary: c d)
  case (Suc fuel)
  show ?case
  proof (rule fold_bind_invariant [where P = "\<lambda>d. fusible_keys d \<subseteq> graph_pairs q", OF Suc.prems [unfolded get_descendant_consumers.simps]])
    fix t a b
    assume t: "t \<in> set (get_per_element_consumers q c)" and a: "fusible_keys a \<subseteq> graph_pairs q"
      and b: "visit_consumer q (get_descendant_consumers fuel q) c t a = Some b"
    show "fusible_keys b \<subseteq> graph_pairs q"
      using add_descendants_within [of "get_descendant_consumers fuel q" _ _ b "graph_pairs q"] b a Suc.IH consumer_in_graph [OF t]
      by (fastforce simp: visit_consumer_def cc_key_def split: option.splits)
  qed simp
qed simp

lemma place_keys: "group_keys (place dec q c gs) = insert (cc_key c) (group_keys gs)"
  by (induction dec q c gs rule: place.induct) (auto simp: keys_bts_insert)

lemma hm_insert_mem: "x \<in> set (hm_insert k v m) \<Longrightarrow> x = (k, v) \<or> x \<in> set m"
  by (induction m) (auto split: if_splits)

lemma compactable_within:
  "cc_key ` set new_consumers \<subseteq> K \<Longrightarrow> \<forall>(k, gs) \<in> set m. group_keys gs \<subseteq> K \<Longrightarrow>
   \<forall>(k, gs) \<in> set (fold (\<lambda>c m. hm_insert (sibling_key q c)
     (place dec q c (case hm_get m (sibling_key q c) of Some gs \<Rightarrow> gs | None \<Rightarrow> [])) m) new_consumers m). group_keys gs \<subseteq> K"
proof (induction new_consumers arbitrary: m)
  case (Cons c cs)
  let ?old = "case hm_get m (sibling_key q c) of Some gs \<Rightarrow> gs | None \<Rightarrow> []"
  have "group_keys ?old \<subseteq> K"
  proof (cases "hm_get m (sibling_key q c)")
    case (Some gs)
    then show ?thesis
      using bspec [OF Cons.prems(2) hm_get_mem [OF Some]] by simp
  qed simp
  then have new: "group_keys (place dec q c ?old) \<subseteq> K"
    using Cons.prems(1) unfolding place_keys by simp
  have "\<forall>(k, gs) \<in> set (hm_insert (sibling_key q c) (place dec q c ?old) m). group_keys gs \<subseteq> K"
    using new Cons.prems(2) by (fastforce dest!: hm_insert_mem)
  then show ?case
    using Cons.IH Cons.prems(1) by simp
qed simp

lemma group_siblings_within:
  assumes "cc_key ` set new_consumers \<subseteq> K"
  shows "group_keys (group_siblings dec q new_consumers) \<subseteq> K"
proof -
  have "\<forall>(k, gs) \<in> set (compactable dec q new_consumers). group_keys gs \<subseteq> K"
    unfolding compactable_def by (rule compactable_within [OF assms]) simp
  then have "group_keys (concat (map snd (compactable dec q new_consumers))) \<subseteq> K"
    by (fastforce simp: group_keys_def)
  then show ?thesis
    using set_fold_bts_insert [of "map cc_key" "concat (map snd (compactable dec q new_consumers))" "[]"]
    unfolding group_siblings_def group_keys_def by fastforce
qed

lemma pending_keys_append:
  "pending_keys (s\<lparr>fs_unfused := us, fs_pending := fs_pending s @ gs\<rparr>) = pending_keys s \<union> group_keys gs"
  by (simp add: pending_keys_def)

lemma expand_outputs_pending:
  "expand_outputs fuel dec q cs s = Some s' \<Longrightarrow>
   fs_consumed s' = fs_consumed s \<and> pending_keys s' \<subseteq> pending_keys s \<union> graph_pairs q"
proof (induction fuel dec q cs s rule: expand_outputs.induct)
  case (2 fuel dec q c cs s)
  obtain d where d: "get_descendant_consumers fuel q c = Some d"
    and s': "expand_outputs fuel dec q cs
         (s\<lparr>fs_unfused := ext_by ptn_id (fs_unfused s) (dc_unfusible d),
            fs_pending := fs_pending s @ group_siblings dec q (dc_fusible d)\<rparr>) = Some s'"
    using 2(2) by (auto simp: bind_eq_Some_conv)
  have "group_keys (group_siblings dec q (dc_fusible d)) \<subseteq> graph_pairs q"
    using descendants_in_graph [OF d] by (intro group_siblings_within) (simp add: fusible_keys_def)
  then show ?case
    using 2(1) [OF d s'] unfolding pending_keys_append by auto
qed auto

lemma consumed_record_stage:
  "set (hm_keys (fs_consumed (record_stage siblings stage n s))) = cc_key ` set siblings \<union> set (hm_keys (fs_consumed s))"
proof -
  have "set (hm_keys (fold (\<lambda>c. hm_insert (cc_key c) stage) siblings m)) = cc_key ` set siblings \<union> set (hm_keys m)" for m
    by (induction siblings arbitrary: m) (auto simp: dom_update simp flip: dom_map_of_conv_image_fst)
  then show ?thesis
    by (simp add: record_stage_def)
qed

lemma fuse_step_decreases:
  assumes step: "fuse_step uuid fuel dec q candidates (s\<lparr>fs_pending := rest\<rparr>) = Some (Ok s')"
    and pending: "fs_pending s = candidates # rest"
  shows "card (open_pairs q s') < card (open_pairs q s)
    \<or> card (open_pairs q s') \<le> card (open_pairs q s) \<and> length (fs_pending s') < length (fs_pending s)"
proof -
  let ?s = "s\<lparr>fs_pending := rest\<rparr>"
  let ?sib = "filter (\<lambda>c. hm_get (fs_consumed s) (cc_key c) = None) candidates"
  have rest: "open_pairs q ?s \<subseteq> open_pairs q s"
    using pending by (auto simp: open_pairs_def pending_keys_def)
  show ?thesis
  proof (cases "?sib = []")
    case True
    then have "s' = ?s"
      using step by (simp add: fuse_step_def)
    then show ?thesis
      using card_mono [OF finite_open_pairs rest] pending by simp
  next
    case False
    then have sib: "?sib = candidates"
      using step by (auto simp: fuse_step_def Let_def split: if_splits)
    then obtain stage n where fused: "fuse_siblings uuid dec q (fs_uuids s) candidates = Ok (stage, n)"
      and ex: "expand_outputs fuel dec q (es_output_pcols stage) (record_stage candidates stage n ?s) = Some s'"
      using step False by (auto simp: fuse_step_def split: rust.splits prod.splits)
    note e = expand_outputs_pending [OF ex]
    have pk: "pending_keys (record_stage candidates stage n ?s) \<subseteq> pending_keys s"
      using pending by (auto simp: pending_keys_def record_stage_def)
    obtain c where c: "c \<in> set candidates" "hm_get (fs_consumed s) (cc_key c) = None"
      using False by (metis (mono_tags, lifting) filter_False)
    have "cc_key c \<in> open_pairs q s"
      using c pending by (auto simp: open_pairs_def pending_keys_def map_of_eq_None_iff)
    moreover have "cc_key c \<notin> open_pairs q s'" and "open_pairs q s' \<subseteq> open_pairs q s"
      using c e pk consumed_record_stage [of candidates stage n ?s] by (auto simp: open_pairs_def)
    ultimately show ?thesis
      using psubset_card_mono [OF finite_open_pairs] by blast
  qed
qed

function fuse_loop :: "(nat \<Rightarrow> string) \<Rightarrow> nat \<Rightarrow> pardo_decoder \<Rightarrow> queryable_pipeline \<Rightarrow> fusion_state \<Rightarrow> fusion_state translation option" where
  "fuse_loop uuid fuel dec q s =
     (case fs_pending s of
        [] \<Rightarrow> Some (Ok s)
      | candidates # rest \<Rightarrow>
          (case fuse_step uuid fuel dec q candidates (s\<lparr>fs_pending := rest\<rparr>) of
             Some (Ok s') \<Rightarrow> fuse_loop uuid fuel dec q s'
           | Some (Err e) \<Rightarrow> Some (Err e)
           | Some Panic \<Rightarrow> Some Panic
           | None \<Rightarrow> None))"
  by pat_completeness auto

termination
  by (relation "measures [\<lambda>(uuid, fuel, dec, q, s). card (open_pairs q s), \<lambda>(uuid, fuel, dec, q, s). length (fs_pending s)]")
    (use fuse_step_decreases in fastforce)+

declare fuse_loop.simps [simp del]

end
