(* ===== verification/Single_Producer.thy ===== *)
theory Single_Producer
  imports Fuser
begin

text \<open>
  The rewriting after greedy fusion (\<open>ensure_single_producer\<close> of \<open>fusion/fuser.rs\<close>): a
  PCollection that several stages or runner transforms produce is split into one partial
  PCollection per producer, and a new Flatten merges the partials into the original. Also
  the entry points \<open>GreedyPipelineFuser::fuse_pipeline\<close> and \<open>fuse_pipeline\<close> of
  \<open>jobservice/job.rs\<close>. Maps keyed by a node or a stage are keyed by its identifier, which
  is what their equality and hash look at.
\<close>

section \<open>Fresh identifiers\<close>

text \<open>
  The loop of \<open>unique_id\<close> from its first numbered candidate on. \<open>taken\<close> holds the
  identifiers for which the predicate \<open>exists\<close> answers true; they are finitely many, so a
  free number is met.
\<close>

definition numbered :: "string \<Rightarrow> nat \<Rightarrow> string" where
  "numbered prefix k = prefix @ ''-'' @ show_nat k"

lemma numbered_inject [simp]: "numbered prefix k = numbered prefix l \<longleftrightarrow> k = l"
  unfolding numbered_def by (metis append_same_eq option.inject parse_show_nat same_append_eq)

lemma inj_numbered: "inj (numbered prefix)"
  by (rule injI) simp

function unique_suffix :: "string \<Rightarrow> string list \<Rightarrow> nat \<Rightarrow> string" where
  "unique_suffix prefix taken k =
     (if numbered prefix k \<in> set taken then unique_suffix prefix taken (Suc k) else numbered prefix k)"
  by pat_completeness auto

termination
proof (relation "measure (\<lambda>(prefix, taken, k). card {j. k \<le> j \<and> numbered prefix j \<in> set taken})", goal_cases)
  case (2 prefix taken k)
  then show ?case
    using search_decreases [OF inj_numbered] by simp
qed simp

declare unique_suffix.simps [simp del]

definition unique_id :: "string \<Rightarrow> string list \<Rightarrow> string" where
  "unique_id prefix taken = (if prefix \<in> set taken then unique_suffix prefix taken 0 else prefix)"

lemma unique_suffix_fresh: "unique_suffix prefix taken k \<notin> set taken"
  by (induction prefix taken k rule: unique_suffix.induct) (subst unique_suffix.simps, simp)

lemma unique_id_fresh: "unique_id prefix taken \<notin> set taken"
  by (simp add: unique_id_def unique_suffix_fresh)

section \<open>Producers\<close>

datatype stage_or_transform = StageProducer executable_stage | TransformProducer ptransform_node

definition producer_key :: "stage_or_transform \<Rightarrow> string + string" where
  "producer_key p = (case p of StageProducer s \<Rightarrow> Inl (es_id s) | TransformProducer t \<Rightarrow> Inr (ptn_id t))"

text \<open>\<open>map.entry(key).or_default().push(value)\<close>, beside the key's own value.\<close>

definition push_at :: "'k \<Rightarrow> 'n \<Rightarrow> 'v \<Rightarrow> ('k, 'n \<times> 'v list) hashmap \<Rightarrow> ('k, 'n \<times> 'v list) hashmap" where
  "push_at k n v m = (case hm_get m k of None \<Rightarrow> hm_insert k (n, [v]) m | Some (n', vs) \<Rightarrow> hm_insert k (n', vs @ [v]) m)"

definition collect_producers :: "queryable_pipeline \<Rightarrow> executable_stage list \<Rightarrow> ptransform_node list
   \<Rightarrow> (string, pcollection_node \<times> stage_or_transform list) hashmap" where
  "collect_producers q fused unfused =
     fold (\<lambda>t m. fold (\<lambda>out. push_at (pcn_id out) out (TransformProducer t)) (get_output_pcol q t) m) unfused
       (fold (\<lambda>s m. fold (\<lambda>out. push_at (pcn_id out) out (StageProducer s)) (es_output_pcols s) m) fused [])"

text \<open>The producers to rewrite, each with the PCollections it shares.\<close>

definition requires_new_output :: "(string, pcollection_node \<times> stage_or_transform list) hashmap
   \<Rightarrow> (string + string, stage_or_transform \<times> pcollection_node list) hashmap" where
  "requires_new_output made_by =
     fold (\<lambda>(_, pcol, prods) m.
         if length prods > 1 then fold (\<lambda>p. push_at (producer_key p) p pcol) prods m else m)
       made_by []"

section \<open>Partial PCollections\<close>

fun create_partial_pcollections :: "components \<Rightarrow> pcollection_node list \<Rightarrow> (string, pcollection_node) hashmap
   \<Rightarrow> (string, pcollection_node) hashmap translation" where
  "create_partial_pcollections comps [] result = Ok result"
| "create_partial_pcollections comps (dup # dups) result =
     (let partial_id = unique_id (pcn_id dup) (hm_keys (c_pcollections comps) @ map (pcn_id \<circ> snd) result);
          partial = \<lparr>pcn_id = partial_id, pcn_collection = (pcn_collection dup)\<lparr>pc_unique_name := partial_id\<rparr>\<rparr>
      in if hm_get result (pcn_id dup) = None
         then create_partial_pcollections comps dups (hm_insert (pcn_id dup) partial result)
         else Err (InvalidArgument (''duplicate pcollection appeared more than once in a single stage: '' @ pcn_id dup)))"

definition update_outputs :: "(string, pcollection_node) hashmap \<Rightarrow> ptransform \<Rightarrow> ptransform" where
  "update_outputs partials t =
     t\<lparr>pt_outputs := hm_map_values (\<lambda>_ i. case hm_get partials i of Some p \<Rightarrow> pcn_id p | None \<Rightarrow> i) (pt_outputs t)\<rparr>"

definition update_node :: "(string, pcollection_node) hashmap \<Rightarrow> ptransform_node \<Rightarrow> ptransform_node" where
  "update_node partials t = t\<lparr>ptn_transform := update_outputs partials (ptn_transform t)\<rparr>"

definition register_partials :: "(string, pcollection_node) hashmap \<Rightarrow> components \<Rightarrow> components" where
  "register_partials partials comps =
     comps\<lparr>c_pcollections := fold (\<lambda>(_, p). hm_insert (pcn_id p) (pcn_collection p)) partials (c_pcollections comps)\<rparr>"

definition deduplicate_stage :: "(nat \<Rightarrow> string) \<Rightarrow> nat \<Rightarrow> components \<Rightarrow> executable_stage \<Rightarrow> pcollection_node list
   \<Rightarrow> (executable_stage \<times> (string, pcollection_node) hashmap \<times> nat) translation" where
  "deduplicate_stage uuid n comps s dups =
     rbind (create_partial_pcollections comps dups []) (\<lambda>partials.
       let updated = map (update_node partials) (es_transforms s);
           outs = map (\<lambda>c. case hm_get partials (pcn_id c) of Some p \<Rightarrow> p | None \<Rightarrow> c) (es_output_pcols s);
           stage_components = register_partials partials ((es_components s)\<lparr>c_transforms := transforms_map updated\<rparr>);
           (s', n') = stage_from uuid n stage_components (es_environment s) (es_input_pcol s) (es_side_inputs s)
                        (es_user_states s) (es_timers s) (ext_by pcn_id [] outs) (ext_by ptn_id [] updated)
       in Ok (s', partials, n'))"

definition deduplicate_transform :: "components \<Rightarrow> ptransform_node \<Rightarrow> pcollection_node list
   \<Rightarrow> (ptransform_node \<times> (string, pcollection_node) hashmap) translation" where
  "deduplicate_transform comps t dups =
     rbind (create_partial_pcollections comps dups []) (\<lambda>partials. Ok (update_node partials t, partials))"

section \<open>Rewriting the producers\<close>

record dedup_state =
  ds_components :: components
  ds_partials :: "(string, unit \<times> pcollection_node list) hashmap"
  ds_stages :: "(string, executable_stage) hashmap"
  ds_transforms :: "(string, ptransform_node) hashmap"
  ds_uuids :: nat

definition note_partials :: "(string, pcollection_node) hashmap \<Rightarrow> dedup_state \<Rightarrow> dedup_state" where
  "note_partials partials ds =
     ds\<lparr>ds_components := register_partials partials (ds_components ds),
        ds_partials := fold (\<lambda>(orig, p). push_at orig () p) partials (ds_partials ds)\<rparr>"

definition rewrite_producer :: "(nat \<Rightarrow> string) \<Rightarrow> stage_or_transform \<times> pcollection_node list \<Rightarrow> dedup_state \<Rightarrow> dedup_state translation" where
  "rewrite_producer uuid pd ds =
     (case fst pd of
        StageProducer s \<Rightarrow>
          rbind (deduplicate_stage uuid (ds_uuids ds) (ds_components ds) s (snd pd)) (\<lambda>(s', partials, n).
            Ok ((note_partials partials ds)\<lparr>ds_stages := hm_insert (es_id s) s' (ds_stages ds), ds_uuids := n\<rparr>))
      | TransformProducer t \<Rightarrow>
          rbind (deduplicate_transform (ds_components ds) t (snd pd)) (\<lambda>(t', partials).
            Ok ((note_partials partials ds)\<lparr>ds_transforms := hm_insert (ptn_id t) t' (ds_transforms ds)\<rparr>)))"

fun rewrite_producers :: "(nat \<Rightarrow> string) \<Rightarrow> (stage_or_transform \<times> pcollection_node list) list \<Rightarrow> dedup_state \<Rightarrow> dedup_state translation" where
  "rewrite_producers uuid [] ds = Ok ds"
| "rewrite_producers uuid (pd # pds) ds = rbind (rewrite_producer uuid pd ds) (rewrite_producers uuid pds)"

definition create_flatten_of_partials :: "string \<Rightarrow> string \<Rightarrow> pcollection_node list \<Rightarrow> ptransform" where
  "create_flatten_of_partials transform_id output_pcol_id ins =
     \<lparr>pt_unique_name = transform_id, pt_spec = Some \<lparr>spec_urn = FLATTEN_TRANSFORM, spec_payload = []\<rparr>,
      pt_inputs = map (\<lambda>(i, node). (''input_'' @ show_nat i, pcn_id node)) (enumerate 0 ins),
      pt_outputs = [(''output'', output_pcol_id)], pt_subtransforms = [], pt_environment_id = ''''\<rparr>"

text \<open>The body of the loop that introduces a Flatten for each split PCollection.\<close>

definition introduce_flatten :: "string \<times> unit \<times> pcollection_node list \<Rightarrow> components \<times> ptransform_node list \<Rightarrow> components \<times> ptransform_node list" where
  "introduce_flatten entry acc =
     (case (entry, acc) of ((original_id, _, partials), (comps, introduced)) \<Rightarrow>
        (let flatten_id = unique_id ''unzipped_flatten'' (hm_keys (c_transforms comps));
             flatten = create_flatten_of_partials flatten_id original_id partials
         in (comps\<lparr>c_transforms := hm_insert flatten_id flatten (c_transforms comps)\<rparr>,
             ins_by ptn_id \<lparr>ptn_id = flatten_id, ptn_transform = flatten\<rparr> introduced)))"

record deduplication_result =
  dr_components :: components
  dr_introduced_transforms :: "ptransform_node list"
  dr_deduplicated_stages :: "(string, executable_stage) hashmap"
  dr_deduplicated_transforms :: "(string, ptransform_node) hashmap"

definition ensure_single_producer :: "(nat \<Rightarrow> string) \<Rightarrow> nat \<Rightarrow> queryable_pipeline \<Rightarrow> executable_stage list \<Rightarrow> ptransform_node list
   \<Rightarrow> (deduplication_result \<times> nat) translation" where
  "ensure_single_producer uuid n q fused unfused =
     rbind (rewrite_producers uuid (map snd (requires_new_output (collect_producers q fused unfused)))
        \<lparr>ds_components = qp_components q, ds_partials = [], ds_stages = [], ds_transforms = [], ds_uuids = n\<rparr>) (\<lambda>ds.
       let (comps, introduced) = fold introduce_flatten (ds_partials ds) (ds_components ds, [])
       in Ok (\<lparr>dr_components = comps, dr_introduced_transforms = introduced,
               dr_deduplicated_stages = ds_stages ds, dr_deduplicated_transforms = ds_transforms ds\<rparr>, ds_uuids ds))"

text \<open>\<open>DeduplicationResult::get_sdk_stages\<close> and \<open>get_runner_stages\<close>\<close>

definition current_stage :: "deduplication_result \<Rightarrow> executable_stage \<Rightarrow> executable_stage" where
  "current_stage dr s = (case hm_get (dr_deduplicated_stages dr) (es_id s) of Some s' \<Rightarrow> s' | None \<Rightarrow> s)"

fun sanitize_stages :: "(nat \<Rightarrow> string) \<Rightarrow> nat \<Rightarrow> executable_stage list \<Rightarrow> executable_stage list \<Rightarrow> executable_stage list \<times> nat" where
  "sanitize_stages uuid n [] acc = (acc, n)"
| "sanitize_stages uuid n (s # ss) acc =
     (let (s', n') = sanitize_dangling_ptransform_inputs uuid n s in sanitize_stages uuid n' ss (ins_by es_id s' acc))"

definition get_sdk_stages :: "(nat \<Rightarrow> string) \<Rightarrow> nat \<Rightarrow> deduplication_result \<Rightarrow> executable_stage list \<Rightarrow> executable_stage list \<times> nat" where
  "get_sdk_stages uuid n dr fused = sanitize_stages uuid n (map (current_stage dr) fused) []"

definition current_transform :: "deduplication_result \<Rightarrow> ptransform_node \<Rightarrow> ptransform_node" where
  "current_transform dr t = (case hm_get (dr_deduplicated_transforms dr) (ptn_id t) of Some t' \<Rightarrow> t' | None \<Rightarrow> t)"

definition get_runner_stages :: "deduplication_result \<Rightarrow> ptransform_node list \<Rightarrow> ptransform_node list" where
  "get_runner_stages dr unfused = ext_by ptn_id (ext_by ptn_id [] (map (current_transform dr) unfused)) (dr_introduced_transforms dr)"

section \<open>Fusing a pipeline\<close>

record fused_pipeline =
  fp_components :: components
  fp_sdk_stages :: "executable_stage list"
  fp_runner_stages :: "ptransform_node list"

definition greedy_fuse_pipeline :: "(nat \<Rightarrow> string) \<Rightarrow> nat \<Rightarrow> pardo_decoder \<Rightarrow> queryable_pipeline \<Rightarrow> nat \<Rightarrow> ptransform_node list
   \<Rightarrow> collection_consumers list \<Rightarrow> (fused_pipeline \<times> nat) translation option" where
  "greedy_fuse_pipeline uuid fuel dec q n initial_unfused initial_consumers =
     map_option (\<lambda>r. rbind r (\<lambda>s.
         rbind (ensure_single_producer uuid (fs_uuids s) q (fs_stages s) (fs_unfused s)) (\<lambda>(dr, n1).
           let (sdk, n2) = get_sdk_stages uuid n1 dr (fs_stages s)
           in Ok (\<lparr>fp_components = dr_components dr, fp_sdk_stages = sdk, fp_runner_stages = get_runner_stages dr (fs_unfused s)\<rparr>, n2))))
       (fuse_loop uuid fuel dec q
          \<lparr>fs_pending = group_siblings dec q initial_consumers, fs_consumed = [], fs_stages = [],
           fs_unfused = ext_by ptn_id [] initial_unfused, fs_uuids = n\<rparr>)"

text \<open>The loop over the root transforms in \<open>fuse_pipeline\<close> of the job service.\<close>

definition visit_root :: "nat \<Rightarrow> queryable_pipeline \<Rightarrow> ptransform_node \<Rightarrow> descendant_consumers \<Rightarrow> descendant_consumers option" where
  "visit_root fuel q root d =
     map_option (merge_descendants
         (if get_environment q (ptn_transform root) = None then d\<lparr>dc_unfusible := ins_by ptn_id root (dc_unfusible d)\<rparr> else d))
       (get_root_consumers fuel q root)"

definition root_descendants :: "nat \<Rightarrow> queryable_pipeline \<Rightarrow> descendant_consumers option" where
  "root_descendants fuel q =
     fold (\<lambda>root acc. Option.bind acc (visit_root fuel q root)) (get_root_transforms q) (Some no_descendants)"

definition fuse_pipeline :: "(nat \<Rightarrow> string) \<Rightarrow> nat \<Rightarrow> pardo_decoder \<Rightarrow> components \<Rightarrow> (fused_pipeline \<times> nat) translation option" where
  "fuse_pipeline uuid fuel dec comps =
     Option.bind (new_pipeline dec fuel comps) (\<lambda>q.
     Option.bind (root_descendants fuel q) (\<lambda>d.
       greedy_fuse_pipeline uuid fuel dec q 0 (dc_unfusible d) (dc_fusible d)))"

end
