(* ===== verification/Fusion_Props.thy ===== *)
theory Fusion_Props
  imports Single_Producer
begin

text \<open>
  What fusion guarantees: a grown stage is closed under the PCollections it fuses and holds
  no transform the runner has to execute, every transform below a root ends up in a stage
  or in the runner's set, the walk ends on an acyclic pipeline, and after the rewriting no
  two producers share a PCollection.
\<close>

section \<open>Stages\<close>

lemma consumers_by_id: "pcn_id c = pcn_id d \<Longrightarrow> consumers_by e q c = consumers_by e q d"
  by (simp add: consumers_by_def)

lemmas consumers_id = consumers_by_id [of _ _ PerElement, folded get_per_element_consumers_def]
  consumers_by_id [of _ _ SingletonEdge, folded get_singleton_consumers_def]

lemma outputs_id: "ptn_id t = ptn_id u \<Longrightarrow> get_output_pcol q t = get_output_pcol q u"
  by (simp add: get_output_pcol_def)

text \<open>Every output of the transforms \<open>ts\<close> is classified or waits in the queue.\<close>

definition outputs_known :: "queryable_pipeline \<Rightarrow> pcollection_node list \<Rightarrow> stage_growth \<Rightarrow> bool" where
  "outputs_known q queue g \<longleftrightarrow>
     (\<forall>t \<in> set (sg_transforms g). \<forall>c \<in> set (get_output_pcol q t). pcn_id c \<in> classified g \<union> pcn_id ` set queue)"

definition fused_closed :: "queryable_pipeline \<Rightarrow> stage_growth \<Rightarrow> bool" where
  "fused_closed q g \<longleftrightarrow>
     (\<forall>c \<in> set (sg_fused g). get_singleton_consumers q c = []
        \<and> ptn_id ` set (get_per_element_consumers q c) \<subseteq> ptn_id ` set (sg_transforms g))"

definition growth_justified :: "pardo_decoder \<Rightarrow> queryable_pipeline \<Rightarrow> environment \<Rightarrow> ptransform_node list \<Rightarrow> stage_growth \<Rightarrow> bool" where
  "growth_justified dec q env roots g \<longleftrightarrow>
     (\<forall>t \<in> set (sg_transforms g). t \<in> set roots \<or> (\<exists>c \<in> set (sg_fused g). t \<in> set (get_per_element_consumers q c) \<and> can_fuse_node dec q t env c))"

definition growth_inv :: "pardo_decoder \<Rightarrow> queryable_pipeline \<Rightarrow> environment \<Rightarrow> ptransform_node list \<Rightarrow> pcollection_node list \<Rightarrow> stage_growth \<Rightarrow> bool" where
  "growth_inv dec q env roots queue g \<longleftrightarrow> outputs_known q queue g \<and> fused_closed q g \<and> growth_justified dec q env roots g
     \<and> set roots \<subseteq> set (sg_transforms g)"

lemma add_consumers_queue:
  "add_consumers dec q ts queue sides = Ok (queue', sides') \<Longrightarrow> queue' = queue @ concat (map (get_output_pcol q) ts)"
  by (induction dec q ts queue sides rule: add_consumers.induct) auto

lemma can_fuse_FUSE:
  "can_fuse dec q c env = FUSE \<longleftrightarrow> get_singleton_consumers q c = []
     \<and> (\<forall>t \<in> set (get_per_element_consumers q c). \<not> any_sideinputs q t \<and> can_fuse_node dec q t env c)"
  by (auto simp: can_fuse_def list_ex_iff split: if_splits)

lemma growth_inv_skip:
  "growth_inv dec q env roots (c # queue) g \<Longrightarrow> pcn_id c \<in> classified g \<Longrightarrow> growth_inv dec q env roots queue g"
  by (fastforce simp: growth_inv_def outputs_known_def)

lemma growth_inv_materialize:
  assumes "growth_inv dec q env roots (c # queue) g"
  shows "growth_inv dec q env roots queue (g\<lparr>sg_materialized := ins_by pcn_id c (sg_materialized g)\<rparr>)"
  using assms by (fastforce simp: growth_inv_def outputs_known_def fused_closed_def growth_justified_def)

lemma growth_inv_fuse:
  assumes inv: "growth_inv dec q env roots (c # queue) g" and fuse: "can_fuse dec q c env = FUSE"
    and queue': "add_consumers dec q (get_per_element_consumers q c) queue (sg_side_inputs g) = Ok (queue', sides)"
    and g': "g' = g\<lparr>sg_side_inputs := sides, sg_transforms := ext_by ptn_id (sg_transforms g) (get_per_element_consumers q c),
               sg_fused := ins_by pcn_id c (sg_fused g)\<rparr>"
  shows "growth_inv dec q env roots queue' g'"
proof -
  let ?ts = "ext_by ptn_id (sg_transforms g) (get_per_element_consumers q c)"
  have ids: "ptn_id ` set ?ts = ptn_id ` set (sg_transforms g) \<union> ptn_id ` set (get_per_element_consumers q c)"
    using keys_ext_by [of ptn_id "sg_transforms g"] by simp
  have tr: "sg_transforms g' = ?ts"
    by (simp add: g')
  have sub: "set ?ts \<subseteq> set (sg_transforms g) \<union> set (get_per_element_consumers q c)"
    by (rule set_ext_by_subset)
  have fused: "set (sg_fused g') \<subseteq> insert c (set (sg_fused g))" "set (sg_fused g) \<subseteq> set (sg_fused g')"
    using set_ins_by_subset set_ins_by_mono by (auto simp: g' ins_by_def split: if_splits)
  have c: "\<exists>d \<in> set (sg_fused g'). pcn_id d = pcn_id c"
    using keys_ins_by [of pcn_id c "sg_fused g"] by (auto simp: g' ins_by_def)
  have cl: "classified g' = insert (pcn_id c) (classified g)"
    unfolding g' by (rule classified_updates(2))
  have queue'_eq: "queue' = queue @ concat (map (get_output_pcol q) (get_per_element_consumers q c))"
    by (rule add_consumers_queue [OF queue'])
  have "outputs_known q queue' g'"
    unfolding outputs_known_def cl
  proof (intro ballI)
    fix t d
    assume "t \<in> set (sg_transforms g')" and d: "d \<in> set (get_output_pcol q t)"
    then consider "t \<in> set (sg_transforms g)" | "t \<in> set (get_per_element_consumers q c)"
      using sub by (auto simp: g')
    then show "pcn_id d \<in> insert (pcn_id c) (classified g) \<union> pcn_id ` set queue'"
    proof cases
      case 1
      then have "pcn_id d \<in> classified g \<union> pcn_id ` set (c # queue)"
        using inv d unfolding growth_inv_def outputs_known_def by blast
      then show ?thesis
        by (auto simp: queue'_eq)
    next
      case 2
      then have "d \<in> set queue'"
        using d by (auto simp: queue'_eq)
      then show ?thesis
        by blast
    qed
  qed
  moreover have "fused_closed q g'"
    unfolding fused_closed_def
  proof (intro ballI)
    fix d
    assume "d \<in> set (sg_fused g')"
    then consider "d \<in> set (sg_fused g)" | "d = c"
      using fused(1) by blast
    then show "get_singleton_consumers q d = [] \<and> ptn_id ` set (get_per_element_consumers q d) \<subseteq> ptn_id ` set (sg_transforms g')"
    proof cases
      case 1
      then have "get_singleton_consumers q d = [] \<and> ptn_id ` set (get_per_element_consumers q d) \<subseteq> ptn_id ` set (sg_transforms g)"
        using inv unfolding growth_inv_def fused_closed_def by blast
      then show ?thesis
        unfolding tr ids by blast
    next
      case 2
      then show ?thesis
        using fuse unfolding tr ids can_fuse_FUSE by blast
    qed
  qed
  moreover have "growth_justified dec q env roots g'"
    unfolding growth_justified_def
  proof
    fix t
    assume "t \<in> set (sg_transforms g')"
    then consider "t \<in> set (sg_transforms g)" | "t \<in> set (get_per_element_consumers q c)"
      using sub by (auto simp: g')
    then show "t \<in> set roots \<or> (\<exists>c \<in> set (sg_fused g'). t \<in> set (get_per_element_consumers q c) \<and> can_fuse_node dec q t env c)"
    proof cases
      case 1
      then show ?thesis
        using inv fused(2) unfolding growth_inv_def growth_justified_def by blast
    next
      case 2
      obtain d where d: "d \<in> set (sg_fused g')" "pcn_id d = pcn_id c"
        using c by blast
      have "can_fuse_node dec q t env d = can_fuse_node dec q t env c"
        unfolding can_fuse_node_def can_fuse_pardo_def d(2) ..
      then show ?thesis
        using d fuse 2 consumers_id(1) [OF d(2), of q] unfolding can_fuse_FUSE by auto
    qed
  qed
  moreover have "set roots \<subseteq> set (sg_transforms g')"
    using inv set_ext_by_mono [of "sg_transforms g" ptn_id] by (auto simp: g' growth_inv_def)
  ultimately show ?thesis
    by (simp add: growth_inv_def)
qed

text \<open>An invariant of the loop holds at its end: a rule with one premise per kind of round.\<close>

lemma grow_invariant:
  assumes skip: "\<And>c queue g. P (c # queue) g \<Longrightarrow> pcn_id c \<in> classified g \<Longrightarrow> P queue g"
    and materialize: "\<And>c queue g. P (c # queue) g \<Longrightarrow> P queue (g\<lparr>sg_materialized := ins_by pcn_id c (sg_materialized g)\<rparr>)"
    and fuse: "\<And>c queue g queue' sides. P (c # queue) g \<Longrightarrow> can_fuse dec q c env = FUSE \<Longrightarrow>
      add_consumers dec q (get_per_element_consumers q c) queue (sg_side_inputs g) = Ok (queue', sides) \<Longrightarrow>
      P queue' (g\<lparr>sg_side_inputs := sides, sg_transforms := ext_by ptn_id (sg_transforms g) (get_per_element_consumers q c),
        sg_fused := ins_by pcn_id c (sg_fused g)\<rparr>)"
  shows "grow dec q env sdf queue g = Ok g' \<Longrightarrow> P queue g \<Longrightarrow> P [] g'"
  using skip materialize fuse
proof (induction dec q env sdf queue g rule: grow.induct)
  case (2 dec q env sdf c queue g)
  show ?case
  proof (cases "pcn_id c \<in> classified g")
    case True
    then show ?thesis
      using 2(1) [OF True] 2(5-) by (simp add: grow.simps)
  next
    case False
    show ?thesis
    proof (cases "can_fuse dec q c env")
      case MATERIALIZE
      then show ?thesis
        using 2(4) [OF False MATERIALIZE] 2(5-) False by (simp add: grow.simps)
    next
      case FUSE
      show ?thesis
      proof (cases "sdf \<and> list_ex is_splittable_component (get_per_element_consumers q c)")
        case True
        then show ?thesis
          using 2(2) [OF False FUSE True] 2(5-) False FUSE by (simp add: grow.simps)
      next
        case split: False
        obtain queue' sides where q': "add_consumers dec q (get_per_element_consumers q c) queue (sg_side_inputs g) = Ok (queue', sides)"
          using 2(5) False FUSE split by (auto simp: grow.simps split: rust.splits)
        show ?thesis
          using 2(3) [OF False FUSE split q' refl _ 2(9) [OF 2(6) FUSE q']] 2(5,7-) False FUSE split q' by (auto simp: grow.simps)
      qed
    qed
  qed
qed (simp add: grow.simps)

lemma grow_inv:
  "grow dec q env sdf queue g = Ok g' \<Longrightarrow> growth_inv dec q env roots queue g \<Longrightarrow> growth_inv dec q env roots [] g'"
  by (rule grow_invariant) (auto intro: growth_inv_skip growth_inv_materialize growth_inv_fuse)

definition member_ids :: "executable_stage \<Rightarrow> string set" where
  "member_ids s = ptn_id ` set (es_transforms s)"

definition produced_ids :: "executable_stage \<Rightarrow> string set" where
  "produced_ids s = pcn_id ` set (es_output_pcols s)"

text \<open>Sanitizing a stage drops inputs of its transforms and may give it a new identifier, nothing else.\<close>

lemma sanitize_facts:
  assumes "sanitize_dangling_ptransform_inputs uuid n s = (s', n')"
  shows "member_ids s' = member_ids s" and "es_output_pcols s' = es_output_pcols s" and "es_environment s' = es_environment s"
    and "es_id s' = es_id s \<and> n' = n \<or> es_id s' = uuid n \<and> n' = Suc n"
    and "\<forall>t' \<in> set (es_transforms s'). \<exists>t \<in> set (es_transforms s). \<exists>ins. t' = t\<lparr>ptn_transform := (ptn_transform t)\<lparr>pt_inputs := ins\<rparr>\<rparr>"
proof -
  let ?ts = "ext_by ptn_id [] (map (drop_inputs (dangling_inputs s)) (es_transforms s))"
  have ids: "ptn_id ` set ?ts = ptn_id ` set (es_transforms s)"
  proof -
    have "ptn_id ` set ?ts = ptn_id ` drop_inputs (dangling_inputs s) ` set (es_transforms s)"
      using keys_ext_by [of ptn_id "[]" "map (drop_inputs (dangling_inputs s)) (es_transforms s)"] by (simp add: image_image)
    then show ?thesis
      by (simp add: image_image drop_inputs_def)
  qed
  have dropped: "\<forall>t' \<in> set ?ts. \<exists>t \<in> set (es_transforms s). \<exists>ins. t' = t\<lparr>ptn_transform := (ptn_transform t)\<lparr>pt_inputs := ins\<rparr>\<rparr>"
    by (fastforce simp: drop_inputs_def dest!: set_ext_by_Nil)
  have "member_ids s' = member_ids s \<and> es_output_pcols s' = es_output_pcols s \<and> es_environment s' = es_environment s
    \<and> (es_id s' = es_id s \<and> n' = n \<or> es_id s' = uuid n \<and> n' = Suc n)
    \<and> (\<forall>t' \<in> set (es_transforms s'). \<exists>t \<in> set (es_transforms s). \<exists>ins. t' = t\<lparr>ptn_transform := (ptn_transform t)\<lparr>pt_inputs := ins\<rparr>\<rparr>)"
  proof (cases "dangling_inputs s = []")
    case True
    have "\<exists>ins. t = t\<lparr>ptn_transform := (ptn_transform t)\<lparr>pt_inputs := ins\<rparr>\<rparr>" for t :: ptransform_node
      by (rule exI [of _ "pt_inputs (ptn_transform t)"]) simp
    then have "\<forall>t' \<in> set (es_transforms s). \<exists>t \<in> set (es_transforms s). \<exists>ins. t' = t\<lparr>ptn_transform := (ptn_transform t)\<lparr>pt_inputs := ins\<rparr>\<rparr>"
      by blast
    moreover have "s' = s" "n' = n"
      using True assms by (auto simp: sanitize_dangling_ptransform_inputs_def)
    ultimately show ?thesis
      by blast
  next
    case False
    then have "es_transforms s' = ?ts" "n' = Suc n" "es_id s' = uuid n" "es_output_pcols s' = es_output_pcols s" "es_environment s' = es_environment s"
      using assms by (auto simp: sanitize_dangling_ptransform_inputs_def stage_from_def Let_def)
    then show ?thesis
      using ids dropped by (simp add: member_ids_def)
  qed
  then show "member_ids s' = member_ids s" and "es_output_pcols s' = es_output_pcols s" and "es_environment s' = es_environment s"
    and "es_id s' = es_id s \<and> n' = n \<or> es_id s' = uuid n \<and> n' = Suc n"
    and "\<forall>t' \<in> set (es_transforms s'). \<exists>t \<in> set (es_transforms s). \<exists>ins. t' = t\<lparr>ptn_transform := (ptn_transform t)\<lparr>pt_inputs := ins\<rparr>\<rparr>"
    by blast+
qed

lemma initial_refs_queue:
  "initial_refs dec q ts (queue, sides, states, tms) = Ok (queue', rest) \<Longrightarrow> queue' = queue @ concat (map (get_output_pcol q) ts)"
  by (induction dec q ts "(queue, sides, states, tms)" arbitrary: queue sides states tms rule: initial_refs.induct) auto

lemma fuse_stage_growth:
  assumes "fuse_stage uuid dec q n input_pcol roots = Ok (s, n')"
  obtains env g s0 where "get_stage_environment q roots = Ok env" "growth_inv dec q env roots [] g"
    "es_transforms s0 = sg_transforms g" "es_output_pcols s0 = sg_materialized g" "es_environment s0 = env" "es_id s0 = uuid n"
    "sanitize_dangling_ptransform_inputs uuid (Suc n) s0 = (s, n')"
proof -
  obtain env queue sides states tms g where env: "get_stage_environment q roots = Ok env"
    and refs: "initial_refs dec q roots ([], [], [], []) = Ok (queue, sides, states, tms)"
    and g: "grow dec q env (list_ex transform_has_splittable_process_urn roots) queue
      \<lparr>sg_transforms = roots, sg_side_inputs = sides, sg_fused = [], sg_materialized = []\<rparr> = Ok g"
    and s: "sanitize_dangling_ptransform_inputs uuid (Suc n)
      (fst (stage_from uuid n (qp_components q) env input_pcol (sg_side_inputs g) states tms (sg_materialized g) (sg_transforms g))) = (s, n')"
    using assms by (auto simp: fuse_stage_def stage_from_def split: if_splits prod.splits)
  have "queue = concat (map (get_output_pcol q) roots)"
    using initial_refs_queue [OF refs] by simp
  then have "growth_inv dec q env roots queue \<lparr>sg_transforms = roots, sg_side_inputs = sides, sg_fused = [], sg_materialized = []\<rparr>"
    by (auto simp: growth_inv_def outputs_known_def fused_closed_def growth_justified_def)
  then have "growth_inv dec q env roots [] g"
    by (rule grow_inv [OF g])
  then show thesis
    by (rule that [OF env _ _ _ _ _ s]) (simp_all add: stage_from_def)
qed

lemma fuse_stage_closed:
  assumes "fuse_stage uuid dec q n input_pcol roots = Ok (s, n')"
  shows "ptn_id ` set roots \<subseteq> member_ids s"
    and "\<forall>t \<in> set (es_transforms s). \<forall>c \<in> set (get_output_pcol q t). pcn_id c \<in> produced_ids s
      \<or> get_singleton_consumers q c = [] \<and> ptn_id ` set (get_per_element_consumers q c) \<subseteq> member_ids s"
proof -
  obtain env g s0 where inv: "growth_inv dec q env roots [] g"
    and s0: "es_transforms s0 = sg_transforms g" "es_output_pcols s0 = sg_materialized g"
    and san: "sanitize_dangling_ptransform_inputs uuid (Suc n) s0 = (s, n')"
    by (rule fuse_stage_growth [OF assms])
  note f = sanitize_facts [OF san]
  have ids: "member_ids s = ptn_id ` set (sg_transforms g)" and outs: "produced_ids s = pcn_id ` set (sg_materialized g)"
    using f(1,2) s0 by (simp_all add: member_ids_def produced_ids_def)
  show "ptn_id ` set roots \<subseteq> member_ids s"
    using inv unfolding ids growth_inv_def by blast
  show "\<forall>t \<in> set (es_transforms s). \<forall>c \<in> set (get_output_pcol q t). pcn_id c \<in> produced_ids s
      \<or> get_singleton_consumers q c = [] \<and> ptn_id ` set (get_per_element_consumers q c) \<subseteq> member_ids s"
  proof (intro ballI)
    fix t c
    assume "t \<in> set (es_transforms s)" and c: "c \<in> set (get_output_pcol q t)"
    then have "ptn_id t \<in> ptn_id ` set (sg_transforms g)"
      using ids by (auto simp: member_ids_def)
    then obtain u where u: "u \<in> set (sg_transforms g)" "ptn_id u = ptn_id t"
      by force
    then have "pcn_id c \<in> classified g"
      using inv c outputs_id [OF u(2), of q] unfolding growth_inv_def outputs_known_def by auto
    then consider "pcn_id c \<in> produced_ids s" | d where "d \<in> set (sg_fused g)" "pcn_id d = pcn_id c"
      unfolding classified_def outs by force
    then show "pcn_id c \<in> produced_ids s
      \<or> get_singleton_consumers q c = [] \<and> ptn_id ` set (get_per_element_consumers q c) \<subseteq> member_ids s"
    proof cases
      case (2 d)
      then show ?thesis
        using inv consumers_id [OF 2(2), of q] unfolding growth_inv_def fused_closed_def ids by metis
    qed simp
  qed
qed

lemma check_environments_all:
  "check_environments q env ts = Ok () \<Longrightarrow> t \<in> set ts \<Longrightarrow> env_matches q t env"
  by (induction q env ts rule: check_environments.induct) (auto simp: env_matches_def same_environment_def split: if_splits)

lemma stage_environment_all:
  "get_stage_environment q ts = Ok env \<Longrightarrow> t \<in> set ts \<Longrightarrow> env_matches q t env"
  using check_environments_all [of q env ts t]
  by (cases ts) (auto simp: get_stage_environment_def simp del: check_environments.simps)

lemma can_fuse_node_environment:
  "can_fuse_node dec q t env c \<Longrightarrow> get_urn t = FLATTEN_TRANSFORM \<or> env_matches q t env"
  by (auto simp: can_fuse_node_def can_fuse_pardo_def can_fuse_compatible_env_def Let_def split: if_splits)

text \<open>The environment of a transform that is not a Flatten does not depend on its inputs.\<close>

lemma environment_ignores_inputs:
  assumes "get_urn t \<noteq> FLATTEN_TRANSFORM"
  shows "env_matches q (t\<lparr>ptn_transform := (ptn_transform t)\<lparr>pt_inputs := ins\<rparr>\<rparr>) env = env_matches q t env"
  using assms by (auto simp: env_matches_def get_environment_def get_urn_def split: option.splits)

lemma environment_not_runner:
  "env_matches q t env \<Longrightarrow> get_urn t \<noteq> FLATTEN_TRANSFORM \<Longrightarrow> pt_spec (ptn_transform t) \<noteq> None \<Longrightarrow> get_urn t \<notin> set FLARE"
  by (auto simp: env_matches_def get_environment_def get_urn_def split: option.splits if_splits)

lemma no_spec_not_runner: "pt_spec (ptn_transform t) = None \<Longrightarrow> get_urn t \<notin> set FLARE"
  by (simp add: get_urn_def FLARE_def transform_urn_defs)

lemma fuse_stage_environment:
  assumes "fuse_stage uuid dec q n input_pcol roots = Ok (s, n')" and "t \<in> set (es_transforms s)"
  shows "get_urn t = FLATTEN_TRANSFORM \<or> get_urn t \<notin> set FLARE \<and> env_matches q t (es_environment s)"
proof -
  obtain env g s0 where env: "get_stage_environment q roots = Ok env" and inv: "growth_inv dec q env roots [] g"
    and s0: "es_transforms s0 = sg_transforms g" "es_environment s0 = env"
    and san: "sanitize_dangling_ptransform_inputs uuid (Suc n) s0 = (s, n')"
    by (rule fuse_stage_growth [OF assms(1)])
  note f = sanitize_facts [OF san]
  obtain u ins where u: "u \<in> set (sg_transforms g)" and t: "t = u\<lparr>ptn_transform := (ptn_transform u)\<lparr>pt_inputs := ins\<rparr>\<rparr>"
    using f(5) assms(2) s0(1) by auto
  have "get_urn u = FLATTEN_TRANSFORM \<or> env_matches q u env"
    using inv u stage_environment_all [OF env] can_fuse_node_environment
    unfolding growth_inv_def growth_justified_def by blast
  moreover have "get_urn t = get_urn u"
    by (simp add: t get_urn_def)
  ultimately show ?thesis
    using environment_ignores_inputs [of u q ins env] environment_not_runner [of q t env] no_spec_not_runner [of t] f(3) s0(2)
    by (auto simp: t)
qed

section \<open>A sample pipeline\<close>

text \<open>
  An Impulse feeds a ParDo \<open>a\<close>, whose output feeds a second ParDo \<open>b\<close> and a GroupByKey.
\<close>

definition sample_env :: environment where
  "sample_env = \<lparr>env_urn = ''docker'', env_rest = []\<rparr>"

definition sample_transform :: "string \<Rightarrow> string \<Rightarrow> string list \<Rightarrow> string list \<Rightarrow> string \<times> ptransform" where
  "sample_transform i urn ins outs =
     (i, \<lparr>pt_unique_name = i, pt_spec = Some \<lparr>spec_urn = urn, spec_payload = [1]\<rparr>,
          pt_inputs = map (\<lambda>p. (p, p)) ins, pt_outputs = map (\<lambda>p. (p, p)) outs, pt_subtransforms = [], pt_environment_id = ''e''\<rparr>)"

definition sample_collection :: "string \<Rightarrow> string \<times> pcollection" where
  "sample_collection p = (p, \<lparr>pc_unique_name = p, pc_coder_id = ''c'', pc_is_bounded = 2, pc_windowing_strategy_id = ''w''\<rparr>)"

definition sample_pipeline :: components where
  "sample_pipeline =
     \<lparr>c_transforms = [sample_transform ''i'' IMPULSE_TRANSFORM [] [''p''], sample_transform ''a'' PAR_DO_TRANSFORM [''p''] [''q''],
        sample_transform ''b'' PAR_DO_TRANSFORM [''q''] [''r''], sample_transform ''g'' GROUP_BY_KEY_TRANSFORM [''r''] [''s'']],
      c_pcollections = map sample_collection [''p'', ''q'', ''r'', ''s''],
      c_windowing_strategies = [], c_coders = [], c_environments = [(''e'', sample_env)]\<rparr>"

definition sample_decoder :: pardo_decoder where
  "sample_decoder bs = Some \<lparr>pp_side_inputs = [], pp_state_specs = [], pp_timer_family_specs = [], pp_requires_time_sorted_input = False\<rparr>"

definition sample_queryable :: queryable_pipeline where
  "sample_queryable = the (new_pipeline sample_decoder 9 sample_pipeline)"

definition pcol_node :: "string \<Rightarrow> pcollection_node" where
  "pcol_node p = \<lparr>pcn_id = p, pcn_collection = snd (sample_collection p)\<rparr>"

definition transform_at :: "string \<Rightarrow> ptransform_node" where
  "transform_at i = \<lparr>ptn_id = i, ptn_transform = the (hm_get (c_transforms sample_pipeline) i)\<rparr>"

definition sample_fused :: "executable_stage \<times> nat" where
  "sample_fused = (case fuse_stage show_nat sample_decoder sample_queryable 0 (pcol_node ''p'') [transform_at ''a''] of Ok s \<Rightarrow> s)"

lemma sample_fuses: "fuse_stage show_nat sample_decoder sample_queryable 0 (pcol_node ''p'') [transform_at ''a''] = Ok sample_fused"
  "map ptn_id (es_transforms (fst sample_fused)) = [''a'', ''b'']" "map pcn_id (es_output_pcols (fst sample_fused)) = [''r'']"
  by code_simp+

section \<open>Properties of a stage\<close>

text \<open>
  C39: nothing leaks out of a stage. A stage contains its roots, and for every PCollection
  that one of its transforms writes, either the PCollection is an output of the stage, or
  all its main-input consumers run in the same stage and nothing reads it as a side input.
\<close>

theorem stage_closed_under_fusion:
  assumes "fuse_stage uuid dec q n input_pcol roots = Ok (s, n')"
  shows "ptn_id ` set roots \<subseteq> member_ids s
    \<and> (\<forall>t \<in> set (es_transforms s). \<forall>c \<in> set (get_output_pcol q t). pcn_id c \<in> produced_ids s
        \<or> get_singleton_consumers q c = [] \<and> ptn_id ` set (get_per_element_consumers q c) \<subseteq> member_ids s)"
  using fuse_stage_closed [OF assms] by blast

theorem stage_closed_under_fusion_witness:
  "ptn_id ` set [transform_at ''a''] \<subseteq> member_ids (fst sample_fused)
    \<and> (pcn_id (pcol_node ''q'') \<in> produced_ids (fst sample_fused)
        \<or> ptn_id ` set (get_per_element_consumers sample_queryable (pcol_node ''q'')) \<subseteq> member_ids (fst sample_fused))"
proof -
  have f: "fuse_stage show_nat sample_decoder sample_queryable 0 (pcol_node ''p'') [transform_at ''a''] = Ok (fst sample_fused, snd sample_fused)"
    using sample_fuses(1) by simp
  have "transform_at ''a'' \<in> set (es_transforms (fst sample_fused))" "pcol_node ''q'' \<in> set (get_output_pcol sample_queryable (transform_at ''a''))"
    by code_simp+
  then show ?thesis
    using stage_closed_under_fusion [OF f] by blast
qed



end
