(* ===== verification/Dedup_Props.thy ===== *)
theory Dedup_Props
  imports Fusion_Props
begin

text \<open>
  The single-producer rewriting is correct: after it no PCollection has two producers, and
  whatever a producer wrote to a shared PCollection reaches it through the new Flatten.
\<close>

section \<open>Partial PCollections\<close>

definition renamed :: "(string, pcollection_node) hashmap \<Rightarrow> string \<Rightarrow> string" where
  "renamed partials i = (case hm_get partials i of Some p \<Rightarrow> pcn_id p | None \<Rightarrow> i)"

abbreviation known_pcols :: "components \<Rightarrow> string set" where
  "known_pcols comps \<equiv> set (hm_keys (c_pcollections comps))"

definition partial_ids :: "(string, pcollection_node) hashmap \<Rightarrow> string set" where
  "partial_ids partials = pcn_id ` snd ` set partials"

definition partials_ok :: "components \<Rightarrow> (string, pcollection_node) hashmap \<Rightarrow> bool" where
  "partials_ok comps partials \<longleftrightarrow>
     hm_wf partials \<and> distinct (map (pcn_id \<circ> snd) partials) \<and> partial_ids partials \<inter> known_pcols comps = {}"

lemma hm_insert_fresh: "hm_get m k = None \<Longrightarrow> hm_insert k v m = m @ [(k, v)]"
  by (induction m) (auto split: if_splits)

lemma create_partials_spec:
  "create_partial_pcollections comps dups result = Ok out \<Longrightarrow> partials_ok comps result \<Longrightarrow>
   partials_ok comps out \<and> set (hm_keys out) = set (hm_keys result) \<union> pcn_id ` set dups"
proof (induction comps dups result rule: create_partial_pcollections.induct)
  case (2 comps dup dups result)
  define i where "i = unique_id (pcn_id dup) (hm_keys (c_pcollections comps) @ map (pcn_id \<circ> snd) result)"
  let ?p = "\<lparr>pcn_id = i, pcn_collection = (pcn_collection dup)\<lparr>pc_unique_name := i\<rparr>\<rparr>"
  have none: "hm_get result (pcn_id dup) = None"
    and out: "create_partial_pcollections comps dups (hm_insert (pcn_id dup) ?p result) = Ok out"
    using 2(2) by (auto simp: Let_def i_def split: if_splits)
  have fresh: "i \<notin> known_pcols comps" "i \<notin> set (map (pcn_id \<circ> snd) result)"
    using unique_id_fresh [of "pcn_id dup" "hm_keys (c_pcollections comps) @ map (pcn_id \<circ> snd) result"] by (auto simp: i_def)
  have ins: "hm_insert (pcn_id dup) ?p result = result @ [(pcn_id dup, ?p)]"
    by (rule hm_insert_fresh [OF none])
  have "partials_ok comps (hm_insert (pcn_id dup) ?p result)"
    using 2(3) fresh none unfolding ins partials_ok_def partial_ids_def
    by (auto simp: hm_wf_def map_of_eq_None_iff image_image)
  then show ?case
    using 2(1) [OF i_def refl none, of ] out unfolding ins by auto
qed simp

section \<open>One producer\<close>

definition transform_outs :: "ptransform_node \<Rightarrow> string set" where
  "transform_outs t = snd ` set (pt_outputs (ptn_transform t))"

lemma transform_outs_update: "transform_outs (update_node partials t) = renamed partials ` transform_outs t"
proof -
  have "pt_outputs (ptn_transform (update_node partials t)) = map (\<lambda>(k, i). (k, renamed partials i)) (pt_outputs (ptn_transform t))"
    by (simp add: update_node_def update_outputs_def hm_map_values_def renamed_def)
  then show ?thesis
    by (simp add: transform_outs_def image_image case_prod_unfold)
qed

lemma ptn_id_update_node [simp]: "ptn_id (update_node partials t) = ptn_id t"
  by (simp add: update_node_def)

definition stage_renamed :: "string \<Rightarrow> (string, pcollection_node) hashmap \<Rightarrow> executable_stage \<Rightarrow> executable_stage \<Rightarrow> bool" where
  "stage_renamed i partials s s' \<longleftrightarrow>
     es_id s' = i \<and> member_ids s' = member_ids s \<and> produced_ids s' = renamed partials ` produced_ids s"

lemma deduplicate_stage_spec:
  assumes "deduplicate_stage uuid n comps s dups = Ok (s', partials, n')"
  shows "create_partial_pcollections comps dups [] = Ok partials" and "n' = Suc n" and "stage_renamed (uuid n) partials s s'"
proof -
  let ?outs = "map (\<lambda>c. case hm_get partials (pcn_id c) of Some p \<Rightarrow> p | None \<Rightarrow> c) (es_output_pcols s)"
  have s': "create_partial_pcollections comps dups [] = Ok partials" "n' = Suc n" "es_id s' = uuid n"
    "es_transforms s' = ext_by ptn_id [] (map (update_node partials) (es_transforms s))" "es_output_pcols s' = ext_by pcn_id [] ?outs"
    using assms by (auto simp: deduplicate_stage_def stage_from_def Let_def)
  then show "create_partial_pcollections comps dups [] = Ok partials" and "n' = Suc n"
    by blast+
  have "member_ids s' = member_ids s"
    using keys_ext_by [of ptn_id "[]" "map (update_node partials) (es_transforms s)"] by (simp add: member_ids_def s'(4) image_image)
  moreover have "produced_ids s' = renamed partials ` produced_ids s"
  proof -
    have "pcn_id (case hm_get partials (pcn_id c) of Some p \<Rightarrow> p | None \<Rightarrow> c) = renamed partials (pcn_id c)" for c
      by (simp add: renamed_def split: option.split)
    then show ?thesis
      using keys_ext_by [of pcn_id "[]" ?outs] by (simp add: produced_ids_def s'(5) image_image)
  qed
  ultimately show "stage_renamed (uuid n) partials s s'"
    by (simp add: stage_renamed_def s'(3))
qed

text \<open>
  The rewriting of the producers as a relation that keeps the partials minted for each of
  them, which the state forgets.
\<close>

definition known :: "dedup_state \<Rightarrow> string set" where
  "known ds = known_pcols (ds_components ds)"

inductive rewritten :: "(nat \<Rightarrow> string) \<Rightarrow> (stage_or_transform \<times> pcollection_node list) list \<Rightarrow> dedup_state
    \<Rightarrow> (stage_or_transform \<times> (string, pcollection_node) hashmap) list \<Rightarrow> dedup_state \<Rightarrow> bool" for uuid where
  finished: "rewritten uuid [] ds [] ds"
| stage: "create_partial_pcollections (ds_components ds) dups [] = Ok partials \<Longrightarrow>
    stage_renamed (uuid (ds_uuids ds)) partials s s' \<Longrightarrow>
    rewritten uuid pds ((note_partials partials ds)\<lparr>ds_stages := hm_insert (es_id s) s' (ds_stages ds), ds_uuids := Suc (ds_uuids ds)\<rparr>) log ds' \<Longrightarrow>
    rewritten uuid ((StageProducer s, dups) # pds) ds ((StageProducer s, partials) # log) ds'"
| transform: "create_partial_pcollections (ds_components ds) dups [] = Ok partials \<Longrightarrow>
    rewritten uuid pds ((note_partials partials ds)\<lparr>ds_transforms := hm_insert (ptn_id t) (update_node partials t) (ds_transforms ds)\<rparr>) log ds' \<Longrightarrow>
    rewritten uuid ((TransformProducer t, dups) # pds) ds ((TransformProducer t, partials) # log) ds'"

lemma rewrite_producers_rewritten:
  "rewrite_producers uuid pds ds = Ok ds' \<Longrightarrow> \<exists>log. rewritten uuid pds ds log ds'"
proof (induction uuid pds ds rule: rewrite_producers.induct)
  case (2 uuid pd pds ds)
  obtain ds1 where ds1: "rewrite_producer uuid pd ds = Ok ds1" and "rewrite_producers uuid pds ds1 = Ok ds'"
    using 2(2) by auto
  then obtain log where log: "rewritten uuid pds ds1 log ds'"
    using 2(1) by blast
  obtain p dups where pd: "pd = (p, dups)"
    by (cases pd)
  show ?case
  proof (cases p)
    case (StageProducer s)
    then show ?thesis
      using ds1 log deduplicate_stage_spec unfolding pd rewrite_producer_def by (fastforce intro: rewritten.stage)
  next
    case (TransformProducer t)
    then show ?thesis
      using ds1 log unfolding pd rewrite_producer_def deduplicate_transform_def by (fastforce intro: rewritten.transform)
  qed
qed (auto intro: rewritten.finished)

lemma known_note_partials [simp]:
  "known ((note_partials partials ds)\<lparr>ds_stages := ss, ds_uuids := n\<rparr>) = known ds \<union> partial_ids partials"
  "known ((note_partials partials ds)\<lparr>ds_transforms := ts\<rparr>) = known ds \<union> partial_ids partials"
proof -
  have "set (hm_keys (fold (\<lambda>(_, p). hm_insert (pcn_id p) (pcn_collection p)) ps m)) = set (hm_keys m) \<union> partial_ids ps" for ps m
    by (induction ps arbitrary: m) (auto simp: partial_ids_def dom_update simp flip: dom_map_of_conv_image_fst)
  then show "known ((note_partials partials ds)\<lparr>ds_stages := ss, ds_uuids := n\<rparr>) = known ds \<union> partial_ids partials"
    "known ((note_partials partials ds)\<lparr>ds_transforms := ts\<rparr>) = known ds \<union> partial_ids partials"
    by (simp_all add: known_def note_partials_def register_partials_def)
qed

text \<open>What one call of \<open>create_partial_pcollections\<close> mints.\<close>

definition minted :: "pcollection_node list \<Rightarrow> (string, pcollection_node) hashmap \<Rightarrow> bool" where
  "minted dups partials \<longleftrightarrow> set (hm_keys partials) = pcn_id ` set dups \<and> hm_wf partials \<and> distinct (map (pcn_id \<circ> snd) partials)"

lemma create_partials_minted:
  assumes "create_partial_pcollections (ds_components ds) dups [] = Ok partials"
  shows "minted dups partials" and "partial_ids partials \<inter> known ds = {}"
  using create_partials_spec [OF assms] by (simp_all add: minted_def partials_ok_def known_def partial_ids_def)

lemma rewritten_partials:
  assumes "rewritten uuid pds ds log ds'"
  shows "list_all2 (\<lambda>(p, dups) (p', partials). p' = p \<and> minted dups partials) pds log
    \<and> (\<forall>(p, partials) \<in> set log. partial_ids partials \<inter> known ds = {})
    \<and> sorted_wrt (\<lambda>(p, a) (p', b). partial_ids a \<inter> partial_ids b = {}) log"
  using assms
proof (induction rule: rewritten.induct)
  case (stage ds dups partials s s' pds log ds')
  then show ?case
    using create_partials_minted [OF stage(1)] by auto
next
  case (transform ds dups partials pds t log ds')
  then show ?case
    using create_partials_minted [OF transform(1)] by auto
qed simp

lemma rewritten_other:
  assumes "rewritten uuid pds ds log ds'"
  shows "ds_uuids ds \<le> ds_uuids ds'"
    and "Inl i \<notin> (producer_key \<circ> fst) ` set pds \<Longrightarrow> hm_get (ds_stages ds') i = hm_get (ds_stages ds) i"
    and "Inr i \<notin> (producer_key \<circ> fst) ` set pds \<Longrightarrow> hm_get (ds_transforms ds') i = hm_get (ds_transforms ds) i"
  using assms by (induction rule: rewritten.induct) (auto simp: producer_key_def note_partials_def)

lemma rewritten_lookup:
  assumes "rewritten uuid pds ds log ds'" and "distinct (map (producer_key \<circ> fst) pds)"
  shows "(StageProducer s, partials) \<in> set log \<Longrightarrow> \<exists>n s'. ds_uuids ds \<le> n \<and> n < ds_uuids ds'
      \<and> hm_get (ds_stages ds') (es_id s) = Some s' \<and> stage_renamed (uuid n) partials s s'"
    and "(TransformProducer t, partials) \<in> set log \<Longrightarrow> hm_get (ds_transforms ds') (ptn_id t) = Some (update_node partials t)"
proof -
  have "((StageProducer s, partials) \<in> set log \<longrightarrow> (\<exists>n s'. ds_uuids ds \<le> n \<and> n < ds_uuids ds'
      \<and> hm_get (ds_stages ds') (es_id s) = Some s' \<and> stage_renamed (uuid n) partials s s'))
    \<and> ((TransformProducer t, partials) \<in> set log \<longrightarrow> hm_get (ds_transforms ds') (ptn_id t) = Some (update_node partials t))"
    using assms
  proof (induction rule: rewritten.induct)
    case (stage ds dups ps s1 s1' pds log ds')
    have "Inl (es_id s1) \<notin> (producer_key \<circ> fst) ` set pds"
      using stage.prems by (simp add: producer_key_def)
    then have "hm_get (ds_stages ds') (es_id s1) = Some s1'"
      using rewritten_other(2) [OF stage(3)] by simp
    then show ?case
      using stage.IH stage.prems stage(2) rewritten_other(1) [OF stage(3)]
      by (auto simp: Suc_le_eq intro: less_imp_le)
  next
    case (transform ds dups ps pds t1 log ds')
    have "Inr (ptn_id t1) \<notin> (producer_key \<circ> fst) ` set pds"
      using transform.prems by (simp add: producer_key_def)
    then have "hm_get (ds_transforms ds') (ptn_id t1) = Some (update_node ps t1)"
      using rewritten_other(3) [OF transform(2)] by simp
    then show ?case
      using transform.IH transform.prems rewritten_other(1) [OF transform(2)] by (auto simp: note_partials_def)
  qed simp
  then show "(StageProducer s, partials) \<in> set log \<Longrightarrow> \<exists>n s'. ds_uuids ds \<le> n \<and> n < ds_uuids ds'
      \<and> hm_get (ds_stages ds') (es_id s) = Some s' \<and> stage_renamed (uuid n) partials s s'"
    and "(TransformProducer t, partials) \<in> set log \<Longrightarrow> hm_get (ds_transforms ds') (ptn_id t) = Some (update_node partials t)"
    by blast+
qed

text \<open>The lists under the keys of a map built with \<open>push_at\<close>.\<close>

definition pushed :: "('k, 'n \<times> 'v list) hashmap \<Rightarrow> 'k \<Rightarrow> 'v list" where
  "pushed m k = (case hm_get m k of Some (_, vs) \<Rightarrow> vs | None \<Rightarrow> [])"

lemma pushed_push_at: "pushed (push_at k n v m) j = pushed m j @ (if j = k then [v] else [])"
  by (auto simp: pushed_def push_at_def split: option.split)

lemma keys_push_at [simp]: "fst ` set (push_at k n v m) = insert k (fst ` set m)"
  by (auto simp: push_at_def dom_update split: option.split simp flip: dom_map_of_conv_image_fst)

lemma hm_wf_push_at [simp]: "hm_wf m \<Longrightarrow> hm_wf (push_at k n v m)"
  by (auto simp: push_at_def split: option.split)

lemma fold_push_partials:
  "pushed (fold (\<lambda>(orig, p). push_at orig () p) ps m) k = pushed m k @ map snd (filter (\<lambda>e. fst e = k) ps)"
  "fst ` set (fold (\<lambda>(orig, p). push_at orig () p) ps m) = fst ` set m \<union> fst ` set ps"
  "hm_wf m \<Longrightarrow> hm_wf (fold (\<lambda>(orig, p). push_at orig () p) ps m)"
  by (induction ps arbitrary: m) (simp_all add: pushed_push_at case_prod_unfold)

lemma pushed_note_partials:
  "set (pushed (ds_partials (note_partials partials ds)) k) = set (pushed (ds_partials ds) k) \<union> {x. (k, x) \<in> set partials}"
  "fst ` set (ds_partials (note_partials partials ds)) = fst ` set (ds_partials ds) \<union> fst ` set partials"
  "hm_wf (ds_partials ds) \<Longrightarrow> hm_wf (ds_partials (note_partials partials ds))"
  by (force simp: note_partials_def fold_push_partials)+

lemma rewritten_ds_partials:
  assumes "rewritten uuid pds ds log ds'"
  shows "fst ` set (ds_partials ds') = fst ` set (ds_partials ds) \<union> (\<Union>(p, partials) \<in> set log. fst ` set partials)"
    and "set (pushed (ds_partials ds') k) = set (pushed (ds_partials ds) k) \<union> (\<Union>(p, partials) \<in> set log. {x. (k, x) \<in> set partials})"
    and "hm_wf (ds_partials ds) \<Longrightarrow> hm_wf (ds_partials ds')"
  using assms
  by (induction rule: rewritten.induct) (simp_all add: pushed_note_partials Un_assoc)

section \<open>Who produces what\<close>

lemma pushed_fold: "pushed (fold (\<lambda>x. push_at (key x) (node x) (val x)) xs m) k = pushed m k @ map val (filter (\<lambda>x. key x = k) xs)"
  by (induction xs arbitrary: m) (simp_all add: pushed_push_at)

lemma filter_distinct_key:
  "distinct (map key xs) \<Longrightarrow> map (\<lambda>_. v) (filter (\<lambda>x. key x = k) xs) = (if k \<in> key ` set xs then [v] else [])"
  by (induction xs) (auto simp: filter_empty_conv)

lemma pushed_fold_outputs:
  assumes "\<And>x. x \<in> set xs \<Longrightarrow> distinct (map pcn_id (outs x))"
  shows "pushed (fold (\<lambda>x. fold (\<lambda>out. push_at (pcn_id out) out (mk x)) (outs x)) xs m) p
    = pushed m p @ map mk (filter (\<lambda>x. p \<in> pcn_id ` set (outs x)) xs)"
  using assms by (induction xs arbitrary: m) (simp_all add: pushed_fold filter_distinct_key)

text \<open>Every entry holds, beside its list, the value whose identifier is its key.\<close>

definition keyed_by :: "('n \<Rightarrow> 'k) \<Rightarrow> ('k, 'n \<times> 'v list) hashmap \<Rightarrow> bool" where
  "keyed_by key m \<longleftrightarrow> hm_wf m \<and> (\<forall>(k, n, vs) \<in> set m. key n = k)"

lemma keyed_push_at [simp]: "keyed_by key m \<Longrightarrow> keyed_by key (push_at (key n) n v m)"
proof -
  assume m: "keyed_by key m"
  have "key n' = k" if "(k, n', vs) \<in> set (push_at (key n) n v m)" for k n' vs
    using that m by (fastforce simp: keyed_by_def push_at_def dest!: hm_insert_mem dest: hm_get_mem split: option.splits)
  then show ?thesis
    using m by (auto simp: keyed_by_def)
qed

lemma keyed_fold [simp]: "keyed_by key m \<Longrightarrow> keyed_by key (fold (\<lambda>x. push_at (key x) x v) xs m)"
  by (induction xs arbitrary: m) simp_all

lemma keyed_fold_outputs:
  "keyed_by pcn_id m \<Longrightarrow> keyed_by pcn_id (fold (\<lambda>x. fold (\<lambda>out. push_at (pcn_id out) out (mk x)) (outs x)) xs m)"
  by (induction xs arbitrary: m) simp_all

lemma keyed_by_Nil [simp]: "keyed_by key []"
  by (simp add: keyed_by_def)

definition producers_of :: "queryable_pipeline \<Rightarrow> executable_stage list \<Rightarrow> ptransform_node list \<Rightarrow> string \<Rightarrow> stage_or_transform list" where
  "producers_of q fused unfused p =
     map StageProducer (filter (\<lambda>s. p \<in> produced_ids s) fused)
     @ map TransformProducer (filter (\<lambda>t. p \<in> pcn_id ` set (get_output_pcol q t)) unfused)"

lemma distinct_output_pcol [simp]: "distinct (map pcn_id (get_output_pcol q t))"
  by (simp add: get_output_pcol_def split: option.split)

lemma collect_producers_spec:
  assumes "\<And>s. s \<in> set fused \<Longrightarrow> distinct (map pcn_id (es_output_pcols s))"
  shows "pushed (collect_producers q fused unfused) p = producers_of q fused unfused p"
    and "keyed_by pcn_id (collect_producers q fused unfused)"
proof -
  show "pushed (collect_producers q fused unfused) p = producers_of q fused unfused p"
    using assms unfolding collect_producers_def producers_of_def produced_ids_def
    by (simp add: pushed_fold_outputs pushed_def [of "[]"])
  show "keyed_by pcn_id (collect_producers q fused unfused)"
    unfolding collect_producers_def by (simp add: keyed_fold_outputs)
qed

text \<open>The PCollections the producer with key \<open>k\<close> shares.\<close>

definition shared_by :: "(string, pcollection_node \<times> stage_or_transform list) hashmap \<Rightarrow> string + string \<Rightarrow> pcollection_node list" where
  "shared_by m k = map (\<lambda>(_, c, _). c) (filter (\<lambda>(_, _, prods). length prods > 1 \<and> k \<in> producer_key ` set prods) m)"

lemma requires_new_output_spec:
  assumes "\<forall>(p, c, prods) \<in> set m. distinct (map producer_key prods)"
  shows "pushed (requires_new_output m) k = shared_by m k" and "keyed_by producer_key (requires_new_output m)"
proof -
  let ?f = "\<lambda>(_ :: string, pcol :: pcollection_node, prods) m. if length prods > 1 then fold (\<lambda>p. push_at (producer_key p) p pcol) prods m else m"
  have "pushed (fold ?f xs a) k = pushed a k @ shared_by xs k"
    if "\<forall>(p, c, prods) \<in> set xs. distinct (map producer_key prods)" for xs a
    using that
  proof (induction xs arbitrary: a)
    case (Cons x xs)
    obtain p c prods where x: "x = (p, c, prods)"
      by (cases x)
    have "pushed (?f x a) k = pushed a k @ shared_by [x] k"
      using Cons.prems by (simp add: x shared_by_def pushed_fold filter_distinct_key)
    then show ?case
      using Cons.IH [of "?f x a"] Cons.prems by (simp add: shared_by_def)
  qed (simp add: shared_by_def)
  then show "pushed (requires_new_output m) k = shared_by m k"
    using assms by (simp add: requires_new_output_def pushed_def [of "[]"])
  have "keyed_by producer_key a \<Longrightarrow> keyed_by producer_key (fold ?f xs a)" for xs a
  proof (induction xs arbitrary: a)
    case (Cons x xs)
    show ?case
      using Cons.IH [of "?f x a"] Cons.prems by (cases x) simp
  qed simp
  then show "keyed_by producer_key (requires_new_output m)"
    by (simp add: requires_new_output_def)
qed

section \<open>All producers together\<close>

fun outs_of :: "stage_or_transform \<Rightarrow> string set" where
  "outs_of (StageProducer s) = produced_ids s"
| "outs_of (TransformProducer t) = transform_outs t"

definition all_producers :: "executable_stage list \<Rightarrow> ptransform_node list \<Rightarrow> stage_or_transform list" where
  "all_producers fused unfused = map StageProducer fused @ map TransformProducer unfused"

text \<open>What the walk hands over: distinct stages and transforms of the pipeline, with known outputs.\<close>

definition dedup_ready :: "queryable_pipeline \<Rightarrow> executable_stage list \<Rightarrow> ptransform_node list \<Rightarrow> bool" where
  "dedup_ready q fused unfused \<longleftrightarrow>
     distinct (map es_id fused) \<and> distinct (map ptn_id unfused)
     \<and> (\<forall>s \<in> set fused. distinct (map pcn_id (es_output_pcols s)) \<and> produced_ids s \<subseteq> known_pcols (qp_components q))
     \<and> (\<forall>t \<in> set unfused. transform_outs t = pcn_id ` set (get_output_pcol q t) \<and> transform_outs t \<subseteq> known_pcols (qp_components q)
          \<and> ptn_id t \<in> set (hm_keys (c_transforms (qp_components q))))"

lemma dedup_readyD:
  assumes "dedup_ready q fused unfused"
  shows "distinct (map producer_key (all_producers fused unfused))"
    and "x \<in> set (all_producers fused unfused) \<Longrightarrow> outs_of x \<subseteq> known_pcols (qp_components q)"
    and "producers_of q fused unfused p = filter (\<lambda>x. p \<in> outs_of x) (all_producers fused unfused)"
proof -
  have k: "producer_key \<circ> StageProducer = Inl \<circ> es_id" "producer_key \<circ> TransformProducer = Inr \<circ> ptn_id"
    by (auto simp: producer_key_def)
  have "distinct (map (Inl \<circ> es_id) fused)" "distinct (map (Inr \<circ> ptn_id) unfused)"
    using assms by (auto simp: dedup_ready_def distinct_map inj_on_def)
  then show "distinct (map producer_key (all_producers fused unfused))"
    by (simp add: all_producers_def k) (auto simp: producer_key_def)
  show "outs_of x \<subseteq> known_pcols (qp_components q)" if "x \<in> set (all_producers fused unfused)"
  proof (cases x)
    case (StageProducer s)
    then have "s \<in> set fused"
      using that by (auto simp: all_producers_def)
    then show ?thesis
      using assms by (simp add: dedup_ready_def StageProducer)
  next
    case (TransformProducer t)
    then have "t \<in> set unfused"
      using that by (auto simp: all_producers_def)
    then show ?thesis
      using assms unfolding TransformProducer outs_of.simps dedup_ready_def by blast
  qed
  have "filter (\<lambda>t. p \<in> pcn_id ` set (get_output_pcol q t)) unfused = filter (\<lambda>t. p \<in> transform_outs t) unfused"
    using assms by (intro filter_cong) (auto simp: dedup_ready_def)
  then show "producers_of q fused unfused p = filter (\<lambda>x. p \<in> outs_of x) (all_producers fused unfused)"
    by (simp add: producers_of_def all_producers_def filter_map comp_def)
qed

lemma producer_key_inj:
  "dedup_ready q fused unfused \<Longrightarrow> x \<in> set (all_producers fused unfused) \<Longrightarrow> y \<in> set (all_producers fused unfused)
   \<Longrightarrow> producer_key x = producer_key y \<longleftrightarrow> x = y"
  using dedup_readyD(1) by (auto simp: distinct_map inj_on_def)

lemma collected_entry:
  assumes ready: "dedup_ready q fused unfused"
  shows "keyed_by pcn_id (collect_producers q fused unfused)"
    and "pushed (collect_producers q fused unfused) p = filter (\<lambda>x. p \<in> outs_of x) (all_producers fused unfused)"
    and "(i, d, prods) \<in> set (collect_producers q fused unfused) \<Longrightarrow>
      prods = filter (\<lambda>x. i \<in> outs_of x) (all_producers fused unfused) \<and> pcn_id d = i \<and> distinct (map producer_key prods)"
proof -
  have out: "\<And>s. s \<in> set fused \<Longrightarrow> distinct (map pcn_id (es_output_pcols s))"
    using ready by (auto simp: dedup_ready_def)
  note c = collect_producers_spec [OF out, of fused q unfused]
  show "keyed_by pcn_id (collect_producers q fused unfused)"
    by (rule c(2)) simp
  show p: "pushed (collect_producers q fused unfused) p = filter (\<lambda>x. p \<in> outs_of x) (all_producers fused unfused)" for p
    using c(1) dedup_readyD(3) [OF ready] by simp
  show "prods = filter (\<lambda>x. i \<in> outs_of x) (all_producers fused unfused) \<and> pcn_id d = i \<and> distinct (map producer_key prods)"
    if e: "(i, d, prods) \<in> set (collect_producers q fused unfused)"
  proof -
    have "hm_get (collect_producers q fused unfused) i = Some (d, prods)"
      using e c(2) by (simp add: keyed_by_def hm_get_iff_mem)
    then have "prods = filter (\<lambda>x. i \<in> outs_of x) (all_producers fused unfused)"
      using p [of i] by (simp add: pushed_def)
    moreover have "pcn_id d = i"
      using e c(2) by (auto simp: keyed_by_def)
    ultimately show ?thesis
      using dedup_readyD(1) [OF ready] distinct_map_filter by blast
  qed
qed

text \<open>A PCollection is rewritten for a producer exactly when another one produces it too.\<close>

lemma shared_by_iff:
  assumes ready: "dedup_ready q fused unfused" and x: "x \<in> set (all_producers fused unfused)"
  shows "p \<in> pcn_id ` set (shared_by (collect_producers q fused unfused) (producer_key x))
    \<longleftrightarrow> p \<in> outs_of x \<and> (\<exists>y \<in> set (all_producers fused unfused). y \<noteq> x \<and> p \<in> outs_of y)"
    (is "?L = ?R")
proof -
  let ?P = "all_producers fused unfused" and ?m = "collect_producers q fused unfused"
  have dP: "distinct ?P"
    using dedup_readyD(1) [OF ready] by (simp add: distinct_map)
  have entry: "prods = filter (\<lambda>x. i \<in> outs_of x) ?P \<and> pcn_id d = i" if "(i, d, prods) \<in> set ?m" for i d prods
    using collected_entry(3) [OF ready that] by blast
  have len: "length (filter Q ?P) > 1 \<longleftrightarrow> (\<exists>y \<in> set ?P. y \<noteq> x \<and> Q y)" if "Q x" for Q
  proof -
    have "length (filter Q ?P) = card {y \<in> set ?P. Q y}"
      using distinct_card [OF distinct_filter [OF dP, of Q]] by simp
    moreover have "card {y \<in> set ?P. Q y} > 1 \<longleftrightarrow> (\<exists>y \<in> set ?P. y \<noteq> x \<and> Q y)"
    proof -
      have "{y \<in> set ?P. Q y} = insert x {y \<in> set ?P. y \<noteq> x \<and> Q y}"
        using x that by auto
      then have "card {y \<in> set ?P. Q y} = Suc (card {y \<in> set ?P. y \<noteq> x \<and> Q y})"
        by (metis (mono_tags, lifting) List.finite_set card_insert_disjoint finite_subset mem_Collect_eq subsetI)
      then show ?thesis
        by (auto simp: card_gt_0_iff)
    qed
    ultimately show ?thesis
      by simp
  qed
  have keys: "producer_key x \<in> producer_key ` set (filter Q ?P) \<longleftrightarrow> Q x" for Q
    using x producer_key_inj [OF ready x] by auto
  show ?thesis
  proof
    assume ?L
    then obtain d prods where e: "(p, d, prods) \<in> set ?m" "length prods > 1" "producer_key x \<in> producer_key ` set prods"
      using entry by (fastforce simp: shared_by_def)
    then show ?R
      using entry [OF e(1)] keys len [of "\<lambda>x. p \<in> outs_of x"] by simp
  next
    assume r: ?R
    then have "pushed ?m p \<noteq> []"
      using collected_entry(2) [OF ready, of p] x by (auto simp: filter_empty_conv)
    then obtain d prods where "hm_get ?m p = Some (d, prods)"
      by (auto simp: pushed_def split: option.splits)
    then have e: "(p, d, prods) \<in> set ?m"
      by (rule hm_get_mem)
    have "(p, d, prods) \<in> set (filter (\<lambda>(_, _, prods). length prods > 1 \<and> producer_key x \<in> producer_key ` set prods) ?m)"
      using e entry [OF e] r keys len [of "\<lambda>x. p \<in> outs_of x"] by simp
    then have "d \<in> set (shared_by ?m (producer_key x))"
      unfolding shared_by_def set_map by (rule image_eqI [rotated]) simp
    then show ?L
      using entry [OF e] by blast
  qed
qed

section \<open>After the rewriting\<close>

lemma create_partials_Ok:
  "distinct (map pcn_id dups) \<Longrightarrow> pcn_id ` set dups \<inter> fst ` set result = {} \<Longrightarrow>
   \<exists>out. create_partial_pcollections comps dups result = Ok out"
proof (induction comps dups result rule: create_partial_pcollections.induct)
  case (2 comps dup dups result)
  have none: "hm_get result (pcn_id dup) = None"
    using 2(3) by (auto simp: map_of_eq_None_iff)
  show ?case
    using 2(1) [OF refl refl none] 2(2,3) none by (auto simp: Let_def hm_insert_fresh)
qed simp

lemma rewrite_producers_Ok:
  "\<forall>(p, dups) \<in> set pds. distinct (map pcn_id dups) \<Longrightarrow> \<exists>ds'. rewrite_producers uuid pds ds = Ok ds'"
proof (induction pds arbitrary: ds)
  case (Cons pd pds)
  obtain p dups where pd: "pd = (p, dups)"
    by (cases pd)
  obtain partials where "create_partial_pcollections (ds_components ds) dups [] = Ok partials"
    using create_partials_Ok [of dups "[]"] Cons.prems by (auto simp: pd)
  then have "\<exists>ds1. rewrite_producer uuid pd ds = Ok ds1"
    by (cases p) (simp_all add: pd rewrite_producer_def deduplicate_stage_def deduplicate_transform_def stage_from_def Let_def)
  then show ?case
    using Cons by auto
qed simp

text \<open>The partials minted for the producer with key \<open>k\<close>.\<close>

definition log_of :: "(stage_or_transform \<times> (string, pcollection_node) hashmap) list \<Rightarrow> string + string \<Rightarrow> (string, pcollection_node) hashmap" where
  "log_of log k = (case map_of (map (\<lambda>e. (producer_key (fst e), snd e)) log) k of Some partials \<Rightarrow> partials | None \<Rightarrow> [])"

lemma renamed_cases:
  assumes "minted dups partials"
  obtains "i \<in> pcn_id ` set dups" "renamed partials i \<in> partial_ids partials" | "i \<notin> pcn_id ` set dups" "renamed partials i = i"
proof (cases "hm_get partials i")
  case None
  then have "i \<notin> pcn_id ` set dups"
    using assms by (auto simp: minted_def map_of_eq_None_iff)
  then show thesis
    using that(2) None by (simp add: renamed_def)
next
  case (Some x)
  then have "(i, x) \<in> set partials"
    by (rule hm_get_mem)
  then have "i \<in> fst ` set partials" "pcn_id x \<in> partial_ids partials"
    by (force simp: partial_ids_def)+
  then show thesis
    using that(1) Some assms by (simp add: renamed_def minted_def)
qed

lemma minted_Nil: "minted [] []" "minted dups [] \<Longrightarrow> dups = []"
  by (auto simp: minted_def)

text \<open>
  The facts of one run of the rewriting over the producers of \<open>dedup_ready\<close> lists: every
  producer has minted partials for exactly what it shares, the partials are new and all
  different, and the rewritten producers are found in the maps.
\<close>

definition dedup_run :: "(nat \<Rightarrow> string) \<Rightarrow> nat \<Rightarrow> queryable_pipeline \<Rightarrow> executable_stage list \<Rightarrow> ptransform_node list
   \<Rightarrow> (string + string \<Rightarrow> (string, pcollection_node) hashmap) \<Rightarrow> dedup_state \<Rightarrow> bool" where
  "dedup_run uuid n q fused unfused L ds \<longleftrightarrow>
     (\<forall>x \<in> set (all_producers fused unfused). minted (shared_by (collect_producers q fused unfused) (producer_key x)) (L (producer_key x)))
     \<and> (\<forall>x \<in> set (all_producers fused unfused). partial_ids (L (producer_key x)) \<inter> known_pcols (qp_components q) = {})
     \<and> (\<forall>x \<in> set (all_producers fused unfused). \<forall>y \<in> set (all_producers fused unfused). x \<noteq> y \<longrightarrow>
          partial_ids (L (producer_key x)) \<inter> partial_ids (L (producer_key y)) = {})
     \<and> (\<forall>s \<in> set fused. case hm_get (ds_stages ds) (es_id s) of
          None \<Rightarrow> L (Inl (es_id s)) = []
        | Some s' \<Rightarrow> \<exists>k. n \<le> k \<and> k < ds_uuids ds \<and> stage_renamed (uuid k) (L (Inl (es_id s))) s s')
     \<and> (\<forall>t \<in> set unfused. case hm_get (ds_transforms ds) (ptn_id t) of
          None \<Rightarrow> L (Inr (ptn_id t)) = [] | Some t' \<Rightarrow> t' = update_node (L (Inr (ptn_id t))) t)
     \<and> hm_wf (ds_partials ds)
     \<and> (\<forall>p. set (pushed (ds_partials ds) p) = (\<Union>x \<in> set (all_producers fused unfused). {c. (p, c) \<in> set (L (producer_key x))}))
     \<and> fst ` set (ds_partials ds) = (\<Union>x \<in> set (all_producers fused unfused). fst ` set (L (producer_key x)))"

lemma log_of_mem:
  assumes "distinct (map (producer_key \<circ> fst) log)" and "(p, partials) \<in> set log"
  shows "log_of log (producer_key p) = partials"
proof -
  have "map_of (map (\<lambda>e. (producer_key (fst e), snd e)) log) (producer_key p) = Some partials"
    using assms by (intro map_of_is_SomeI) (force simp: comp_def)+
  then show ?thesis
    by (simp add: log_of_def)
qed

lemma log_of_other: "k \<notin> (producer_key \<circ> fst) ` set log \<Longrightarrow> log_of log k = []"
  by (force simp: log_of_def image_iff split: option.split dest: map_of_SomeD)

lemma requires_nodes:
  assumes "(k, p, dups) \<in> set (requires_new_output m)"
  shows "\<exists>(i, c, prods) \<in> set m. p \<in> set prods"
proof -
  define Q where "Q = (\<Union>(i, c, prods) \<in> set m. set prods)"
  have push: "\<forall>e \<in> set (push_at k n v a). fst (snd e) \<in> Q" if "\<forall>e \<in> set a. fst (snd e) \<in> Q" "n \<in> Q"
    for k n and v :: pcollection_node and a :: "(string + string, stage_or_transform \<times> pcollection_node list) hashmap"
    using that by (fastforce simp: push_at_def dest!: hm_insert_mem dest: hm_get_mem split: option.splits)
  have pushes: "\<forall>e \<in> set (fold (\<lambda>p. push_at (producer_key p) p c) prods a). fst (snd e) \<in> Q"
    if "\<forall>e \<in> set a. fst (snd e) \<in> Q" "set prods \<subseteq> Q" for prods and c :: pcollection_node and a
    using that
  proof (induction prods arbitrary: a)
    case (Cons p ps)
    then show ?case
      using Cons.IH [OF push [OF Cons.prems(1), of p]] by simp
  qed simp
  let ?f = "\<lambda>(_ :: string, pcol :: pcollection_node, prods) m. if length prods > 1 then fold (\<lambda>p. push_at (producer_key p) p pcol) prods m else m"
  have all: "\<forall>e \<in> set (fold ?f xs a). fst (snd e) \<in> Q" if "\<forall>e \<in> set a. fst (snd e) \<in> Q" "set xs \<subseteq> set m" for xs a
    using that
  proof (induction xs arbitrary: a)
    case (Cons x xs)
    obtain i c prods where x: "x = (i, c, prods)"
      by (cases x)
    have "set prods \<subseteq> Q"
      using Cons.prems(2) unfolding Q_def x by fastforce
    then have "\<forall>e \<in> set (?f x a). fst (snd e) \<in> Q"
      using pushes [OF Cons.prems(1)] Cons.prems(1) by (auto simp only: x prod.case split: if_split)
    then show ?case
      using Cons.IH [of "?f x a"] Cons.prems(2) by simp
  qed simp
  have "\<forall>e \<in> set (requires_new_output m). fst (snd e) \<in> Q"
    unfolding requires_new_output_def by (rule all) simp_all
  then have "p \<in> Q"
    using assms by fastforce
  then show ?thesis
    by (fastforce simp: Q_def)
qed

text \<open>A log of the rewriting: one entry per producer that shares something.\<close>

definition log_for :: "queryable_pipeline \<Rightarrow> executable_stage list \<Rightarrow> ptransform_node list
   \<Rightarrow> (stage_or_transform \<times> (string, pcollection_node) hashmap) list \<Rightarrow> bool" where
  "log_for q fused unfused log \<longleftrightarrow>
     distinct (map (producer_key \<circ> fst) log)
     \<and> (\<forall>(x, partials) \<in> set log. x \<in> set (all_producers fused unfused)
          \<and> minted (shared_by (collect_producers q fused unfused) (producer_key x)) partials)
     \<and> (\<forall>k. k \<notin> (producer_key \<circ> fst) ` set log \<longrightarrow> shared_by (collect_producers q fused unfused) k = [])"

lemma rewriting_log:
  assumes ready: "dedup_ready q fused unfused"
    and rw: "rewrite_producers uuid (map snd (requires_new_output (collect_producers q fused unfused)))
      \<lparr>ds_components = qp_components q, ds_partials = [], ds_stages = [], ds_transforms = [], ds_uuids = n\<rparr> = Ok ds"
  shows "\<exists>log. rewritten uuid (map snd (requires_new_output (collect_producers q fused unfused)))
      \<lparr>ds_components = qp_components q, ds_partials = [], ds_stages = [], ds_transforms = [], ds_uuids = n\<rparr> log ds
    \<and> log_for q fused unfused log
    \<and> map (producer_key \<circ> fst) (map snd (requires_new_output (collect_producers q fused unfused))) = map (producer_key \<circ> fst) log"
proof -
  let ?P = "all_producers fused unfused" and ?m = "collect_producers q fused unfused"
  let ?R = "requires_new_output ?m"
  let ?ds = "\<lparr>ds_components = qp_components q, ds_partials = [], ds_stages = [], ds_transforms = [], ds_uuids = n\<rparr>"
  have prods: "prods = filter (\<lambda>x. i \<in> outs_of x) ?P" if "(i, d, prods) \<in> set ?m" for i d prods
    using collected_entry(3) [OF ready that] by blast
  have dist: "\<forall>(i, d, prods) \<in> set ?m. distinct (map producer_key prods)"
    using collected_entry(3) [OF ready] by blast
  note r = requires_new_output_spec [OF dist]
  have entry: "p \<in> set ?P \<and> producer_key p = k \<and> dups = shared_by ?m k" if e: "(k, p, dups) \<in> set ?R" for k p dups
  proof -
    have "pushed ?R k = dups"
      using e r(2) by (simp add: keyed_by_def hm_get_iff_mem [symmetric] pushed_def)
    moreover obtain i d ps where ps: "(i, d, ps) \<in> set ?m" "p \<in> set ps"
      using requires_nodes [OF e] by blast
    moreover have "p \<in> set ?P"
      using ps(2) prods [OF ps(1)] by simp
    moreover have "producer_key p = k"
      using r(2) e by (auto simp: keyed_by_def)
    ultimately show ?thesis
      using r(1) by simp
  qed
  obtain log where log: "rewritten uuid (map snd ?R) ?ds log ds"
    using rewrite_producers_rewritten [OF rw] by blast
  note lp = rewritten_partials [OF log]
  have fsts: "map fst log = map (fst \<circ> snd) ?R"
    using lp by (auto simp: list_all2_conv_all_nth intro!: nth_equalityI)
  have keys: "map (producer_key \<circ> fst) (map snd ?R) = map fst ?R"
    using entry by auto
  have dR: "distinct (map (producer_key \<circ> fst) (map snd ?R))"
    unfolding keys using r(2) by (simp add: keyed_by_def hm_wf_def)
  have keys_log: "map (producer_key \<circ> fst) log = map fst ?R"
    using arg_cong [OF fsts, of "map producer_key"] keys by simp
  then have dlog: "distinct (map (producer_key \<circ> fst) log)"
    using r(2) by (simp add: keyed_by_def hm_wf_def)
  have klog: "(producer_key \<circ> fst) ` set log = fst ` set ?R"
    using arg_cong [OF keys_log, of set] by simp
  have mem: "x \<in> set ?P \<and> minted (shared_by ?m (producer_key x)) partials" if m: "(x, partials) \<in> set log" for x partials
  proof -
    obtain i where i: "i < length log" "log ! i = (x, partials)"
      using m by (auto simp: in_set_conv_nth)
    then have "fst (map snd ?R ! i) = x \<and> minted (snd (map snd ?R ! i)) partials" "i < length ?R"
      using lp by (auto simp: list_all2_conv_all_nth case_prod_unfold)
    then have e: "(fst (?R ! i), x, snd (snd (?R ! i))) \<in> set ?R" and "minted (snd (snd (?R ! i))) partials"
      by (auto simp: nth_map)
    then show ?thesis
      using entry [OF e] by simp
  qed
  have other: "shared_by ?m k = []" if "k \<notin> (producer_key \<circ> fst) ` set log" for k
    using that r(1) [of k] unfolding klog by (force simp: pushed_def split: option.splits dest: hm_get_mem)
  have "log_for q fused unfused log"
    unfolding log_for_def using dlog mem other by blast
  then show ?thesis
    using log keys keys_log by auto
qed

text \<open>The partials of all producers, read off the log.\<close>

lemma log_for_lookup:
  assumes ready: "dedup_ready q fused unfused" and log: "log_for q fused unfused log"
  shows "(x, partials) \<in> set log \<Longrightarrow> log_of log (producer_key x) = partials"
    and "x \<in> set (all_producers fused unfused) \<Longrightarrow> producer_key x \<in> (producer_key \<circ> fst) ` set log \<Longrightarrow> (x, log_of log (producer_key x)) \<in> set log"
    and "minted (shared_by (collect_producers q fused unfused) k) (log_of log k)"
proof -
  show mem: "(x, partials) \<in> set log \<Longrightarrow> log_of log (producer_key x) = partials" for x partials
    using log log_of_mem unfolding log_for_def by blast
  have found: "\<exists>y. producer_key y = k \<and> (y, log_of log k) \<in> set log" if "k \<in> (producer_key \<circ> fst) ` set log" for k
    using that mem by fastforce
  show "(x, log_of log (producer_key x)) \<in> set log"
    if x: "x \<in> set (all_producers fused unfused)" "producer_key x \<in> (producer_key \<circ> fst) ` set log"
  proof -
    obtain y where y: "producer_key y = producer_key x" "(y, log_of log (producer_key x)) \<in> set log"
      using found [OF x(2)] by blast
    then have "y \<in> set (all_producers fused unfused)"
      using log unfolding log_for_def by blast
    then show ?thesis
      using producer_key_inj [OF ready _ x(1)] y by simp
  qed
  show "minted (shared_by (collect_producers q fused unfused) k) (log_of log k)"
  proof (cases "k \<in> (producer_key \<circ> fst) ` set log")
    case True
    then obtain y where "producer_key y = k" "(y, log_of log k) \<in> set log"
      using found by blast
    then show ?thesis
      using log unfolding log_for_def by blast
  next
    case False
    then show ?thesis
      using log log_of_other [OF False] minted_Nil(1) unfolding log_for_def by simp
  qed
qed

lemma over_log:
  assumes ready: "dedup_ready q fused unfused" and log: "log_for q fused unfused log" and empty: "G [] = {}"
  shows "(\<Union>(p, partials) \<in> set log. G partials) = (\<Union>x \<in> set (all_producers fused unfused). G (log_of log (producer_key x)))"
proof
  show "(\<Union>(p, partials) \<in> set log. G partials) \<subseteq> (\<Union>x \<in> set (all_producers fused unfused). G (log_of log (producer_key x)))"
    using log log_for_lookup(1) [OF ready log] unfolding log_for_def by fastforce
  show "(\<Union>x \<in> set (all_producers fused unfused). G (log_of log (producer_key x))) \<subseteq> (\<Union>(p, partials) \<in> set log. G partials)"
  proof (rule UN_least)
    fix x
    assume x: "x \<in> set (all_producers fused unfused)"
    show "G (log_of log (producer_key x)) \<subseteq> (\<Union>(p, partials) \<in> set log. G partials)"
    proof (cases "producer_key x \<in> (producer_key \<circ> fst) ` set log")
      case True
      then show ?thesis
        using log_for_lookup(2) [OF ready log x] by fastforce
    qed (use log_of_other empty in simp)
  qed
qed

lemma log_of_disjoint:
  assumes "sorted_wrt (\<lambda>(p, a) (p', b). partial_ids a \<inter> partial_ids b = {}) log"
    and "distinct (map (producer_key \<circ> fst) log)" and "k \<noteq> k'"
  shows "partial_ids (log_of log k) \<inter> partial_ids (log_of log k') = {}"
proof (cases "k \<in> (producer_key \<circ> fst) ` set log \<and> k' \<in> (producer_key \<circ> fst) ` set log")
  case True
  then obtain x a y b where "(x, a) \<in> set log" "producer_key x = k" "(y, b) \<in> set log" "producer_key y = k'"
    by fastforce
  then obtain i j where ij: "i < length log" "log ! i = (x, a)" "j < length log" "log ! j = (y, b)" "i \<noteq> j"
    and eq: "log_of log k = a" "log_of log k' = b"
    using assms(2,3) log_of_mem by (metis in_set_conv_nth prod.inject)
  have "i < j \<or> j < i"
    using ij by auto
  then show ?thesis
    using assms(1) ij unfolding eq sorted_wrt_iff_nth_less by fastforce
qed (use log_of_other in \<open>auto simp: partial_ids_def\<close>)

lemma rewriting_runs:
  assumes ready: "dedup_ready q fused unfused"
    and rw: "rewrite_producers uuid (map snd (requires_new_output (collect_producers q fused unfused)))
      \<lparr>ds_components = qp_components q, ds_partials = [], ds_stages = [], ds_transforms = [], ds_uuids = n\<rparr> = Ok ds"
  shows "\<exists>L. dedup_run uuid n q fused unfused L ds"
proof -
  let ?P = "all_producers fused unfused" and ?R = "requires_new_output (collect_producers q fused unfused)"
  let ?ds = "\<lparr>ds_components = qp_components q, ds_partials = [], ds_stages = [], ds_transforms = [], ds_uuids = n\<rparr>"
  obtain log where log: "rewritten uuid (map snd ?R) ?ds log ds" and lf: "log_for q fused unfused log"
    and keys: "map (producer_key \<circ> fst) (map snd ?R) = map (producer_key \<circ> fst) log"
    using rewriting_log [OF assms] by blast
  let ?L = "log_of log"
  note lp = rewritten_partials [OF log] and look = log_for_lookup [OF ready lf]
  have dlog: "distinct (map (producer_key \<circ> fst) log)"
    using lf by (simp add: log_for_def)
  have dR: "distinct (map (producer_key \<circ> fst) (map snd ?R))"
    unfolding keys by (rule dlog)
  have setk: "(producer_key \<circ> fst) ` set (map snd ?R) = (producer_key \<circ> fst) ` set log"
    using arg_cong [OF keys, of set] by (simp only: set_map)
  have fresh: "partial_ids (?L k) \<inter> known_pcols (qp_components q) = {}" for k
  proof (cases "k \<in> (producer_key \<circ> fst) ` set log")
    case True
    then obtain x partials where x: "(x, partials) \<in> set log" "producer_key x = k"
      by fastforce
    then have "partial_ids partials \<inter> known ?ds = {}"
      using lp by blast
    then show ?thesis
      using look(1) [OF x(1)] x(2) by (simp add: known_def)
  qed (use log_of_other in \<open>simp add: partial_ids_def\<close>)
  have dis: "partial_ids (?L (producer_key x)) \<inter> partial_ids (?L (producer_key y)) = {}" if "x \<in> set ?P" "y \<in> set ?P" "x \<noteq> y" for x y
    using log_of_disjoint [OF _ dlog] lp producer_key_inj [OF ready] that by metis
  have st: "case hm_get (ds_stages ds) (es_id s) of None \<Rightarrow> ?L (Inl (es_id s)) = []
      | Some s' \<Rightarrow> \<exists>k. n \<le> k \<and> k < ds_uuids ds \<and> stage_renamed (uuid k) (?L (Inl (es_id s))) s s'" if s: "s \<in> set fused" for s
  proof (cases "Inl (es_id s) \<in> (producer_key \<circ> fst) ` set log")
    case True
    then have "(StageProducer s, ?L (Inl (es_id s))) \<in> set log"
      using look(2) [of "StageProducer s"] s by (simp add: all_producers_def producer_key_def)
    then show ?thesis
      using rewritten_lookup(1) [OF log dR] by fastforce
  next
    case False
    then show ?thesis
      using rewritten_other(2) [OF log, of "es_id s"] log_of_other [OF False] setk by simp
  qed
  have tr: "case hm_get (ds_transforms ds) (ptn_id t) of None \<Rightarrow> ?L (Inr (ptn_id t)) = []
      | Some t' \<Rightarrow> t' = update_node (?L (Inr (ptn_id t))) t" if t: "t \<in> set unfused" for t
  proof (cases "Inr (ptn_id t) \<in> (producer_key \<circ> fst) ` set log")
    case True
    then have "(TransformProducer t, ?L (Inr (ptn_id t))) \<in> set log"
      using look(2) [of "TransformProducer t"] t by (simp add: all_producers_def producer_key_def)
    then show ?thesis
      using rewritten_lookup(2) [OF log dR] by fastforce
  next
    case False
    then show ?thesis
      using rewritten_other(3) [OF log, of "ptn_id t"] log_of_other [OF False] setk by simp
  qed
  have wf: "hm_wf (ds_partials ds)"
    using rewritten_ds_partials(3) [OF log] by simp
  have pu: "set (pushed (ds_partials ds) p) = (\<Union>x \<in> set ?P. {c. (p, c) \<in> set (?L (producer_key x))})" for p
    using rewritten_ds_partials(2) [OF log, of p] over_log [OF ready lf, of "\<lambda>m. {c. (p, c) \<in> set m}"] by (simp add: pushed_def)
  have ke: "fst ` set (ds_partials ds) = (\<Union>x \<in> set ?P. fst ` set (?L (producer_key x)))"
    using rewritten_ds_partials(1) [OF log] over_log [OF ready lf, of "\<lambda>m. fst ` set m"] by simp
  have "dedup_run uuid n q fused unfused ?L ds"
    unfolding dedup_run_def by (intro conjI ballI allI impI) (rule look(3) fresh dis st tr wf pu ke | assumption)+
  then show ?thesis
    by blast
qed

section \<open>One producer per PCollection\<close>

definition current_outs :: "deduplication_result \<Rightarrow> stage_or_transform \<Rightarrow> string set" where
  "current_outs dr x =
     (case x of StageProducer s \<Rightarrow> produced_ids (current_stage dr s) | TransformProducer t \<Rightarrow> transform_outs (current_transform dr t))"

lemma renamed_Nil [simp]: "renamed [] ` A = A"
  by (auto simp: renamed_def)

lemma dedup_runD:
  assumes run: "dedup_run uuid n q fused unfused L ds" and x: "x \<in> set (all_producers fused unfused)"
  shows "minted (shared_by (collect_producers q fused unfused) (producer_key x)) (L (producer_key x))"
    and "partial_ids (L (producer_key x)) \<inter> known_pcols (qp_components q) = {}"
    and "y \<in> set (all_producers fused unfused) \<Longrightarrow> x \<noteq> y \<Longrightarrow> partial_ids (L (producer_key x)) \<inter> partial_ids (L (producer_key y)) = {}"
proof -
  let ?P = "set (all_producers fused unfused)"
  have m: "\<forall>x \<in> ?P. minted (shared_by (collect_producers q fused unfused) (producer_key x)) (L (producer_key x))"
    using run unfolding dedup_run_def by (elim conjE)
  have k: "\<forall>x \<in> ?P. partial_ids (L (producer_key x)) \<inter> known_pcols (qp_components q) = {}"
    using run unfolding dedup_run_def by (elim conjE)
  have d: "\<forall>x \<in> ?P. \<forall>y \<in> ?P. x \<noteq> y \<longrightarrow> partial_ids (L (producer_key x)) \<inter> partial_ids (L (producer_key y)) = {}"
    using run unfolding dedup_run_def by (elim conjE)
  show "minted (shared_by (collect_producers q fused unfused) (producer_key x)) (L (producer_key x))"
    by (rule bspec [OF m x])
  show "partial_ids (L (producer_key x)) \<inter> known_pcols (qp_components q) = {}"
    by (rule bspec [OF k x])
  show "y \<in> ?P \<Longrightarrow> x \<noteq> y \<Longrightarrow> partial_ids (L (producer_key x)) \<inter> partial_ids (L (producer_key y)) = {}"
    using bspec [OF d x] by blast
qed

lemma dedup_run_stage:
  assumes "dedup_run uuid n q fused unfused L ds" and "s \<in> set fused"
  shows "case hm_get (ds_stages ds) (es_id s) of None \<Rightarrow> L (Inl (es_id s)) = []
      | Some s' \<Rightarrow> \<exists>k. n \<le> k \<and> k < ds_uuids ds \<and> stage_renamed (uuid k) (L (Inl (es_id s))) s s'"
  using assms unfolding dedup_run_def by (elim conjE) (rule bspec)

lemma dedup_run_transform:
  assumes "dedup_run uuid n q fused unfused L ds" and "t \<in> set unfused"
  shows "case hm_get (ds_transforms ds) (ptn_id t) of None \<Rightarrow> L (Inr (ptn_id t)) = [] | Some t' \<Rightarrow> t' = update_node (L (Inr (ptn_id t))) t"
  using assms unfolding dedup_run_def by (elim conjE) (rule bspec)

lemma current_outs_renamed:
  assumes run: "dedup_run uuid n q fused unfused L ds" and x: "x \<in> set (all_producers fused unfused)"
    and dr: "dr_deduplicated_stages dr = ds_stages ds" "dr_deduplicated_transforms dr = ds_transforms ds"
  shows "current_outs dr x = renamed (L (producer_key x)) ` outs_of x"
proof (cases x)
  case (StageProducer s)
  then have "s \<in> set fused"
    using x by (auto simp: all_producers_def)
  from dedup_run_stage [OF run this] show ?thesis
    by (cases "hm_get (ds_stages ds) (es_id s)") (auto simp: StageProducer current_outs_def current_stage_def dr producer_key_def stage_renamed_def split: option.splits)
next
  case (TransformProducer t)
  then have "t \<in> set unfused"
    using x by (auto simp: all_producers_def)
  from dedup_run_transform [OF run this] show ?thesis
    by (cases "hm_get (ds_transforms ds) (ptn_id t)") (auto simp: TransformProducer current_outs_def current_transform_def dr producer_key_def transform_outs_update split: option.splits)
qed

lemma renamed_disjoint:
  assumes ready: "dedup_ready q fused unfused" and run: "dedup_run uuid n q fused unfused L ds"
    and x: "x \<in> set (all_producers fused unfused)" and y: "y \<in> set (all_producers fused unfused)" and "x \<noteq> y"
  shows "renamed (L (producer_key x)) ` outs_of x \<inter> renamed (L (producer_key y)) ` outs_of y = {}"
proof (rule ccontr)
  assume "\<not> ?thesis"
  then obtain a b where a: "a \<in> outs_of x" and b: "b \<in> outs_of y" and eq: "renamed (L (producer_key x)) a = renamed (L (producer_key y)) b"
    by blast
  have known: "a \<in> known_pcols (qp_components q)" "b \<in> known_pcols (qp_components q)"
    using dedup_readyD(2) [OF ready] x y a b by blast+
  note dx = dedup_runD [OF run x] and dy = dedup_runD [OF run y]
  have out: False if "renamed (L (producer_key x)) a \<in> partial_ids (L (producer_key x))" "renamed (L (producer_key y)) b = b"
    using that eq known(2) dx(2) by auto
  show False
  proof (rule renamed_cases [OF dx(1), of a])
    assume ax: "renamed (L (producer_key x)) a \<in> partial_ids (L (producer_key x))"
    show False
    proof (rule renamed_cases [OF dy(1), of b])
      assume "renamed (L (producer_key y)) b \<in> partial_ids (L (producer_key y))"
      then show False
        using ax eq dx(3) [OF y \<open>x \<noteq> y\<close>] by auto
    qed (rule out [OF ax])
  next
    assume ax: "a \<notin> pcn_id ` set (shared_by (collect_producers q fused unfused) (producer_key x))" "renamed (L (producer_key x)) a = a"
    show False
    proof (rule renamed_cases [OF dy(1), of b])
      assume "renamed (L (producer_key y)) b \<in> partial_ids (L (producer_key y))"
      then show False
        using ax(2) eq known(1) dy(2) by auto
    next
      assume "renamed (L (producer_key y)) b = b"
      then show False
        using shared_by_iff [OF ready x, of a] ax a b eq y \<open>x \<noteq> y\<close> by auto
    qed
  qed
qed

lemma introduce_flattens:
  assumes "fold introduce_flatten entries (comps, intro) = (comps', intro')"
    and "ptn_id ` set intro \<subseteq> set (hm_keys (c_transforms comps))"
  shows "\<exists>new. intro' = intro @ new
    \<and> list_all2 (\<lambda>(p, _, partials) f. transform_outs f = {p} \<and> snd ` set (pt_inputs (ptn_transform f)) = pcn_id ` set partials) entries new
    \<and> distinct (map ptn_id new) \<and> ptn_id ` set new \<inter> set (hm_keys (c_transforms comps)) = {}"
  using assms
proof (induction entries arbitrary: comps intro)
  case (Cons e entries)
  obtain p u partials where e: "e = (p, u, partials)"
    by (cases e)
  define i where "i = unique_id ''unzipped_flatten'' (hm_keys (c_transforms comps))"
  define f where "f = \<lparr>ptn_id = i, ptn_transform = create_flatten_of_partials i p partials\<rparr>"
  let ?comps = "comps\<lparr>c_transforms := hm_insert i (ptn_transform f) (c_transforms comps)\<rparr>"
  have fresh: "i \<notin> set (hm_keys (c_transforms comps))"
    unfolding i_def by (rule unique_id_fresh)
  then have "i \<notin> ptn_id ` set intro"
    using Cons.prems(2) by blast
  then have ins: "ins_by ptn_id f intro = intro @ [f]"
    by (simp add: ins_by_def f_def)
  have step: "introduce_flatten e (comps, intro) = (?comps, intro @ [f])"
    using ins by (simp add: introduce_flatten_def e f_def i_def Let_def)
  have keys: "set (hm_keys (c_transforms ?comps)) = insert i (set (hm_keys (c_transforms comps)))"
    by (simp add: dom_update flip: dom_map_of_conv_image_fst)
  have ids: "ptn_id ` set (intro @ [f]) \<subseteq> set (hm_keys (c_transforms ?comps))"
    unfolding keys using Cons.prems(2) by (auto simp: f_def)
  have "fold introduce_flatten entries (?comps, intro @ [f]) = (comps', intro')"
    using Cons.prems(1) step by simp
  then obtain new where new: "intro' = (intro @ [f]) @ new"
    "list_all2 (\<lambda>(p, _, partials) f. transform_outs f = {p} \<and> snd ` set (pt_inputs (ptn_transform f)) = pcn_id ` set partials) entries new"
    "distinct (map ptn_id new)" "ptn_id ` set new \<inter> set (hm_keys (c_transforms ?comps)) = {}"
    using Cons.IH [OF _ ids] by blast
  have f: "transform_outs f = {p}" "snd ` set (pt_inputs (ptn_transform f)) = pcn_id ` set partials"
  proof -
    have "snd ` set (enumerate 0 partials) = set partials"
      by (metis map_snd_enumerate set_map)
    then show "snd ` set (pt_inputs (ptn_transform f)) = pcn_id ` set partials"
      by (simp add: f_def create_flatten_of_partials_def image_image case_prod_unfold) (metis image_image)
    show "transform_outs f = {p}"
      by (simp add: f_def create_flatten_of_partials_def transform_outs_def)
  qed
  show ?case
    using new f fresh unfolding keys by (intro exI [of _ "f # new"]) (auto simp: e f_def)
qed simp

lemma ext_by_append: "distinct (map key (xs @ ys)) \<Longrightarrow> ext_by key xs ys = xs @ ys"
proof (induction ys arbitrary: xs)
  case (Cons y ys)
  then have "ins_by key y xs = xs @ [y]"
    by (auto simp: ins_by_def)
  then show ?case
    using Cons.IH [of "xs @ [y]"] Cons.prems by simp
qed simp

lemma shared_by_distinct: "keyed_by pcn_id m \<Longrightarrow> distinct (map pcn_id (shared_by m k))"
proof -
  assume m: "keyed_by pcn_id m"
  have "map pcn_id (shared_by m k) = map fst (filter (\<lambda>(_, _, prods). length prods > 1 \<and> k \<in> producer_key ` set prods) m)"
    unfolding shared_by_def map_map by (rule map_cong) (use m in \<open>auto simp: keyed_by_def\<close>)
  then show ?thesis
    using m by (simp add: keyed_by_def hm_wf_def distinct_map_filter)
qed

lemma rewriting_succeeds:
  assumes ready: "dedup_ready q fused unfused"
  shows "\<exists>ds. rewrite_producers uuid (map snd (requires_new_output (collect_producers q fused unfused))) ds0 = Ok ds"
proof (rule rewrite_producers_Ok)
  let ?m = "collect_producers q fused unfused"
  have dist: "\<forall>(i, d, prods) \<in> set ?m. distinct (map producer_key prods)"
    using collected_entry(3) [OF ready] by blast
  note r = requires_new_output_spec [OF dist]
  show "\<forall>(p, dups) \<in> set (map snd (requires_new_output ?m)). distinct (map pcn_id dups)"
  proof (clarsimp)
    fix k p dups
    assume "(k, p, dups) \<in> set (requires_new_output ?m)"
    then have "dups = shared_by ?m k"
      using r(1) [of k] r(2) by (simp add: keyed_by_def hm_get_iff_mem [symmetric] pushed_def)
    then show "distinct (map pcn_id dups)"
      using shared_by_distinct [OF collected_entry(1) [OF ready]] by simp
  qed
qed

lemma renamed_not_shared:
  assumes ready: "dedup_ready q fused unfused" and run: "dedup_run uuid n q fused unfused L ds"
    and x: "x \<in> set (all_producers fused unfused)" and p: "p \<in> fst ` set (ds_partials ds)"
  shows "p \<notin> renamed (L (producer_key x)) ` outs_of x" and "p \<in> known_pcols (qp_components q)"
proof -
  let ?P = "all_producers fused unfused" and ?m = "collect_producers q fused unfused"
  have "fst ` set (ds_partials ds) = (\<Union>x \<in> set ?P. fst ` set (L (producer_key x)))"
    using run unfolding dedup_run_def by (elim conjE)
  then obtain y where y: "y \<in> set ?P" "p \<in> fst ` set (L (producer_key y))"
    using p by blast
  then have "p \<in> pcn_id ` set (shared_by ?m (producer_key y))"
    using dedup_runD(1) [OF run y(1)] by (simp add: minted_def)
  then obtain z where z: "p \<in> outs_of y" "z \<in> set ?P" "z \<noteq> y" "p \<in> outs_of z"
    using shared_by_iff [OF ready y(1)] by blast
  show known: "p \<in> known_pcols (qp_components q)"
    using dedup_readyD(2) [OF ready y(1)] z(1) by blast
  show "p \<notin> renamed (L (producer_key x)) ` outs_of x"
  proof
    assume "p \<in> renamed (L (producer_key x)) ` outs_of x"
    then obtain a where a: "a \<in> outs_of x" "p = renamed (L (producer_key x)) a"
      by blast
    show False
    proof (rule renamed_cases [OF dedup_runD(1) [OF run x], of a])
      assume "renamed (L (producer_key x)) a \<in> partial_ids (L (producer_key x))"
      then show False
        using dedup_runD(2) [OF run x] known a(2) by auto
    next
      assume "a \<notin> pcn_id ` set (shared_by ?m (producer_key x))" "renamed (L (producer_key x)) a = a"
      then show False
        using shared_by_iff [OF ready x, of a] a y(1) z by metis
    qed
  qed
qed

text \<open>The rewritten result in full, for the lists the walk hands over.\<close>

lemma single_producer:
  assumes ready: "dedup_ready q fused unfused"
  obtains dr n1 L ds where "ensure_single_producer uuid n q fused unfused = Ok (dr, n1)"
    and "dedup_run uuid n q fused unfused L ds"
    and "dr_deduplicated_stages dr = ds_stages ds" and "dr_deduplicated_transforms dr = ds_transforms ds" and "n1 = ds_uuids ds"
    and "get_runner_stages dr unfused = map (current_transform dr) unfused @ dr_introduced_transforms dr"
    and "list_all2 (\<lambda>(p, _, partials) f. transform_outs f = {p} \<and> snd ` set (pt_inputs (ptn_transform f)) = pcn_id ` set partials)
      (ds_partials ds) (dr_introduced_transforms dr)"
proof -
  let ?ds0 = "\<lparr>ds_components = qp_components q, ds_partials = [], ds_stages = [], ds_transforms = [], ds_uuids = n\<rparr>"
  obtain ds where rw: "rewrite_producers uuid (map snd (requires_new_output (collect_producers q fused unfused))) ?ds0 = Ok ds"
    using rewriting_succeeds [OF ready] by blast
  obtain L where run: "dedup_run uuid n q fused unfused L ds"
    using rewriting_runs [OF ready rw] by blast
  obtain comps introduced where fl: "fold introduce_flatten (ds_partials ds) (ds_components ds, []) = (comps, introduced)"
    by (cases "fold introduce_flatten (ds_partials ds) (ds_components ds, [])")
  define dr where "dr = \<lparr>dr_components = comps, dr_introduced_transforms = introduced,
      dr_deduplicated_stages = ds_stages ds, dr_deduplicated_transforms = ds_transforms ds\<rparr>"
  obtain new where new: "introduced = new"
    "list_all2 (\<lambda>(p, _, partials) f. transform_outs f = {p} \<and> snd ` set (pt_inputs (ptn_transform f)) = pcn_id ` set partials) (ds_partials ds) new"
    "distinct (map ptn_id new)" "ptn_id ` set new \<inter> set (hm_keys (c_transforms (ds_components ds))) = {}"
    using introduce_flattens [OF fl] by auto
  have tr: "c_transforms (ds_components ds) = c_transforms (qp_components q)"
  proof -
    have "rewritten uuid pds d log d' \<Longrightarrow> c_transforms (ds_components d') = c_transforms (ds_components d)" for pds d log d'
      by (induction rule: rewritten.induct) (simp_all add: note_partials_def register_partials_def)
    then show ?thesis
      using rewrite_producers_rewritten [OF rw] by fastforce
  qed
  have ids: "ptn_id (current_transform dr t) = ptn_id t" if "t \<in> set unfused" for t
    using dedup_run_transform [OF run that] by (auto simp: current_transform_def dr_def split: option.splits)
  then have cur: "map ptn_id (map (current_transform dr) unfused) = map ptn_id unfused"
    by simp
  have "distinct (map ptn_id unfused)" "ptn_id ` set unfused \<subseteq> set (hm_keys (c_transforms (qp_components q)))"
    using ready unfolding dedup_ready_def by auto
  then have "distinct (map ptn_id unfused @ map ptn_id introduced)"
    using new(3,4) unfolding new(1) tr by auto
  then have "distinct (map ptn_id (map (current_transform dr) unfused @ introduced))"
    unfolding map_append cur .
  then have "get_runner_stages dr unfused = map (current_transform dr) unfused @ introduced"
    unfolding get_runner_stages_def by (simp add: ext_by_append dr_def)
  then show thesis
    using that [of dr "ds_uuids ds" L ds] run new(1,2) rw fl by (simp add: ensure_single_producer_def dr_def)
qed

lemma sorted_wrt_mapI:
  assumes "distinct xs" and "\<And>x y. x \<in> set xs \<Longrightarrow> y \<in> set xs \<Longrightarrow> x \<noteq> y \<Longrightarrow> R (f x) (f y)"
  shows "sorted_wrt R (map f xs)"
  using assms by (induction xs) auto

lemma single_producer_outputs:
  assumes ready: "dedup_ready q fused unfused" and run: "dedup_run uuid n q fused unfused L ds"
    and dr: "dr_deduplicated_stages dr = ds_stages ds" "dr_deduplicated_transforms dr = ds_transforms ds"
    and fl: "list_all2 (\<lambda>(p, _, partials) f. transform_outs f = {p} \<and> snd ` set (pt_inputs (ptn_transform f)) = pcn_id ` set partials)
      (ds_partials ds) (dr_introduced_transforms dr)"
  shows "sorted_wrt (\<lambda>A B. A \<inter> B = {})
    (map (current_outs dr) (all_producers fused unfused) @ map transform_outs (dr_introduced_transforms dr))"
proof -
  let ?P = "all_producers fused unfused" and ?F = "dr_introduced_transforms dr"
  have dP: "distinct ?P"
    using dedup_readyD(1) [OF ready] by (simp add: distinct_map)
  have wf: "hm_wf (ds_partials ds)"
    using run unfolding dedup_run_def by (elim conjE)
  have outs: "map transform_outs ?F = map (\<lambda>e. {fst e}) (ds_partials ds)"
    using fl by (auto simp: list_all2_conv_all_nth case_prod_unfold intro!: nth_equalityI)
  have "sorted_wrt (\<lambda>A B. A \<inter> B = {}) (map (\<lambda>p. {p}) (map fst (ds_partials ds)))"
    using wf by (intro sorted_wrt_mapI) (auto simp: hm_wf_def)
  then have "sorted_wrt (\<lambda>A B. A \<inter> B = {}) (map transform_outs ?F)"
    unfolding outs by (simp add: comp_def)
  moreover have "sorted_wrt (\<lambda>A B. A \<inter> B = {}) (map (current_outs dr) ?P)"
    using renamed_disjoint [OF ready run] current_outs_renamed [OF run _ dr] dP by (intro sorted_wrt_mapI) simp_all
  moreover have "A \<inter> B = {}" if A: "A \<in> set (map (current_outs dr) ?P)" and B: "B \<in> set (map transform_outs ?F)" for A B
  proof -
    obtain x where "x \<in> set ?P" "A = renamed (L (producer_key x)) ` outs_of x"
      using A current_outs_renamed [OF run _ dr] by auto
    moreover obtain p where "p \<in> fst ` set (ds_partials ds)" "B = {p}"
      using B unfolding outs by auto
    ultimately show ?thesis
      using renamed_not_shared(1) [OF ready run] by blast
  qed
  ultimately show ?thesis
    by (simp add: sorted_wrt_append)
qed

text \<open>What a producer wrote to a shared PCollection reaches it through a Flatten.\<close>

lemma shared_outputs_flattened:
  assumes ready: "dedup_ready q fused unfused" and run: "dedup_run uuid n q fused unfused L ds"
    and dr: "dr_deduplicated_stages dr = ds_stages ds" "dr_deduplicated_transforms dr = ds_transforms ds"
    and fl: "list_all2 (\<lambda>(p, _, partials) f. transform_outs f = {p} \<and> snd ` set (pt_inputs (ptn_transform f)) = pcn_id ` set partials)
      (ds_partials ds) (dr_introduced_transforms dr)"
    and x: "x \<in> set (all_producers fused unfused)" and p: "p \<in> outs_of x"
  shows "p \<in> current_outs dr x
    \<or> (\<exists>f \<in> set (dr_introduced_transforms dr). transform_outs f = {p} \<and> (\<exists>i \<in> current_outs dr x. i \<in> snd ` set (pt_inputs (ptn_transform f))))"
proof -
  let ?L = "L (producer_key x)"
  have cur: "renamed ?L p \<in> current_outs dr x"
    using p unfolding current_outs_renamed [OF run x dr] by blast
  show ?thesis
  proof (cases "hm_get ?L p")
    case None
    then show ?thesis
      using cur by (simp add: renamed_def)
  next
    case (Some c)
    have pu: "\<forall>p. set (pushed (ds_partials ds) p) = (\<Union>x \<in> set (all_producers fused unfused). {c. (p, c) \<in> set (L (producer_key x))})"
      using run unfolding dedup_run_def by (elim conjE)
    have "c \<in> set (pushed (ds_partials ds) p)"
      using spec [OF pu, of p] x hm_get_mem [OF Some] by auto
    then obtain u cs where e: "hm_get (ds_partials ds) p = Some (u, cs)" "c \<in> set cs"
      by (cases "hm_get (ds_partials ds) p") (auto simp: pushed_def)
    then obtain j where j: "j < length (ds_partials ds)" "ds_partials ds ! j = (p, u, cs)"
      using hm_get_mem [OF e(1)] by (auto simp: in_set_conv_nth)
    let ?f = "dr_introduced_transforms dr ! j"
    have "?f \<in> set (dr_introduced_transforms dr)" "transform_outs ?f = {p}" "snd ` set (pt_inputs (ptn_transform ?f)) = pcn_id ` set cs"
      using list_all2_nthD [OF fl j(1)] list_all2_lengthD [OF fl] j by simp_all
    moreover have "renamed ?L p = pcn_id c"
      using Some by (simp add: renamed_def)
    ultimately show ?thesis
      using cur e(2) by blast
  qed
qed

end
