(* ===== verification/Fusion_Walk.thy ===== *)
theory Fusion_Walk
  imports Dedup_Props
begin

text \<open>
  No transform is lost by fusion, and fusion returns. The walk keeps every main-input
  consumer of what it has met either in the runner's set or among the pairs that are
  consumed or pending; at the end nothing is pending, so the set of transforms in stages
  and in the runner's set is closed under the edges of the pipeline.
\<close>

section \<open>What lies below a PCollection\<close>

text \<open>The main-input consumers of \<open>c\<close> are in the runner's set \<open>U\<close> or among the pairs \<open>F\<close>.\<close>

definition met :: "queryable_pipeline \<Rightarrow> string set \<Rightarrow> (string \<times> string) set \<Rightarrow> pcollection_node \<Rightarrow> ptransform_node \<Rightarrow> bool" where
  "met q U F c t \<longleftrightarrow> (if get_environment q (ptn_transform t) = None then ptn_id t \<in> U else (pcn_id c, ptn_id t) \<in> F)"

definition settled :: "queryable_pipeline \<Rightarrow> string set \<Rightarrow> (string \<times> string) set \<Rightarrow> pcollection_node \<Rightarrow> bool" where
  "settled q U F c \<longleftrightarrow> (\<forall>t \<in> set (get_per_element_consumers q c). met q U F c t)"

lemma met_mono: "met q U F c t \<Longrightarrow> U \<subseteq> U' \<Longrightarrow> F \<subseteq> F' \<Longrightarrow> met q U' F' c t"
  unfolding met_def by (meson subsetD)

definition runner_closed :: "queryable_pipeline \<Rightarrow> string set \<Rightarrow> (string \<times> string) set \<Rightarrow> bool" where
  "runner_closed q U F \<longleftrightarrow> (\<forall>u. ptn_id u \<in> U \<longrightarrow> (\<forall>c \<in> set (get_output_pcol q u). settled q U F c))"

lemma settled_mono: "settled q U F c \<Longrightarrow> U \<subseteq> U' \<Longrightarrow> F \<subseteq> F' \<Longrightarrow> settled q U' F' c"
  unfolding settled_def by (meson met_mono)

lemma runner_closed_Un:
  assumes "runner_closed q U F" and "runner_closed q U' F'"
  shows "runner_closed q (U \<union> U') (F \<union> F')"
  unfolding runner_closed_def
proof (intro allI impI ballI)
  fix u c
  assume "ptn_id u \<in> U \<union> U'" and "c \<in> set (get_output_pcol q u)"
  then consider "settled q U F c" | "settled q U' F' c"
    using assms unfolding runner_closed_def by blast
  then show "settled q (U \<union> U') (F \<union> F') c"
    by cases (auto elim!: settled_mono)
qed

lemma runner_closed_empty [simp]: "runner_closed q {} F"
  by (simp add: runner_closed_def)

lemma runner_closed_mono: "runner_closed q U F \<Longrightarrow> F \<subseteq> F' \<Longrightarrow> runner_closed q U F'"
  using runner_closed_Un [of q U F "{}" F'] by (simp add: Un_absorb1)

lemma settled_id: "pcn_id c = pcn_id d \<Longrightarrow> settled q U F c = settled q U F d"
  using consumers_id(1) [of c d q] by (simp add: settled_def met_def)

text \<open>A fold that may fail: what each step establishes and later steps keep holds at the end.\<close>

lemma fold_bind_all:
  assumes "fold (\<lambda>x acc. Option.bind acc (f x)) xs (Some d) = Some e" and "P d"
    and "\<And>x d e. x \<in> set xs \<Longrightarrow> P d \<Longrightarrow> f x d = Some e \<Longrightarrow> P e \<and> R x e \<and> (\<forall>y. R y d \<longrightarrow> R y e)"
  shows "P e \<and> (\<forall>x \<in> set xs. R x e) \<and> (\<forall>y. R y d \<longrightarrow> R y e)"
  using assms
proof (induction xs arbitrary: d)
  case (Cons x xs)
  have none: "fold (\<lambda>x acc. Option.bind acc (f x)) ys None = None" for ys
    by (induction ys) auto
  obtain d' where d': "f x d = Some d'"
    using Cons.prems(1) none by (cases "f x d") auto
  have step: "P d' \<and> R x d' \<and> (\<forall>y. R y d \<longrightarrow> R y d')"
    using Cons.prems(3) [OF _ Cons.prems(2) d'] by simp
  have "P e \<and> (\<forall>x \<in> set xs. R x e) \<and> (\<forall>y. R y d' \<longrightarrow> R y e)"
  proof (rule Cons.IH)
    show "fold (\<lambda>x acc. Option.bind acc (f x)) xs (Some d') = Some e"
      using Cons.prems(1) d' by simp
    show "P b \<and> R y b \<and> (\<forall>z. R z a \<longrightarrow> R z b)" if "y \<in> set xs" "P a" "f y a = Some b" for y a b
      using Cons.prems(3) [OF _ that(2,3)] that(1) by simp
  qed (use step in simp)
  then show ?case
    using step by auto
qed simp

definition extends :: "descendant_consumers \<Rightarrow> descendant_consumers \<Rightarrow> bool" where
  "extends d e \<longleftrightarrow> unfusible_ids d \<subseteq> unfusible_ids e \<and> fusible_keys d \<subseteq> fusible_keys e"

abbreviation descendants_closed :: "queryable_pipeline \<Rightarrow> descendant_consumers \<Rightarrow> bool" where
  "descendants_closed q d \<equiv> runner_closed q (unfusible_ids d) (fusible_keys d)"

abbreviation settled_in :: "queryable_pipeline \<Rightarrow> descendant_consumers \<Rightarrow> pcollection_node \<Rightarrow> bool" where
  "settled_in q d \<equiv> settled q (unfusible_ids d) (fusible_keys d)"

lemma settled_in_extends: "extends d e \<Longrightarrow> settled_in q d c \<Longrightarrow> settled_in q e c"
  unfolding extends_def by (meson settled_mono)

lemma extends_refl [simp]: "extends d d"
  by (simp add: extends_def)

lemma extends_trans: "extends d e \<Longrightarrow> extends e f \<Longrightarrow> extends d f"
  by (auto simp: extends_def)

text \<open>
  Adding what lies below the PCollections \<open>outs\<close> settles them, when \<open>K\<close> are ids whose own
  outputs are still to be settled.
\<close>

lemma add_descendants_settles:
  assumes add: "add_descendants visit outs d = Some e"
    and visit: "\<And>c d. c \<in> set outs \<Longrightarrow> visit c = Some d \<Longrightarrow> descendants_closed q d \<and> settled_in q d c"
  shows "extends d e \<and> (\<forall>c \<in> set outs. settled_in q e c)
    \<and> (\<exists>U F. unfusible_ids e = unfusible_ids d \<union> U \<and> fusible_keys e = fusible_keys d \<union> F \<and> runner_closed q U F)"
proof -
  let ?P = "\<lambda>e. extends d e \<and> (\<exists>U F. unfusible_ids e = unfusible_ids d \<union> U \<and> fusible_keys e = fusible_keys d \<union> F \<and> runner_closed q U F)"
  have "?P e \<and> (\<forall>c \<in> set outs. settled_in q e c) \<and> (\<forall>c. settled_in q d c \<longrightarrow> settled_in q e c)"
  proof (rule fold_bind_all [where R = "\<lambda>c e. settled_in q e c", OF add [unfolded add_descendants_def]])
    have "unfusible_ids d = unfusible_ids d \<union> {} \<and> fusible_keys d = fusible_keys d \<union> {} \<and> runner_closed q {} {}"
      by simp
    then show "?P d"
      using extends_refl by blast
    fix c a b
    assume c: "c \<in> set outs" and a: "?P a" and "map_option (merge_descendants a) (visit c) = Some b"
    then obtain v where v: "visit c = Some v" "b = merge_descendants a v"
      by auto
    obtain U F where U: "unfusible_ids a = unfusible_ids d \<union> U" "fusible_keys a = fusible_keys d \<union> F" "runner_closed q U F"
      using a by blast
    have "extends a b" "extends v b"
      by (auto simp: v extends_def)
    moreover have "unfusible_ids b = unfusible_ids d \<union> (U \<union> unfusible_ids v)" "fusible_keys b = fusible_keys d \<union> (F \<union> fusible_keys v)"
      using U by (auto simp: v)
    ultimately show "?P b \<and> settled_in q b c \<and> (\<forall>y. settled_in q a y \<longrightarrow> settled_in q b y)"
      using runner_closed_Un [OF U(3)] visit [OF c v(1)] a by (meson extends_trans settled_in_extends)
  qed
  then show ?thesis
    by blast
qed

lemma visit_consumer_settles:
  assumes visit: "\<And>c d. visit c = Some d \<Longrightarrow> descendants_closed q d \<and> settled_in q d c"
    and step: "visit_consumer q visit pcol t d = Some e" and closed: "descendants_closed q d"
  shows "descendants_closed q e \<and> extends d e \<and> met q (unfusible_ids e) (fusible_keys e) pcol t"
proof (cases "get_environment q (ptn_transform t)")
  case (Some env)
  then have "e = d\<lparr>dc_fusible := bts_insert cc_key \<lparr>cc_collection = pcol, cc_transform = t\<rparr> (dc_fusible d)\<rparr>"
    using step by (simp add: visit_consumer_def)
  then show ?thesis
    using Some runner_closed_mono [OF closed, of "fusible_keys e"] by (auto simp: extends_def cc_key_def met_def)
next
  case None
  let ?d = "d\<lparr>dc_unfusible := ins_by ptn_id t (dc_unfusible d)\<rparr>"
  have add: "add_descendants visit (get_output_pcol q t) ?d = Some e"
    using None step by (simp add: visit_consumer_def)
  note s = add_descendants_settles [OF add visit]
  obtain U F where U: "unfusible_ids e = insert (ptn_id t) (unfusible_ids d) \<union> U" "fusible_keys e = fusible_keys d \<union> F" "runner_closed q U F"
    using s by auto
  have rest: "runner_closed q (unfusible_ids d \<union> U) (fusible_keys e)"
    using runner_closed_Un [OF closed U(3)] by (simp add: U(2))
  have "descendants_closed q e"
    unfolding runner_closed_def
  proof (intro allI impI ballI)
    fix u c
    assume u: "ptn_id u \<in> unfusible_ids e" and c: "c \<in> set (get_output_pcol q u)"
    show "settled_in q e c"
    proof (cases "ptn_id u = ptn_id t")
      case True
      then show ?thesis
        using c s outputs_id [OF True, of q] by simp
    next
      case False
      then have "settled q (unfusible_ids d \<union> U) (fusible_keys e) c"
        using rest c u unfolding runner_closed_def by (auto simp: U(1))
      then show ?thesis
        by (rule settled_mono) (auto simp: U(1))
    qed
  qed
  then show ?thesis
    using None U by (auto simp: extends_def met_def)
qed

lemma descendants_settle:
  "get_descendant_consumers fuel q c = Some d \<Longrightarrow> descendants_closed q d \<and> settled_in q d c"
proof (induction fuel arbitrary: c d)
  case (Suc fuel)
  let ?R = "\<lambda>t e. met q (unfusible_ids e) (fusible_keys e) c t"
  have "descendants_closed q d \<and> (\<forall>t \<in> set (get_per_element_consumers q c). ?R t d) \<and> (\<forall>t. ?R t no_descendants \<longrightarrow> ?R t d)"
  proof (rule fold_bind_all [where P = "descendants_closed q" and R = ?R, OF Suc.prems [unfolded get_descendant_consumers.simps]])
    fix t a b
    assume "descendants_closed q a" and "visit_consumer q (get_descendant_consumers fuel q) c t a = Some b"
    then have v: "descendants_closed q b \<and> extends a b \<and> ?R t b"
      using visit_consumer_settles [OF Suc.IH] by blast
    then show "descendants_closed q b \<and> ?R t b \<and> (\<forall>y. ?R y a \<longrightarrow> ?R y b)"
      unfolding extends_def by (meson met_mono)
  qed simp
  then show ?case
    unfolding settled_def by blast
qed simp

text \<open>
  On an acyclic pipeline the recursion returns: \<open>rank\<close> decreases along every runner
  transform, and a fuel above the rank is enough.
\<close>

definition runner_ranked :: "queryable_pipeline \<Rightarrow> (string \<Rightarrow> nat) \<Rightarrow> bool" where
  "runner_ranked q rank \<longleftrightarrow>
     (\<forall>c. \<forall>t \<in> set (get_per_element_consumers q c). get_environment q (ptn_transform t) = None \<longrightarrow>
        (\<forall>out \<in> set (get_output_pcol q t). rank (pcn_id out) < rank (pcn_id c)))"

lemma fold_bind_Some:
  assumes "\<And>x d. x \<in> set xs \<Longrightarrow> f x d \<noteq> None"
  shows "fold (\<lambda>x acc. Option.bind acc (f x)) xs (Some d) \<noteq> None"
  using assms
proof (induction xs arbitrary: d)
  case (Cons x xs)
  then obtain d' where "f x d = Some d'"
    by fastforce
  then show ?case
    using Cons by simp
qed simp

lemma add_descendants_returns:
  assumes "\<And>c. c \<in> set outs \<Longrightarrow> visit c \<noteq> None"
  shows "add_descendants visit outs d \<noteq> None"
  unfolding add_descendants_def by (rule fold_bind_Some) (use assms in auto)

lemma descendants_return:
  assumes "runner_ranked q rank"
  shows "rank (pcn_id c) < fuel \<Longrightarrow> get_descendant_consumers fuel q c \<noteq> None"
proof (induction fuel arbitrary: c)
  case (Suc fuel)
  have "visit_consumer q (get_descendant_consumers fuel q) c t d \<noteq> None" if t: "t \<in> set (get_per_element_consumers q c)" for t d
  proof (cases "get_environment q (ptn_transform t)")
    case None
    then have "rank (pcn_id out) < fuel" if "out \<in> set (get_output_pcol q t)" for out
      using assms t that Suc.prems unfolding runner_ranked_def by fastforce
    then show ?thesis
      using None Suc.IH by (simp add: visit_consumer_def add_descendants_returns del: not_None_eq)
  qed (simp add: visit_consumer_def)
  then show ?case
    by (simp add: fold_bind_Some del: not_None_eq)
qed simp

section \<open>Sibling groups lose no consumer\<close>

definition all_keys :: "('k, collection_consumers list list) hashmap \<Rightarrow> (string \<times> string) set" where
  "all_keys m = (\<Union>(k, gs) \<in> set m. group_keys gs)"

lemma all_keys_insert:
  "group_keys v \<subseteq> all_keys (hm_insert k v m)"
  "group_keys (case hm_get m k of Some gs \<Rightarrow> gs | None \<Rightarrow> []) \<subseteq> group_keys v \<Longrightarrow> all_keys m \<subseteq> all_keys (hm_insert k v m)"
  by (induction m) (auto simp: all_keys_def split: if_splits)

lemma group_siblings_keys: "group_keys (group_siblings dec q new_consumers) = cc_key ` set new_consumers"
proof
  show "group_keys (group_siblings dec q new_consumers) \<subseteq> cc_key ` set new_consumers"
    by (rule group_siblings_within) simp
  let ?f = "\<lambda>c m. hm_insert (sibling_key q c) (place dec q c (case hm_get m (sibling_key q c) of Some gs \<Rightarrow> gs | None \<Rightarrow> [])) m"
  have "cc_key ` set cs \<union> all_keys m \<subseteq> all_keys (fold ?f cs m)" for cs m
  proof (induction cs arbitrary: m)
    case (Cons c cs)
    let ?old = "case hm_get m (sibling_key q c) of Some gs \<Rightarrow> gs | None \<Rightarrow> []"
    have pl: "group_keys (place dec q c ?old) = insert (cc_key c) (group_keys ?old)"
      by (rule place_keys)
    have "group_keys (place dec q c ?old) \<subseteq> all_keys (?f c m)"
      by (rule all_keys_insert(1))
    moreover have "all_keys m \<subseteq> all_keys (?f c m)"
      by (rule all_keys_insert(2)) (simp only: pl subset_insertI)
    ultimately have "insert (cc_key c) (all_keys m) \<subseteq> all_keys (?f c m)"
      unfolding pl by simp
    then show ?case
      using Cons.IH [of "?f c m"] by auto
  qed simp
  then have all: "cc_key ` set new_consumers \<subseteq> all_keys (compactable dec q new_consumers)"
    unfolding compactable_def by blast
  let ?gs = "concat (map snd (compactable dec q new_consumers))"
  have "group_keys ?gs \<subseteq> group_keys (fold (bts_insert (map cc_key)) ?gs [])"
  proof
    fix k
    assume "k \<in> group_keys ?gs"
    then obtain g where g: "g \<in> set ?gs" "k \<in> set (map cc_key g)"
      by (auto simp: group_keys_def)
    then have "map cc_key g \<in> map cc_key ` set (fold (bts_insert (map cc_key)) ?gs [])"
      unfolding keys_fold_bts_insert by blast
    then obtain h where "h \<in> set (fold (bts_insert (map cc_key)) ?gs [])" "map cc_key h = map cc_key g"
      by (metis (no_types, lifting) imageE)
    then have "h \<in> set (fold (bts_insert (map cc_key)) ?gs [])" "k \<in> set (map cc_key h)"
      using g(2) by simp_all
    then show "k \<in> group_keys (fold (bts_insert (map cc_key)) ?gs [])"
      by (auto simp: group_keys_def)
  qed
  moreover have "all_keys (compactable dec q new_consumers) \<subseteq> group_keys ?gs"
    by (fastforce simp: all_keys_def group_keys_def)
  ultimately show "cc_key ` set new_consumers \<subseteq> group_keys (group_siblings dec q new_consumers)"
    using all unfolding group_siblings_def by blast
qed

section \<open>The walk\<close>

definition consumed_keys :: "fusion_state \<Rightarrow> (string \<times> string) set" where
  "consumed_keys s = set (hm_keys (fs_consumed s))"

definition runner_ids :: "fusion_state \<Rightarrow> string set" where
  "runner_ids s = ptn_id ` set (fs_unfused s)"

definition stage_fused :: "queryable_pipeline \<Rightarrow> executable_stage \<Rightarrow> bool" where
  "stage_fused q stage \<longleftrightarrow> (\<forall>t \<in> set (es_transforms stage). \<forall>c \<in> set (get_output_pcol q t).
     pcn_id c \<in> produced_ids stage \<or> ptn_id ` set (get_per_element_consumers q c) \<subseteq> member_ids stage)"

definition walk_inv :: "(nat \<Rightarrow> string) \<Rightarrow> queryable_pipeline \<Rightarrow> fusion_state \<Rightarrow> bool" where
  "walk_inv uuid q s \<longleftrightarrow>
     runner_closed q (runner_ids s) (consumed_keys s \<union> pending_keys s)
     \<and> (\<forall>(p, i) \<in> consumed_keys s. \<exists>stage \<in> set (fs_stages s). i \<in> member_ids stage)
     \<and> (\<forall>stage \<in> set (fs_stages s). stage_fused q stage
          \<and> (\<forall>c \<in> set (es_output_pcols stage). settled q (runner_ids s) (consumed_keys s \<union> pending_keys s) c))
     \<and> es_id ` set (fs_stages s) \<subseteq> uuid ` {..<fs_uuids s}
     \<and> distinct (map es_id (fs_stages s))"

lemma expand_outputs_settles:
  assumes "expand_outputs fuel dec q cs s = Some s'"
    and "runner_closed q (runner_ids s) (consumed_keys s \<union> pending_keys s)"
  shows "runner_closed q (runner_ids s') (consumed_keys s' \<union> pending_keys s')
    \<and> (\<forall>c \<in> set cs. settled q (runner_ids s') (consumed_keys s' \<union> pending_keys s') c)
    \<and> runner_ids s \<subseteq> runner_ids s' \<and> pending_keys s \<subseteq> pending_keys s' \<and> fs_consumed s' = fs_consumed s
    \<and> fs_stages s' = fs_stages s \<and> fs_uuids s' = fs_uuids s"
  using assms
proof (induction fuel dec q cs s rule: expand_outputs.induct)
  case (2 fuel dec q c cs s)
  obtain d where d: "get_descendant_consumers fuel q c = Some d"
    and s': "expand_outputs fuel dec q cs
         (s\<lparr>fs_unfused := ext_by ptn_id (fs_unfused s) (dc_unfusible d),
            fs_pending := fs_pending s @ group_siblings dec q (dc_fusible d)\<rparr>) = Some s'" (is "expand_outputs _ _ _ _ ?s = _")
    using 2(2) by (auto simp: bind_eq_Some_conv)
  have r: "runner_ids ?s = runner_ids s \<union> unfusible_ids d"
    using keys_ext_by [of ptn_id "fs_unfused s" "dc_unfusible d"] by (simp add: runner_ids_def unfusible_ids_def)
  have p: "pending_keys ?s = pending_keys s \<union> fusible_keys d"
    unfolding pending_keys_append group_siblings_keys by (simp add: fusible_keys_def)
  have c: "consumed_keys ?s = consumed_keys s"
    by (simp add: consumed_keys_def)
  have k: "consumed_keys ?s \<union> pending_keys ?s = (consumed_keys s \<union> pending_keys s) \<union> fusible_keys d"
    by (auto simp: c p)
  note ds = descendants_settle [OF d]
  have "runner_closed q (runner_ids ?s) (consumed_keys ?s \<union> pending_keys ?s)"
    unfolding r k using runner_closed_Un [OF 2(3)] ds by blast
  note ih = 2(1) [OF d s' this]
  have "settled q (runner_ids ?s) (consumed_keys ?s \<union> pending_keys ?s) c"
    by (rule settled_mono [OF conjunct2 [OF ds]]) (auto simp: r p)
  then have "settled q (runner_ids s') (consumed_keys s' \<union> pending_keys s') c"
    by (rule settled_mono) (use ih in \<open>auto simp: consumed_keys_def\<close>)
  then show ?case
    using ih r p by auto
qed auto

lemma fuse_siblings_stage:
  assumes "fuse_siblings uuid dec q n siblings = Ok (stage, n')"
  shows "stage_fused q stage" and "\<forall>c \<in> set siblings. ptn_id (cc_transform c) \<in> member_ids stage"
    and "n < n'" and "es_id stage \<in> uuid ` {n..<n'}"
proof -
  obtain input_pcol where f: "fuse_stage uuid dec q n input_pcol (ext_by ptn_id [] (map cc_transform siblings)) = Ok (stage, n')"
    using assms by (auto simp: fuse_siblings_def split: list.splits)
  show "stage_fused q stage"
    using fuse_stage_closed(2) [OF f] unfolding stage_fused_def by blast
  show "\<forall>c \<in> set siblings. ptn_id (cc_transform c) \<in> member_ids stage"
    using fuse_stage_closed(1) [OF f] keys_ext_by [of ptn_id "[]" "map cc_transform siblings"] by auto
  obtain s0 where "es_id s0 = uuid n" "sanitize_dangling_ptransform_inputs uuid (Suc n) s0 = (stage, n')"
    by (rule fuse_stage_growth [OF f])
  then show "n < n'" and "es_id stage \<in> uuid ` {n..<n'}"
    using sanitize_facts(4) [of uuid "Suc n" s0 stage n'] by force+
qed

lemma record_stage_keys:
  "consumed_keys (record_stage siblings stage n s) = cc_key ` set siblings \<union> consumed_keys s"
  "pending_keys (record_stage siblings stage n s) = pending_keys s" "runner_ids (record_stage siblings stage n s) = runner_ids s"
  "fs_uuids (record_stage siblings stage n s) = n"
  using consumed_record_stage by (simp_all add: consumed_keys_def pending_keys_def runner_ids_def record_stage_def)

lemma fuse_step_walk:
  assumes inj: "inj uuid" and pending: "fs_pending s = candidates # rest" and inv: "walk_inv uuid q s"
    and step: "fuse_step uuid fuel dec q candidates (s\<lparr>fs_pending := rest\<rparr>) = Some (Ok s')"
  shows "walk_inv uuid q s' \<and> runner_ids s \<subseteq> runner_ids s' \<and> consumed_keys s \<union> pending_keys s \<subseteq> consumed_keys s' \<union> pending_keys s'"
proof -
  let ?s = "s\<lparr>fs_pending := rest\<rparr>"
  let ?sib = "filter (\<lambda>c. hm_get (fs_consumed s) (cc_key c) = None) candidates"
  have pk: "pending_keys s = cc_key ` set candidates \<union> pending_keys ?s"
    using pending by (simp add: pending_keys_def)
  have same: "consumed_keys ?s = consumed_keys s" "runner_ids ?s = runner_ids s" "fs_stages ?s = fs_stages s" "fs_uuids ?s = fs_uuids s"
    by (simp_all add: consumed_keys_def runner_ids_def)
  show ?thesis
  proof (cases "?sib = []")
    case True
    then have s': "s' = ?s"
      using step by (simp add: fuse_step_def)
    have "cc_key ` set candidates \<subseteq> consumed_keys s"
      using True by (auto simp: filter_empty_conv consumed_keys_def map_of_eq_None_iff)
    then have "consumed_keys ?s \<union> pending_keys ?s = consumed_keys s \<union> pending_keys s"
      using pk same(1) by auto
    then show ?thesis
      using inv unfolding s' walk_inv_def same by simp
  next
    case False
    then have "?sib = candidates"
      using step by (auto simp: fuse_step_def Let_def split: if_splits)
    then obtain stage n where fused: "fuse_siblings uuid dec q (fs_uuids s) candidates = Ok (stage, n)"
      and ex: "expand_outputs fuel dec q (es_output_pcols stage) (record_stage candidates stage n ?s) = Some s'"
      using step False by (auto simp: fuse_step_def split: rust.splits prod.splits)
    let ?r = "record_stage candidates stage n ?s"
    note fs = fuse_siblings_stage [OF fused]
    have keys: "consumed_keys ?r \<union> pending_keys ?r = consumed_keys s \<union> pending_keys s"
      unfolding record_stage_keys same pk by blast
    have "runner_closed q (runner_ids ?r) (consumed_keys ?r \<union> pending_keys ?r)"
      using inv unfolding keys record_stage_keys(3) same walk_inv_def by blast
    note e = expand_outputs_settles [OF ex this]
    have ck: "consumed_keys s' = cc_key ` set candidates \<union> consumed_keys s"
      using e record_stage_keys(1) [of candidates stage n ?s] same(1) by (simp add: consumed_keys_def)
    have mono: "runner_ids s \<subseteq> runner_ids s'" "consumed_keys s \<union> pending_keys s \<subseteq> consumed_keys s' \<union> pending_keys s'"
      using e pk ck same unfolding record_stage_keys by auto
    have "es_id stage \<notin> es_id ` set (fs_stages s)"
    proof
      assume "es_id stage \<in> es_id ` set (fs_stages s)"
      then have "es_id stage \<in> uuid ` {..<fs_uuids s}"
        using inv unfolding walk_inv_def by blast
      then show False
        using fs(4) by (auto simp: inj_eq [OF inj])
    qed
    then have stgs: "fs_stages s' = fs_stages s @ [stage]"
      using e by (auto simp: record_stage_def ins_by_def)
    have ids: "es_id ` set (fs_stages s') \<subseteq> uuid ` {..<fs_uuids s'}"
    proof -
      have up: "uuid ` {..<fs_uuids s} \<subseteq> uuid ` {..<n}" and new: "es_id stage \<in> uuid ` {..<n}"
        using fs(3,4) by auto
      have "fs_uuids s' = n"
        using e by (simp add: record_stage_keys(4))
      moreover have "es_id ` set (fs_stages s) \<subseteq> uuid ` {..<n}"
        using inv unfolding walk_inv_def by (meson subset_trans up)
      ultimately show ?thesis
        using new by (simp add: stgs)
    qed
    have "\<exists>st \<in> set (fs_stages s'). i \<in> member_ids st" if "(p, i) \<in> consumed_keys s'" for p i
      using that inv fs(2) unfolding ck stgs walk_inv_def by (auto simp: cc_key_def)
    moreover have "stage_fused q st \<and> (\<forall>c \<in> set (es_output_pcols st). settled q (runner_ids s') (consumed_keys s' \<union> pending_keys s') c)"
      if "st \<in> set (fs_stages s')" for st
    proof (cases "st = stage")
      case True
      then show ?thesis
        using e fs(1) by blast
    next
      case False
      then show ?thesis
        using that inv mono settled_mono unfolding stgs walk_inv_def by (metis UnE empty_iff empty_set set_ConsD set_append)
    qed
    moreover have "distinct (map es_id (fs_stages s'))"
      using inv \<open>es_id stage \<notin> es_id ` set (fs_stages s)\<close> unfolding walk_inv_def stgs by simp
    ultimately show ?thesis
      using e ids mono unfolding walk_inv_def by blast
  qed
qed

lemma fuse_loop_walk:
  "fuse_loop uuid fuel dec q s = Some (Ok s') \<Longrightarrow> walk_inv uuid q s \<Longrightarrow> inj uuid \<Longrightarrow>
    walk_inv uuid q s' \<and> fs_pending s' = [] \<and> runner_ids s \<subseteq> runner_ids s' \<and> consumed_keys s \<union> pending_keys s \<subseteq> consumed_keys s'"
proof (induction uuid fuel dec q s rule: fuse_loop.induct)
  case (1 uuid fuel dec q s)
  show ?case
  proof (cases "fs_pending s")
    case Nil
    then have "s' = s"
      using 1(2) by (simp add: fuse_loop.simps)
    then show ?thesis
      using 1(3) Nil by (simp add: pending_keys_def)
  next
    case (Cons candidates rest)
    then obtain s1 where s1: "fuse_step uuid fuel dec q candidates (s\<lparr>fs_pending := rest\<rparr>) = Some (Ok s1)"
      and loop: "fuse_loop uuid fuel dec q s1 = Some (Ok s')"
      using 1(2) by (subst (asm) fuse_loop.simps) (auto split: option.splits rust.splits)
    note step = fuse_step_walk [OF 1(4) Cons 1(3) s1]
    have "walk_inv uuid q s' \<and> fs_pending s' = [] \<and> runner_ids s1 \<subseteq> runner_ids s' \<and> consumed_keys s1 \<union> pending_keys s1 \<subseteq> consumed_keys s'"
      by (rule 1(1) [OF Cons s1 refl loop conjunct1 [OF step] 1(4)])
    then show ?thesis
      using step by blast
  qed
qed

section \<open>Every transform below a runner root is placed\<close>

text \<open>The transforms fed, through main inputs, by the transforms \<open>R\<close>.\<close>

inductive downstream :: "queryable_pipeline \<Rightarrow> string set \<Rightarrow> string \<Rightarrow> bool" for q R where
  root: "i \<in> R \<Longrightarrow> downstream q R i"
| step: "downstream q R (ptn_id t) \<Longrightarrow> c \<in> set (get_output_pcol q t) \<Longrightarrow> u \<in> set (get_per_element_consumers q c)
    \<Longrightarrow> downstream q R (ptn_id u)"

definition placed :: "fusion_state \<Rightarrow> string set" where
  "placed s = runner_ids s \<union> (\<Union>stage \<in> set (fs_stages s). member_ids stage)"

lemma settled_placed:
  assumes "walk_inv uuid q s" and "fs_pending s = []" and "settled q (runner_ids s) (consumed_keys s \<union> pending_keys s) c"
    and "u \<in> set (get_per_element_consumers q c)"
  shows "ptn_id u \<in> placed s"
proof -
  have "met q (runner_ids s) (consumed_keys s) c u"
    using assms(2-4) by (simp add: settled_def pending_keys_def)
  then show ?thesis
    using assms(1) by (fastforce simp: met_def placed_def walk_inv_def split: if_splits)
qed

lemma placed_closed:
  assumes inv: "walk_inv uuid q s" "fs_pending s = []" and t: "ptn_id t \<in> placed s"
    and c: "c \<in> set (get_output_pcol q t)" and u: "u \<in> set (get_per_element_consumers q c)"
  shows "ptn_id u \<in> placed s"
proof (cases "ptn_id t \<in> runner_ids s")
  case True
  then have "settled q (runner_ids s) (consumed_keys s \<union> pending_keys s) c"
    using inv(1) c unfolding walk_inv_def runner_closed_def by blast
  then show ?thesis
    by (rule settled_placed [OF inv _ u])
next
  case False
  then obtain stage t' where stage: "stage \<in> set (fs_stages s)" and t': "t' \<in> set (es_transforms stage)" "ptn_id t' = ptn_id t"
    using t by (force simp: placed_def member_ids_def)
  have "stage_fused q stage"
    using inv(1) stage unfolding walk_inv_def by blast
  then consider "pcn_id c \<in> produced_ids stage" | "ptn_id ` set (get_per_element_consumers q c) \<subseteq> member_ids stage"
    using t' c outputs_id [OF t'(2), of q] unfolding stage_fused_def by metis
  then show ?thesis
  proof cases
    case 1
    then obtain d where d: "d \<in> set (es_output_pcols stage)" "pcn_id d = pcn_id c"
      by (auto simp: produced_ids_def)
    then have "settled q (runner_ids s) (consumed_keys s \<union> pending_keys s) c"
      using inv(1) stage settled_id [OF d(2)] unfolding walk_inv_def by blast
    then show ?thesis
      by (rule settled_placed [OF inv _ u])
  next
    case 2
    then show ?thesis
      using u stage by (auto simp: placed_def)
  qed
qed

lemma downstream_placed:
  "downstream q R i \<Longrightarrow> walk_inv uuid q s \<Longrightarrow> fs_pending s = [] \<Longrightarrow> R \<subseteq> placed s \<Longrightarrow> i \<in> placed s"
  by (induction rule: downstream.induct) (auto intro: placed_closed)

lemma visit_root_settles:
  assumes "visit_root fuel q root d = Some e" and "descendants_closed q d"
  shows "descendants_closed q e \<and> extends d e \<and> (get_environment q (ptn_transform root) = None \<longrightarrow> ptn_id root \<in> unfusible_ids e)"
proof -
  let ?d = "if get_environment q (ptn_transform root) = None then d\<lparr>dc_unfusible := ins_by ptn_id root (dc_unfusible d)\<rparr> else d"
  obtain v where v: "get_root_consumers fuel q root = Some v" and e: "e = merge_descendants ?d v"
    using assms(1) by (auto simp: visit_root_def)
  note s = add_descendants_settles [OF v [unfolded get_root_consumers_def] descendants_settle]
  have vc: "descendants_closed q v"
    using s by auto
  have both: "runner_closed q (unfusible_ids d \<union> unfusible_ids v) (fusible_keys d \<union> fusible_keys v)"
    by (rule runner_closed_Un [OF assms(2) vc])
  have ids: "unfusible_ids d \<union> unfusible_ids v \<subseteq> unfusible_ids e" "fusible_keys e = fusible_keys d \<union> fusible_keys v"
    "unfusible_ids e \<subseteq> insert (ptn_id root) (unfusible_ids d \<union> unfusible_ids v)"
    by (auto simp: e)
  have "descendants_closed q e"
    unfolding runner_closed_def
  proof (intro allI impI ballI)
    fix u c
    assume u: "ptn_id u \<in> unfusible_ids e" and c: "c \<in> set (get_output_pcol q u)"
    show "settled_in q e c"
    proof (cases "ptn_id u = ptn_id root")
      case True
      then have "settled_in q v c"
        using s c outputs_id [OF True, of q] by simp
      then show ?thesis
        by (rule settled_mono) (use ids in auto)
    next
      case False
      then have "settled q (unfusible_ids d \<union> unfusible_ids v) (fusible_keys d \<union> fusible_keys v) c"
        using both u c ids(3) unfolding runner_closed_def by blast
      then show ?thesis
        by (rule settled_mono) (use ids in auto)
    qed
  qed
  then show ?thesis
    using ids by (auto simp: extends_def e)
qed

lemma root_descendants_settle:
  assumes "root_descendants fuel q = Some d"
  shows "descendants_closed q d"
    and "root \<in> set (get_root_transforms q) \<Longrightarrow> get_environment q (ptn_transform root) = None \<Longrightarrow> ptn_id root \<in> unfusible_ids d"
proof -
  let ?R = "\<lambda>(root :: ptransform_node) e. get_environment q (ptn_transform root) = None \<longrightarrow> ptn_id root \<in> unfusible_ids e"
  have "descendants_closed q d \<and> (\<forall>root \<in> set (get_root_transforms q). ?R root d) \<and> (\<forall>root. ?R root no_descendants \<longrightarrow> ?R root d)"
  proof (rule fold_bind_all [where P = "descendants_closed q" and R = ?R, OF assms [unfolded root_descendants_def]])
    fix root a b
    assume "descendants_closed q a" and "visit_root fuel q root a = Some b"
    then show "descendants_closed q b \<and> ?R root b \<and> (\<forall>y. ?R y a \<longrightarrow> ?R y b)"
      using visit_root_settles by (fastforce simp: extends_def)
  qed simp
  then show "descendants_closed q d"
    and "root \<in> set (get_root_transforms q) \<Longrightarrow> get_environment q (ptn_transform root) = None \<Longrightarrow> ptn_id root \<in> unfusible_ids d"
    by blast+
qed

end
