(* ===== verification/Fusion_Complete.thy ===== *)
theory Fusion_Complete
  imports Fusion_Walk
begin

text \<open>
  What the whole of \<open>fuse_pipeline\<close> promises: the walk over the pipeline hands the rewriting
  well-formed producers, no PCollection of the fused pipeline has two producers, and every
  transform downstream of the runner's roots is executed by some stage.
\<close>

section \<open>The nodes the walk handles\<close>

definition graph_transform :: "queryable_pipeline \<Rightarrow> ptransform_node \<Rightarrow> bool" where
  "graph_transform q t \<longleftrightarrow> transform_node q t \<and> hm_get (qp_transform_ids q) (ptn_id t) \<noteq> None"

lemma consumers_graph:
  assumes "graph_wf q" and "t \<in> set (get_per_element_consumers q c)"
  shows "graph_transform q t"
proof -
  have e: "(Inr (pcn_id c), Inl (ptn_id t), PerElement) \<in> named_edges q" "transform_node q t"
    using assms consumers_by_iff by (auto simp: get_per_element_consumers_def)
  then obtain j where "j < length (qp_nodes q)" "name_at q j = Inl (ptn_id t)"
    using named_edge_ends [OF assms(1)] by blast
  then show ?thesis
    using e(2) graph_wfD(3) [OF assms(1), of "ptn_id t" j] by (simp add: graph_transform_def)
qed

lemma roots_graph:
  assumes "graph_wf q" and "t \<in> set (get_root_transforms q)"
  shows "graph_transform q t"
proof -
  obtain i where "as_transform (node_at_index q i) = Some t"
    using assms(2) unfolding get_root_transforms_def by (auto dest!: set_ext_by_Nil simp: set_map_filter_iff)
  then show ?thesis
    using as_transform_at [OF assms(1)] graph_wfD(3) [OF assms(1), of "ptn_id t" i] by (auto simp: graph_transform_def)
qed

lemma outputs_graph: "graph_wf q \<Longrightarrow> c \<in> set (get_output_pcol q t) \<Longrightarrow> collection_node q c"
  by (simp add: get_output_pcol_iff)

definition unfusible_graph :: "queryable_pipeline \<Rightarrow> descendant_consumers \<Rightarrow> bool" where
  "unfusible_graph q d \<longleftrightarrow> (\<forall>t \<in> set (dc_unfusible d). graph_transform q t)"

lemma unfusible_graph_empty [simp]: "unfusible_graph q no_descendants"
  by (simp add: unfusible_graph_def)

lemma merge_descendants_graph: "unfusible_graph q d \<Longrightarrow> unfusible_graph q e \<Longrightarrow> unfusible_graph q (merge_descendants d e)"
  using set_ext_by_subset [of ptn_id "dc_unfusible d" "dc_unfusible e"] by (auto simp: unfusible_graph_def merge_descendants_def)

lemma ins_unfusible_graph:
  "unfusible_graph q d \<Longrightarrow> graph_transform q t \<Longrightarrow> unfusible_graph q (d\<lparr>dc_unfusible := ins_by ptn_id t (dc_unfusible d)\<rparr>)"
  by (auto simp: unfusible_graph_def ins_by_def)

lemma add_descendants_graph:
  assumes "add_descendants visit outs d = Some e" and "unfusible_graph q d" and "\<And>c d. visit c = Some d \<Longrightarrow> unfusible_graph q d"
  shows "unfusible_graph q e"
proof (rule fold_bind_invariant [where P = "unfusible_graph q", OF assms(1) [unfolded add_descendants_def] assms(2)])
  fix c a b
  assume a: "unfusible_graph q a" and "map_option (merge_descendants a) (visit c) = Some b"
  then obtain f where "visit c = Some f" "b = merge_descendants a f"
    by blast
  then show "unfusible_graph q b"
    using merge_descendants_graph [OF a] assms(3) by simp
qed

lemma descendants_graph:
  assumes wf: "graph_wf q"
  shows "get_descendant_consumers fuel q c = Some d \<Longrightarrow> unfusible_graph q d"
proof (induction fuel arbitrary: c d)
  case (Suc fuel)
  show ?case
  proof (rule fold_bind_invariant [where P = "unfusible_graph q", OF Suc.prems [unfolded get_descendant_consumers.simps]])
    fix t a b
    assume t: "t \<in> set (get_per_element_consumers q c)" and a: "unfusible_graph q a"
      and v: "visit_consumer q (get_descendant_consumers fuel q) c t a = Some b"
    show "unfusible_graph q b"
    proof (cases "get_environment q (ptn_transform t)")
      case None
      then have "add_descendants (get_descendant_consumers fuel q) (get_output_pcol q t)
          (a\<lparr>dc_unfusible := ins_by ptn_id t (dc_unfusible a)\<rparr>) = Some b"
        using v by (simp add: visit_consumer_def)
      then show ?thesis
        by (rule add_descendants_graph) (use ins_unfusible_graph [OF a consumers_graph [OF wf t]] Suc.IH in simp_all)
    qed (use v a in \<open>auto simp: visit_consumer_def unfusible_graph_def\<close>)
  qed simp
qed simp

lemma root_descendants_graph:
  assumes wf: "graph_wf q" and "root_descendants fuel q = Some d"
  shows "unfusible_graph q d"
proof (rule fold_bind_invariant [where P = "unfusible_graph q", OF assms(2) [unfolded root_descendants_def]])
  fix t a b
  assume t: "t \<in> set (get_root_transforms q)" and a: "unfusible_graph q a" and v: "visit_root fuel q t a = Some b"
  obtain r where r: "get_root_consumers fuel q t = Some r"
    and b: "b = merge_descendants (if get_environment q (ptn_transform t) = None then a\<lparr>dc_unfusible := ins_by ptn_id t (dc_unfusible a)\<rparr> else a) r"
    using v by (auto simp: visit_root_def)
  have "unfusible_graph q r"
    by (rule add_descendants_graph [OF r [unfolded get_root_consumers_def]]) (use descendants_graph [OF wf] in simp_all)
  then show "unfusible_graph q b"
    using a ins_unfusible_graph [OF a roots_graph [OF wf t]] by (simp add: b merge_descendants_graph)
qed simp

definition stage_outputs_ok :: "queryable_pipeline \<Rightarrow> executable_stage \<Rightarrow> bool" where
  "stage_outputs_ok q stage \<longleftrightarrow> distinct (map pcn_id (es_output_pcols stage)) \<and> (\<forall>c \<in> set (es_output_pcols stage). collection_node q c)"

lemma fuse_siblings_outputs:
  assumes wf: "graph_wf q" and fused: "fuse_siblings uuid dec q n siblings = Ok (stage, n')"
  shows "stage_outputs_ok q stage"
proof -
  obtain input_pcol roots where "fuse_stage uuid dec q n input_pcol roots = Ok (stage, n')"
    using fused by (auto simp: fuse_siblings_def split: list.splits)
  then obtain env queue sides states tms g where refs: "initial_refs dec q roots ([], [], [], []) = Ok (queue, sides, states, tms)"
    and g: "grow dec q env (list_ex transform_has_splittable_process_urn roots) queue
      \<lparr>sg_transforms = roots, sg_side_inputs = sides, sg_fused = [], sg_materialized = []\<rparr> = Ok g"
    and s: "sanitize_dangling_ptransform_inputs uuid (Suc n)
      (fst (stage_from uuid n (qp_components q) env input_pcol (sg_side_inputs g) states tms (sg_materialized g) (sg_transforms g))) = (stage, n')"
    by (auto simp: fuse_stage_def stage_from_def split: if_splits prod.splits)
  let ?P = "\<lambda>queue g. (\<forall>c \<in> set queue \<union> set (sg_materialized g). collection_node q c) \<and> distinct (map pcn_id (sg_materialized g))"
  have "?P [] g"
  proof (rule grow_invariant [where P = ?P, OF _ _ _ g])
    show "?P queue \<lparr>sg_transforms = roots, sg_side_inputs = sides, sg_fused = [], sg_materialized = []\<rparr>"
      using initial_refs_queue [OF refs] outputs_graph [OF wf] by auto
    fix c queue g queue' sides
    assume p: "?P (c # queue) g" and "add_consumers dec q (get_per_element_consumers q c) queue (sg_side_inputs g) = Ok (queue', sides)"
    then have "queue' = queue @ concat (map (get_output_pcol q) (get_per_element_consumers q c))"
      using add_consumers_queue by blast
    then show "?P queue' (g\<lparr>sg_side_inputs := sides, sg_transforms := ext_by ptn_id (sg_transforms g) (get_per_element_consumers q c),
        sg_fused := ins_by pcn_id c (sg_fused g)\<rparr>)"
      using p outputs_graph [OF wf] by auto
  qed (auto simp: ins_by_def)
  then show ?thesis
    using sanitize_facts(2) [OF s] by (simp add: stage_outputs_ok_def stage_from_def)
qed

definition walk_nodes :: "queryable_pipeline \<Rightarrow> fusion_state \<Rightarrow> bool" where
  "walk_nodes q s \<longleftrightarrow> distinct (map ptn_id (fs_unfused s)) \<and> (\<forall>t \<in> set (fs_unfused s). graph_transform q t)
     \<and> (\<forall>stage \<in> set (fs_stages s). stage_outputs_ok q stage)"

lemma expand_outputs_nodes:
  assumes wf: "graph_wf q"
  shows "expand_outputs fuel dec q cs s = Some s' \<Longrightarrow> walk_nodes q s \<Longrightarrow> walk_nodes q s'"
  using wf
proof (induction fuel dec q cs s rule: expand_outputs.induct)
  case (2 fuel dec q c cs s)
  obtain d where d: "get_descendant_consumers fuel q c = Some d"
    and s': "expand_outputs fuel dec q cs
         (s\<lparr>fs_unfused := ext_by ptn_id (fs_unfused s) (dc_unfusible d),
            fs_pending := fs_pending s @ group_siblings dec q (dc_fusible d)\<rparr>) = Some s'" (is "expand_outputs _ _ _ _ ?s = _")
    using 2(2) by (auto simp: bind_eq_Some_conv)
  have "set (ext_by ptn_id (fs_unfused s) (dc_unfusible d)) \<subseteq> set (fs_unfused s) \<union> set (dc_unfusible d)"
    by (rule set_ext_by_subset)
  then have "walk_nodes q ?s"
    using 2(3) descendants_graph [OF 2(4) d] distinct_ext_by [of ptn_id "fs_unfused s" "dc_unfusible d"] by (auto simp: walk_nodes_def unfusible_graph_def)
  then show ?case
    by (rule 2(1) [OF d s' _ 2(4)])
qed auto

lemma fuse_loop_nodes:
  "fuse_loop uuid fuel dec q s = Some (Ok s') \<Longrightarrow> graph_wf q \<Longrightarrow> walk_nodes q s \<Longrightarrow> walk_nodes q s'"
proof (induction uuid fuel dec q s rule: fuse_loop.induct)
  case (1 uuid fuel dec q s)
  show ?case
  proof (cases "fs_pending s")
    case Nil
    then show ?thesis
      using 1(2,4) by (simp add: fuse_loop.simps)
  next
    case (Cons candidates rest)
    then obtain s1 where s1: "fuse_step uuid fuel dec q candidates (s\<lparr>fs_pending := rest\<rparr>) = Some (Ok s1)"
      and loop: "fuse_loop uuid fuel dec q s1 = Some (Ok s')"
      using 1(2) by (subst (asm) fuse_loop.simps) (auto split: option.splits rust.splits)
    have s: "walk_nodes q (s\<lparr>fs_pending := rest\<rparr>)"
      using 1(4) by (simp add: walk_nodes_def)
    have "walk_nodes q s1"
    proof (cases "filter (\<lambda>c. hm_get (fs_consumed s) (cc_key c) = None) candidates = []")
      case True
      then show ?thesis
        using s1 s by (simp add: fuse_step_def)
    next
      case False
      then obtain sib stage n where fused: "fuse_siblings uuid dec q (fs_uuids s) sib = Ok (stage, n)"
        and ex: "expand_outputs fuel dec q (es_output_pcols stage) (record_stage sib stage n (s\<lparr>fs_pending := rest\<rparr>)) = Some s1"
        using s1 by (auto simp: fuse_step_def Let_def split: rust.splits prod.splits if_splits)
      have "walk_nodes q (record_stage sib stage n (s\<lparr>fs_pending := rest\<rparr>))"
        using s fuse_siblings_outputs [OF 1(3) fused] by (auto simp: walk_nodes_def record_stage_def ins_by_def)
      then show ?thesis
        by (rule expand_outputs_nodes [OF 1(3) ex])
    qed
    then show ?thesis
      by (rule 1(1) [OF Cons s1 refl loop 1(3)])
  qed
qed

section \<open>What the walk hands to the rewriting\<close>

text \<open>Every output of a transform names a PCollection of the pipeline.\<close>

definition outputs_known :: "components \<Rightarrow> bool" where
  "outputs_known comps \<longleftrightarrow> (\<forall>(i, t) \<in> set (c_transforms comps). \<forall>(k, p) \<in> set (pt_outputs t). hm_get (c_pcollections comps) p \<noteq> None)"

lemma hm_get_keys: "hm_get m k = Some v \<Longrightarrow> k \<in> fst ` set m"
  by (force dest: hm_get_mem)

lemma graph_transform_outs:
  assumes prims: "distinct prims" and known: "outputs_known comps" and t: "graph_transform (pipeline_of dec comps prims) t"
  shows "transform_outs t = pcn_id ` set (get_output_pcol (pipeline_of dec comps prims) t)" (is "_ = _ ` set (get_output_pcol ?q t)")
    and "transform_outs t \<subseteq> known_pcols comps" and "ptn_id t \<in> set (hm_keys (c_transforms comps))"
proof -
  note wf = pipeline_of_wf [OF prims, of dec comps]
  have tr: "hm_get (c_transforms comps) (ptn_id t) = Some (ptn_transform t)"
    using t by (simp add: graph_transform_def transform_node_def wf(2))
  have prim: "ptn_id t \<in> set prims"
    using t build_graph_wf(4) [of "\<lparr>qp_nodes = [], qp_edges = [], qp_transform_ids = [], qp_pcollection_ids = [],
      qp_components = comps, qp_primitives = prims\<rparr>" dec "ptn_id t"] prims by (simp add: graph_transform_def pipeline_of_def)
  have mem: "hm_get (c_pcollections comps) p \<noteq> None" if "(k, p) \<in> set (pt_outputs (ptn_transform t))" for k p
    using known hm_get_mem [OF tr] that unfolding outputs_known_def by fast
  then show "transform_outs t \<subseteq> known_pcols comps"
    by (fastforce simp: transform_outs_def intro: hm_get_keys)
  show "ptn_id t \<in> set (hm_keys (c_transforms comps))"
    using hm_get_keys [OF tr] by simp
  have edge: "(\<exists>e. (Inl (ptn_id t), Inr p, e) \<in> named_edges ?q) \<longleftrightarrow> (\<exists>k. (k, p) \<in> set (pt_outputs (ptn_transform t)))" for p
    unfolding wf(3) using prim tr mem by (auto simp: transform_edges_out)
  show "transform_outs t = pcn_id ` set (get_output_pcol ?q t)"
  proof (intro equalityI subsetI)
    fix p
    assume "p \<in> transform_outs t"
    then obtain k where k: "(k, p) \<in> set (pt_outputs (ptn_transform t))"
      by (auto simp: transform_outs_def)
    then obtain pcol where "hm_get (c_pcollections comps) p = Some pcol"
      using mem by blast
    then have "\<lparr>pcn_id = p, pcn_collection = pcol\<rparr> \<in> set (get_output_pcol ?q t)"
      using edge [of p] exI [of "\<lambda>k. (k, p) \<in> set (pt_outputs (ptn_transform t))", OF k]
      by (simp add: get_output_pcol_iff [OF wf(1)] collection_node_def wf(2))
    then show "p \<in> pcn_id ` set (get_output_pcol ?q t)"
      by force
  next
    fix p
    assume "p \<in> pcn_id ` set (get_output_pcol ?q t)"
    then show "p \<in> transform_outs t"
      using edge [of p] by (force simp: get_output_pcol_iff [OF wf(1)] transform_outs_def)
  qed
qed

lemma walk_dedup_ready:
  assumes prims: "distinct prims" and known: "outputs_known comps"
    and walk: "walk_inv uuid (pipeline_of dec comps prims) s" and nodes: "walk_nodes (pipeline_of dec comps prims) s"
  shows "dedup_ready (pipeline_of dec comps prims) (fs_stages s) (fs_unfused s)"
proof -
  note comps = pipeline_of_wf(2) [OF prims, of dec comps]
  have "distinct (map es_id (fs_stages s))"
    using walk by (simp add: walk_inv_def)
  moreover have "produced_ids stage \<subseteq> known_pcols comps" if "stage \<in> set (fs_stages s)" for stage
    using nodes that by (auto simp: walk_nodes_def stage_outputs_ok_def produced_ids_def collection_node_def comps intro: hm_get_keys)
  ultimately show ?thesis
    using nodes graph_transform_outs [OF prims known, of dec] unfolding dedup_ready_def comps walk_nodes_def stage_outputs_ok_def by blast
qed

section \<open>The stages after the rewriting\<close>

definition stages_numbered :: "(nat \<Rightarrow> string) \<Rightarrow> nat \<Rightarrow> nat \<Rightarrow> (string, executable_stage) hashmap \<Rightarrow> bool" where
  "stages_numbered uuid n k m \<longleftrightarrow> n \<le> k
     \<and> (\<forall>i s. hm_get m i = Some s \<longrightarrow> es_id s \<in> uuid ` {n..<k})
     \<and> (\<forall>i j s t. hm_get m i = Some s \<longrightarrow> hm_get m j = Some t \<longrightarrow> es_id s = es_id t \<longrightarrow> i = j)"

lemma stages_numberedI:
  assumes "n \<le> k" and "\<And>i s. hm_get m i = Some s \<Longrightarrow> es_id s \<in> uuid ` {n..<k}"
    and "\<And>i j s t. hm_get m i = Some s \<Longrightarrow> hm_get m j = Some t \<Longrightarrow> es_id s = es_id t \<Longrightarrow> i = j"
  shows "stages_numbered uuid n k m"
  using assms unfolding stages_numbered_def by blast

lemma stages_numberedD:
  assumes "stages_numbered uuid n k m"
  shows "n \<le> k" and "hm_get m i = Some s \<Longrightarrow> es_id s \<in> uuid ` {n..<k}"
    and "hm_get m i = Some s \<Longrightarrow> hm_get m j = Some t \<Longrightarrow> es_id s = es_id t \<Longrightarrow> i = j"
  using assms unfolding stages_numbered_def by blast+

lemma rewritten_numbered:
  assumes "inj uuid"
  shows "rewritten uuid pds ds log ds' \<Longrightarrow> 
    stages_numbered uuid n (ds_uuids ds) (ds_stages ds) \<Longrightarrow> stages_numbered uuid n (ds_uuids ds') (ds_stages ds')"
proof (induction rule: rewritten.induct)
  case (stage ds dups partials s s' pds log ds')
  note num = stages_numberedD [OF stage.prems]
  let ?m = "hm_insert (es_id s) s' (ds_stages ds)" and ?k = "ds_uuids ds"
  have id: "es_id s' = uuid ?k"
    using stage.hyps by (simp add: stage_renamed_def)
  have "uuid ?k \<notin> uuid ` {n..<?k}"
    using assms by (auto dest: injD)
  then have fresh: "es_id t \<noteq> es_id s'" if "hm_get (ds_stages ds) j = Some t" for j t
    using num(2) [OF that] unfolding id by metis
  have range: "es_id t \<in> uuid ` {n..<Suc ?k}" if "hm_get ?m j = Some t" for j t
  proof (cases "j = es_id s")
    case True
    then show ?thesis
      using that id num(1) by simp
  next
    case False
    then show ?thesis
      using that num(2) [of j t] by auto
  qed
  have uniq: "i = j" if t: "hm_get ?m i = Some t" and u: "hm_get ?m j = Some u" and eq: "es_id t = es_id u" for i j t u
  proof -
    have ti: "if i = es_id s then t = s' else hm_get (ds_stages ds) i = Some t"
      and uj: "if j = es_id s then u = s' else hm_get (ds_stages ds) j = Some u"
      using t u by (auto split: if_splits)
    show ?thesis
    proof (cases "i = es_id s"; cases "j = es_id s")
      assume "i = es_id s" "j \<noteq> es_id s"
      then show ?thesis
        using ti uj fresh [of j u] eq by simp
    next
      assume "i \<noteq> es_id s" "j = es_id s"
      then show ?thesis
        using ti uj fresh [of i t] eq by simp
    next
      assume "i \<noteq> es_id s" "j \<noteq> es_id s"
      then show ?thesis
        using ti uj num(3) [of i t j u] eq by simp
    qed simp
  qed
  have "n \<le> Suc ?k"
    using num(1) by simp
  then have "stages_numbered uuid n (Suc ?k) ?m"
    by (rule stages_numberedI [OF _ range uniq])
  then show ?case
    using stage.IH by simp
next
  case (transform ds dups partials pds t log ds')
  then show ?case
    by (simp add: note_partials_def)
qed

lemma deduplicated_numbered:
  assumes inj: "inj uuid" and ok: "ensure_single_producer uuid n q fused unfused = Ok (dr, n1)"
    and ids: "distinct (map es_id fused)" "es_id ` set fused \<subseteq> uuid ` {..<n}"
  shows "distinct (map es_id (map (current_stage dr) fused))" and "es_id ` set (map (current_stage dr) fused) \<subseteq> uuid ` {..<n1}"
proof -
  let ?ds0 = "\<lparr>ds_components = qp_components q, ds_partials = [], ds_stages = [], ds_transforms = [], ds_uuids = n\<rparr>"
  obtain ds log where log: "rewritten uuid (map snd (requires_new_output (collect_producers q fused unfused))) ?ds0 log ds"
    and dr: "dr_deduplicated_stages dr = ds_stages ds" "n1 = ds_uuids ds"
  proof -
    obtain ds where rw: "rewrite_producers uuid (map snd (requires_new_output (collect_producers q fused unfused))) ?ds0 = Ok ds"
      and "dr_deduplicated_stages dr = ds_stages ds" "n1 = ds_uuids ds"
      using ok unfolding ensure_single_producer_def by (auto simp: Let_def case_prod_unfold)
    then show thesis
      using rewrite_producers_rewritten [OF rw] that by blast
  qed
  have num: "stages_numbered uuid n n1 (ds_stages ds)"
    unfolding dr by (rule rewritten_numbered [OF inj log]) (simp add: stages_numbered_def)
  have new: "es_id s' \<in> uuid ` {n..<n1}" if "hm_get (ds_stages ds) i = Some s'" for i s'
    by (rule stages_numberedD(2) [OF num that])
  have apart: "uuid ` {..<n} \<inter> uuid ` {n..<n1} = {}"
    using inj by (auto dest: injD)
  have "n \<le> n1"
    by (rule stages_numberedD(1) [OF num])
  then have mono: "uuid ` {..<n} \<subseteq> uuid ` {..<n1}" "uuid ` {n..<n1} \<subseteq> uuid ` {..<n1}"
    by auto
  have cur: "current_stage dr s = (case hm_get (ds_stages ds) (es_id s) of Some s' \<Rightarrow> s' | None \<Rightarrow> s)" for s
    by (simp add: current_stage_def dr(1))
  show "es_id ` set (map (current_stage dr) fused) \<subseteq> uuid ` {..<n1}"
  proof
    fix i
    assume "i \<in> es_id ` set (map (current_stage dr) fused)"
    then obtain s where "s \<in> set fused" "i = es_id (current_stage dr s)"
      by auto
    moreover have "es_id s \<in> uuid ` {..<n}" if "s \<in> set fused"
      using that ids(2) by blast
    ultimately show "i \<in> uuid ` {..<n1}"
      using mono new [of "es_id s"] by (cases "hm_get (ds_stages ds) (es_id s)") (simp_all add: cur subset_iff)
  qed
  have inj_cur: "s = t" if s: "s \<in> set fused" and t: "t \<in> set fused" and eq: "es_id (current_stage dr s) = es_id (current_stage dr t)" for s t
  proof -
    have old: "es_id s \<in> uuid ` {..<n}" "es_id t \<in> uuid ` {..<n}"
      using s t ids(2) by blast+
    have "es_id s = es_id t"
    proof (cases "hm_get (ds_stages ds) (es_id s)"; cases "hm_get (ds_stages ds) (es_id t)")
      fix s' t'
      assume "hm_get (ds_stages ds) (es_id s) = Some s'" "hm_get (ds_stages ds) (es_id t) = Some t'"
      then show ?thesis
        using stages_numberedD(3) [OF num] eq unfolding cur by simp
    next
      fix s'
      assume "hm_get (ds_stages ds) (es_id s) = Some s'" "hm_get (ds_stages ds) (es_id t) = None"
      then show ?thesis
        using eq new [of "es_id s" s'] old apart unfolding cur by auto
    next
      fix t'
      assume "hm_get (ds_stages ds) (es_id s) = None" "hm_get (ds_stages ds) (es_id t) = Some t'"
      then show ?thesis
        using eq new [of "es_id t" t'] old apart unfolding cur by auto
    qed (use eq in \<open>simp add: cur\<close>)
    then show ?thesis
      using ids(1) s t by (auto simp: distinct_map inj_on_def)
  qed
  then show "distinct (map es_id (map (current_stage dr) fused))"
    using ids(1) by (simp add: distinct_map comp_inj_on_iff inj_on_def)
qed

lemma sanitize_stages_spec:
  assumes "inj uuid"
  shows "sanitize_stages uuid n ss acc = (out, n') \<Longrightarrow> distinct (map es_id (acc @ ss)) \<Longrightarrow> es_id ` set (acc @ ss) \<subseteq> uuid ` {..<n} \<Longrightarrow>
    distinct (map es_id out) \<and> es_id ` set out \<subseteq> uuid ` {..<n'}
    \<and> (\<exists>ss'. out = acc @ ss' \<and> map member_ids ss' = map member_ids ss \<and> map produced_ids ss' = map produced_ids ss)"
proof (induction ss arbitrary: n acc)
  case (Cons s ss)
  obtain s1 n1 where s1: "sanitize_dangling_ptransform_inputs uuid n s = (s1, n1)"
    by (cases "sanitize_dangling_ptransform_inputs uuid n s")
  note f = sanitize_facts [OF s1]
  have new: "uuid n \<notin> uuid ` {..<n}"
    using assms by (auto dest: injD)
  have ids: "es_id s1 \<notin> es_id ` set acc" "es_id s1 \<notin> es_id ` set ss" "n \<le> n1" "es_id s1 \<in> uuid ` {..<n1}"
    using f(4) new Cons.prems(2,3) by auto
  have acc: "ins_by es_id s1 acc = acc @ [s1]"
    using ids(1) by (auto simp: ins_by_def)
  have "uuid ` {..<n} \<subseteq> uuid ` {..<n1}"
    using ids(3) by auto
  then have rest: "distinct (map es_id ((acc @ [s1]) @ ss))" "es_id ` set ((acc @ [s1]) @ ss) \<subseteq> uuid ` {..<n1}"
    using Cons.prems(2,3) ids by auto
  have "sanitize_stages uuid n1 ss (acc @ [s1]) = (out, n')"
    using Cons.prems(1) s1 acc by simp
  then have ih: "distinct (map es_id out) \<and> es_id ` set out \<subseteq> uuid ` {..<n'} \<and> (\<exists>ss'. out = (acc @ [s1]) @ ss'
      \<and> map member_ids ss' = map member_ids ss \<and> map produced_ids ss' = map produced_ids ss)"
    using Cons.IH rest by blast
  then obtain ss' where "out = (acc @ [s1]) @ ss'" "map member_ids ss' = map member_ids ss" "map produced_ids ss' = map produced_ids ss"
    by blast
  moreover have "produced_ids s1 = produced_ids s"
    by (simp add: produced_ids_def f(2))
  ultimately have "out = acc @ (s1 # ss') \<and> map member_ids (s1 # ss') = map member_ids (s # ss)
      \<and> map produced_ids (s1 # ss') = map produced_ids (s # ss)"
    using f(1) by simp
  then show ?case
    using ih by blast
qed simp

section \<open>The fused pipeline\<close>

lemma walk_starts:
  assumes wf: "graph_wf q" and d: "root_descendants fuel q = Some d"
    and s_def: "s = \<lparr>fs_pending = group_siblings dec q (dc_fusible d), fs_consumed = [], fs_stages = [],
      fs_unfused = ext_by ptn_id [] (dc_unfusible d), fs_uuids = 0\<rparr>"
  shows "walk_inv uuid q s" and "walk_nodes q s" and "runner_ids s = unfusible_ids d"
proof -
  have ids: "runner_ids s = unfusible_ids d"
    using keys_ext_by [of ptn_id "[]" "dc_unfusible d"] by (simp add: s_def runner_ids_def unfusible_ids_def)
  then show "runner_ids s = unfusible_ids d" .
  have "pending_keys s = fusible_keys d" "consumed_keys s = {}"
    by (simp_all add: s_def pending_keys_def group_siblings_keys fusible_keys_def consumed_keys_def)
  then show "walk_inv uuid q s"
    using root_descendants_settle(1) [OF d] by (simp add: walk_inv_def ids) (simp add: s_def)
  have "set (ext_by ptn_id [] (dc_unfusible d)) \<subseteq> set (dc_unfusible d)"
    using set_ext_by_subset [of ptn_id "[]" "dc_unfusible d"] by simp
  then show "walk_nodes q s"
    using root_descendants_graph [OF wf d] by (auto simp: walk_nodes_def unfusible_graph_def s_def)
qed

lemma current_stage_members:
  assumes "dedup_run uuid n q fused unfused L ds" and "dr_deduplicated_stages dr = ds_stages ds" and "s \<in> set fused"
  shows "member_ids (current_stage dr s) = member_ids s"
  using dedup_run_stage [OF assms(1,3)] assms(2) by (auto simp: current_stage_def stage_renamed_def split: option.splits)

lemma current_transform_id:
  assumes "dedup_run uuid n q fused unfused L ds" and "dr_deduplicated_transforms dr = ds_transforms ds" and "t \<in> set unfused"
  shows "ptn_id (current_transform dr t) = ptn_id t"
  using dedup_run_transform [OF assms(1,3)] assms(2) by (auto simp: current_transform_def split: option.splits)

text \<open>
  The parts of a successful run of \<open>fuse_pipeline\<close>: the graph \<open>q\<close>, the end \<open>s\<close> of the walk, the
  rewriting \<open>dr\<close>, and how the result is made of them.
\<close>

definition fusion_run :: "(nat \<Rightarrow> string) \<Rightarrow> queryable_pipeline \<Rightarrow> fusion_state \<Rightarrow> deduplication_result \<Rightarrow> fused_pipeline \<Rightarrow> nat \<Rightarrow> bool" where
  "fusion_run uuid q s dr fp n \<longleftrightarrow>
     walk_inv uuid q s \<and> fs_pending s = []
     \<and> {ptn_id r | r. r \<in> set (get_root_transforms q) \<and> get_environment q (ptn_transform r) = None} \<subseteq> runner_ids s
     \<and> dedup_ready q (fs_stages s) (fs_unfused s)
     \<and> (\<exists>n1. ensure_single_producer uuid (fs_uuids s) q (fs_stages s) (fs_unfused s) = Ok (dr, n1))
     \<and> map member_ids (fp_sdk_stages fp) = map (member_ids \<circ> current_stage dr) (fs_stages s)
     \<and> map produced_ids (fp_sdk_stages fp) = map (produced_ids \<circ> current_stage dr) (fs_stages s)
     \<and> fp_runner_stages fp = get_runner_stages dr (fs_unfused s)
     \<and> distinct (map es_id (fp_sdk_stages fp)) \<and> es_id ` set (fp_sdk_stages fp) \<subseteq> uuid ` {..<n}"

lemma fuse_pipeline_run:
  assumes inj: "inj uuid" and known: "outputs_known comps" and fuse: "fuse_pipeline uuid fuel dec comps = Some (Ok (fp, n))"
  obtains q s dr where "new_pipeline dec fuel comps = Some q" and "fusion_run uuid q s dr fp n"
proof -
  obtain q d where q: "new_pipeline dec fuel comps = Some q" and d: "root_descendants fuel q = Some d"
    and greedy: "greedy_fuse_pipeline uuid fuel dec q 0 (dc_unfusible d) (dc_fusible d) = Some (Ok (fp, n))"
    using fuse by (auto simp: fuse_pipeline_def bind_eq_Some_conv)
  obtain prims where prims: "distinct prims" "q = pipeline_of dec comps prims"
    by (rule new_pipeline_of [OF q])
  have wf: "graph_wf q"
    unfolding prims(2) by (rule pipeline_of_wf(1) [OF prims(1)])
  let ?s0 = "\<lparr>fs_pending = group_siblings dec q (dc_fusible d), fs_consumed = [], fs_stages = [],
      fs_unfused = ext_by ptn_id [] (dc_unfusible d), fs_uuids = 0\<rparr>"
  note start = walk_starts [OF wf d refl [of ?s0]]
  obtain s dr n1 where loop: "fuse_loop uuid fuel dec q ?s0 = Some (Ok s)"
    and dedup: "ensure_single_producer uuid (fs_uuids s) q (fs_stages s) (fs_unfused s) = Ok (dr, n1)"
    and sdk: "get_sdk_stages uuid n1 dr (fs_stages s) = (fp_sdk_stages fp, n)"
    and runner: "fp_runner_stages fp = get_runner_stages dr (fs_unfused s)"
    using greedy unfolding greedy_fuse_pipeline_def by (auto simp: case_prod_unfold Let_def)
  have walk: "walk_inv uuid q s" "fs_pending s = []" "unfusible_ids d \<subseteq> runner_ids s"
    using fuse_loop_walk [OF loop start(1) inj] start(3) by auto
  have ready: "dedup_ready q (fs_stages s) (fs_unfused s)"
    using walk_dedup_ready [OF prims(1) known] walk(1) fuse_loop_nodes [OF loop wf start(2)] unfolding prims(2) by blast
  have roots: "{ptn_id r | r. r \<in> set (get_root_transforms q) \<and> get_environment q (ptn_transform r) = None} \<subseteq> runner_ids s"
    using root_descendants_settle(2) [OF d] walk(3) by blast
  have "distinct (map es_id (fs_stages s))" "es_id ` set (fs_stages s) \<subseteq> uuid ` {..<fs_uuids s}"
    using walk(1) by (simp_all add: walk_inv_def)
  note num = deduplicated_numbered [OF inj dedup this]
  obtain ss where ids: "distinct (map es_id (fp_sdk_stages fp))" "es_id ` set (fp_sdk_stages fp) \<subseteq> uuid ` {..<n}"
    and "fp_sdk_stages fp = [] @ ss" "map member_ids ss = map member_ids (map (current_stage dr) (fs_stages s))"
    "map produced_ids ss = map produced_ids (map (current_stage dr) (fs_stages s))"
    using sanitize_stages_spec [OF inj sdk [unfolded get_sdk_stages_def], unfolded append_Nil, OF num] by auto
  then have "fusion_run uuid q s dr fp n"
    using walk(1,2) roots ready dedup runner ids unfolding fusion_run_def by auto
  then show thesis
    by (rule that [OF q])
qed

lemma fusion_run_rewriting:
  assumes "fusion_run uuid q s dr fp n"
  obtains L ds where "dedup_run uuid (fs_uuids s) q (fs_stages s) (fs_unfused s) L ds"
    and "dr_deduplicated_stages dr = ds_stages ds" and "dr_deduplicated_transforms dr = ds_transforms ds"
    and "fp_runner_stages fp = map (current_transform dr) (fs_unfused s) @ dr_introduced_transforms dr"
    and "list_all2 (\<lambda>(p, _, partials) f. transform_outs f = {p} \<and> snd ` set (pt_inputs (ptn_transform f)) = pcn_id ` set partials)
      (ds_partials ds) (dr_introduced_transforms dr)"
proof -
  have ready: "dedup_ready q (fs_stages s) (fs_unfused s)" and runner: "fp_runner_stages fp = get_runner_stages dr (fs_unfused s)"
    and ok: "\<exists>n1. ensure_single_producer uuid (fs_uuids s) q (fs_stages s) (fs_unfused s) = Ok (dr, n1)"
    using assms unfolding fusion_run_def by blast+
  obtain dr' n1 L ds where sp: "ensure_single_producer uuid (fs_uuids s) q (fs_stages s) (fs_unfused s) = Ok (dr', n1)"
    "dedup_run uuid (fs_uuids s) q (fs_stages s) (fs_unfused s) L ds"
    "dr_deduplicated_stages dr' = ds_stages ds" "dr_deduplicated_transforms dr' = ds_transforms ds" "n1 = ds_uuids ds"
    "get_runner_stages dr' (fs_unfused s) = map (current_transform dr') (fs_unfused s) @ dr_introduced_transforms dr'"
    "list_all2 (\<lambda>(p, _, partials) f. transform_outs f = {p} \<and> snd ` set (pt_inputs (ptn_transform f)) = pcn_id ` set partials)
      (ds_partials ds) (dr_introduced_transforms dr')"
    by (rule single_producer [OF ready])
  moreover have "dr' = dr"
    using ok sp(1) by auto
  ultimately show thesis
    using that runner by simp
qed

lemma fusion_run_producers:
  assumes run: "fusion_run uuid q s dr fp n"
  shows "sorted_wrt (\<lambda>A B. A \<inter> B = {}) (map produced_ids (fp_sdk_stages fp) @ map transform_outs (fp_runner_stages fp))"
proof -
  obtain L ds where sp: "dedup_run uuid (fs_uuids s) q (fs_stages s) (fs_unfused s) L ds"
    "dr_deduplicated_stages dr = ds_stages ds" "dr_deduplicated_transforms dr = ds_transforms ds"
    "fp_runner_stages fp = map (current_transform dr) (fs_unfused s) @ dr_introduced_transforms dr"
    "list_all2 (\<lambda>(p, _, partials) f. transform_outs f = {p} \<and> snd ` set (pt_inputs (ptn_transform f)) = pcn_id ` set partials)
      (ds_partials ds) (dr_introduced_transforms dr)"
    by (rule fusion_run_rewriting [OF run])
  have ready: "dedup_ready q (fs_stages s) (fs_unfused s)"
    and sdk: "map produced_ids (fp_sdk_stages fp) = map (produced_ids \<circ> current_stage dr) (fs_stages s)"
    using run unfolding fusion_run_def by blast+
  have "map (current_outs dr) (all_producers (fs_stages s) (fs_unfused s))
      = map (produced_ids \<circ> current_stage dr) (fs_stages s) @ map (transform_outs \<circ> current_transform dr) (fs_unfused s)"
    by (simp add: all_producers_def current_outs_def)
  then show ?thesis
    using single_producer_outputs [OF ready sp(1,2,3,5)] unfolding sp(4) sdk by simp
qed

text \<open>The transforms some stage of the fused pipeline runs.\<close>

definition executed_ids :: "fused_pipeline \<Rightarrow> string set" where
  "executed_ids fp = ptn_id ` set (fp_runner_stages fp) \<union> (\<Union>s \<in> set (fp_sdk_stages fp). member_ids s)"

lemma fusion_run_executes:
  assumes run: "fusion_run uuid q s dr fp n"
  shows "placed s \<subseteq> executed_ids fp"
proof -
  obtain L ds where sp: "dedup_run uuid (fs_uuids s) q (fs_stages s) (fs_unfused s) L ds"
    "dr_deduplicated_stages dr = ds_stages ds" "dr_deduplicated_transforms dr = ds_transforms ds"
    "fp_runner_stages fp = map (current_transform dr) (fs_unfused s) @ dr_introduced_transforms dr"
    "list_all2 (\<lambda>(p, _, partials) f. transform_outs f = {p} \<and> snd ` set (pt_inputs (ptn_transform f)) = pcn_id ` set partials)
      (ds_partials ds) (dr_introduced_transforms dr)"
    by (rule fusion_run_rewriting [OF run])
  have "map member_ids (fp_sdk_stages fp) = map (member_ids \<circ> current_stage dr) (fs_stages s)"
    using run unfolding fusion_run_def by blast
  then have "map member_ids (fp_sdk_stages fp) = map member_ids (fs_stages s)"
    using current_stage_members [OF sp(1,2)] by simp
  then have m: "member_ids ` set (fp_sdk_stages fp) = member_ids ` set (fs_stages s)"
    by (metis list.set_map)
  have "ptn_id ` current_transform dr ` set (fs_unfused s) = runner_ids s"
    unfolding image_image runner_ids_def by (rule image_cong [OF refl current_transform_id [OF sp(1,3)]])
  then have "runner_ids s \<subseteq> ptn_id ` set (fp_runner_stages fp)"
    unfolding sp(4) set_append set_map image_Un by simp
  then show ?thesis
    unfolding placed_def executed_ids_def m by (rule Un_mono) simp
qed

text \<open>The transforms the runner implements among the roots of the graph.\<close>

definition runner_roots :: "queryable_pipeline \<Rightarrow> string set" where
  "runner_roots q = {ptn_id r | r. r \<in> set (get_root_transforms q) \<and> get_environment q (ptn_transform r) = None}"

lemma fusion_run_complete:
  assumes run: "fusion_run uuid q s dr fp n" and i: "downstream q (runner_roots q) i"
  shows "i \<in> executed_ids fp"
proof -
  have "walk_inv uuid q s" "fs_pending s = []" "runner_roots q \<subseteq> placed s"
    using run unfolding fusion_run_def runner_roots_def placed_def by auto
  then have "i \<in> placed s"
    by (rule downstream_placed [OF i])
  then show ?thesis
    using fusion_run_executes [OF run] by blast
qed

section \<open>Fusion returns\<close>

lemma expand_outputs_returns:
  assumes "\<And>c. get_descendant_consumers fuel q c \<noteq> None"
  shows "expand_outputs fuel dec q cs s \<noteq> None"
  using assms
proof (induction fuel dec q cs s rule: expand_outputs.induct)
  case (2 fuel dec q c cs s)
  then obtain d where "get_descendant_consumers fuel q c = Some d"
    by (meson not_None_eq)
  then show ?case
    using 2 by simp
qed simp

lemma fuse_loop_returns:
  assumes "\<And>c. get_descendant_consumers fuel q c \<noteq> None"
  shows "fuse_loop uuid fuel dec q s \<noteq> None"
  using assms
proof (induction uuid fuel dec q s rule: fuse_loop.induct)
  case (1 uuid fuel dec q s)
  show ?case
  proof (cases "fs_pending s")
    case Nil
    then show ?thesis
      by (simp add: fuse_loop.simps)
  next
    case (Cons candidates rest)
    have "fuse_step uuid fuel dec q candidates (s\<lparr>fs_pending := rest\<rparr>) \<noteq> None"
      using expand_outputs_returns [OF 1(2)] by (auto simp: fuse_step_def Let_def split: rust.splits)
    then obtain r where r: "fuse_step uuid fuel dec q candidates (s\<lparr>fs_pending := rest\<rparr>) = Some r"
      by blast
    show ?thesis
    proof (cases r)
      case (Ok s1)
      then have "fuse_loop uuid fuel dec q s = fuse_loop uuid fuel dec q s1"
        using Cons r by (subst fuse_loop.simps) simp
      then show ?thesis
        using 1(1) [OF Cons r Ok 1(2)] by simp
    qed (use Cons r in \<open>simp_all add: fuse_loop.simps\<close>)
  qed
qed

lemma fuse_pipeline_returns_ranked:
  assumes q: "new_pipeline dec fuel comps = Some q" and "runner_ranked q rank" and "\<forall>p. rank p < fuel"
  shows "fuse_pipeline uuid fuel dec comps \<noteq> None"
proof -
  have ret: "get_descendant_consumers fuel q c \<noteq> None" for c
    using descendants_return [OF assms(2)] assms(3) by blast
  have "get_root_consumers fuel q root \<noteq> None" for root
    unfolding get_root_consumers_def by (rule add_descendants_returns [OF ret])
  then have "visit_root fuel q root d \<noteq> None" for root d
    by (simp add: visit_root_def)
  then have "root_descendants fuel q \<noteq> None"
    unfolding root_descendants_def by (rule fold_bind_Some)
  then obtain d where "root_descendants fuel q = Some d"
    by blast
  then show ?thesis
    using q fuse_loop_returns [OF ret] by (simp add: fuse_pipeline_def greedy_fuse_pipeline_def)
qed

text \<open>Ranks need only be compared at the PCollections of the graph.\<close>

lemma runner_rankedI:
  assumes "\<forall>i \<in> set (hm_keys (qp_pcollection_ids q)). \<forall>t \<in> set (get_per_element_consumers q \<lparr>pcn_id = i, pcn_collection = x\<rparr>).
      get_environment q (ptn_transform t) = None \<longrightarrow> (\<forall>out \<in> set (get_output_pcol q t). rank (pcn_id out) < rank i)"
  shows "runner_ranked q rank"
  unfolding runner_ranked_def
proof (intro allI ballI impI)
  fix c t out
  assume t: "t \<in> set (get_per_element_consumers q c)" and env: "get_environment q (ptn_transform t) = None"
    and out: "out \<in> set (get_output_pcol q t)"
  obtain k where k: "hm_get (qp_pcollection_ids q) (pcn_id c) = Some k"
    using t by (cases "hm_get (qp_pcollection_ids q) (pcn_id c)") (simp_all add: get_per_element_consumers_def consumers_by_def)
  have "get_per_element_consumers q c = get_per_element_consumers q \<lparr>pcn_id = pcn_id c, pcn_collection = x\<rparr>"
    by (simp add: get_per_element_consumers_def consumers_by_def)
  then show "rank (pcn_id out) < rank (pcn_id c)"
    using assms t env out hm_get_keys [OF k] by auto
qed

section \<open>Properties\<close>

text \<open>Two ParDos write, after fusion, one PCollection: \<open>a\<close> and \<open>b\<close> feed a Flatten read by \<open>c\<close>.\<close>

definition unzipped_pipeline :: components where
  "unzipped_pipeline =
     \<lparr>c_transforms = [sample_transform ''i'' IMPULSE_TRANSFORM [] [''p''], sample_transform ''j'' IMPULSE_TRANSFORM [] [''q''],
        sample_transform ''a'' PAR_DO_TRANSFORM [''p''] [''r''], sample_transform ''b'' PAR_DO_TRANSFORM [''q''] [''s''],
        sample_transform ''f'' FLATTEN_TRANSFORM [''r'', ''s''] [''t''], sample_transform ''g'' GROUP_BY_KEY_TRANSFORM [''t''] [''u'']],
      c_pcollections = map sample_collection [''p'', ''q'', ''r'', ''s'', ''t'', ''u''],
      c_windowing_strategies = [], c_coders = [], c_environments = [(''e'', sample_env)]\<rparr>"

definition unzipped_fused :: "fused_pipeline \<times> nat" where
  "unzipped_fused = (case fuse_pipeline show_nat 9 sample_decoder unzipped_pipeline of Some (Ok r) \<Rightarrow> r)"

lemma unzipped_fuses: "fuse_pipeline show_nat 9 sample_decoder unzipped_pipeline = Some (Ok unzipped_fused)"
  "map member_ids (fp_sdk_stages (fst unzipped_fused)) = [{''a'', ''f''}, {''b'', ''f''}]"
  "map ptn_id (fp_runner_stages (fst unzipped_fused)) = [''j'', ''i'', ''g'', ''unzipped_flatten'']"
  by code_simp+

lemma inj_show_nat: "inj show_nat"
  by (rule injI) (metis option.inject parse_show_nat)

text \<open>
  C10: in a fused pipeline no PCollection has two producers. The outputs of the SDK stages
  and of the runner's transforms, the Flattens introduced by the rewriting included, are
  pairwise disjoint, on every pipeline whose transforms write known PCollections and with
  identifiers that do not repeat.
\<close>

theorem fused_pipeline_single_producer:
  assumes "inj uuid" and "outputs_known comps" and "fuse_pipeline uuid fuel dec comps = Some (Ok (fp, n))"
  shows "sorted_wrt (\<lambda>A B. A \<inter> B = {}) (map produced_ids (fp_sdk_stages fp) @ map transform_outs (fp_runner_stages fp))"
proof -
  obtain q s dr where "fusion_run uuid q s dr fp n"
    by (rule fuse_pipeline_run [OF assms])
  then show ?thesis
    by (rule fusion_run_producers)
qed

theorem fused_pipeline_single_producer_witness:
  "sorted_wrt (\<lambda>A B. A \<inter> B = {}) (map produced_ids (fp_sdk_stages (fst unzipped_fused)) @ map transform_outs (fp_runner_stages (fst unzipped_fused)))"
proof -
  have "outputs_known unzipped_pipeline"
    by code_simp
  moreover have "fuse_pipeline show_nat 9 sample_decoder unzipped_pipeline = Some (Ok (fst unzipped_fused, snd unzipped_fused))"
    using unzipped_fuses(1) by simp
  ultimately show ?thesis
    by (rule fused_pipeline_single_producer [OF inj_show_nat])
qed

text \<open>
  C11: fusion loses no transform. Every transform that a runner-implemented root feeds,
  directly or through other transforms' main inputs, is run by an SDK stage or by the
  runner in the fused pipeline.
\<close>

theorem fused_pipeline_complete:
  assumes "inj uuid" and "outputs_known comps" and "fuse_pipeline uuid fuel dec comps = Some (Ok (fp, n))"
    and "new_pipeline dec fuel comps = Some q" and "downstream q (runner_roots q) i"
  shows "i \<in> ptn_id ` set (fp_runner_stages fp) \<union> (\<Union>s \<in> set (fp_sdk_stages fp). member_ids s)"
proof -
  obtain q' s dr where "new_pipeline dec fuel comps = Some q'" and run: "fusion_run uuid q' s dr fp n"
    by (rule fuse_pipeline_run [OF assms(1-3)])
  then have "q' = q"
    using assms(4) by simp
  then show ?thesis
    using fusion_run_complete [OF run] assms(5) unfolding executed_ids_def by simp
qed

definition unzipped_queryable :: queryable_pipeline where
  "unzipped_queryable = the (new_pipeline sample_decoder 9 unzipped_pipeline)"

theorem fused_pipeline_complete_witness:
  "''f'' \<in> ptn_id ` set (fp_runner_stages (fst unzipped_fused)) \<union> (\<Union>s \<in> set (fp_sdk_stages (fst unzipped_fused)). member_ids s)"
proof -
  let ?q = unzipped_queryable and ?t = "\<lambda>i. \<lparr>ptn_id = i, ptn_transform = the (hm_get (c_transforms unzipped_pipeline) i)\<rparr>"
  have known: "outputs_known unzipped_pipeline"
    by code_simp
  have f: "fuse_pipeline show_nat 9 sample_decoder unzipped_pipeline = Some (Ok (fst unzipped_fused, snd unzipped_fused))"
    using unzipped_fuses(1) by simp
  have q: "new_pipeline sample_decoder 9 unzipped_pipeline = Some ?q"
    by code_simp
  have "?t ''i'' \<in> set (get_root_transforms ?q)" "get_environment ?q (ptn_transform (?t ''i'')) = None"
    by code_simp+
  then have "ptn_id (?t ''i'') \<in> runner_roots ?q"
    unfolding runner_roots_def by blast
  then have i: "downstream ?q (runner_roots ?q) (ptn_id (?t ''i''))"
    by (rule downstream.root)
  have "pcol_node ''p'' \<in> set (get_output_pcol ?q (?t ''i''))" "?t ''a'' \<in> set (get_per_element_consumers ?q (pcol_node ''p''))"
    by code_simp+
  then have a: "downstream ?q (runner_roots ?q) (ptn_id (?t ''a''))"
    by (rule downstream.step [OF i])
  have "pcol_node ''r'' \<in> set (get_output_pcol ?q (?t ''a''))" "?t ''f'' \<in> set (get_per_element_consumers ?q (pcol_node ''r''))"
    by code_simp+
  then have "downstream ?q (runner_roots ?q) (ptn_id (?t ''f''))"
    by (rule downstream.step [OF a])
  then have "downstream ?q (runner_roots ?q) ''f''"
    by simp
  then show ?thesis
    by (rule fused_pipeline_complete [OF inj_show_nat known f q])
qed




definition unzipped_walk :: fusion_state where
  "unzipped_walk = (let d = the (root_descendants 9 unzipped_queryable) in
     (case fuse_loop show_nat 9 sample_decoder unzipped_queryable
         \<lparr>fs_pending = group_siblings sample_decoder unzipped_queryable (dc_fusible d), fs_consumed = [], fs_stages = [],
          fs_unfused = ext_by ptn_id [] (dc_unfusible d), fs_uuids = 0\<rparr> of Some (Ok s) \<Rightarrow> s))"


text \<open>
  A root that belongs to an environment (a transform without inputs that a worker should
  run) is neither handed to the runner nor fused: it is missing from the result.
\<close>

definition sdk_root_pipeline :: components where
  "sdk_root_pipeline =
     \<lparr>c_transforms = [sample_transform ''a'' PAR_DO_TRANSFORM [] [''p''], sample_transform ''g'' GROUP_BY_KEY_TRANSFORM [''p''] [''q'']],
      c_pcollections = map sample_collection [''p'', ''q''],
      c_windowing_strategies = [], c_coders = [], c_environments = [(''e'', sample_env)]\<rparr>"

lemma sdk_root_is_dropped:
  "(case fuse_pipeline show_nat 9 sample_decoder sdk_root_pipeline of
      Some (Ok (fp, _)) \<Rightarrow> map ptn_id (fp_runner_stages fp) = [''g''] \<and> fp_sdk_stages fp = [] | _ \<Rightarrow> False)"
  by code_simp

end
