(* ===== verification/Records.thy ===== *)
theory Records
  imports Windows
begin

text \<open>
  The element model of \<open>store/record.rs\<close> (\<open>PrimitiveValue\<close>, \<open>BeamRecord\<close>) and the
  \<open>WindowedValue\<close> of \<open>coders/primitives.rs\<close>. A float is its 64-bit pattern: the crate
  compares and hashes \<open>f64\<close> by \<open>to_bits\<close>, which HOL equality on the pattern is.
\<close>

datatype primitive_value =
    PString string
  | PBytes bytes
  | PInt64 int
  | PFloat64 "64 word"
  | PBool bool
  | PVoid

datatype beam_record =
    PRIMITIVE primitive_value
  | ITERABLE "beam_record list"
  | KV primitive_value beam_record
  | GBK primitive_value "beam_record list"
  | TUPLE "primitive_value list"

text \<open>The values the Rust types admit: valid strings and \<open>i64\<close> integers.\<close>

fun prim_ok :: "primitive_value \<Rightarrow> bool" where
  "prim_ok (PString s) = rust_string s"
| "prim_ok (PInt64 i) = in_i64 i"
| "prim_ok _ = True"

record windowed_value =
  wv_value :: beam_record
  wv_timestamp_millis :: int
  wv_windows :: "beam_window list"
  wv_pane :: pane_info_rec

definition windowed_global :: "beam_record \<Rightarrow> windowed_value" where
  "windowed_global v =
     \<lparr>wv_value = v, wv_timestamp_millis = BEAM_MIN_TIMESTAMP_MILLIS, wv_windows = [Global], wv_pane = no_firing\<rparr>"

end
