(* ===== verification/Coders.thy ===== *)
theory Coders
  imports Records
begin

unbundle bit_operations_syntax

text \<open>
  The element coders of \<open>coders/mod.rs\<close> and \<open>coders/primitives.rs\<close>: \<open>StandardBeamCoders\<close>
  with its recursive encoder and decoder, the coders of windowed values and timers, the
  resolution of a coder id in a pipeline and the rewriting that length-prefixes opaque
  Python leaves. An encoder returns the bytes it appends to the buffer, or \<open>Panic\<close>
  where the code panics on a record that does not match the coder.
\<close>

section \<open>Leaf coders\<close>

definition string_utf8_encode :: "string \<Rightarrow> bytes" where
  "string_utf8_encode s = encode_varint (of_nat (length (as_bytes s))) @ as_bytes s"

definition string_utf8_decode :: "string reader" where
  "string_utf8_decode buf =
     rbind (decode_length_delimited ''StringUtf8Coder'' buf) (\<lambda>(bs, rest).
       case from_utf8 bs of
         Some s \<Rightarrow> Ok (s, rest)
       | None \<Rightarrow> Err (WhileDecoding ''StringUtf8Coder: invalid UTF-8''))"

text \<open>\<open>JavaOpaqueCoder\<close> has no framing: it writes the bytes as they are and reads all that is left.\<close>

definition java_opaque_encode :: "bytes \<Rightarrow> bytes" where "java_opaque_encode bs = bs"
definition java_opaque_decode :: "bytes reader" where "java_opaque_decode buf = Ok (buf, [])"

text \<open>\<open>val as i32 as u32 as u64\<close> keeps the low 32 bits; \<open>raw as u32 as i32 as i64\<close> reads them signed.\<close>

definition varint32_encode :: "int \<Rightarrow> bytes" where
  "varint32_encode v = encode_varint (ucast (word_of_int v :: 32 word))"

definition varint32_decode :: "int reader" where
  "varint32_decode buf =
     rbind (decode_varint buf) (\<lambda>(raw, rest).
       if raw \<ge> 2 ^ 32 then Err (WhileDecoding ''VarInt32Coder: varint value out of 32-bit range'')
       else Ok (sint (ucast raw :: 32 word), rest))"

definition bool_encode :: "bool \<Rightarrow> bytes" where "bool_encode b = [if b then 1 else 0]"

definition bool_decode :: "bool reader" where
  "bool_decode buf = rbind (get_u8 buf) (\<lambda>(b, rest). Ok (b \<noteq> 0, rest))"

definition double_encode :: "64 word \<Rightarrow> bytes" where "double_encode x = u64_be x"

definition double_decode :: "64 word reader" where
  "double_decode buf =
     (if length buf < 8 then Err (WhileDecoding ''DoubleCoder: insufficient bytes'') else get_u64 buf)"

definition void_encode :: bytes where "void_encode = []"

definition i32_range :: "int \<Rightarrow> bool" where "i32_range i \<longleftrightarrow> - (2 ^ 31) \<le> i \<and> i < 2 ^ 31"

lemma string_utf8_roundtrip:
  "rust_string s \<and> fits_u64 (length s) \<Longrightarrow> string_utf8_decode (string_utf8_encode s @ rest) = Ok (s, rest)"
  using length_delimited_roundtrip [of "as_bytes s" "''StringUtf8Coder''" rest]
  by (simp add: string_utf8_decode_def string_utf8_encode_def encode_length_delimited_def from_utf8_as_bytes del: rbind_eq_Ok)

lemma sint_word_of_int_i32: "i32_range v \<Longrightarrow> sint (word_of_int v :: 32 word) = v"
  by (simp add: i32_range_def sint_sbintrunc' signed_take_bit_int_eq_self)

lemma ucast_32_64_less: "\<not> 2 ^ 32 \<le> (ucast (w :: 32 word) :: 64 word)"
proof -
  have "unat w < 2 ^ 32"
    using unsigned_less [of w, where 'a = nat] by simp
  moreover have "unat (ucast w :: 64 word) = take_bit 64 (unat w)"
    by (simp add: unsigned_ucast_eq)
  ultimately have "unat (ucast w :: 64 word) < 2 ^ 32"
    by (simp add: take_bit_nat_eq_self)
  moreover have "unat (2 ^ 32 :: 64 word) = 2 ^ 32"
    by simp
  ultimately show ?thesis
    by (simp add: word_le_nat_alt)
qed

lemma ucast_64_32: "ucast (ucast (w :: 32 word) :: 64 word) = w"
  by (rule bit_word_eqI) (simp add: bit_simps)

lemma varint32_roundtrip:
  "i32_range v \<Longrightarrow> varint32_decode (varint32_encode v @ rest) = Ok (v, rest)"
  using ucast_32_64_less [of "word_of_int v"]
  by (simp add: varint32_decode_def varint32_encode_def varint_roundtrip ucast_64_32 sint_word_of_int_i32 del: rbind_eq_Ok)

lemma bool_roundtrip: "bool_decode (bool_encode b @ rest) = Ok (b, rest)"
  by (simp add: bool_decode_def bool_encode_def)

lemma double_roundtrip: "double_decode (double_encode x @ rest) = Ok (x, rest)"
  by (simp add: double_decode_def double_encode_def u64_be_roundtrip)

interpretation string_utf8: wire_codec string_utf8_encode string_utf8_decode "\<lambda>s. rust_string s \<and> fits_u64 (length s)"
  by unfold_locales (rule string_utf8_roundtrip)

interpretation varint32: wire_codec varint32_encode varint32_decode i32_range
  by unfold_locales (rule varint32_roundtrip)

interpretation bool_coder: wire_codec bool_encode bool_decode "\<lambda>_. True"
  by unfold_locales (rule bool_roundtrip)

interpretation double_coder: wire_codec double_encode double_decode "\<lambda>_. True"
  by unfold_locales (rule double_roundtrip)

section \<open>Standard coders\<close>

datatype standard_coder =
    StringUtf8
  | BytesC
  | JavaOpaque
  | VarInt
  | VarInt32
  | BoolC
  | DoubleC
  | VoidC
  | Iterable standard_coder
  | Nullable standard_coder
  | LengthPrefix
  | Pickle
  | Tuple "standard_coder list"
  | Kv standard_coder standard_coder
  | Gbk standard_coder standard_coder

definition is_void :: "standard_coder \<Rightarrow> bool" where "is_void c \<longleftrightarrow> c = VoidC"

fun is_structured :: "standard_coder \<Rightarrow> bool" where
  "is_structured (Nullable c) = is_structured c"
| "is_structured (Iterable _) = True"
| "is_structured (Tuple _) = True"
| "is_structured (Kv _ _) = True"
| "is_structured (Gbk _ _) = True"
| "is_structured _ = False"

fun is_primitive :: "standard_coder \<Rightarrow> bool" where
  "is_primitive (Nullable c) = is_primitive c"
| "is_primitive (Iterable _) = False"
| "is_primitive (Tuple _) = False"
| "is_primitive (Kv _ _) = False"
| "is_primitive (Gbk _ _) = False"
| "is_primitive _ = True"

fun key_coder :: "standard_coder \<Rightarrow> standard_coder" where
  "key_coder (Kv k _) = k"
| "key_coder (Gbk k _) = k"
| "key_coder c = c"

fun get_primitive :: "beam_record \<Rightarrow> (coders_error, primitive_value) rust" where
  "get_primitive (PRIMITIVE v) = Ok v"
| "get_primitive _ = Err (WhileDecoding ''excluded other types'')"

definition NULLABLE_ENCODE_NULL :: byte where "NULLABLE_ENCODE_NULL = 0"
definition NULLABLE_ENCODE_PRESENT :: byte where "NULLABLE_ENCODE_PRESENT = 1"

text \<open>\<open>a; b\<close> for two encoders writing to one buffer.\<close>

definition eseq :: "(coders_error, bytes) rust \<Rightarrow> (coders_error, bytes) rust \<Rightarrow> (coders_error, bytes) rust" where
  "eseq a b = rbind a (\<lambda>x. rbind b (\<lambda>y. Ok (x @ y)))"

lemma eseq_Ok [simp]: "eseq (Ok x) (Ok y) = Ok (x @ y)"
  by (simp add: eseq_def)

lemma eseq_eq_Ok [simp]: "eseq a b = Ok z \<longleftrightarrow> (\<exists>x y. a = Ok x \<and> b = Ok y \<and> z = x @ y)"
  by (auto simp: eseq_def)

lemma eseq_cong [fundef_cong]: "a = a' \<Longrightarrow> b = b' \<Longrightarrow> eseq a b = eseq a' b'"
  by simp

section \<open>Encoding\<close>

text \<open>
  \<open>StandardBeamCoders::encode\<close> with \<open>encode_primitive\<close> and \<open>encode_key\<close>, and the encoders
  of the composite coders it calls (\<open>IterableCoder\<close>, whose length must fit an \<open>i32\<close>,
  \<open>TupleCoder\<close>, \<open>NullableCoder\<close>). The branches are tried in the order of the source.
\<close>

function encode :: "standard_coder \<Rightarrow> beam_record \<Rightarrow> (coders_error, bytes) rust"
  and encode_primitive :: "standard_coder \<Rightarrow> primitive_value \<Rightarrow> (coders_error, bytes) rust"
  and encode_key :: "standard_coder \<Rightarrow> primitive_value \<Rightarrow> (coders_error, bytes) rust"
  and iterable_encode :: "standard_coder \<Rightarrow> beam_record list \<Rightarrow> (coders_error, bytes) rust"
  and encode_elements :: "standard_coder \<Rightarrow> beam_record list \<Rightarrow> (coders_error, bytes) rust"
  and tuple_encode :: "standard_coder list \<Rightarrow> primitive_value list \<Rightarrow> (coders_error, bytes) rust"
  and encode_components :: "standard_coder list \<Rightarrow> primitive_value list \<Rightarrow> (coders_error, bytes) rust"
  and nullable_encode :: "standard_coder \<Rightarrow> beam_record \<Rightarrow> (coders_error, bytes) rust"
where
  "encode c r =
     (case (c, r) of
        (Iterable e, ITERABLE vs) \<Rightarrow> iterable_encode e vs
      | (Tuple cs, TUPLE vs) \<Rightarrow> tuple_encode cs vs
      | (Nullable v, _) \<Rightarrow> nullable_encode v r
      | (Kv k v, KV key x) \<Rightarrow> eseq (encode_key k key) (encode v x)
      | (Kv k v, GBK key vs) \<Rightarrow>
          (case v of Iterable e \<Rightarrow> eseq (encode_key k key) (iterable_encode e vs) | _ \<Rightarrow> Panic)
      | (Gbk k e, GBK key vs) \<Rightarrow> eseq (encode_key k key) (iterable_encode e vs)
      | (_, PRIMITIVE v) \<Rightarrow> encode_primitive c v
      | _ \<Rightarrow> Panic)"
| "encode_primitive c v =
     (case (c, v) of
        (Nullable i, _) \<Rightarrow> nullable_encode i (PRIMITIVE v)
      | (StringUtf8, PString s) \<Rightarrow> Ok (string_utf8_encode s)
      | (BytesC, PBytes bs) \<Rightarrow> Ok (encode_length_delimited bs)
      | (JavaOpaque, PBytes bs) \<Rightarrow> Ok (java_opaque_encode bs)
      | (VarInt, PInt64 i) \<Rightarrow> Ok (encode_signed_varint i)
      | (VarInt32, PInt64 i) \<Rightarrow> Ok (varint32_encode i)
      | (BoolC, PBool b) \<Rightarrow> Ok (bool_encode b)
      | (DoubleC, PFloat64 x) \<Rightarrow> Ok (double_encode x)
      | (VoidC, PVoid) \<Rightarrow> Ok void_encode
      | (Pickle, PBytes bs) \<Rightarrow> Ok (encode_length_delimited bs)
      | (LengthPrefix, PBytes bs) \<Rightarrow> Ok (encode_length_delimited bs)
      | _ \<Rightarrow> Panic)"
| "encode_key c key =
     (if is_primitive c then encode_primitive c key
      else (case key of PBytes raw \<Rightarrow> Ok raw | _ \<Rightarrow> Panic))"
| "iterable_encode e vs =
     (if length vs < 2 ^ 31 then eseq (Ok (u32_be (of_nat (length vs)))) (encode_elements e vs) else Panic)"
| "encode_elements e [] = Ok []"
| "encode_elements e (v # vs) = eseq (encode e v) (encode_elements e vs)"
| "tuple_encode cs vs = (if length vs = length cs then encode_components cs vs else Panic)"
| "encode_components [] vs = Ok []"
| "encode_components (c # cs) [] = Ok []"
| "encode_components (c # cs) (v # vs) = eseq (encode c (PRIMITIVE v)) (encode_components cs vs)"
| "nullable_encode c r =
     (if r = PRIMITIVE PVoid then Ok [NULLABLE_ENCODE_NULL]
      else eseq (Ok [NULLABLE_ENCODE_PRESENT]) (encode c r))"
  by pat_completeness auto
termination
  by size_change

declare encode.simps [simp del] encode_primitive.simps [simp del] encode_key.simps [simp del]
  iterable_encode.simps [simp del] tuple_encode.simps [simp del] nullable_encode.simps [simp del]

section \<open>Decoding\<close>

text \<open>
  \<open>IterableCoder::decode\<close>: a non-negative count, or \<open>-1\<close> for the chunked form; any other
  count fails the assertion.
\<close>

definition iterable_decode_with :: "'a reader \<Rightarrow> 'a list reader" where
  "iterable_decode_with rd buf =
     rbind (get_u32 buf) (\<lambda>(n, rest).
       if sint n \<ge> 0 then get_many rd (nat (sint n)) rest
       else if sint n = - 1 then get_chunks rd (Suc (length rest)) rest
       else Panic)"

text \<open>\<open>coder.decode(buf)?\<close> with the value wrapped by a constructor.\<close>

definition rmap :: "('a \<Rightarrow> 'b) \<Rightarrow> (coders_error, 'a \<times> bytes) rust \<Rightarrow> (coders_error, 'b \<times> bytes) rust" where
  "rmap f m = rbind m (\<lambda>(x, rest). Ok (f x, rest))"

lemma rmap_Ok [simp]: "rmap f (Ok (x, rest)) = Ok (f x, rest)"
  by (simp add: rmap_def)

lemma rmap_eq_Ok [simp]: "rmap f m = Ok z \<longleftrightarrow> (\<exists>x rest. m = Ok (x, rest) \<and> z = (f x, rest))"
  by (auto simp: rmap_def)

function decode_nested :: "standard_coder \<Rightarrow> beam_record reader"
  and decode_key :: "standard_coder \<Rightarrow> primitive_value reader"
  and decode_primitive :: "standard_coder \<Rightarrow> primitive_value reader"
  and iterable_decode :: "standard_coder \<Rightarrow> beam_record list reader"
  and tuple_decode :: "standard_coder list \<Rightarrow> primitive_value list reader"
  and nullable_decode :: "standard_coder \<Rightarrow> beam_record reader"
where
  "decode_nested StringUtf8 buf = rmap (\<lambda>s. PRIMITIVE (PString s)) (string_utf8_decode buf)"
| "decode_nested BytesC buf = rmap (\<lambda>b. PRIMITIVE (PBytes b)) (decode_length_delimited ''BytesCoder'' buf)"
| "decode_nested JavaOpaque buf = rmap (\<lambda>b. PRIMITIVE (PBytes b)) (java_opaque_decode buf)"
| "decode_nested VarInt buf = rmap (\<lambda>i. PRIMITIVE (PInt64 i)) (decode_signed_varint buf)"
| "decode_nested VarInt32 buf = rmap (\<lambda>i. PRIMITIVE (PInt64 i)) (varint32_decode buf)"
| "decode_nested BoolC buf = rmap (\<lambda>b. PRIMITIVE (PBool b)) (bool_decode buf)"
| "decode_nested DoubleC buf = rmap (\<lambda>x. PRIMITIVE (PFloat64 x)) (double_decode buf)"
| "decode_nested VoidC buf = Ok (PRIMITIVE PVoid, buf)"
| "decode_nested (Iterable e) buf = rmap ITERABLE (iterable_decode e buf)"
| "decode_nested Pickle buf = rmap (\<lambda>b. PRIMITIVE (PBytes b)) (decode_length_delimited ''PickleCoder'' buf)"
| "decode_nested LengthPrefix buf =
     rmap (\<lambda>b. PRIMITIVE (PBytes b)) (decode_length_delimited ''LengthPrefixCoder'' buf)"
| "decode_nested (Tuple cs) buf = rmap TUPLE (tuple_decode cs buf)"
| "decode_nested (Nullable c) buf = nullable_decode c buf"
| "decode_nested (Kv k v) buf =
     rbind (decode_key k buf) (\<lambda>(key, rest). rmap (KV key) (decode_nested v rest))"
| "decode_nested (Gbk k e) buf =
     rbind (decode_key k buf) (\<lambda>(key, rest). rmap (GBK key) (iterable_decode e rest))"
| "decode_key c buf =
     (if is_primitive c then decode_primitive c buf
      else rbind (decode_nested c buf) (\<lambda>(r, rest). rbind (encode c r) (\<lambda>raw. Ok (PBytes raw, rest))))"
| "decode_primitive c buf =
     rbind (decode_nested c buf) (\<lambda>(r, rest). rbind (get_primitive r) (\<lambda>v. Ok (v, rest)))"
| "iterable_decode e buf = iterable_decode_with (decode_nested e) buf"
| "tuple_decode [] buf = Ok ([], buf)"
| "tuple_decode (c # cs) buf =
     rbind (decode_primitive c buf) (\<lambda>(v, rest). rmap ((#) v) (tuple_decode cs rest))"
| "nullable_decode c buf =
     rbind (get_u8 buf) (\<lambda>(b, rest).
       if b = NULLABLE_ENCODE_NULL then Ok (PRIMITIVE PVoid, rest)
       else if b = NULLABLE_ENCODE_PRESENT then decode_nested c rest
       else Err (WhileDecoding ''NullableCoder: unexpected null indicator byte''))"
  by pat_completeness auto
termination
  by size_change

declare decode_key.simps [simp del] decode_primitive.simps [simp del] iterable_decode.simps [simp del]
  nullable_decode.simps [simp del]

text \<open>The public \<open>decode\<close>, and \<open>decode_element\<close> for the non-nested context.\<close>

definition decode :: "standard_coder \<Rightarrow> beam_record reader" where
  "decode c buf = decode_nested c buf"

fun decode_element :: "standard_coder \<Rightarrow> beam_record reader" where
  "decode_element StringUtf8 buf =
     (case from_utf8 buf of
        Some s \<Rightarrow> Ok (PRIMITIVE (PString s), [])
      | None \<Rightarrow> Err (WhileDecoding ''invalid utf8 element''))"
| "decode_element BytesC buf = Ok (PRIMITIVE (PBytes buf), [])"
| "decode_element (Kv k v) buf =
     rbind (decode_key k buf) (\<lambda>(key, rest). rmap (KV key) (decode_element v rest))"
| "decode_element (Gbk k e) buf =
     rbind (decode_key k buf) (\<lambda>(key, rest). rmap (GBK key) (iterable_decode e rest))"
| "decode_element c buf = decode_nested c buf"

section \<open>Round trip\<close>

text \<open>
  The records a coder carries faithfully. \<open>JavaOpaque\<close> is left out: it has no framing, so
  nothing can follow it in a buffer. A composite key is kept as its own nested encoding.
\<close>

function fits :: "standard_coder \<Rightarrow> beam_record \<Rightarrow> bool"
  and fits_key :: "standard_coder \<Rightarrow> primitive_value \<Rightarrow> bool"
  and fits_components :: "standard_coder list \<Rightarrow> primitive_value list \<Rightarrow> bool"
where
  "fits c r =
     (case (c, r) of
        (StringUtf8, PRIMITIVE (PString s)) \<Rightarrow> rust_string s \<and> fits_u64 (length s)
      | (BytesC, PRIMITIVE (PBytes b)) \<Rightarrow> fits_u64 (length b)
      | (VarInt, PRIMITIVE (PInt64 i)) \<Rightarrow> in_i64 i
      | (VarInt32, PRIMITIVE (PInt64 i)) \<Rightarrow> i32_range i
      | (BoolC, PRIMITIVE (PBool _)) \<Rightarrow> True
      | (DoubleC, PRIMITIVE (PFloat64 _)) \<Rightarrow> True
      | (VoidC, PRIMITIVE PVoid) \<Rightarrow> True
      | (Pickle, PRIMITIVE (PBytes b)) \<Rightarrow> fits_u64 (length b)
      | (LengthPrefix, PRIMITIVE (PBytes b)) \<Rightarrow> fits_u64 (length b)
      | (Iterable e, ITERABLE vs) \<Rightarrow> length vs < 2 ^ 31 \<and> list_all (fits e) vs
      | (Tuple cs, TUPLE vs) \<Rightarrow> fits_components cs vs
      | (Nullable v, _) \<Rightarrow> r = PRIMITIVE PVoid \<or> fits v r
      | (Kv k v, KV key x) \<Rightarrow> fits_key k key \<and> fits v x
      | (Gbk k e, GBK key vs) \<Rightarrow> fits_key k key \<and> length vs < 2 ^ 31 \<and> list_all (fits e) vs
      | _ \<Rightarrow> False)"
| "fits_key k key =
     (if is_primitive k then fits k (PRIMITIVE key)
      else (case key of
              PBytes raw \<Rightarrow>
                (case decode_nested k raw of
                   Ok (r, []) \<Rightarrow> fits k r \<and> encode k r = Ok raw
                 | _ \<Rightarrow> False)
            | _ \<Rightarrow> False))"
| "fits_components [] vs = (vs = [])"
| "fits_components (c # cs) [] = False"
| "fits_components (c # cs) (v # vs) = (fits c (PRIMITIVE v) \<and> fits_components cs vs)"
  by pat_completeness auto
termination
  by size_change

declare fits.simps [simp del] fits_key.simps [simp del]

lemma encode_composite:
  "encode (Kv k v) (KV key x) = eseq (encode_key k key) (encode v x)"
  "encode (Gbk k e) (GBK key vs) = eseq (encode_key k key) (iterable_encode e vs)"
  "encode (Kv k (Iterable e)) (GBK key vs) = eseq (encode_key k key) (iterable_encode e vs)"
  "encode (Iterable e) (ITERABLE vs) = iterable_encode e vs"
  "encode (Nullable v) r = nullable_encode v r"
  "encode (Tuple cs) (TUPLE ps) = tuple_encode cs ps"
  by (subst encode.simps, simp)+

text \<open>What the round trip says of one record and of one key.\<close>

definition codes :: "standard_coder \<Rightarrow> beam_record \<Rightarrow> bool" where
  "codes c r \<longleftrightarrow> (\<exists>bs. encode c r = Ok bs \<and> (\<forall>rest. decode_nested c (bs @ rest) = Ok (r, rest)))"

definition codes_key :: "standard_coder \<Rightarrow> primitive_value \<Rightarrow> bool" where
  "codes_key k key \<longleftrightarrow> (\<exists>bs. encode_key k key = Ok bs \<and> (\<forall>rest. decode_key k (bs @ rest) = Ok (key, rest)))"

lemma encode_primitive_eq: "is_primitive c \<Longrightarrow> encode_primitive c v = encode c (PRIMITIVE v)"
  by (cases c) (simp_all add: encode.simps encode_primitive.simps)

lemma fits_key_codes:
  assumes IH: "\<And>r. fits k r \<Longrightarrow> codes k r" and key: "fits_key k key"
  shows "codes_key k key"
proof (cases "is_primitive k")
  case True
  with key IH [of "PRIMITIVE key"] show ?thesis
    by (simp add: fits_key.simps codes_key_def codes_def encode_key.simps encode_primitive_eq decode_key.simps
        decode_primitive.simps del: rbind_eq_Ok)
      (metis get_primitive.simps(1) rbind.simps(1) case_prod_conv)
next
  case False
  then obtain raw r where raw: "key = PBytes raw" "decode_nested k raw = Ok (r, [])" "fits k r" "encode k r = Ok raw"
    using key by (auto simp: fits_key.simps split: primitive_value.splits rust.splits list.splits)
  then have "decode_nested k (raw @ rest) = Ok (r, rest)" for rest
    using IH [of r] by (auto simp: codes_def)
  with False raw show ?thesis
    by (simp add: codes_key_def encode_key.simps decode_key.simps del: rbind_eq_Ok)
qed

lemma elements_code:
  assumes "\<And>v. v \<in> set vs \<Longrightarrow> codes e v"
  shows "\<exists>bs. encode_elements e vs = Ok bs
    \<and> (\<forall>rest. get_many (decode_nested e) (length vs) (bs @ rest) = Ok (vs, rest))"
  using assms
proof (induction vs)
  case (Cons v vs)
  obtain b where b: "encode e v = Ok b" "\<And>rest. decode_nested e (b @ rest) = Ok (v, rest)"
    using Cons.prems [of v] by (auto simp: codes_def)
  obtain bs where bs: "encode_elements e vs = Ok bs"
    "\<And>rest. get_many (decode_nested e) (length vs) (bs @ rest) = Ok (vs, rest)"
    using Cons by auto
  show ?case
    using b bs by (intro exI [of _ "b @ bs"]) (simp del: rbind_eq_Ok)
qed simp

lemma iterable_codes:
  assumes "\<And>v. fits e v \<Longrightarrow> codes e v" and "length vs < 2 ^ 31" and "list_all (fits e) vs"
  shows "\<exists>bs. iterable_encode e vs = Ok bs \<and> (\<forall>rest. iterable_decode e (bs @ rest) = Ok (vs, rest))"
proof -
  obtain bs where bs: "encode_elements e vs = Ok bs"
    "\<And>rest. get_many (decode_nested e) (length vs) (bs @ rest) = Ok (vs, rest)"
    using elements_code [of vs e] assms(1,3) by (auto simp: list_all_iff)
  show ?thesis
    using assms(2) bs
    by (intro exI [of _ "u32_be (of_nat (length vs)) @ bs"])
      (simp add: iterable_encode.simps iterable_decode.simps iterable_decode_with_def u32_be_roundtrip
        sint_of_nat_i32 del: rbind_eq_Ok)
qed

lemma components_code:
  assumes "\<And>c r. c \<in> set cs \<Longrightarrow> fits c r \<Longrightarrow> codes c r" and "fits_components cs vs"
  shows "length vs = length cs \<and> (\<exists>bs. encode_components cs vs = Ok bs
    \<and> (\<forall>rest. tuple_decode cs (bs @ rest) = Ok (vs, rest)))"
  using assms
proof (induction cs arbitrary: vs)
  case (Cons c cs)
  obtain v vs' where vs: "vs = v # vs'" "fits c (PRIMITIVE v)" "fits_components cs vs'"
    using Cons.prems(2) by (cases vs) auto
  obtain b where b: "encode c (PRIMITIVE v) = Ok b" "\<And>rest. decode_nested c (b @ rest) = Ok (PRIMITIVE v, rest)"
    using Cons.prems(1) [of c] vs(2) by (auto simp: codes_def)
  obtain bs where bs: "length vs' = length cs" "encode_components cs vs' = Ok bs"
    "\<And>rest. tuple_decode cs (bs @ rest) = Ok (vs', rest)"
    using Cons.IH [OF _ vs(3)] Cons.prems(1) by auto
  show ?case
    using b bs vs(1)
    by (auto intro!: exI [of _ "b @ bs"] simp: decode_primitive.simps simp del: rbind_eq_Ok)
qed simp

lemma fits_codes: "fits c r \<Longrightarrow> codes c r"
proof (induction c arbitrary: r)
  case (Iterable e)
  then obtain vs where vs: "r = ITERABLE vs" "length vs < 2 ^ 31" "list_all (fits e) vs"
    by (cases r) (simp_all add: fits.simps)
  show ?case
    using iterable_codes [OF Iterable.IH vs(2,3)]
    by (auto simp: vs(1) codes_def encode_composite simp del: rbind_eq_Ok)
next
  case (Nullable c)
  show ?case
  proof (cases "r = PRIMITIVE PVoid")
    case True
    then show ?thesis
      by (simp add: codes_def encode_composite nullable_encode.simps nullable_decode.simps NULLABLE_ENCODE_NULL_def)
  next
    case False
    then obtain bs where "encode c r = Ok bs" "\<And>rest. decode_nested c (bs @ rest) = Ok (r, rest)"
      using Nullable by (auto simp: fits.simps codes_def)
    with False show ?thesis
      by (simp add: codes_def encode_composite nullable_encode.simps nullable_decode.simps NULLABLE_ENCODE_NULL_def
          NULLABLE_ENCODE_PRESENT_def)
  qed
next
  case (Tuple cs)
  then obtain vs where vs: "r = TUPLE vs" "fits_components cs vs"
    by (cases r) (simp_all add: fits.simps)
  show ?case
    using components_code [OF Tuple.IH vs(2)]
    by (auto simp: vs(1) codes_def encode_composite tuple_encode.simps)
next
  case (Kv k v)
  then obtain key x where x: "r = KV key x" "fits_key k key" "fits v x"
    by (cases r) (simp_all add: fits.simps)
  obtain b bs where "encode_key k key = Ok b" "\<And>rest. decode_key k (b @ rest) = Ok (key, rest)"
    "encode v x = Ok bs" "\<And>rest. decode_nested v (bs @ rest) = Ok (x, rest)"
    using fits_key_codes [OF Kv.IH(1) x(2)] Kv.IH(2) [OF x(3)] by (auto simp: codes_def codes_key_def)
  then show ?case
    by (auto simp: x(1) codes_def encode_composite)
next
  case (Gbk k e)
  then obtain key vs where x: "r = GBK key vs" "fits_key k key" "length vs < 2 ^ 31" "list_all (fits e) vs"
    by (cases r) (simp_all add: fits.simps)
  obtain b bs where "encode_key k key = Ok b" "\<And>rest. decode_key k (b @ rest) = Ok (key, rest)"
    "iterable_encode e vs = Ok bs" "\<And>rest. iterable_decode e (bs @ rest) = Ok (vs, rest)"
    using fits_key_codes [OF Gbk.IH(1) x(2)] iterable_codes [OF Gbk.IH(2) x(3,4)] by (auto simp: codes_key_def)
  then show ?case
    by (auto simp: x(1) codes_def encode_composite)
qed (auto simp: fits.simps codes_def encode.simps encode_primitive.simps string_utf8_roundtrip
    length_delimited_roundtrip signed_varint_roundtrip varint32_roundtrip bool_roundtrip double_roundtrip void_encode_def
    split: beam_record.splits primitive_value.splits)

text \<open>
  The bytes of a record, and the contract of a coder for them: every standard coder is a
  \<open>wire_codec\<close> on the records that fit it, so encodings are injective and sequences parse
  back uniquely.
\<close>

definition encode_bytes :: "standard_coder \<Rightarrow> beam_record \<Rightarrow> bytes" where
  "encode_bytes c r = unwrap_or (encode c r) []"

interpretation element: wire_codec "encode_bytes c" "decode_nested c" "fits c" for c
  using fits_codes by unfold_locales (fastforce simp: codes_def encode_bytes_def)

lemma fits_encode: "fits c r \<Longrightarrow> encode c r = Ok (encode_bytes c r)"
  using fits_codes by (fastforce simp: codes_def encode_bytes_def)

section \<open>Windowed values\<close>

record windowed_value_coder =
  element_coder :: standard_coder
  window_coder_of :: window_coder

definition with_window_coder :: "standard_coder \<Rightarrow> window_coder \<Rightarrow> windowed_value_coder" where
  "with_window_coder c w = \<lparr>element_coder = c, window_coder_of = w\<rparr>"

definition new_windowed_coder :: "standard_coder \<Rightarrow> windowed_value_coder" where
  "new_windowed_coder c = with_window_coder c WindowCoderGlobal"

definition windowed_encode :: "windowed_value_coder \<Rightarrow> windowed_value \<Rightarrow> (coders_error, bytes) rust" where
  "windowed_encode coder val =
     eseq (encode_windowed_value_header (wv_timestamp_millis val) (wv_windows val) (window_coder_of coder) (wv_pane val))
       (encode (element_coder coder) (wv_value val))"

definition encode_value :: "windowed_value_coder \<Rightarrow> beam_record \<Rightarrow> (coders_error, bytes) rust" where
  "encode_value coder r = windowed_encode coder (windowed_global r)"

definition windowed_decode :: "windowed_value_coder \<Rightarrow> windowed_value reader" where
  "windowed_decode coder buf =
     rbind (decode_windowed_value_header (window_coder_of coder) buf) (\<lambda>((t, ws, pane), rest).
       rmap (\<lambda>v. \<lparr>wv_value = v, wv_timestamp_millis = t, wv_windows = ws, wv_pane = pane\<rparr>)
         (decode_nested (element_coder coder) rest))"

definition windowed_fits :: "windowed_value_coder \<Rightarrow> windowed_value \<Rightarrow> bool" where
  "windowed_fits coder val \<longleftrightarrow>
     in_i64 (wv_timestamp_millis val) \<and> list_all (window_fits (window_coder_of coder)) (wv_windows val)
     \<and> length (wv_windows val) < 2 ^ 31 \<and> pane_ok (wv_pane val) \<and> fits (element_coder coder) (wv_value val)"

lemma windows_encode_ok: "list_all (window_fits coder) ws \<Longrightarrow> \<exists>bs. encode_windows coder ws = Ok bs"
  by (simp add: encode_windows_def encode_all_windows_fits)

lemma windowed_encode_fits:
  assumes "windowed_fits coder val"
  shows "\<exists>bs. windowed_encode coder val = Ok bs \<and> (\<forall>rest. windowed_decode coder (bs @ rest) = Ok (val, rest))"
proof -
  let ?h = "encode_windowed_value_header (wv_timestamp_millis val) (wv_windows val) (window_coder_of coder) (wv_pane val)"
  note val = assms [unfolded windowed_fits_def]
  obtain h where h: "?h = Ok h"
    using windows_encode_ok [of "window_coder_of coder" "wv_windows val"] val
    by (auto simp: encode_windowed_value_header_def)
  have dec: "decode_windowed_value_header (window_coder_of coder) (h @ rest)
    = Ok ((wv_timestamp_millis val, wv_windows val, wv_pane val), rest)" for rest
    using header_roundtrip [OF h] val by blast
  have "fits (element_coder coder) (wv_value val)"
    using val by blast
  then show ?thesis
    by (auto simp: windowed_encode_def h fits_encode windowed_decode_def dec element.roundtrip)
qed

definition windowed_bytes :: "windowed_value_coder \<Rightarrow> windowed_value \<Rightarrow> bytes" where
  "windowed_bytes coder val = unwrap_or (windowed_encode coder val) []"

interpretation windowed: wire_codec "windowed_bytes coder" "windowed_decode coder" "windowed_fits coder" for coder
  using windowed_encode_fits by unfold_locales (fastforce simp: windowed_bytes_def)

section \<open>Timers\<close>

record timer =
  user_key :: bytes
  tm_tag :: string
  tm_windows :: "beam_window list"
  clear_bit :: bool
  fire_timestamp :: int
  hold_timestamp :: int
  tm_pane :: pane_info_rec

record timer_coder =
  timer_key_coder :: standard_coder
  timer_window_coder :: window_coder

definition timer_decode :: "timer_coder \<Rightarrow> timer reader" where
  "timer_decode coder buf =
     rbind (decode (timer_key_coder coder) buf) (\<lambda>(key, r1).
     rbind (encode (timer_key_coder coder) key) (\<lambda>ukey.
     rbind (decode_varint r1) (\<lambda>(tag_len, r2).
     rbind (get_slice (unat tag_len) r2) (\<lambda>(tag_bytes, r3).
     case from_utf8 tag_bytes of
       None \<Rightarrow> Err (WhileDecoding ''timer tag'')
     | Some tag \<Rightarrow>
         rbind (decode_windows (timer_window_coder coder) r3) (\<lambda>(ws, r4).
         rbind (get_u8 r4) (\<lambda>(clear, r5).
         if clear \<noteq> 0
         then Ok (\<lparr>user_key = ukey, tm_tag = tag, tm_windows = ws, clear_bit = True,
                   fire_timestamp = 0, hold_timestamp = 0, tm_pane = no_firing\<rparr>, r5)
         else
           rbind (decode_timestamp_millis r5) (\<lambda>(fire, r6).
           rbind (decode_timestamp_millis r6) (\<lambda>(hold, r7).
           rmap (\<lambda>pane. \<lparr>user_key = ukey, tm_tag = tag, tm_windows = ws, clear_bit = False,
                          fire_timestamp = fire, hold_timestamp = hold, tm_pane = pane\<rparr>)
             (decode_pane_info r7)))))))))"

definition timer_encode_into :: "timer_coder \<Rightarrow> timer \<Rightarrow> (coders_error, bytes) rust" where
  "timer_encode_into coder t =
     rbind (encode_windows (timer_window_coder coder) (tm_windows t)) (\<lambda>ws.
       Ok (user_key t @ encode_varint (of_nat (length (as_bytes (tm_tag t)))) @ as_bytes (tm_tag t) @ ws
           @ [if clear_bit t then 1 else 0]
           @ (if clear_bit t then []
              else encode_timestamp_millis (fire_timestamp t) @ encode_timestamp_millis (hold_timestamp t)
                     @ encode_pane_info (tm_pane t))))"

text \<open>
  A timer as the decoder produces it: the key is the encoding of a record that fits the
  key coder, and a cleared timer has the default timestamps and pane.
\<close>

definition timer_fits :: "timer_coder \<Rightarrow> beam_record \<Rightarrow> timer \<Rightarrow> bool" where
  "timer_fits coder key t \<longleftrightarrow>
     fits (timer_key_coder coder) key \<and> encode (timer_key_coder coder) key = Ok (user_key t)
     \<and> rust_string (tm_tag t) \<and> fits_u64 (length (tm_tag t))
     \<and> list_all (window_fits (timer_window_coder coder)) (tm_windows t) \<and> length (tm_windows t) < 2 ^ 31
     \<and> (if clear_bit t then fire_timestamp t = 0 \<and> hold_timestamp t = 0 \<and> tm_pane t = no_firing
        else in_i64 (fire_timestamp t) \<and> in_i64 (hold_timestamp t) \<and> pane_ok (tm_pane t))"

lemma timer_roundtrip:
  assumes "timer_fits coder key t"
  shows "\<exists>bs. timer_encode_into coder t = Ok bs \<and> (\<forall>rest. timer_decode coder (bs @ rest) = Ok (t, rest))"
proof -
  note t = assms [unfolded timer_fits_def]
  let ?wc = "timer_window_coder coder"
  obtain wb where wb: "encode_windows ?wc (tm_windows t) = Ok wb"
    using windows_encode_ok t by blast
  then have wd: "decode_windows ?wc (wb @ rest) = Ok (tm_windows t, rest)" for rest
    using windows_roundtrip t by blast
  have kd: "decode (timer_key_coder coder) (user_key t @ rest) = Ok (key, rest)" for rest
    using element.roundtrip [of "timer_key_coder coder" key rest] t by (simp add: decode_def encode_bytes_def)
  show ?thesis
    using t
    by (cases "clear_bit t")
      (auto simp: timer_encode_into_def wb timer_decode_def kd varint_roundtrip from_utf8_as_bytes wd
        timestamp_roundtrip pane_roundtrip)
qed

section \<open>Resolving a coder id\<close>

definition BYTES_CODER :: string where "BYTES_CODER = ''beam:coder:bytes:v1''"
definition STRING_UTF8_CODER :: string where "STRING_UTF8_CODER = ''beam:coder:string_utf8:v1''"
definition KV_CODER :: string where "KV_CODER = ''beam:coder:kv:v1''"
definition BOOL_CODER :: string where "BOOL_CODER = ''beam:coder:bool:v1''"
definition VARINT_CODER :: string where "VARINT_CODER = ''beam:coder:varint:v1''"
definition DOUBLE_CODER :: string where "DOUBLE_CODER = ''beam:coder:double:v1''"
definition ITERABLE_CODER :: string where "ITERABLE_CODER = ''beam:coder:iterable:v1''"
definition NULLABLE_CODER :: string where "NULLABLE_CODER = ''beam:coder:nullable:v1''"
definition JAVA_SDK_CODER :: string where "JAVA_SDK_CODER = ''beam:coders:javasdk:0.1''"
definition PYTHON_PICKLE_CODER :: string where "PYTHON_PICKLE_CODER = ''beam:coder:pickled_python:v1''"
definition TUPLE_CODER :: string where "TUPLE_CODER = ''beam:coder:tuple:v1''"

lemmas coder_urn_defs = BYTES_CODER_def STRING_UTF8_CODER_def KV_CODER_def BOOL_CODER_def VARINT_CODER_def
  DOUBLE_CODER_def ITERABLE_CODER_def NULLABLE_CODER_def JAVA_SDK_CODER_def PYTHON_PICKLE_CODER_def
  TUPLE_CODER_def LENGTH_PREFIX_CODER_def

text \<open>
  \<open>from_urn\<close> follows component ids through the pipeline's coder map without a visited set,
  so on a cyclic map it would not return: the model takes fuel and \<open>None\<close> means that the
  recursion is deeper than the fuel. A failed \<open>expect\<close> or \<open>assert\<close>, or an unknown URN, panics.
\<close>

type_synonym resolution = "(coders_error, standard_coder) rust option"

fun then_resolve :: "('e, 'a) rust option \<Rightarrow> ('a \<Rightarrow> ('e, 'b) rust option) \<Rightarrow> ('e, 'b) rust option" where
  "then_resolve None f = None"
| "then_resolve (Some (Ok x)) f = f x"
| "then_resolve (Some (Err e)) f = Some (Err e)"
| "then_resolve (Some Panic) f = Some Panic"

primrec resolve_all :: "(string \<Rightarrow> resolution) \<Rightarrow> string list \<Rightarrow> (coders_error, standard_coder list) rust option" where
  "resolve_all res [] = Some (Ok [])"
| "resolve_all res (i # ids) =
     then_resolve (res i) (\<lambda>c. then_resolve (resolve_all res ids) (\<lambda>cs. Some (Ok (c # cs))))"

definition resolved_urn :: "string \<Rightarrow> coder_proto option \<Rightarrow> string" where
  "resolved_urn i pc = (case Option.bind pc coder_urn of Some urn \<Rightarrow> urn | None \<Rightarrow> i)"

definition one_component :: "string list option \<Rightarrow> (string \<Rightarrow> resolution) \<Rightarrow> (standard_coder \<Rightarrow> standard_coder) \<Rightarrow> resolution" where
  "one_component ids res f =
     (case ids of Some [j] \<Rightarrow> then_resolve (res j) (\<lambda>c. Some (Ok (f c))) | _ \<Rightarrow> Some Panic)"

definition all_components :: "string list option \<Rightarrow> (string \<Rightarrow> resolution) \<Rightarrow> resolution" where
  "all_components ids res =
     (case ids of
        None \<Rightarrow> Some Panic
      | Some js \<Rightarrow> if js = [] then Some Panic else then_resolve (resolve_all res js) (\<lambda>cs. Some (Ok (Tuple cs))))"

definition two_components :: "string list option \<Rightarrow> (string \<Rightarrow> resolution) \<Rightarrow> resolution" where
  "two_components ids res =
     (case ids of
        Some [j, k] \<Rightarrow> then_resolve (res j) (\<lambda>kc. then_resolve (res k) (\<lambda>vc. Some (Ok (Kv kc vc))))
      | _ \<Rightarrow> Some Panic)"

definition match_urn :: "string \<Rightarrow> string \<Rightarrow> string list option \<Rightarrow> (string \<Rightarrow> resolution) \<Rightarrow> resolution" where
  "match_urn urn i ids res =
     (if urn = BYTES_CODER then Some (Ok BytesC)
      else if urn = STRING_UTF8_CODER then Some (Ok StringUtf8)
      else if urn = VARINT_CODER then Some (Ok VarInt)
      else if urn = BOOL_CODER then Some (Ok BoolC)
      else if urn = DOUBLE_CODER then Some (Ok DoubleC)
      else if urn = PYTHON_PICKLE_CODER then Some (Ok Pickle)
      else if urn = LENGTH_PREFIX_CODER then Some (Ok LengthPrefix)
      else if urn = JAVA_SDK_CODER then
        Some (Ok (if i = ''VoidCoder'' then VoidC else if i = ''VarIntCoder'' then VarInt32 else JavaOpaque))
      else if urn = ITERABLE_CODER then one_component ids res Iterable
      else if urn = TUPLE_CODER then all_components ids res
      else if urn = NULLABLE_CODER then one_component ids res Nullable
      else if urn = KV_CODER then two_components ids res
      else Some Panic)"

primrec from_urn :: "nat \<Rightarrow> string \<Rightarrow> string list option \<Rightarrow> (string, coder_proto) hashmap option \<Rightarrow> resolution" where
  "from_urn 0 i component_ids pipeline_coders = None"
| "from_urn (Suc fuel) i component_ids pipeline_coders =
     (let pipeline_coder = Option.bind pipeline_coders (\<lambda>coders. hm_get coders i);
          ids = (case component_ids of
                   Some xs \<Rightarrow> Some xs
                 | None \<Rightarrow> map_option component_coder_ids pipeline_coder)
      in match_urn (resolved_urn i pipeline_coder) i ids (\<lambda>j. from_urn fuel j None pipeline_coders))"

subsection \<open>Enough fuel\<close>

lemma then_resolve_None_iff:
  "then_resolve m f = None \<longleftrightarrow> m = None \<or> (\<exists>x. m = Some (Ok x) \<and> f x = None)"
  by (cases "(m, f)" rule: then_resolve.cases) auto

lemma then_resolve_eq_Ok:
  "then_resolve m f = Some (Ok y) \<longleftrightarrow> (\<exists>x. m = Some (Ok x) \<and> f x = Some (Ok y))"
  by (cases "(m, f)" rule: then_resolve.cases) auto

lemma resolve_all_Some: "(\<And>j. j \<in> set ids \<Longrightarrow> res j \<noteq> None) \<Longrightarrow> resolve_all res ids \<noteq> None"
  by (induction ids) (auto simp: then_resolve_None_iff)

lemma resolve_all_eq_Ok:
  "resolve_all res ids = Some (Ok cs) \<longleftrightarrow> list_all2 (\<lambda>i c. res i = Some (Ok c)) ids cs"
  by (induction ids arbitrary: cs) (auto simp: then_resolve_eq_Ok list_all2_Cons1)

text \<open>A coder map whose component references go down in rank, that is, an acyclic one.\<close>

definition ranked :: "(string \<Rightarrow> nat) \<Rightarrow> (string, coder_proto) hashmap \<Rightarrow> bool" where
  "ranked rank coders \<longleftrightarrow> (\<forall>(i, c) \<in> set coders. \<forall>j \<in> set (component_coder_ids c). rank j < rank i)"

lemma ranked_component:
  "ranked rank coders \<Longrightarrow> hm_get coders i = Some c \<Longrightarrow> j \<in> set (component_coder_ids c) \<Longrightarrow> rank j < rank i"
  by (auto simp: ranked_def dest!: hm_get_mem)

lemma components_return:
  assumes "\<And>js j. ids = Some js \<Longrightarrow> j \<in> set js \<Longrightarrow> res j \<noteq> None"
  shows "one_component ids res f \<noteq> None" "two_components ids res \<noteq> None" "all_components ids res \<noteq> None"
proof -
  have "resolve_all res js \<noteq> None" if "ids = Some js" for js
    using assms that by (intro resolve_all_Some) auto
  then show "all_components ids res \<noteq> None"
    by (simp add: all_components_def then_resolve_None_iff del: not_None_eq split: option.split)
qed (use assms in \<open>simp_all add: one_component_def two_components_def then_resolve_None_iff del: not_None_eq
       split: option.split list.split\<close>)

lemma match_urn_returns:
  assumes "\<And>js j. ids = Some js \<Longrightarrow> j \<in> set js \<Longrightarrow> res j \<noteq> None"
  shows "match_urn urn i ids res \<noteq> None"
  using components_return [OF assms] by (simp add: match_urn_def del: not_None_eq)

lemma from_urn_terminates:
  assumes "ranked rank coders"
  shows "rank i < fuel \<Longrightarrow> from_urn fuel i None (Some coders) \<noteq> None"
proof (induction fuel arbitrary: i)
  case (Suc fuel)
  have "from_urn fuel j None (Some coders) \<noteq> None"
    if "hm_get coders i = Some c" "j \<in> set (component_coder_ids c)" for c j
    using ranked_component [OF assms that] Suc by simp
  then show ?case
    by (auto simp: Let_def simp del: not_None_eq intro!: match_urn_returns)
qed simp

lemma then_resolve_mono:
  assumes "then_resolve m f = Some y" and "\<And>x. m = Some x \<Longrightarrow> m' = Some x"
    and "\<And>x. f x = Some y \<Longrightarrow> g x = Some y"
  shows "then_resolve m' g = Some y"
  using assms by (cases "(m, f)" rule: then_resolve.cases) auto

lemma resolve_all_mono:
  assumes "\<And>j x. res j = Some x \<Longrightarrow> res' j = Some x"
  shows "resolve_all res ids = Some y \<Longrightarrow> resolve_all res' ids = Some y"
  by (induction ids arbitrary: y) (auto intro: assms elim!: then_resolve_mono)

lemma components_mono:
  assumes res: "\<And>j x. res j = Some x \<Longrightarrow> res' j = Some x"
  shows "one_component ids res f = Some y \<Longrightarrow> one_component ids res' f = Some y"
    and "two_components ids res = Some y \<Longrightarrow> two_components ids res' = Some y"
    and "all_components ids res = Some y \<Longrightarrow> all_components ids res' = Some y"
  using resolve_all_mono [of res res', OF res]
  by (auto simp: one_component_def two_components_def all_components_def split: option.splits list.splits if_splits
      intro: res elim!: then_resolve_mono)

lemma if_Some_mono:
  "(if b then m else n) = Some y \<Longrightarrow> (m = Some y \<Longrightarrow> m' = Some y) \<Longrightarrow> (n = Some y \<Longrightarrow> n' = Some y)
    \<Longrightarrow> (if b then m' else n') = Some y"
  by (simp split: if_splits)

lemma match_urn_mono:
  assumes "\<And>j x. res j = Some x \<Longrightarrow> res' j = Some x"
  shows "match_urn urn i ids res = Some y \<Longrightarrow> match_urn urn i ids res' = Some y"
  unfolding match_urn_def by (erule if_Some_mono components_mono [OF assms, rotated] | assumption)+

lemma from_urn_mono: "from_urn fuel i ids coders = Some x \<Longrightarrow> from_urn (Suc fuel) i ids coders = Some x"
proof (induction fuel arbitrary: i ids x)
  case (Suc fuel)
  have "match_urn urn i js (\<lambda>j. from_urn (Suc fuel) j None coders) = Some x"
    if "match_urn urn i js (\<lambda>j. from_urn fuel j None coders) = Some x" for urn js
    using that by (rule match_urn_mono [rotated]) (rule Suc.IH)
  with Suc.prems show ?case
    by (subst from_urn.simps) (simp only: from_urn.simps(2) [of fuel] Let_def)
qed simp

lemma from_urn_more_fuel:
  "from_urn fuel i ids coders = Some x \<Longrightarrow> fuel \<le> fuel' \<Longrightarrow> from_urn fuel' i ids coders = Some x"
  by (rotate_tac 1, induction fuel' rule: dec_induct) (auto dest: from_urn_mono simp del: from_urn.simps)

section \<open>Length-prefixing opaque Python leaves\<close>

definition length_prefixed_suffix :: string where "length_prefixed_suffix = ''_lp''"

definition length_prefixed_coder_id :: "string \<Rightarrow> string" where
  "length_prefixed_coder_id i = i @ length_prefixed_suffix"

definition pickled_leaf_ids :: "(string, coder_proto) hashmap \<Rightarrow> string list" where
  "pickled_leaf_ids coders = map fst (filter (\<lambda>(_, c). coder_urn c = Some PYTHON_PICKLE_CODER) coders)"

definition insert_wrapper :: "string \<Rightarrow> (string, coder_proto) hashmap \<Rightarrow> (string, coder_proto) hashmap" where
  "insert_wrapper i coders =
     (let lp_id = length_prefixed_coder_id i
      in if hm_get coders lp_id = None
         then hm_insert lp_id \<lparr>coder_urn = Some LENGTH_PREFIX_CODER, component_coder_ids = [i]\<rparr> coders
         else coders)"

definition repoint :: "(string, string) hashmap \<Rightarrow> string \<Rightarrow> string" where
  "repoint remap component = (case hm_get remap component of Some lp \<Rightarrow> lp | None \<Rightarrow> component)"

definition length_prefix_pickled_leaves :: "(string, coder_proto) hashmap \<Rightarrow> (string, coder_proto) hashmap" where
  "length_prefix_pickled_leaves coders =
     (let leaf_ids = pickled_leaf_ids coders
      in if leaf_ids = [] then coders
         else let wrapped = fold insert_wrapper leaf_ids coders;
                  remap = fold (\<lambda>i. hm_insert i (length_prefixed_coder_id i)) leaf_ids [];
                  wrapper_ids = map snd remap
              in hm_map_values (\<lambda>i c.
                   if i \<in> set wrapper_ids then c
                   else c\<lparr>component_coder_ids := map (repoint remap) (component_coder_ids c)\<rparr>) wrapped)"

definition resolve_length_prefixed_coder_id :: "string \<Rightarrow> (string, coder_proto) hashmap \<Rightarrow> string" where
  "resolve_length_prefixed_coder_id i coders =
     (let lp_id = length_prefixed_coder_id i in if hm_get coders lp_id \<noteq> None then lp_id else i)"

subsection \<open>What the rewriting does\<close>

abbreviation "lp \<equiv> length_prefixed_coder_id"

lemma lp_inject [simp]: "lp i = lp j \<longleftrightarrow> i = j"
  by (simp add: length_prefixed_coder_id_def)

lemma hm_get_remap: "hm_get (fold (\<lambda>i. hm_insert i (lp i)) ids m) x = (if x \<in> set ids then Some (lp x) else hm_get m x)"
  by (induction ids arbitrary: m) auto

lemma hm_wf_fold_insert: "hm_wf m \<Longrightarrow> hm_wf (fold (\<lambda>i. hm_insert i (f i)) ids m)"
  by (induction ids arbitrary: m) auto

lemma snd_remap: "set (map snd (fold (\<lambda>i. hm_insert i (lp i)) ids [])) = lp ` set ids"
proof -
  let ?m = "fold (\<lambda>i. hm_insert i (lp i)) ids []"
  have "(k, v) \<in> set ?m \<longleftrightarrow> k \<in> set ids \<and> v = lp k" for k v
    using hm_get_iff_mem [OF hm_wf_fold_insert [OF hm_wf_Nil], of lp ids k v]
    by (auto simp: hm_get_remap split: if_splits)
  then have "set ?m = (\<lambda>i. (i, lp i)) ` set ids"
    by auto
  then show ?thesis
    by (simp add: image_image)
qed

lemma hm_get_insert_wrappers:
  "hm_get (fold insert_wrapper ids m) x =
     (case hm_get m x of
        Some c \<Rightarrow> Some c
      | None \<Rightarrow> if x \<in> lp ` set ids
                then Some \<lparr>coder_urn = Some LENGTH_PREFIX_CODER, component_coder_ids = [take (length x - 3) x]\<rparr> else None)"
proof (induction ids arbitrary: m)
  case (Cons i ids)
  have "take (length (lp i) - 3) (lp i) = i"
    by (simp add: length_prefixed_coder_id_def length_prefixed_suffix_def)
  with Cons show ?case
    by (auto simp: insert_wrapper_def Let_def split: option.split)
qed (simp split: option.split)

text \<open>
  The maps the rewriting is meant for: no id is taken by two entries, no entry already has
  the name a wrapper will get, and the pickle URN is not used as an id itself (an id
  without an entry is read as a URN).
\<close>

definition rewritable :: "(string, coder_proto) hashmap \<Rightarrow> bool" where
  "rewritable coders \<longleftrightarrow>
     hm_wf coders \<and> (\<forall>i \<in> set (pickled_leaf_ids coders). hm_get coders (lp i) = None)
     \<and> hm_get coders PYTHON_PICKLE_CODER = None
     \<and> (\<forall>c \<in> snd ` set coders. PYTHON_PICKLE_CODER \<notin> set (component_coder_ids c))"

definition repointed :: "string set \<Rightarrow> coder_proto \<Rightarrow> coder_proto" where
  "repointed leaves c = c\<lparr>component_coder_ids := map (\<lambda>x. if x \<in> leaves then lp x else x) (component_coder_ids c)\<rparr>"

lemma coder_urn_repointed [simp]: "coder_urn (repointed ls c) = coder_urn c"
  by (simp add: repointed_def)

lemma mem_pickled_leaf_ids:
  "hm_wf coders \<Longrightarrow>
   i \<in> set (pickled_leaf_ids coders) \<longleftrightarrow> (\<exists>c. hm_get coders i = Some c \<and> coder_urn c = Some PYTHON_PICKLE_CODER)"
  by (auto simp: pickled_leaf_ids_def hm_get_iff_mem image_iff)

lemma hm_wf_insert_wrappers: "hm_wf m \<Longrightarrow> hm_wf (fold insert_wrapper ids m)"
  by (induction ids arbitrary: m) (auto simp: insert_wrapper_def Let_def)

lemma hm_get_rewritten:
  assumes "rewritable coders"
  shows "hm_get (length_prefix_pickled_leaves coders) x =
    (case hm_get coders x of
       Some c \<Rightarrow> Some (repointed (set (pickled_leaf_ids coders)) c)
     | None \<Rightarrow> if x \<in> lp ` set (pickled_leaf_ids coders)
               then Some \<lparr>coder_urn = Some LENGTH_PREFIX_CODER, component_coder_ids = [take (length x - 3) x]\<rparr>
               else None)"
proof -
  let ?L = "pickled_leaf_ids coders"
  let ?R = "fold (\<lambda>i. hm_insert i (lp i)) ?L []"
  have repoint: "repoint ?R y = (if y \<in> set ?L then lp y else y)" for y
    by (simp add: repoint_def hm_get_remap)
  have fresh: "x \<notin> lp ` set ?L" if "hm_get coders x \<noteq> None"
    using assms that by (auto simp: rewritable_def)
  show ?thesis
  proof (cases "?L = []")
    case True
    then show ?thesis
      by (simp add: length_prefix_pickled_leaves_def repointed_def split: option.split)
  next
    case False
    then show ?thesis
      using fresh
      by (auto simp: length_prefix_pickled_leaves_def Let_def hm_get_insert_wrappers snd_remap [simplified] repoint
          repointed_def split: option.split)
  qed
qed

lemma hm_wf_rewritten: "hm_wf coders \<Longrightarrow> hm_wf (length_prefix_pickled_leaves coders)"
  by (simp add: length_prefix_pickled_leaves_def Let_def hm_wf_insert_wrappers)

lemma leaves_rewritten:
  assumes "rewritable coders"
  shows "set (pickled_leaf_ids (length_prefix_pickled_leaves coders)) = set (pickled_leaf_ids coders)"
proof -
  have wf: "hm_wf coders" and ne: "LENGTH_PREFIX_CODER \<noteq> PYTHON_PICKLE_CODER"
    using assms by (auto simp: rewritable_def coder_urn_defs)
  show ?thesis
    using ne by (auto simp: mem_pickled_leaf_ids [OF wf] mem_pickled_leaf_ids [OF hm_wf_rewritten [OF wf]]
        hm_get_rewritten [OF assms] split: option.splits if_splits)
qed

lemma lp_not_pickle_urn: "lp i \<noteq> PYTHON_PICKLE_CODER"
proof
  assume "lp i = PYTHON_PICKLE_CODER"
  then have "last (lp i) = last PYTHON_PICKLE_CODER"
    by simp
  then show False
    by (simp add: length_prefixed_coder_id_def length_prefixed_suffix_def PYTHON_PICKLE_CODER_def)
qed

text \<open>After the rewriting, no component of an entry other than a wrapper is a pickled leaf.\<close>

lemma rewritten_components:
  assumes "rewritable coders" and "hm_get (length_prefix_pickled_leaves coders) i = Some c"
    and "i \<notin> lp ` set (pickled_leaf_ids coders)" and "j \<in> set (component_coder_ids c)"
  shows "j \<notin> set (pickled_leaf_ids coders) \<and> j \<noteq> PYTHON_PICKLE_CODER"
proof -
  obtain c0 where c0: "hm_get coders i = Some c0" "c = repointed (set (pickled_leaf_ids coders)) c0"
    using assms(2,3) by (auto simp: hm_get_rewritten [OF assms(1)] split: option.splits)
  have wf: "hm_wf coders" and fresh: "\<forall>i \<in> set (pickled_leaf_ids coders). hm_get coders (lp i) = None"
    and comps: "PYTHON_PICKLE_CODER \<notin> set (component_coder_ids c0)"
    using assms(1) hm_get_mem [OF c0(1)] by (force simp: rewritable_def)+
  obtain x where x: "x \<in> set (component_coder_ids c0)"
    "j = (if x \<in> set (pickled_leaf_ids coders) then lp x else x)"
    using assms(4) c0(2) by (auto simp: repointed_def)
  show ?thesis
  proof (cases "x \<in> set (pickled_leaf_ids coders)")
    case True
    then show ?thesis
      using x(2) fresh lp_not_pickle_urn by (simp add: mem_pickled_leaf_ids [OF wf])
  next
    case False
    then show ?thesis
      using x comps by auto
  qed
qed

lemma fold_insert_wrapper_id:
  "(\<And>i. i \<in> set ids \<Longrightarrow> hm_get m (lp i) \<noteq> None) \<Longrightarrow> fold insert_wrapper ids m = m"
proof (induction ids)
  case (Cons i ids)
  then have "insert_wrapper i m = m"
    by (auto simp: insert_wrapper_def Let_def simp del: not_None_eq)
  with Cons show ?case
    by simp
qed simp

lemma hm_map_values_id: "(\<And>k v. (k, v) \<in> set m \<Longrightarrow> f k v = v) \<Longrightarrow> hm_map_values f m = m"
  unfolding hm_map_values_def by (rule map_idI) auto

lemma rewriting_idempotent:
  assumes "rewritable coders"
  shows "length_prefix_pickled_leaves (length_prefix_pickled_leaves coders) = length_prefix_pickled_leaves coders"
proof -
  let ?m = "length_prefix_pickled_leaves coders"
  let ?L = "pickled_leaf_ids ?m"
  let ?R = "fold (\<lambda>i. hm_insert i (lp i)) ?L []"
  have L: "set ?L = set (pickled_leaf_ids coders)"
    by (rule leaves_rewritten [OF assms])
  have wf: "hm_wf ?m"
    using assms hm_wf_rewritten by (auto simp: rewritable_def)
  have "hm_get ?m (lp i) \<noteq> None" if "i \<in> set ?L" for i
    using that by (auto simp: hm_get_rewritten [OF assms] L split: option.split)
  then have wrapped: "fold insert_wrapper ?L ?m = ?m"
    by (rule fold_insert_wrapper_id)
  have same: "map (repoint ?R) (component_coder_ids c) = component_coder_ids c"
    if "(i, c) \<in> set ?m" "i \<notin> lp ` set ?L" for i c
    using rewritten_components [OF assms, of i c] that
    by (intro map_idI) (auto simp: repoint_def hm_get_remap hm_get_iff_mem [OF wf] L)
  show ?thesis
    unfolding length_prefix_pickled_leaves_def [of ?m] Let_def wrapped
    by (auto intro!: hm_map_values_id simp: snd_remap [simplified] same)
qed

fun pickle_free :: "standard_coder \<Rightarrow> bool" where
  "pickle_free Pickle = False"
| "pickle_free (Iterable c) = pickle_free c"
| "pickle_free (Nullable c) = pickle_free c"
| "pickle_free (Tuple cs) = list_all pickle_free cs"
| "pickle_free (Kv k v) = (pickle_free k \<and> pickle_free v)"
| "pickle_free (Gbk k v) = (pickle_free k \<and> pickle_free v)"
| "pickle_free _ = True"

lemma components_pickle_free:
  assumes "\<And>js j c. ids = Some js \<Longrightarrow> j \<in> set js \<Longrightarrow> res j = Some (Ok c) \<Longrightarrow> pickle_free c"
  shows "one_component ids res Iterable = Some (Ok c) \<Longrightarrow> pickle_free c"
    and "one_component ids res Nullable = Some (Ok c) \<Longrightarrow> pickle_free c"
    and "two_components ids res = Some (Ok c) \<Longrightarrow> pickle_free c"
    and "all_components ids res = Some (Ok c) \<Longrightarrow> pickle_free c"
proof -
  show "pickle_free c" if a: "all_components ids res = Some (Ok c)"
  proof -
    obtain js cs where js: "ids = Some js" "c = Tuple cs" "list_all2 (\<lambda>i c. res i = Some (Ok c)) js cs"
      using a by (auto simp: all_components_def then_resolve_eq_Ok resolve_all_eq_Ok split: option.splits if_splits)
    have "\<exists>j \<in> set js. res j = Some (Ok d)" if d: "d \<in> set cs" for d
    proof -
      obtain n where "n < length cs" "d = cs ! n"
        using d by (auto simp: in_set_conv_nth)
      then show ?thesis
        using list_all2_nthD2 [OF js(3), of n] list_all2_lengthD [OF js(3)] nth_mem [of n js] by auto
    qed
    then show ?thesis
      using assms [OF js(1)] js(2) by (auto simp: list_all_iff)
  qed
  have use: "\<forall>js. ids = Some js \<longrightarrow> (\<forall>j \<in> set js. \<forall>d. res j = Some (Ok d) \<longrightarrow> pickle_free d)"
    using assms by blast
  show "one_component ids res Iterable = Some (Ok c) \<Longrightarrow> pickle_free c"
    "one_component ids res Nullable = Some (Ok c) \<Longrightarrow> pickle_free c"
    "two_components ids res = Some (Ok c) \<Longrightarrow> pickle_free c"
    using use by (auto simp: one_component_def two_components_def then_resolve_eq_Ok split: option.splits list.splits)
qed

lemma match_urn_pickle_free:
  assumes "\<And>js j c. ids = Some js \<Longrightarrow> j \<in> set js \<Longrightarrow> res j = Some (Ok c) \<Longrightarrow> pickle_free c"
    and "match_urn urn i ids res = Some (Ok c)" and "urn \<noteq> PYTHON_PICKLE_CODER"
  shows "pickle_free c"
  using assms(2,3) components_pickle_free [OF assms(1)] by (auto simp: match_urn_def split: if_splits)

lemma from_urn_pickle_free:
  assumes rw: "rewritable coders"
  shows "from_urn fuel i None (Some (length_prefix_pickled_leaves coders)) = Some (Ok c) \<Longrightarrow>
    i \<notin> set (pickled_leaf_ids coders) \<Longrightarrow> i \<noteq> PYTHON_PICKLE_CODER \<Longrightarrow> pickle_free c"
proof (induction fuel arbitrary: i c)
  case (Suc fuel)
  let ?m = "length_prefix_pickled_leaves coders"
  have wf: "hm_wf ?m"
    using rw hm_wf_rewritten by (auto simp: rewritable_def)
  have eq: "match_urn (resolved_urn i (hm_get ?m i)) i (map_option component_coder_ids (hm_get ?m i))
    (\<lambda>j. from_urn fuel j None (Some ?m)) = Some (Ok c)"
    using Suc.prems(1) by (simp add: Let_def)
  show ?case
  proof (cases "i \<in> lp ` set (pickled_leaf_ids coders)")
    case True
    then have "resolved_urn i (hm_get ?m i) = LENGTH_PREFIX_CODER"
      using rw by (auto simp: hm_get_rewritten [OF rw] resolved_urn_def rewritable_def)
    then show ?thesis
      using eq by (auto simp: match_urn_def coder_urn_defs)
  next
    case False
    have "i \<notin> set (pickled_leaf_ids ?m)"
      using Suc.prems(2) leaves_rewritten [OF rw] by simp
    then have "resolved_urn i (hm_get ?m i) \<noteq> PYTHON_PICKLE_CODER"
      using Suc.prems(3) by (auto simp: mem_pickled_leaf_ids [OF wf] resolved_urn_def bind_eq_Some_conv split: option.splits)
    moreover have "pickle_free d" if "map_option component_coder_ids (hm_get ?m i) = Some js" "j \<in> set js"
      "from_urn fuel j None (Some ?m) = Some (Ok d)" for js j d
      using that Suc.IH [of j d] rewritten_components [OF rw _ False, of _ j] by auto
    ultimately show ?thesis
      using match_urn_pickle_free [OF _ eq] by blast
  qed
qed simp

section \<open>Properties\<close>



text \<open>
  A data stream, the concatenation of encoded windowed values, parses back to exactly
  those values with timestamps, windows and panes, whatever bytes follow it.
\<close>

lemma windowed_stream_roundtrip:
  assumes "list_all (windowed_fits coder) vals"
  shows "list_all (\<lambda>v. windowed_encode coder v = Ok (windowed_bytes coder v)) vals
    \<and> get_many (windowed_decode coder) (length vals) (concat (map (windowed_bytes coder) vals) @ rest) = Ok (vals, rest)"
proof
  show "list_all (\<lambda>v. windowed_encode coder v = Ok (windowed_bytes coder v)) vals"
    using assms windowed_encode_fits by (fastforce simp: list_all_iff windowed_bytes_def)
qed (rule windowed.roundtrip_many [OF assms])

text \<open>
  C35: resolving a coder id returns on every acyclic coder map: a recursion depth above the
  rank of the id is enough, and a larger one gives the same answer.
\<close>

theorem coder_resolution_returns:
  assumes "ranked rank coders" and "rank i < fuel"
  shows "\<exists>x. from_urn fuel i None (Some coders) = Some x \<and> (\<forall>fuel' \<ge> fuel. from_urn fuel' i None (Some coders) = Some x)"
proof -
  obtain x where "from_urn fuel i None (Some coders) = Some x"
    using from_urn_terminates [OF assms] by blast
  then show ?thesis
    using from_urn_more_fuel by blast
qed

theorem coder_resolution_returns_witness:
  "from_urn 9 ''xs'' None
     (Some [(''xs'', \<lparr>coder_urn = Some ITERABLE_CODER, component_coder_ids = [VARINT_CODER]\<rparr>)])
   = Some (Ok (Iterable VarInt))"
proof -
  let ?m = "[(''xs'', \<lparr>coder_urn = Some ITERABLE_CODER, component_coder_ids = [VARINT_CODER]\<rparr>)]"
  have "ranked (\<lambda>i. if i = ''xs'' then 1 else 0) ?m"
    by (simp add: ranked_def coder_urn_defs)
  then have "\<exists>x. from_urn 2 ''xs'' None (Some ?m) = Some x \<and> (\<forall>fuel' \<ge> 2. from_urn fuel' ''xs'' None (Some ?m) = Some x)"
    by (rule coder_resolution_returns) simp
  moreover have "from_urn 2 ''xs'' None (Some ?m) = Some (Ok (Iterable VarInt))"
    by (simp add: numeral_2_eq_2 match_urn_def resolved_urn_def one_component_def coder_urn_defs)
  ultimately show ?thesis
    by auto
qed



end
