(* ===== verification/Expander.thy ===== *)
theory Expander
  imports Fusion_Complete Coders
begin

text \<open>
  The expansion of splittable ParDos before fusion (\<open>fusion/expander.rs\<close>): a splittable
  ParDo becomes a composite of \<open>PairWithRestriction\<close>, \<open>SplitAndSize\<close>, in drain mode
  \<open>TruncateAndSize\<close>, and \<open>ProcessSizedElementsAndRestrictions\<close>, and \<open>ProtoOverrides\<close>
  applies such a replacement to every transform with a given URN. Shown: the replacement
  is a chain from the main input to the original outputs, transforms that are not
  splittable are left alone, and the expansion always succeeds.
\<close>

section \<open>Fresh identifiers\<close>

text \<open>\<open>generate_unique_id\<close>; \<open>taken\<close> holds the names the predicate \<open>is_existing\<close> accepts.\<close>

definition candidate :: "string \<Rightarrow> nat \<Rightarrow> string" where
  "candidate prefix i = prefix @ show_nat i"

lemma inj_candidate: "inj (candidate prefix)"
  unfolding candidate_def by (rule injI) (metis injD inj_show_nat same_append_eq)

function unique_id_from :: "string \<Rightarrow> string list \<Rightarrow> nat \<Rightarrow> string" where
  "unique_id_from prefix taken i =
     (if candidate prefix i \<in> set taken then unique_id_from prefix taken (Suc i) else candidate prefix i)"
  by pat_completeness auto

termination
proof (relation "measure (\<lambda>(prefix, taken, i). card {j. i \<le> j \<and> candidate prefix j \<in> set taken})", goal_cases)
  case (2 prefix taken i)
  then show ?case
    using search_decreases [OF inj_candidate] by simp
qed simp

declare unique_id_from.simps [simp del]

definition generate_unique_id :: "string \<Rightarrow> string list \<Rightarrow> string" where
  "generate_unique_id prefix taken = unique_id_from prefix taken 0"

lemma generate_unique_id_fresh: "generate_unique_id prefix taken \<notin> set taken"
proof -
  have "unique_id_from prefix taken i \<notin> set taken" for i
    by (induction prefix taken i rule: unique_id_from.induct) (subst unique_id_from.simps, simp)
  then show ?thesis
    by (simp add: generate_unique_id_def)
qed

lemma generate_unique_id_candidate: "\<exists>i. generate_unique_id prefix taken = prefix @ show_nat i"
proof -
  have "\<exists>j. unique_id_from prefix taken i = candidate prefix j" for i
    by (induction prefix taken i rule: unique_id_from.induct) (subst unique_id_from.simps, auto)
  then show ?thesis
    by (simp add: generate_unique_id_def candidate_def)
qed

section \<open>The replacement\<close>

text \<open>The further field of a decoded \<open>ParDoPayload\<close> that the expansion reads.\<close>

record splittable_payload = pardo_payload +
  pp_restriction_coder_id :: string

type_synonym splittable_decoder = "bytes \<Rightarrow> splittable_payload option"

definition make_kv_coder :: "string \<Rightarrow> string \<Rightarrow> coder_proto" where
  "make_kv_coder k v = \<lparr>coder_urn = Some KV_CODER, component_coder_ids = [k, v]\<rparr>"

definition generate_unique_pcollection_name :: "string \<Rightarrow> components \<Rightarrow> string" where
  "generate_unique_pcollection_name prefix comps = generate_unique_id prefix (map (pc_unique_name \<circ> snd) (c_pcollections comps))"

definition make_pcollection :: "string \<Rightarrow> pcollection \<Rightarrow> string \<Rightarrow> components \<Rightarrow> pcollection" where
  "make_pcollection coder template prefix comps =
     \<lparr>pc_unique_name = generate_unique_pcollection_name prefix comps, pc_coder_id = coder,
      pc_is_bounded = pc_is_bounded template, pc_windowing_strategy_id = pc_windowing_strategy_id template\<rparr>"

text \<open>\<open>map.extend(entries)\<close> and \<open>entries.collect()\<close>\<close>

definition extend_map :: "('k, 'v) hashmap \<Rightarrow> ('k \<times> 'v) list \<Rightarrow> ('k, 'v) hashmap" where
  "extend_map m kvs = fold (\<lambda>(k, v). hm_insert k v) kvs m"

definition make_sdf_sub_transform :: "string \<Rightarrow> bytes \<Rightarrow> (string, string) hashmap \<Rightarrow> (string \<times> string) list \<Rightarrow> string \<Rightarrow> string
   \<Rightarrow> components \<Rightarrow> ptransform" where
  "make_sdf_sub_transform urn payload ins outs prefix env comps =
     \<lparr>pt_unique_name = generate_unique_pcollection_name prefix comps, pt_spec = Some \<lparr>spec_urn = urn, spec_payload = payload\<rparr>,
      pt_inputs = ins, pt_outputs = extend_map [] outs, pt_subtransforms = [], pt_environment_id = env\<rparr>"

definition get_or_add_double_coder :: "components \<Rightarrow> components \<Rightarrow> string \<times> components" where
  "get_or_add_double_coder existing out =
     (case find (\<lambda>(i, c). coder_urn c = Some DOUBLE_CODER) (c_coders existing) of
        Some (i, _) \<Rightarrow> (i, out)
      | None \<Rightarrow>
          let i = generate_unique_id ''DoubleCoder'' (hm_keys (c_coders existing))
          in (i, out\<lparr>c_coders := hm_insert i \<lparr>coder_urn = Some DOUBLE_CODER, component_coder_ids = []\<rparr> (c_coders out)\<rparr>))"

text \<open>\<open>get_main_input_name_from_payload\<close> of the expander: the first input that is no side input.\<close>

definition expander_main_input_name :: "ptransform \<Rightarrow> pardo_payload \<Rightarrow> string" where
  "expander_main_input_name t payload =
     (case find (\<lambda>name. name \<notin> set (pp_side_inputs payload)) (hm_keys (pt_inputs t)) of
        Some name \<Rightarrow> name
      | None \<Rightarrow> (case hm_keys (pt_inputs t) of name # _ \<Rightarrow> name | [] \<Rightarrow> []))"

text \<open>
  One intermediate step of the expansion: a coder for its output, the output PCollection
  and the transform itself are added to the new components.
\<close>

record sdf_step =
  step_name :: string
  step_urn :: string
  step_coder :: coder_proto
  step_inputs :: "(string, string) hashmap"

record sdf_site =
  site_id :: string
  site_transform :: ptransform
  site_payload :: bytes
  site_input_id :: string
  site_input :: pcollection

definition step_coder_id :: "components \<Rightarrow> sdf_site \<Rightarrow> string \<Rightarrow> string" where
  "step_coder_id existing site name = generate_unique_id (pc_coder_id (site_input site) @ ''/'' @ name) (hm_keys (c_coders existing))"

definition step_out_id :: "components \<Rightarrow> sdf_site \<Rightarrow> string \<Rightarrow> string" where
  "step_out_id existing site name = generate_unique_id (site_input_id site @ ''/'' @ name) (hm_keys (c_pcollections existing))"

definition step_transform_id :: "components \<Rightarrow> sdf_site \<Rightarrow> string \<Rightarrow> string" where
  "step_transform_id existing site name = generate_unique_id (site_id site @ ''/'' @ name) (hm_keys (c_transforms existing))"

definition add_step :: "components \<Rightarrow> sdf_site \<Rightarrow> sdf_step \<Rightarrow> components \<Rightarrow> components" where
  "add_step existing site step out =
     (let name = step_name step; t = site_transform site;
          coder_id = step_coder_id existing site name; out_id = step_out_id existing site name
      in out\<lparr>c_coders := hm_insert coder_id (step_coder step) (c_coders out),
             c_pcollections := hm_insert out_id
               (make_pcollection coder_id (site_input site) (pc_unique_name (site_input site) @ ''/'' @ name) existing) (c_pcollections out),
             c_transforms := hm_insert (step_transform_id existing site name)
               (make_sdf_sub_transform (step_urn step) (site_payload site) (step_inputs step) [(''out'', out_id)]
                  (pt_unique_name t @ ''/'' @ name) (pt_environment_id t) existing) (c_transforms out)\<rparr>)"

definition empty_components :: components where
  "empty_components = \<lparr>c_transforms = [], c_pcollections = [], c_windowing_strategies = [], c_coders = [], c_environments = []\<rparr>"

definition add_process :: "components \<Rightarrow> sdf_site \<Rightarrow> (string, string) hashmap \<Rightarrow> components \<Rightarrow> components" where
  "add_process existing site ins out =
     (let t = site_transform site
      in out\<lparr>c_transforms := hm_insert (step_transform_id existing site ''ProcessSizedElementsAndRestrictions'')
               (make_sdf_sub_transform SPLITTABLE_PROCESS_SIZED_ELEMENTS_AND_RESTRICTIONS_URN (site_payload site) ins (pt_outputs t)
                  (pt_unique_name t @ ''/ProcessSizedElementsAndRestrictions'') (pt_environment_id t) existing) (c_transforms out)\<rparr>)"

definition expand_site :: "bool \<Rightarrow> components \<Rightarrow> sdf_site \<Rightarrow> string \<Rightarrow> string \<Rightarrow> (string, string) hashmap \<Rightarrow> components \<times> ptransform" where
  "expand_site is_drain existing site restriction_coder main_name sides =
     (let inputs_from = (\<lambda>p. extend_map [(main_name, p)] sides);
          pair = add_step existing site \<lparr>step_name = ''PairWithRestriction'', step_urn = SPLITTABLE_PAIR_WITH_RESTRICTION_URN,
                   step_coder = make_kv_coder (pc_coder_id (site_input site)) restriction_coder,
                   step_inputs = pt_inputs (site_transform site)\<rparr> empty_components;
          (double, c1) = get_or_add_double_coder existing pair;
          split = add_step existing site \<lparr>step_name = ''SplitAndSize'', step_urn = SPLITTABLE_SPLIT_AND_SIZE_RESTRICTIONS_URN,
                    step_coder = make_kv_coder (step_coder_id existing site ''PairWithRestriction'') double,
                    step_inputs = inputs_from (step_out_id existing site ''PairWithRestriction'')\<rparr> c1;
          (double2, c2) = get_or_add_double_coder existing split;
          truncated = add_step existing site \<lparr>step_name = ''TruncateAndSize'', step_urn = SPLITTABLE_TRUNCATE_SIZED_RESTRICTION_URN,
                        step_coder = make_kv_coder (step_coder_id existing site ''SplitAndSize'') double2,
                        step_inputs = inputs_from (step_out_id existing site ''SplitAndSize'')\<rparr> c2;
          (prior, last) = (if is_drain then (truncated, ''TruncateAndSize'') else (split, ''SplitAndSize''))
      in (add_process existing site (inputs_from (step_out_id existing site last)) prior,
          (site_transform site)\<lparr>pt_spec := None,
             pt_subtransforms := map (step_transform_id existing site)
               ([''PairWithRestriction'', ''SplitAndSize''] @ (if is_drain then [''TruncateAndSize''] else [])
                @ [''ProcessSizedElementsAndRestrictions''])\<rparr>))"

text \<open>\<open>SizedReplacement::get_replacement\<close>: the new components and the new root transform.\<close>

definition get_replacement :: "splittable_decoder \<Rightarrow> bool \<Rightarrow> string \<Rightarrow> components \<Rightarrow> (components \<times> ptransform) option" where
  "get_replacement dec is_drain i comps =
     Option.bind (hm_get (c_transforms comps) i) (\<lambda>t.
     Option.bind (pt_spec t) (\<lambda>spec.
     Option.bind (dec (spec_payload spec)) (\<lambda>payload.
       if pp_restriction_coder_id payload = [] then None
       else let main_name = expander_main_input_name t (pardo_payload.truncate payload)
            in Option.bind (hm_get (pt_inputs t) main_name) (\<lambda>main_id.
               Option.bind (hm_get (c_pcollections comps) main_id) (\<lambda>main.
                 Some (expand_site is_drain comps
                   \<lparr>site_id = i, site_transform = t, site_payload = spec_payload spec, site_input_id = main_id, site_input = main\<rparr>
                   (pp_restriction_coder_id payload) main_name
                   (filter (\<lambda>(name, _). name \<in> set (pp_side_inputs payload)) (pt_inputs t))))))))"

section \<open>Applying replacements\<close>

text \<open>
  \<open>remove_subtransforms\<close>; a transform that is its own descendant makes the recursion
  endless, which is running out of fuel.
\<close>

fun remove_subtransforms :: "nat \<Rightarrow> string list \<Rightarrow> components \<Rightarrow> components option" where
  "remove_subtransforms 0 subs target = None"
| "remove_subtransforms (Suc n) [] target = Some target"
| "remove_subtransforms (Suc n) (s # subs) target =
     (case hm_get (c_transforms target) s of
        None \<Rightarrow> remove_subtransforms (Suc n) subs target
      | Some sub \<Rightarrow>
          Option.bind (remove_subtransforms n (pt_subtransforms sub) target) (\<lambda>target'.
            remove_subtransforms (Suc n) subs (target'\<lparr>c_transforms := hm_remove s (c_transforms target')\<rparr>)))"

text \<open>Equality of two \<open>HashMap\<close>s.\<close>

definition hm_eq :: "('k, 'v) hashmap \<Rightarrow> ('k, 'v) hashmap \<Rightarrow> bool" where
  "hm_eq m m' \<longleftrightarrow> list_all (\<lambda>k. hm_get m k = hm_get m' k) (hm_keys m @ hm_keys m')"

definition merge_components :: "components \<Rightarrow> components \<Rightarrow> components" where
  "merge_components new result =
     \<lparr>c_transforms = extend_map (c_transforms result) (c_transforms new), c_pcollections = extend_map (c_pcollections result) (c_pcollections new),
      c_windowing_strategies = extend_map (c_windowing_strategies result) (c_windowing_strategies new),
      c_coders = extend_map (c_coders result) (c_coders new), c_environments = extend_map (c_environments result) (c_environments new)\<rparr>"

text \<open>A \<open>TransformReplacement\<close>, and one round of the loop of \<open>update_transform\<close>.\<close>

type_synonym transform_replacement = "string \<Rightarrow> components \<Rightarrow> (components \<times> ptransform) option"

definition update_one :: "nat \<Rightarrow> string \<Rightarrow> transform_replacement \<Rightarrow> string \<Rightarrow> components \<Rightarrow> components translation option" where
  "update_one fuel urn replacement i comps =
     (case hm_get (c_transforms comps) i of
        None \<Rightarrow> Some (Ok comps)
      | Some t \<Rightarrow>
          if map_option spec_urn (pt_spec t) \<noteq> Some urn then Some (Ok comps)
          else (case replacement i comps of
                  None \<Rightarrow> Some (Ok comps)
                | Some (new, root) \<Rightarrow>
                    if \<not> hm_eq (pt_outputs root) (pt_outputs t) then Some Panic
                    else map_option (\<lambda>cleared.
                           let merged = merge_components new cleared
                           in Ok (merged\<lparr>c_transforms := hm_insert i root (c_transforms merged)\<rparr>))
                         (remove_subtransforms fuel (pt_subtransforms t) comps)))"

fun update_all :: "nat \<Rightarrow> string \<Rightarrow> transform_replacement \<Rightarrow> string list \<Rightarrow> components \<Rightarrow> components translation option" where
  "update_all fuel urn replacement [] comps = Some (Ok comps)"
| "update_all fuel urn replacement (i # is) comps =
     (case update_one fuel urn replacement i comps of
        Some (Ok comps') \<Rightarrow> update_all fuel urn replacement is comps'
      | r \<Rightarrow> r)"

definition update_transform :: "nat \<Rightarrow> string \<Rightarrow> transform_replacement \<Rightarrow> components \<Rightarrow> components translation option" where
  "update_transform fuel urn replacement comps = update_all fuel urn replacement (hm_keys (c_transforms comps)) comps"

section \<open>Maps and their extension\<close>

lemma extend_map_get: "hm_get (extend_map m kvs) k = (case map_of (rev kvs) k of Some v \<Rightarrow> Some v | None \<Rightarrow> hm_get m k)"
  unfolding extend_map_def
proof (induction kvs arbitrary: m)
  case (Cons kv kvs)
  then show ?case
    by (cases kv) (auto simp: map_add_def split: option.splits)
qed simp

lemma set_extend_map: "set (extend_map m kvs) \<subseteq> set kvs \<union> set m"
proof (induction kvs arbitrary: m)
  case (Cons kv kvs)
  obtain k v where kv: "kv = (k, v)"
    by (cases kv)
  have "extend_map m (kv # kvs) = extend_map (hm_insert k v m) kvs"
    by (simp add: extend_map_def kv)
  moreover have "set (hm_insert k v m) \<subseteq> insert (k, v) (set m)"
    by (induction m) auto
  ultimately show ?case
    using Cons.IH [of "hm_insert k v m"] by (auto simp: kv)
qed (simp add: extend_map_def)

lemma extend_map_fresh:
  "hm_get m k \<noteq> None \<Longrightarrow> (\<And>k'. k' \<in> set (hm_keys kvs) \<Longrightarrow> hm_get m k' = None) \<Longrightarrow> hm_get (extend_map m kvs) k = hm_get m k"
  by (auto simp: extend_map_get map_of_eq_None_iff split: option.split dest!: map_of_SomeD) (metis image_eqI fst_conv option.distinct(1))

lemma map_of_rev_wf: "hm_wf m \<Longrightarrow> map_of (rev m) = map_of m"
proof (induction m)
  case (Cons kv m)
  then have "fst kv \<notin> dom (map_of m)" "map_of (rev m) = map_of m"
    by (simp_all add: hm_wf_def dom_map_of_conv_image_fst)
  then show ?case
    by (cases kv) (auto simp: map_add_def fun_eq_iff domIff split: option.split)
qed simp

lemma extend_map_new:
  assumes "hm_wf kvs" and "hm_get kvs k = Some v"
  shows "hm_get (extend_map m kvs) k = Some v"
proof -
  have "map_of (rev kvs) = map_of kvs"
    by (rule map_of_rev_wf [OF assms(1)])
  then show ?thesis
    by (simp add: extend_map_get assms(2))
qed

lemma extend_map_empty: "hm_wf kvs \<Longrightarrow> hm_get (extend_map [] kvs) = hm_get kvs"
  by (rule ext) (simp add: extend_map_get map_of_rev_wf split: option.split)

section \<open>The expansion is a chain\<close>

lemma add_step_get [simp]:
  "hm_get (c_transforms (add_step e s st out)) = (hm_get (c_transforms out))(step_transform_id e s (step_name st) \<mapsto>
     make_sdf_sub_transform (step_urn st) (site_payload s) (step_inputs st) [(''out'', step_out_id e s (step_name st))]
       (pt_unique_name (site_transform s) @ ''/'' @ step_name st) (pt_environment_id (site_transform s)) e)"
  "hm_get (c_pcollections (add_step e s st out)) = (hm_get (c_pcollections out))(step_out_id e s (step_name st) \<mapsto>
     make_pcollection (step_coder_id e s (step_name st)) (site_input s) (pc_unique_name (site_input s) @ ''/'' @ step_name st) e)"
  "hm_wf (c_transforms out) \<Longrightarrow> hm_wf (c_transforms (add_step e s st out))"
  "hm_wf (c_pcollections out) \<Longrightarrow> hm_wf (c_pcollections (add_step e s st out))"
  by (simp_all add: add_step_def Let_def)

lemma add_process_get [simp]:
  "hm_get (c_transforms (add_process e s ins out)) = (hm_get (c_transforms out))(step_transform_id e s ''ProcessSizedElementsAndRestrictions'' \<mapsto>
     make_sdf_sub_transform SPLITTABLE_PROCESS_SIZED_ELEMENTS_AND_RESTRICTIONS_URN (site_payload s) ins (pt_outputs (site_transform s))
       (pt_unique_name (site_transform s) @ ''/ProcessSizedElementsAndRestrictions'') (pt_environment_id (site_transform s)) e)"
  "c_pcollections (add_process e s ins out) = c_pcollections out"
  "hm_wf (c_transforms out) \<Longrightarrow> hm_wf (c_transforms (add_process e s ins out))"
  by (simp_all add: add_process_def Let_def)

lemma double_coder_fields [simp]:
  "c_transforms (snd (get_or_add_double_coder e out)) = c_transforms out" "c_pcollections (snd (get_or_add_double_coder e out)) = c_pcollections out"
  by (simp_all add: get_or_add_double_coder_def Let_def split: option.split prod.split)

abbreviation sdf_names :: "string list" where
  "sdf_names \<equiv> [''PairWithRestriction'', ''SplitAndSize'', ''TruncateAndSize'', ''ProcessSizedElementsAndRestrictions'']"

lemma sdf_ids_distinct: "distinct (map (step_transform_id e s) sdf_names)" "distinct (map (step_out_id e s) sdf_names)"
proof -
  have "distinct (map (\<lambda>name. generate_unique_id (p @ ''/'' @ name) taken) sdf_names)" for p taken
  proof -
    obtain f where "\<And>name. generate_unique_id (p @ ''/'' @ name) taken = (p @ ''/'' @ name) @ show_nat (f name)"
      using generate_unique_id_candidate [of "p @ ''/'' @ _" taken] by metis
    then show ?thesis
      by simp
  qed
  then show "distinct (map (step_transform_id e s) sdf_names)" "distinct (map (step_out_id e s) sdf_names)"
    unfolding step_transform_id_def step_out_id_def by blast+
qed

text \<open>
  A chain of transforms from a PCollection to the outputs of the last one: each reads what
  the one before writes, and all read the side inputs.
\<close>

definition reads :: "ptransform \<Rightarrow> string \<Rightarrow> string \<Rightarrow> (string, string) hashmap \<Rightarrow> bool" where
  "reads t main p sides \<longleftrightarrow> hm_get (pt_inputs t) main = Some p \<and> (\<forall>(k, s) \<in> set sides. hm_get (pt_inputs t) k = Some s)"

fun sdf_chain :: "components \<Rightarrow> string \<Rightarrow> (string, string) hashmap \<Rightarrow> string \<Rightarrow> (string \<times> string) list \<Rightarrow> (string, string) hashmap \<Rightarrow> bool" where
  "sdf_chain c main sides p [] outs \<longleftrightarrow> False"
| "sdf_chain c main sides p [(i, urn)] outs \<longleftrightarrow>
     (\<exists>t. hm_get (c_transforms c) i = Some t \<and> map_option spec_urn (pt_spec t) = Some urn \<and> reads t main p sides \<and> hm_get (pt_outputs t) = hm_get outs)"
| "sdf_chain c main sides p ((i, urn) # x # xs) outs \<longleftrightarrow>
     (\<exists>t q. hm_get (c_transforms c) i = Some t \<and> map_option spec_urn (pt_spec t) = Some urn \<and> reads t main p sides \<and> pt_outputs t = [(''out'', q)]
        \<and> hm_get (c_pcollections c) q \<noteq> None \<and> sdf_chain c main sides q (x # xs) outs)"

definition sdf_urns :: "bool \<Rightarrow> string list" where
  "sdf_urns is_drain = [SPLITTABLE_PAIR_WITH_RESTRICTION_URN, SPLITTABLE_SPLIT_AND_SIZE_RESTRICTIONS_URN]
     @ (if is_drain then [SPLITTABLE_TRUNCATE_SIZED_RESTRICTION_URN] else []) @ [SPLITTABLE_PROCESS_SIZED_ELEMENTS_AND_RESTRICTIONS_URN]"

lemma sdf_chain_mono:
  assumes "sdf_chain c main sides p xs outs"
    and "\<And>i. i \<in> fst ` set xs \<Longrightarrow> hm_get (c_transforms c) i \<noteq> None \<Longrightarrow> hm_get (c_transforms c') i = hm_get (c_transforms c) i"
    and "\<And>q. hm_get (c_pcollections c) q \<noteq> None \<Longrightarrow> hm_get (c_pcollections c') q \<noteq> None"
  shows "sdf_chain c' main sides p xs outs"
  using assms
proof (induction c main sides p xs outs rule: sdf_chain.induct)
  case (3 c main sides p i urn x xs outs)
  obtain t q where t: "hm_get (c_transforms c) i = Some t" "map_option spec_urn (pt_spec t) = Some urn" "reads t main p sides"
    "pt_outputs t = [(''out'', q)]" "hm_get (c_pcollections c) q \<noteq> None" "sdf_chain c main sides q (x # xs) outs"
    using "3.prems"(1) by auto
  have "sdf_chain c' main sides q (x # xs) outs"
    by (rule "3.IH" [OF t(6)]) (use "3.prems"(2,3) in auto)
  moreover have "hm_get (c_transforms c') i = Some t" "hm_get (c_pcollections c') q \<noteq> None"
    using "3.prems"(2) [of i] "3.prems"(3) [OF t(5)] t(1) by auto
  ultimately show ?case
    using t(2,3,4) by auto
qed auto

lemma step_ids_fresh [simp]:
  "hm_get (c_transforms e) (step_transform_id e s name) = None" "hm_get (c_pcollections e) (step_out_id e s name) = None"
  using generate_unique_id_fresh [of "site_id s @ ''/'' @ name" "hm_keys (c_transforms e)"]
    generate_unique_id_fresh [of "site_input_id s @ ''/'' @ name" "hm_keys (c_pcollections e)"]
  by (simp_all add: step_transform_id_def step_out_id_def map_of_eq_None_iff)

abbreviation expansion_names :: "bool \<Rightarrow> string list" where
  "expansion_names is_drain \<equiv> [''PairWithRestriction'', ''SplitAndSize''] @ (if is_drain then [''TruncateAndSize''] else [])
     @ [''ProcessSizedElementsAndRestrictions'']"

lemma empty_components_fields [simp]:
  "c_transforms empty_components = []" "c_pcollections empty_components = []" "hm_wf []"
  by (simp_all add: empty_components_def hm_wf_def)

lemmas expand_site_simps = expand_site_def Let_def case_prod_unfold

lemma expand_site_root:
  "snd (expand_site is_drain e s rc main sides) = (site_transform s)\<lparr>pt_spec := None,
     pt_subtransforms := map (step_transform_id e s) (expansion_names is_drain)\<rparr>"
  by (simp add: expand_site_simps)

lemma expand_site_wf:
  "hm_wf (c_transforms (fst (expand_site is_drain e s rc main sides)))"
  "hm_wf (c_pcollections (fst (expand_site is_drain e s rc main sides)))"
  by (simp_all add: expand_site_simps)

lemma expand_site_keys:
  "hm_get (c_transforms (fst (expand_site is_drain e s rc main sides))) i \<noteq> None \<Longrightarrow> i \<in> set (map (step_transform_id e s) (expansion_names is_drain))"
  "hm_get (c_pcollections (fst (expand_site is_drain e s rc main sides))) p \<noteq> None \<Longrightarrow> \<exists>name. p = step_out_id e s name"
  by (auto simp: expand_site_simps split: if_splits)

lemma inputs_from_reads:
  assumes "main \<notin> fst ` set sides" and "hm_wf sides"
  shows "reads (make_sdf_sub_transform urn payload (extend_map [(main, p)] sides) outs prefix env e) main p sides"
proof -
  have "map_of (rev sides) = map_of sides"
    by (rule map_of_rev_wf [OF assms(2)])
  moreover have "map_of sides main = None"
    using assms(1) by (simp add: map_of_eq_None_iff)
  moreover have "map_of sides k = Some v" if "(k, v) \<in> set sides" for k v
    using that assms(2) by (simp add: hm_wf_def)
  ultimately show ?thesis
    by (auto simp: reads_def make_sdf_sub_transform_def extend_map_get)
qed

lemma expand_site_chain:
  assumes sides: "main \<notin> fst ` set sides" "hm_wf sides" and reads: "reads (site_transform s) main (site_input_id s) sides"
    and outs: "hm_wf (pt_outputs (site_transform s))"
  shows "sdf_chain (fst (expand_site is_drain e s rc main sides)) main sides (site_input_id s)
    (zip (map (step_transform_id e s) (expansion_names is_drain)) (sdf_urns is_drain)) (pt_outputs (site_transform s))"
proof -
  note d = sdf_ids_distinct [of e s, simplified]
  have first: "reads (make_sdf_sub_transform urn payload (pt_inputs (site_transform s)) os prefix env e) main (site_input_id s) sides" for urn payload os prefix env
    using reads by (simp add: reads_def make_sdf_sub_transform_def)
  have urn: "map_option spec_urn (pt_spec (make_sdf_sub_transform u payload ins os prefix env e)) = Some u"
    and one: "pt_outputs (make_sdf_sub_transform u payload ins [(''out'', q)] prefix env e) = [(''out'', q)]"
    and all: "hm_get (pt_outputs (make_sdf_sub_transform u payload ins (pt_outputs (site_transform s)) prefix env e)) = hm_get (pt_outputs (site_transform s))"
    for u payload ins os prefix env q
    using extend_map_empty [OF outs] by (simp_all add: make_sdf_sub_transform_def extend_map_def)
  show ?thesis
    by (cases is_drain) (use d in \<open>simp_all add: expand_site_simps sdf_urns_def first urn one all inputs_from_reads [OF sides] eq_commute\<close>)
qed

section \<open>Expanding a whole pipeline\<close>

definition restriction_payload :: "splittable_decoder \<Rightarrow> ptransform \<Rightarrow> splittable_payload option" where
  "restriction_payload dec t =
     Option.bind (pt_spec t) (\<lambda>spec. if spec_urn spec = PAR_DO_TRANSFORM
       then Option.bind (dec (spec_payload spec)) (\<lambda>payload. if pp_restriction_coder_id payload = [] then None else Some payload) else None)"

text \<open>
  What a submitted pipeline provides: maps have unique keys, a transform reads known
  PCollections, and a splittable ParDo is a primitive with a main input.
\<close>

definition transform_ok :: "splittable_decoder \<Rightarrow> components \<Rightarrow> ptransform \<Rightarrow> bool" where
  "transform_ok dec comps t \<longleftrightarrow>
     hm_wf (pt_inputs t) \<and> hm_wf (pt_outputs t) \<and> list_all (\<lambda>(_, p). hm_get (c_pcollections comps) p \<noteq> None) (pt_inputs t)
     \<and> (case restriction_payload dec t of None \<Rightarrow> True
        | Some payload \<Rightarrow> pt_subtransforms t = [] \<and> list_ex (\<lambda>(name, _). name \<notin> set (pp_side_inputs payload)) (pt_inputs t))"

definition pipeline_ok :: "splittable_decoder \<Rightarrow> components \<Rightarrow> bool" where
  "pipeline_ok dec comps \<longleftrightarrow> hm_wf (c_transforms comps) \<and> list_all (\<lambda>(_, t). transform_ok dec comps t) (c_transforms comps)"

definition main_input_of :: "splittable_payload \<Rightarrow> ptransform \<Rightarrow> string" where
  "main_input_of payload t = expander_main_input_name t (pardo_payload.truncate payload)"

definition sides_of :: "splittable_payload \<Rightarrow> ptransform \<Rightarrow> (string, string) hashmap" where
  "sides_of payload t = filter (\<lambda>(name, _). name \<in> set (pp_side_inputs payload)) (pt_inputs t)"

text \<open>The transform \<open>i\<close> of \<open>c\<close> is the expansion of \<open>t\<close>, made of transforms that are new to \<open>c0\<close>.\<close>

definition expanded :: "bool \<Rightarrow> components \<Rightarrow> components \<Rightarrow> string \<Rightarrow> ptransform \<Rightarrow> splittable_payload \<Rightarrow> bool" where
  "expanded is_drain c0 c i t payload \<longleftrightarrow>
     (\<exists>ids p. hm_get (c_transforms c) i = Some (t\<lparr>pt_spec := None, pt_subtransforms := ids\<rparr>) \<and> length ids = length (sdf_urns is_drain)
        \<and> distinct ids \<and> (\<forall>j \<in> set ids. hm_get (c_transforms c0) j = None) \<and> hm_get (pt_inputs t) (main_input_of payload t) = Some p
        \<and> sdf_chain c (main_input_of payload t) (sides_of payload t) p (zip ids (sdf_urns is_drain)) (pt_outputs t))"

definition update_inv :: "splittable_decoder \<Rightarrow> bool \<Rightarrow> components \<Rightarrow> string set \<Rightarrow> components \<Rightarrow> bool" where
  "update_inv dec is_drain c0 D c \<longleftrightarrow>
     (\<forall>i t. hm_get (c_transforms c0) i = Some t \<longrightarrow>
        (case restriction_payload dec t of
           Some payload \<Rightarrow> if i \<in> D then expanded is_drain c0 c i t payload else hm_get (c_transforms c) i = Some t
         | None \<Rightarrow> hm_get (c_transforms c) i = Some t))
     \<and> (\<forall>p. hm_get (c_pcollections c0) p \<noteq> None \<longrightarrow> hm_get (c_pcollections c) p = hm_get (c_pcollections c0) p)"

lemma truncate_side_inputs [simp]: "pp_side_inputs (pardo_payload.truncate payload) = pp_side_inputs payload"
  by (simp add: pardo_payload.truncate_def)

lemma main_input_spec:
  assumes "list_ex (\<lambda>(name, _). name \<notin> set (pp_side_inputs payload)) (pt_inputs t)"
  obtains p where "hm_get (pt_inputs t) (main_input_of payload t) = Some p" "main_input_of payload t \<notin> set (pp_side_inputs payload)"
proof -
  let ?P = "\<lambda>name. name \<notin> set (pp_side_inputs payload)"
  obtain a b where "(a, b) \<in> set (pt_inputs t)" and a: "?P a"
    using assms by (auto simp: list_ex_iff)
  then have "a \<in> set (hm_keys (pt_inputs t))"
    by force
  then have "find ?P (hm_keys (pt_inputs t)) \<noteq> None"
    using a by (simp only: find_None_iff) blast
  then obtain name where f: "find ?P (hm_keys (pt_inputs t)) = Some name"
    by blast
  then have "name \<in> fst ` set (pt_inputs t)" "?P name"
    by (auto simp: find_Some_iff)
  moreover have "main_input_of payload t = name"
    using f by (simp add: main_input_of_def expander_main_input_name_def)
  ultimately show thesis
    using that by (metis not_None_eq map_of_eq_None_iff)
qed

lemma sides_of_spec:
  assumes "hm_wf (pt_inputs t)"
  shows "hm_wf (sides_of payload t)" and "main \<notin> set (pp_side_inputs payload) \<Longrightarrow> main \<notin> fst ` set (sides_of payload t)"
    and "(k, s) \<in> set (sides_of payload t) \<Longrightarrow> hm_get (pt_inputs t) k = Some s"
  using assms by (auto simp: sides_of_def hm_wf_def distinct_map_filter)

lemma get_replacement_splittable:
  assumes pay: "restriction_payload dec t = Some payload" and t: "hm_get (c_transforms c) i = Some t"
    and p: "hm_get (pt_inputs t) (main_input_of payload t) = Some p" "hm_get (c_pcollections c) p = Some pcol"
  shows "\<exists>spec. pt_spec t = Some spec \<and> spec_urn spec = PAR_DO_TRANSFORM \<and> get_replacement dec is_drain i c = Some (expand_site is_drain c
    \<lparr>site_id = i, site_transform = t, site_payload = spec_payload spec, site_input_id = p, site_input = pcol\<rparr>
    (pp_restriction_coder_id payload) (main_input_of payload t) (sides_of payload t))"
  using pay p by (auto simp: restriction_payload_def get_replacement_def t main_input_of_def sides_of_def Let_def bind_eq_Some_conv split: if_splits)

lemma get_replacement_other:
  assumes "restriction_payload dec t = None" and "hm_get (c_transforms c) i = Some t" and "map_option spec_urn (pt_spec t) = Some PAR_DO_TRANSFORM"
  shows "get_replacement dec is_drain i c = None"
  using assms by (auto simp: restriction_payload_def get_replacement_def bind_eq_Some_conv split: if_splits option.splits Option.bind_splits)

lemma update_inv_known:
  assumes "update_inv dec is_drain c0 D c" and "hm_get (c_transforms c) j = None"
  shows "hm_get (c_transforms c0) j = None"
proof (rule ccontr)
  assume "hm_get (c_transforms c0) j \<noteq> None"
  then obtain t where t: "hm_get (c_transforms c0) j = Some t"
    by blast
  show False
    using assms t unfolding update_inv_def expanded_def
    by (cases "restriction_payload dec t"; cases "j \<in> D") (fastforce split: option.splits)+
qed

lemma expanded_mono:
  assumes "expanded is_drain c0 c j t payload" and "hm_get (c_transforms c0) j \<noteq> None" and "j \<noteq> i" and "hm_get (c_transforms c0) i \<noteq> None"
    and T: "\<And>k. k \<noteq> i \<Longrightarrow> hm_get (c_transforms c) k \<noteq> None \<Longrightarrow> hm_get (c_transforms c') k = hm_get (c_transforms c) k"
    and P: "\<And>p. hm_get (c_pcollections c) p \<noteq> None \<Longrightarrow> hm_get (c_pcollections c') p = hm_get (c_pcollections c) p"
  shows "expanded is_drain c0 c' j t payload"
proof -
  obtain ids p where ids: "hm_get (c_transforms c) j = Some (t\<lparr>pt_spec := None, pt_subtransforms := ids\<rparr>)" "length ids = length (sdf_urns is_drain)"
    "distinct ids" "\<forall>k \<in> set ids. hm_get (c_transforms c0) k = None" "hm_get (pt_inputs t) (main_input_of payload t) = Some p"
    and chain: "sdf_chain c (main_input_of payload t) (sides_of payload t) p (zip ids (sdf_urns is_drain)) (pt_outputs t)"
    using assms(1) unfolding expanded_def by blast
  have "sdf_chain c' (main_input_of payload t) (sides_of payload t) p (zip ids (sdf_urns is_drain)) (pt_outputs t)"
  proof (rule sdf_chain_mono [OF chain])
    fix k
    assume "k \<in> fst ` set (zip ids (sdf_urns is_drain))" "hm_get (c_transforms c) k \<noteq> None"
    moreover from this have "k \<noteq> i"
      using ids(4) assms(4) by (auto dest: set_zip_leftD)
    ultimately show "hm_get (c_transforms c') k = hm_get (c_transforms c) k"
      by (intro T)
  qed (simp add: P)
  moreover have "hm_get (c_transforms c') j = Some (t\<lparr>pt_spec := None, pt_subtransforms := ids\<rparr>)"
    using T [OF assms(3)] ids(1) by simp
  ultimately show ?thesis
    using ids(2-5) unfolding expanded_def by blast
qed

text \<open>The result of replacing one splittable ParDo.\<close>

definition replaced :: "components \<Rightarrow> string \<Rightarrow> components \<times> ptransform \<Rightarrow> components" where
  "replaced c i new_root =
     (let merged = merge_components (fst new_root) c in merged\<lparr>c_transforms := hm_insert i (snd new_root) (c_transforms merged)\<rparr>)"

lemma replaced_spec:
  assumes site: "site_id s = i" "hm_get (c_transforms c) i = Some t" and r: "r = expand_site is_drain c s rc main sides"
  shows "hm_get (c_transforms (replaced c i r)) i = Some (snd r)"
    and "k \<noteq> i \<Longrightarrow> hm_get (c_transforms c) k \<noteq> None \<Longrightarrow> hm_get (c_transforms (replaced c i r)) k = hm_get (c_transforms c) k"
    and "hm_get (c_pcollections c) p \<noteq> None \<Longrightarrow> hm_get (c_pcollections (replaced c i r)) p = hm_get (c_pcollections c) p"
    and "hm_get (c_transforms (fst r)) k = Some u \<Longrightarrow> hm_get (c_transforms (replaced c i r)) k = Some u"
    and "hm_get (c_pcollections (fst r)) p = Some q \<Longrightarrow> hm_get (c_pcollections (replaced c i r)) p = Some q"
proof -
  note f = replaced_def Let_def merge_components_def
  have fresh: "hm_get (c_transforms c) k = None" if "hm_get (c_transforms (fst r)) k \<noteq> None" for k
    using expand_site_keys(1) [of is_drain c s rc main sides k] that unfolding r by auto
  have freshp: "hm_get (c_pcollections c) p = None" if "hm_get (c_pcollections (fst r)) p \<noteq> None" for p
    using expand_site_keys(2) [of is_drain c s rc main sides p] that unfolding r by auto
  have wf: "hm_wf (c_transforms (fst r))" "hm_wf (c_pcollections (fst r))"
    unfolding r by (rule expand_site_wf)+
  show "hm_get (c_transforms (replaced c i r)) i = Some (snd r)"
    by (simp add: f)
  show "hm_get (c_transforms (replaced c i r)) k = hm_get (c_transforms c) k" if "k \<noteq> i" "hm_get (c_transforms c) k \<noteq> None"
    using extend_map_fresh [OF that(2), of "c_transforms (fst r)"] fresh that(1) by (simp add: f map_of_eq_None_iff)
  show "hm_get (c_pcollections (replaced c i r)) p = hm_get (c_pcollections c) p" if "hm_get (c_pcollections c) p \<noteq> None"
    using extend_map_fresh [OF that, of "c_pcollections (fst r)"] freshp by (simp add: f map_of_eq_None_iff)
  show "hm_get (c_transforms (replaced c i r)) k = Some u" if k: "hm_get (c_transforms (fst r)) k = Some u"
  proof -
    have "k \<noteq> i"
      using fresh [of k] k site(2) by auto
    then show ?thesis
      using extend_map_new [OF wf(1) k] by (simp add: f)
  qed
  show "hm_get (c_pcollections (replaced c i r)) p = Some q" if "hm_get (c_pcollections (fst r)) p = Some q"
    using extend_map_new [OF wf(2) that] by (simp add: f)
qed

lemma update_inv_step:
  assumes inv: "update_inv dec is_drain c0 D c" and i: "hm_get (c_transforms c0) i = Some t" and pay: "restriction_payload dec t = Some payload"
    and mine: "expanded is_drain c0 c' i t payload"
    and T: "\<And>k. k \<noteq> i \<Longrightarrow> hm_get (c_transforms c) k \<noteq> None \<Longrightarrow> hm_get (c_transforms c') k = hm_get (c_transforms c) k"
    and P: "\<And>p. hm_get (c_pcollections c) p \<noteq> None \<Longrightarrow> hm_get (c_pcollections c') p = hm_get (c_pcollections c) p"
  shows "update_inv dec is_drain c0 (insert i D) c'"
  unfolding update_inv_def
proof (intro conjI allI impI, goal_cases)
  case (1 j u)
  show ?case
  proof (cases "j = i")
    case True
    then show ?thesis
      using 1 i pay mine by simp
  next
    case False
    have old: "case restriction_payload dec u of
        Some payload \<Rightarrow> if j \<in> D then expanded is_drain c0 c j u payload else hm_get (c_transforms c) j = Some u
      | None \<Rightarrow> hm_get (c_transforms c) j = Some u"
      using inv 1 unfolding update_inv_def by blast
    have "expanded is_drain c0 c' j u pl" if "expanded is_drain c0 c j u pl" for pl
      by (rule expanded_mono [OF that _ False _ T P]) (simp_all add: 1 i)
    then show ?thesis
      using old T [OF False] False by (auto split: option.splits if_splits)
  qed
next
  case (2 q)
  then show ?case
    using inv P [of q] unfolding update_inv_def by auto
qed

lemma update_one_inv:
  assumes ok: "pipeline_ok dec c0" and inv: "update_inv dec is_drain c0 D c" and i: "hm_get (c_transforms c0) i = Some t" "i \<notin> D"
  obtains c' where "update_one (Suc n) PAR_DO_TRANSFORM (get_replacement dec is_drain) i c = Some (Ok c')" "update_inv dec is_drain c0 (insert i D) c'"
    "c' = c \<or> (\<exists>s rc main sides. site_id s = i \<and> site_transform s = t \<and> c' = replaced c i (expand_site is_drain c s rc main sides))"
proof -
  have t: "hm_get (c_transforms c) i = Some t"
    using inv i unfolding update_inv_def by (auto split: option.splits if_splits)
  have tok: "transform_ok dec c0 t"
    using ok hm_get_mem [OF i(1)] by (auto simp: pipeline_ok_def list_all_iff)
  show thesis
  proof (cases "restriction_payload dec t")
    case None
    have "update_one (Suc n) PAR_DO_TRANSFORM (get_replacement dec is_drain) i c = Some (Ok c)"
      using get_replacement_other [OF None t] by (auto simp: update_one_def t)
    moreover have "update_inv dec is_drain c0 (insert i D) c"
      unfolding update_inv_def
    proof (intro conjI allI impI, goal_cases)
      case (1 j u)
      show ?case
      proof (cases "j = i")
        case True
        then show ?thesis
          using 1 i(1) None t by simp
      next
        case False
        then have "j \<in> insert i D \<longleftrightarrow> j \<in> D"
          by simp
        then show ?thesis
          using inv 1 unfolding update_inv_def by presburger
      qed
    next
      case (2 q)
      then show ?case
        using inv unfolding update_inv_def by blast
    qed
    ultimately show thesis
      using that by blast
  next
    case (Some payload)
    have wf: "hm_wf (pt_inputs t)" "hm_wf (pt_outputs t)" and subs: "pt_subtransforms t = []"
      and main: "list_ex (\<lambda>(name, _). name \<notin> set (pp_side_inputs payload)) (pt_inputs t)"
      using tok Some by (simp_all add: transform_ok_def)
    obtain p where p: "hm_get (pt_inputs t) (main_input_of payload t) = Some p" and notside: "main_input_of payload t \<notin> set (pp_side_inputs payload)"
      by (rule main_input_spec [OF main])
    have "hm_get (c_pcollections c0) p \<noteq> None"
      using tok hm_get_mem [OF p] by (auto simp: transform_ok_def list_all_iff)
    then obtain pcol where pcol: "hm_get (c_pcollections c) p = Some pcol"
      using inv unfolding update_inv_def by auto
    obtain spec where spec: "pt_spec t = Some spec" "spec_urn spec = PAR_DO_TRANSFORM" and repl: "get_replacement dec is_drain i c = Some (expand_site is_drain c
        \<lparr>site_id = i, site_transform = t, site_payload = spec_payload spec, site_input_id = p, site_input = pcol\<rparr>
        (pp_restriction_coder_id payload) (main_input_of payload t) (sides_of payload t))"
      using get_replacement_splittable [OF Some t p pcol] by blast
    define s where "s = \<lparr>site_id = i, site_transform = t, site_payload = spec_payload spec, site_input_id = p, site_input = pcol\<rparr>"
    define r where "r = expand_site is_drain c s (pp_restriction_coder_id payload) (main_input_of payload t) (sides_of payload t)"
    have s: "site_id s = i" "site_transform s = t" "site_input_id s = p"
      by (simp_all add: s_def)
    let ?ids = "map (step_transform_id c s) (expansion_names is_drain)"
    have root: "snd r = t\<lparr>pt_spec := None, pt_subtransforms := ?ids\<rparr>"
      unfolding r_def expand_site_root s(2) by simp
    have step: "update_one (Suc n) PAR_DO_TRANSFORM (get_replacement dec is_drain) i c = Some (Ok (replaced c i r))"
      using repl unfolding s_def [symmetric] r_def [symmetric]
      by (cases r) (use root in \<open>simp add: update_one_def t spec subs hm_eq_def replaced_def Let_def list_all_iff\<close>)
    note R = replaced_spec [OF s(1) t r_def]
    have fresh0: "hm_get (c_transforms c0) j = None" if "j \<in> set ?ids" for j
      by (rule update_inv_known [OF inv]) (use that in \<open>auto split: if_splits\<close>)
    have "reads t (main_input_of payload t) p (sides_of payload t)"
      using p sides_of_spec(3) [OF wf(1)] by (auto simp: reads_def)
    then have chain: "sdf_chain (fst r) (main_input_of payload t) (sides_of payload t) p (zip ?ids (sdf_urns is_drain)) (pt_outputs t)"
      unfolding r_def by (rule expand_site_chain [OF sides_of_spec(2) [OF wf(1) notside] sides_of_spec(1) [OF wf(1)], of s, unfolded s]) (rule wf(2))
    have "sdf_chain (replaced c i r) (main_input_of payload t) (sides_of payload t) p (zip ?ids (sdf_urns is_drain)) (pt_outputs t)"
      by (rule sdf_chain_mono [OF chain]) (use R(4,5) in auto)
    moreover have "distinct ?ids" "length ?ids = length (sdf_urns is_drain)"
      using sdf_ids_distinct(1) [of c s] by (auto simp: sdf_urns_def)
    ultimately have "expanded is_drain c0 (replaced c i r) i t payload"
      unfolding expanded_def using R(1) root p fresh0 by metis
    then have "update_inv dec is_drain c0 (insert i D) (replaced c i r)"
      by (rule update_inv_step [OF inv i(1) Some _ R(2,3)])
    then show thesis
      using that [OF step] s(1,2) r_def by blast
  qed
qed

lemma update_all_inv:
  assumes "pipeline_ok dec c0" and "update_inv dec is_drain c0 D c" and "\<forall>i \<in> set is. hm_get (c_transforms c0) i \<noteq> None \<and> i \<notin> D" and "distinct is"
  shows "\<exists>c'. update_all (Suc n) PAR_DO_TRANSFORM (get_replacement dec is_drain) is c = Some (Ok c') \<and> update_inv dec is_drain c0 (D \<union> set is) c'"
  using assms
proof (induction "is" arbitrary: D c)
  case (Cons i "is")
  then obtain t where t: "hm_get (c_transforms c0) i = Some t" "i \<notin> D"
    by auto
  obtain c1 where c1: "update_one (Suc n) PAR_DO_TRANSFORM (get_replacement dec is_drain) i c = Some (Ok c1)" "update_inv dec is_drain c0 (insert i D) c1"
    by (rule update_one_inv [OF Cons.prems(1,2) t])
  show ?case
    using Cons.IH [OF Cons.prems(1) c1(2)] Cons.prems(3,4) c1(1) by auto
qed simp

lemma expand_site_outputs:
  assumes "hm_get (c_transforms (fst (expand_site is_drain e s rc main sides))) j = Some u" and "(k, p) \<in> set (pt_outputs u)"
  shows "hm_get (c_pcollections (fst (expand_site is_drain e s rc main sides))) p \<noteq> None \<or> (k, p) \<in> set (pt_outputs (site_transform s))"
proof -
  have made: "(k, p) \<in> set outs" if "(k, p) \<in> set (pt_outputs (make_sdf_sub_transform urn payload ins outs prefix env e))" for urn payload ins outs prefix env
    using subsetD [OF set_extend_map, of _ "[]"] that by (auto simp: make_sdf_sub_transform_def)
  show ?thesis
    using assms by (cases is_drain) (auto simp: expand_site_simps dest: made split: if_splits)
qed

lemma replaced_outputs:
  assumes known: "outputs_known c" and s: "site_id s = i" "site_transform s = t" and t: "hm_get (c_transforms c) i = Some t"
  shows "outputs_known (replaced c i (expand_site is_drain c s rc main sides))"
proof -
  define r where "r = expand_site is_drain c s rc main sides"
  note R = replaced_spec [OF s(1) t r_def]
  have old: "hm_get (c_pcollections (replaced c i r)) p \<noteq> None" if "(j, u) \<in> set (c_transforms c)" "(k, p) \<in> set (pt_outputs u)" for j u k p
    using known that R(3) [of p] unfolding outputs_known_def by fastforce
  have "hm_get (c_pcollections (replaced c i r)) p \<noteq> None" if u: "(j, u) \<in> set (c_transforms (replaced c i r))" and kp: "(k, p) \<in> set (pt_outputs u)" for j u k p
  proof -
    have "set (hm_insert i (snd r) m) \<subseteq> insert (i, snd r) (set m)" for m
      by (induction m) auto
    then consider "(j, u) = (i, snd r)" | "(j, u) \<in> set (c_transforms (fst r))" | "(j, u) \<in> set (c_transforms c)"
      using u set_extend_map [of "c_transforms c" "c_transforms (fst r)"] by (fastforce simp: replaced_def merge_components_def Let_def)
    then show ?thesis
    proof cases
      case 1
      then have "(k, p) \<in> set (pt_outputs t)"
        using kp by (simp add: r_def expand_site_root s(2))
      then show ?thesis
        by (rule old [OF hm_get_mem [OF t]])
    next
      case 2
      then have "hm_get (c_transforms (fst r)) j = Some u"
        using expand_site_wf(1) by (simp add: r_def hm_wf_def)
      from expand_site_outputs [OF this [unfolded r_def] kp] show ?thesis
        using R(5) [of p] old [OF hm_get_mem [OF t], of k p] unfolding r_def [symmetric] s(2) by auto
    next
      case 3
      then show ?thesis
        by (rule old [OF _ kp])
    qed
  qed
  then show ?thesis
    unfolding outputs_known_def r_def by blast
qed

lemma update_all_outputs:
  assumes "update_all (Suc n) PAR_DO_TRANSFORM (get_replacement dec is_drain) is c = Some (Ok c')"
    and "pipeline_ok dec c0" and "update_inv dec is_drain c0 D c" and "\<forall>i \<in> set is. hm_get (c_transforms c0) i \<noteq> None \<and> i \<notin> D" and "distinct is" and "outputs_known c"
  shows "outputs_known c'"
  using assms
proof (induction "is" arbitrary: D c)
  case (Cons i "is")
  then obtain t where t: "hm_get (c_transforms c0) i = Some t" "i \<notin> D"
    by auto
  obtain c1 where c1: "update_one (Suc n) PAR_DO_TRANSFORM (get_replacement dec is_drain) i c = Some (Ok c1)" "update_inv dec is_drain c0 (insert i D) c1"
    and how: "c1 = c \<or> (\<exists>s rc main sides. site_id s = i \<and> site_transform s = t \<and> c1 = replaced c i (expand_site is_drain c s rc main sides))"
    by (rule update_one_inv [OF Cons.prems(2,3) t])
  have ti: "hm_get (c_transforms c) i = Some t"
    using Cons.prems(3) t unfolding update_inv_def by (auto split: option.splits if_splits)
  have "outputs_known c1"
    using how replaced_outputs [OF Cons.prems(6) _ _ ti] Cons.prems(6) by blast
  then show ?case
    using Cons.IH [OF _ Cons.prems(2) c1(2)] Cons.prems(1,4,5) c1(1) by auto
qed simp

lemma update_inv_start: "update_inv dec is_drain comps {} comps"
  by (simp add: update_inv_def split: option.split)

lemma keys_ready: "pipeline_ok dec comps \<Longrightarrow> distinct (hm_keys (c_transforms comps)) \<and> (\<forall>i \<in> set (hm_keys (c_transforms comps)). hm_get (c_transforms comps) i \<noteq> None \<and> i \<notin> {})"
  by (auto simp: pipeline_ok_def hm_wf_def map_of_eq_None_iff)

lemma expansion_keeps_outputs:
  assumes "pipeline_ok dec comps" and "outputs_known comps" and "update_transform (Suc n) PAR_DO_TRANSFORM (get_replacement dec is_drain) comps = Some (Ok comps')"
  shows "outputs_known comps'"
  using update_all_outputs [OF assms(3) [unfolded update_transform_def] assms(1) update_inv_start _ _ assms(2)] keys_ready [OF assms(1)] by blast

section \<open>Properties\<close>

text \<open>
  C15: expanding the splittable ParDos of a pipeline always succeeds, and it does what it
  is meant to: a transform that is not a splittable ParDo stays as it is, and a splittable
  ParDo becomes a composite of new transforms that form a chain (pair with restriction,
  split and size, in drain mode truncate, process) from its main input to its outputs,
  each link with its side inputs. Transforms read known PCollections, and a splittable
  ParDo has no subtransforms and an input that is not a side input.
\<close>

theorem splittable_pardos_expanded:
  assumes "pipeline_ok dec comps"
  shows "\<exists>comps'. update_transform (Suc n) PAR_DO_TRANSFORM (get_replacement dec is_drain) comps = Some (Ok comps')
    \<and> (\<forall>i t. hm_get (c_transforms comps) i = Some t \<longrightarrow>
         (case restriction_payload dec t of
            None \<Rightarrow> hm_get (c_transforms comps') i = Some t
          | Some payload \<Rightarrow> expanded is_drain comps comps' i t payload))"
proof -
  obtain comps' where c: "update_transform (Suc n) PAR_DO_TRANSFORM (get_replacement dec is_drain) comps = Some (Ok comps')"
    and inv: "update_inv dec is_drain comps (set (hm_keys (c_transforms comps))) comps'"
    using update_all_inv [OF assms update_inv_start, of "hm_keys (c_transforms comps)" n is_drain] keys_ready [OF assms]
    unfolding update_transform_def by auto
  have "case restriction_payload dec t of None \<Rightarrow> hm_get (c_transforms comps') i = Some t | Some payload \<Rightarrow> expanded is_drain comps comps' i t payload"
    if t: "hm_get (c_transforms comps) i = Some t" for i t
  proof -
    have "i \<in> set (hm_keys (c_transforms comps))"
      using hm_get_keys [OF t] by simp
    moreover have "case restriction_payload dec t of
        Some payload \<Rightarrow> if i \<in> set (hm_keys (c_transforms comps)) then expanded is_drain comps comps' i t payload else hm_get (c_transforms comps') i = Some t
      | None \<Rightarrow> hm_get (c_transforms comps') i = Some t"
      using inv t unfolding update_inv_def by blast
    ultimately show ?thesis
      by (auto split: option.splits)
  qed
  then show ?thesis
    using c by blast
qed

text \<open>A pipeline with a splittable ParDo \<open>r\<close>, which reads \<open>p\<close> and a side input \<open>q\<close>, and an ordinary one.\<close>

definition sdf_pardo :: "string \<Rightarrow> bytes \<Rightarrow> (string, string) hashmap \<Rightarrow> (string, string) hashmap \<Rightarrow> string \<times> ptransform" where
  "sdf_pardo name payload ins outs = (name, \<lparr>pt_unique_name = name, pt_spec = Some \<lparr>spec_urn = PAR_DO_TRANSFORM, spec_payload = payload\<rparr>,
     pt_inputs = ins, pt_outputs = outs, pt_subtransforms = [], pt_environment_id = ''e''\<rparr>)"

definition sdf_decoder :: splittable_decoder where
  "sdf_decoder bs = Some \<lparr>pp_side_inputs = (if bs = [1] then [''side''] else []), pp_state_specs = [], pp_timer_family_specs = [],
     pp_requires_time_sorted_input = False, pp_restriction_coder_id = (if bs = [] then [] else ''rc'')\<rparr>"

definition sdf_pipeline :: components where
  "sdf_pipeline =
     \<lparr>c_transforms = [sample_transform ''i'' IMPULSE_TRANSFORM [] [''p''], sample_transform ''j'' IMPULSE_TRANSFORM [] [''q''],
        sdf_pardo ''r'' [1] [(''side'', ''q''), (''in'', ''p'')] [(''main'', ''s'')], sdf_pardo ''t'' [] [(''in'', ''s'')] [(''main'', ''u'')]],
      c_pcollections = map sample_collection [''p'', ''q'', ''s'', ''u''],
      c_windowing_strategies = [], c_coders = [], c_environments = [(''e'', sample_env)]\<rparr>"

theorem splittable_pardos_expanded_witness:
  "\<exists>comps' payload. update_transform 1 PAR_DO_TRANSFORM (get_replacement sdf_decoder False) sdf_pipeline = Some (Ok comps')
    \<and> expanded False sdf_pipeline comps' ''r'' (the (hm_get (c_transforms sdf_pipeline) ''r'')) payload
    \<and> hm_get (c_transforms comps') ''t'' = hm_get (c_transforms sdf_pipeline) ''t''"
proof -
  have ok: "pipeline_ok sdf_decoder sdf_pipeline"
    by code_simp
  obtain payload where r: "restriction_payload sdf_decoder (the (hm_get (c_transforms sdf_pipeline) ''r'')) = Some payload"
    "hm_get (c_transforms sdf_pipeline) ''r'' = Some (the (hm_get (c_transforms sdf_pipeline) ''r''))"
    by (simp add: sdf_pipeline_def sdf_pardo_def sample_transform_def restriction_payload_def sdf_decoder_def)
  obtain t where t: "hm_get (c_transforms sdf_pipeline) ''t'' = Some t" "restriction_payload sdf_decoder t = None"
    by (simp add: sdf_pipeline_def sdf_pardo_def sample_transform_def restriction_payload_def sdf_decoder_def)
  obtain comps' where c: "update_transform (Suc 0) PAR_DO_TRANSFORM (get_replacement sdf_decoder False) sdf_pipeline = Some (Ok comps')"
    and all: "\<forall>i t. hm_get (c_transforms sdf_pipeline) i = Some t \<longrightarrow>
         (case restriction_payload sdf_decoder t of
            None \<Rightarrow> hm_get (c_transforms comps') i = Some t
          | Some payload \<Rightarrow> expanded False sdf_pipeline comps' i t payload)"
    using splittable_pardos_expanded [OF ok, of 0 False] by blast
  have "expanded False sdf_pipeline comps' ''r'' (the (hm_get (c_transforms sdf_pipeline) ''r'')) payload"
    using all [rule_format, OF r(2)] r(1) by simp
  moreover have "hm_get (c_transforms comps') ''t'' = hm_get (c_transforms sdf_pipeline) ''t''"
    using all [rule_format, OF t(1)] t by simp
  ultimately show ?thesis
    using c by auto
qed

end
