(* ===== verification/Watermark_Refresh.thy ===== *)
theory Watermark_Refresh
  imports Watermark
begin

text \<open>
  Watermark propagation: \<open>WatermarkManager::refresh\<close> of \<open>engine/watermark.rs\<close>, the
  functions it calls, and \<open>release_empty_input_holds\<close>. The loop of the source is a
  \<open>function\<close> whose termination is proved from a potential: what is left between the
  watermarks and the maximal timestamp. The lemmas show that the loop computes the least
  stable assignment of watermarks above the current one, whatever order the stages are
  visited in.
\<close>

section \<open>One stage\<close>

definition upstream :: "watermark_manager \<Rightarrow> pcollection_id \<Rightarrow> int" where
  "upstream m p =
     (case hm_get (producers m) p of
        None \<Rightarrow> MIN_TIMESTAMP
      | Some stage \<Rightarrow>
          (case hm_get (stages m) stage of None \<Rightarrow> MIN_TIMESTAMP | Some s \<Rightarrow> output_wm s))"

definition compute_input :: "watermark_manager \<Rightarrow> stage_state \<Rightarrow> int" where
  "compute_input m s =
     (if is_source s then MAX_TIMESTAMP
      else fold (\<lambda>i wm. min wm (upstream m i)) (main_inputs s @ side_inputs s) MAX_TIMESTAMP)"

definition base_output :: "watermark_manager \<Rightarrow> stage_state \<Rightarrow> int" where
  "base_output m s =
     (case source s of
        Some src \<Rightarrow> source_output src
      | None \<Rightarrow>
          min (fold (\<lambda>i wm. min wm (upstream m i)) (main_inputs s) MAX_TIMESTAMP) (pending_min s))"

definition compute_output :: "watermark_manager \<Rightarrow> stage_state \<Rightarrow> int" where
  "compute_output m s =
     (let w1 = base_output m s;
          w2 = (if \<not> completed s \<and> (in_flight s > 0 \<or> queued s > 0)
                then min w1 (watermark_at_last_run s) else w1);
          w3 = (if pending_empty s \<noteq> {} then min w2 MIN_TIMESTAMP else w2)
      in (case stage_min_hold s of None \<Rightarrow> w3 | Some h \<Rightarrow> min w3 h))"

section \<open>The loop\<close>

text \<open>The body of the inner \<open>for\<close> loop: the new watermarks are computed from the state
  before either is written, and each is written only when it advances.\<close>

definition advance_stage :: "watermark_manager \<Rightarrow> stage_state \<Rightarrow> stage_state" where
  "advance_stage m s =
     s\<lparr>input_wm := max (input_wm s) (compute_input m s),
       output_wm := max (output_wm s) (compute_output m s)\<rparr>"

definition stage_moves :: "watermark_manager \<Rightarrow> stage_state \<Rightarrow> bool" where
  "stage_moves m s \<longleftrightarrow> compute_input m s > input_wm s \<or> compute_output m s > output_wm s"

fun refresh_pass ::
  "stage_id list \<Rightarrow> watermark_manager \<Rightarrow> stage_id list \<Rightarrow> bool
   \<Rightarrow> watermark_manager \<times> stage_id list \<times> bool" where
  "refresh_pass [] m advanced changed = (m, advanced, changed)"
| "refresh_pass (sid # ids) m advanced changed =
     (case hm_get (stages m) sid of
        None \<Rightarrow> refresh_pass ids m advanced changed
      | Some s \<Rightarrow>
          if stage_moves m s
          then refresh_pass ids (m\<lparr>stages := hm_insert sid (advance_stage m s) (stages m)\<rparr>)
                 (List.insert sid advanced) True
          else refresh_pass ids m advanced changed)"

subsection \<open>Bounds and termination\<close>

lemma source_output_le: "source_output s \<le> MAX_TIMESTAMP"
proof -
  have "fold (\<lambda>p wm. if pw_idle p then wm else min wm (pw_watermark p)) ps a \<le> a" for ps :: "partition_watermark list" and a :: int
    by (induction ps arbitrary: a) (auto intro: order_trans [OF _ min.cobounded1])
  then show ?thesis
    by (simp add: source_output_def)
qed

lemma compute_input_le: "compute_input m s \<le> MAX_TIMESTAMP"
  by (simp add: compute_input_def fold_min_le_start del: fold_append)

lemma base_output_le: "base_output m s \<le> MAX_TIMESTAMP"
  using fold_min_le_start [of "upstream m" "main_inputs s" MAX_TIMESTAMP]
  by (auto simp: base_output_def source_output_le split: option.split)

lemma compute_output_le_base: "compute_output m s \<le> base_output m s"
  by (auto simp: compute_output_def Let_def split: option.split)

lemma compute_output_le: "compute_output m s \<le> MAX_TIMESTAMP"
  using compute_output_le_base base_output_le by (rule order_trans)

text \<open>The potential: the distance of all watermarks to the maximal timestamp.\<close>

definition headroom :: "stage_state \<Rightarrow> nat" where
  "headroom s = nat (MAX_TIMESTAMP - input_wm s) + nat (MAX_TIMESTAMP - output_wm s)"

definition potential :: "watermark_manager \<Rightarrow> nat" where
  "potential m = sum_list (map (headroom \<circ> snd) (stages m))"

lemma headroom_advance: "stage_moves m s \<Longrightarrow> headroom (advance_stage m s) < headroom s"
  using compute_input_le [of m s] compute_output_le [of m s]
  by (auto simp: stage_moves_def headroom_def advance_stage_def)

lemma sum_list_hm_insert:
  "hm_get al k = Some v \<Longrightarrow>
   sum_list (map (f \<circ> snd) (hm_insert k v' al)) + f v = sum_list (map (f \<circ> snd) al) + (f v' :: nat)"
  by (induction al) (auto split: if_splits)

lemma potential_advance:
  assumes "hm_get (stages m) sid = Some s" and "stage_moves m s"
  shows "potential (m\<lparr>stages := hm_insert sid (advance_stage m s) (stages m)\<rparr>) < potential m"
  using sum_list_hm_insert [OF assms(1), of headroom "advance_stage m s"] headroom_advance [OF assms(2)]
  by (simp add: potential_def)

lemma refresh_pass_potential:
  "refresh_pass ids m adv ch = (m', adv', ch') \<Longrightarrow>
   potential m' \<le> potential m \<and> (ch' \<and> \<not> ch \<longrightarrow> potential m' < potential m)"
proof (induction ids m adv ch rule: refresh_pass.induct)
  case (2 sid ids m advanced changed)
  then show ?case
    using potential_advance [of m sid] by (fastforce split: option.splits if_splits)
qed simp

function refresh_loop ::
  "stage_id list \<Rightarrow> watermark_manager \<Rightarrow> stage_id list \<Rightarrow> watermark_manager \<times> stage_id list" where
  "refresh_loop ids m advanced =
     (case refresh_pass ids m advanced False of
        (m', advanced', changed) \<Rightarrow>
          if changed then refresh_loop ids m' advanced' else (m', advanced'))"
  by pat_completeness auto
termination
  by (relation "measure (\<lambda>(ids, m, advanced). potential m)")
    (auto dest: refresh_pass_potential [OF sym])

declare refresh_loop.simps [simp del]

text \<open>\<open>WatermarkManager::refresh\<close>: the new manager and the sorted ids of the stages that moved.\<close>

definition refresh :: "watermark_manager \<Rightarrow> watermark_manager \<times> stage_id list" where
  "refresh m = (case refresh_loop (stage_ids m) m [] of (m', advanced) \<Rightarrow> (m', sort advanced))"

definition release_empty_stage :: "stage_state \<Rightarrow> stage_state" where
  "release_empty_stage s =
     (if pending_empty s \<noteq> {}
      then s\<lparr>pending_empty := {},
             unproduced_side_inputs :=
               unproduced_side_inputs s - {i \<in> pending_empty s. i \<in> set (side_inputs s)}\<rparr>
      else s)"

definition release_empty_input_holds :: "watermark_manager \<Rightarrow> watermark_manager \<times> nat" where
  "release_empty_input_holds m =
     (let released = length (filter (\<lambda>(_, s). pending_empty s \<noteq> {}) (stages m));
          m1 = m\<lparr>stages := hm_map_values (\<lambda>_. release_empty_stage) (stages m)\<rparr>
      in (if released > 0 then fst (refresh m1) else m1, released))"

definition global_window_completion_watermark :: "int \<Rightarrow> int" where
  "global_window_completion_watermark allowed_lateness =
     min (saturating_add GLOBAL_WINDOW_MAX_TIMESTAMP_MILLIS allowed_lateness) MAX_TIMESTAMP"


section \<open>Fixpoint\<close>

text \<open>
  Two managers are ordered when they differ at most in their watermarks and every
  watermark of the second is at least that of the first. A manager is stable when no
  stage can move.
\<close>

definition same_config :: "stage_state \<Rightarrow> stage_state \<Rightarrow> bool" where
  "same_config s t \<longleftrightarrow> t = s\<lparr>input_wm := input_wm t, output_wm := output_wm t\<rparr>"

definition stage_le :: "stage_state \<Rightarrow> stage_state \<Rightarrow> bool" where
  "stage_le s t \<longleftrightarrow> same_config s t \<and> input_wm s \<le> input_wm t \<and> output_wm s \<le> output_wm t"

definition wm_le :: "watermark_manager \<Rightarrow> watermark_manager \<Rightarrow> bool" where
  "wm_le m m' \<longleftrightarrow>
     producers m' = producers m \<and> consumers m' = consumers m
     \<and> side_input_consumers m' = side_input_consumers m \<and> hm_keys (stages m') = hm_keys (stages m)
     \<and> (\<forall>sid. rel_option stage_le (hm_get (stages m) sid) (hm_get (stages m') sid))"

definition wm_stable :: "watermark_manager \<Rightarrow> bool" where
  "wm_stable m \<longleftrightarrow> (\<forall>sid s. hm_get (stages m) sid = Some s \<longrightarrow> \<not> stage_moves m s)"

lemma same_config_fields:
  assumes "same_config s t"
  shows "main_inputs t = main_inputs s" "side_inputs t = side_inputs s" "outputs t = outputs s"
    "source t = source s" "watermark_holds t = watermark_holds s"
    "residual_holds t = residual_holds s" "unproduced t = unproduced s"
    "unproduced_side_inputs t = unproduced_side_inputs s" "pending t = pending s"
    "pending_min t = pending_min s" "in_flight t = in_flight s" "queued t = queued s"
    "max_in_flight t = max_in_flight s" "completed t = completed s"
    "rerun_pending t = rerun_pending s" "kind t = kind s"
    "time_sorted_input_closed t = time_sorted_input_closed s"
    "required_watermark t = required_watermark s"
    "watermark_at_last_run t = watermark_at_last_run s" "pending_empty t = pending_empty s"
  using assms by (cases s; cases t; simp add: same_config_def)+

lemma same_config_min_hold: "same_config s t \<Longrightarrow> stage_min_hold t = stage_min_hold s"
  by (simp add: stage_min_hold_def same_config_fields)

lemma stage_le_refl [simp]: "stage_le s s"
  by (simp add: stage_le_def same_config_def)

lemma stage_le_trans: "stage_le s t \<Longrightarrow> stage_le t u \<Longrightarrow> stage_le s u"
  by (cases s; cases t; cases u) (simp add: stage_le_def same_config_def)

lemma stage_le_antisym: "stage_le s t \<Longrightarrow> stage_le t s \<Longrightarrow> s = t"
  by (cases s; cases t) (simp add: stage_le_def same_config_def)

lemma wm_le_refl [simp]: "wm_le m m"
  by (simp add: wm_le_def option.rel_refl)

lemma rel_option_stage_le_trans:
  "rel_option stage_le a b \<Longrightarrow> rel_option stage_le b c \<Longrightarrow> rel_option stage_le a c"
  by (cases a; cases b; cases c) (auto intro: stage_le_trans)

lemma wm_le_trans: "wm_le m m' \<Longrightarrow> wm_le m' m'' \<Longrightarrow> wm_le m m''"
  unfolding wm_le_def by (metis rel_option_stage_le_trans)

lemma advance_stage_ge: "stage_le s (advance_stage m s)"
  by (simp add: stage_le_def same_config_def advance_stage_def)

lemma wm_le_stage: "wm_le m m' \<Longrightarrow> hm_get (stages m) sid = Some s \<Longrightarrow>
    \<exists>t. hm_get (stages m') sid = Some t \<and> stage_le s t"
  by (auto simp: wm_le_def option_rel_Some1 dest: spec [of _ sid])

lemma wm_le_absent: "wm_le m m' \<Longrightarrow> hm_get (stages m) sid = None \<Longrightarrow> hm_get (stages m') sid = None"
  unfolding wm_le_def by (metis option_rel_Some2 not_Some_eq option.distinct(1))

lemma upstream_mono:
  assumes "wm_le m m'"
  shows "upstream m p \<le> upstream m' p"
proof -
  have "producers m' = producers m"
    using assms by (simp add: wm_le_def)
  then show ?thesis
    using wm_le_stage [OF assms] wm_le_absent [OF assms]
    by (fastforce simp: upstream_def stage_le_def split: option.splits)
qed

lemma compute_input_mono:
  "wm_le m m' \<Longrightarrow> same_config s t \<Longrightarrow> compute_input m s \<le> compute_input m' t"
  by (auto simp: compute_input_def is_source_def same_config_fields upstream_mono
      intro!: fold_min_mono simp del: fold_append)

lemma base_output_mono:
  assumes "wm_le m m'" and "same_config s t"
  shows "base_output m s \<le> base_output m' t"
proof -
  have "fold (\<lambda>i wm. min wm (upstream m i)) (main_inputs s) MAX_TIMESTAMP
      \<le> fold (\<lambda>i wm. min wm (upstream m' i)) (main_inputs s) MAX_TIMESTAMP"
    by (intro fold_min_mono upstream_mono assms order_refl)
  then show ?thesis
    using assms(2) by (auto simp: base_output_def same_config_fields min_def split: option.split)
qed

lemma compute_output_mono:
  "wm_le m m' \<Longrightarrow> same_config s t \<Longrightarrow> compute_output m s \<le> compute_output m' t"
  using base_output_mono [of m m' s t]
  by (auto simp: compute_output_def Let_def same_config_fields same_config_min_hold min_def
      split: option.split)

lemma wm_le_advance:
  assumes "hm_get (stages m) sid = Some s"
  shows "wm_le m (m\<lparr>stages := hm_insert sid (advance_stage m s) (stages m)\<rparr>)"
  using assms by (auto simp: wm_le_def hm_keys_insert_present advance_stage_ge intro!: option.rel_refl)

lemma advance_below_stable:
  assumes "wm_le m M" and "wm_stable M" and "hm_get (stages m) sid = Some s"
  shows "wm_le (m\<lparr>stages := hm_insert sid (advance_stage m s) (stages m)\<rparr>) M"
proof -
  obtain t where t: "hm_get (stages M) sid = Some t" "stage_le s t"
    using wm_le_stage [OF assms(1,3)] by blast
  then have conf: "same_config s t"
    by (simp add: stage_le_def)
  have "compute_input m s \<le> input_wm t" "compute_output m s \<le> output_wm t"
    using assms(2) t(1) compute_input_mono [OF assms(1) conf] compute_output_mono [OF assms(1) conf]
    by (fastforce simp: wm_stable_def stage_moves_def)+
  then have "stage_le (advance_stage m s) t"
    using t(2) by (cases s; cases t) (simp add: stage_le_def same_config_def advance_stage_def)
  with assms t show ?thesis
    by (auto simp: wm_le_def hm_keys_insert_present)
qed

section \<open>The pass and the loop\<close>

lemma refresh_pass_ge: "refresh_pass ids m adv ch = (m', adv', ch') \<Longrightarrow> wm_le m m'"
proof (induction ids m adv ch rule: refresh_pass.induct)
  case (2 sid ids m advanced changed)
  then show ?case
    using wm_le_advance [of m sid] by (fastforce split: option.splits if_splits intro: wm_le_trans)
qed simp

lemma refresh_pass_below:
  "refresh_pass ids m adv ch = (m', adv', ch') \<Longrightarrow> wm_le m M \<Longrightarrow> wm_stable M \<Longrightarrow> wm_le m' M"
proof (induction ids m adv ch rule: refresh_pass.induct)
  case (2 sid ids m advanced changed)
  then show ?case
    using advance_below_stable [of m M sid] by (fastforce split: option.splits if_splits)
qed simp

lemma refresh_pass_changed: "refresh_pass ids m adv True = (m', adv', ch') \<Longrightarrow> ch'"
  by (induction ids m adv True rule: refresh_pass.induct) (auto split: option.splits if_splits)

text \<open>A pass that reports no change left the manager alone and met only stages that do not move.\<close>

lemma refresh_pass_unchanged:
  "refresh_pass ids m adv False = (m', adv', False) \<Longrightarrow>
   m' = m \<and> adv' = adv \<and> (\<forall>sid \<in> set ids. \<forall>s. hm_get (stages m) sid = Some s \<longrightarrow> \<not> stage_moves m s)"
proof (induction ids arbitrary: m adv)
  case (Cons sid ids)
  then show ?case
    by (auto split: option.splits if_splits dest: refresh_pass_changed)
qed simp

lemma refresh_loop_ge: "wm_le m (fst (refresh_loop ids m adv))"
proof (induction ids m adv rule: refresh_loop.induct)
  case (1 ids m adv)
  then show ?case
    by (subst refresh_loop.simps)
      (auto split: prod.splits dest: refresh_pass_ge intro: wm_le_trans)
qed

lemma refresh_loop_below:
  "wm_le m M \<Longrightarrow> wm_stable M \<Longrightarrow> wm_le (fst (refresh_loop ids m adv)) M"
proof (induction ids m adv rule: refresh_loop.induct)
  case (1 ids m adv)
  obtain m' adv' ch where pass: "refresh_pass ids m adv False = (m', adv', ch)"
    by (metis prod_cases3)
  with "1.prems" have "wm_le m' M"
    by (blast intro: refresh_pass_below)
  with 1 pass show ?case
    by (subst refresh_loop.simps) simp
qed

lemma refresh_loop_stable:
  "hm_keys (stages m) = ks \<Longrightarrow> set ks \<subseteq> set ids \<Longrightarrow> wm_stable (fst (refresh_loop ids m adv))"
proof (induction ids m adv rule: refresh_loop.induct)
  case (1 ids m adv)
  obtain m' adv' ch where pass: "refresh_pass ids m adv False = (m', adv', ch)"
    by (metis prod_cases3)
  show ?case
  proof (cases ch)
    case True
    have "hm_keys (stages m') = ks"
      using refresh_pass_ge [OF pass] "1.prems"(1) by (simp add: wm_le_def)
    with 1 True pass show ?thesis
      by (subst refresh_loop.simps) simp
  next
    case False
    have "sid \<in> set ids" if "hm_get (stages m) sid = Some s" for sid s
      using that "1.prems" by (force dest: map_of_SomeD)
    with pass False have "wm_stable m'"
      using refresh_pass_unchanged [of ids m adv m' adv'] by (auto simp: wm_stable_def)
    with pass False show ?thesis
      by (subst refresh_loop.simps) simp
  qed
qed

lemma stage_ids_set: "set (stage_ids m) = set (hm_keys (stages m))"
  by (simp add: stage_ids_def)

lemma refresh_ge: "wm_le m (fst (refresh m))"
  using refresh_loop_ge [of m "stage_ids m" "[]"] by (simp add: refresh_def case_prod_unfold)

lemma refresh_stable: "wm_stable (fst (refresh m))"
  using refresh_loop_stable [of m "hm_keys (stages m)" "stage_ids m" "[]"]
  by (simp add: refresh_def case_prod_unfold stage_ids_set)

lemma refresh_below: "wm_le m M \<Longrightarrow> wm_stable M \<Longrightarrow> wm_le (fst (refresh m)) M"
  using refresh_loop_below [of m M "stage_ids m" "[]"] by (simp add: refresh_def case_prod_unfold)

lemma refresh_of_stable: "wm_stable m \<Longrightarrow> refresh m = (m, [])"
proof -
  assume "wm_stable m"
  then have "refresh_pass ids m adv False = (m, adv, False)" for ids adv
    by (induction ids) (auto simp: wm_stable_def split: option.split)
  then show ?thesis
    by (simp add: refresh_def refresh_loop.simps)
qed

section \<open>The reported stages\<close>

text \<open>\<open>advanced\<close> collects exactly the stages that differ from the manager the loop started with.\<close>

definition reports_moved :: "watermark_manager \<Rightarrow> watermark_manager \<Rightarrow> stage_id list \<Rightarrow> bool" where
  "reports_moved m0 m adv \<longleftrightarrow>
     wm_le m0 m \<and> distinct adv
     \<and> (\<forall>sid. sid \<in> set adv \<longleftrightarrow> hm_get (stages m) sid \<noteq> hm_get (stages m0) sid)"

lemma advance_stage_moves: "stage_moves m s \<Longrightarrow> stage_le r s \<Longrightarrow> advance_stage m s \<noteq> r"
  by (cases s; cases r) (auto simp: stage_moves_def advance_stage_def stage_le_def same_config_def)

lemma reports_moved_advance:
  assumes "reports_moved m0 m adv" and "hm_get (stages m) sid = Some s" and "stage_moves m s"
  shows "reports_moved m0 (m\<lparr>stages := hm_insert sid (advance_stage m s) (stages m)\<rparr>) (List.insert sid adv)"
proof -
  have le: "wm_le m0 m"
    using assms(1) by (simp add: reports_moved_def)
  have "hm_get (stages m0) sid \<noteq> Some (advance_stage m s)"
    using wm_le_stage [OF le, of sid] advance_stage_moves [OF assms(3)] assms(2) by fastforce
  with assms le show ?thesis
    by (auto simp: reports_moved_def intro: wm_le_trans wm_le_advance)
qed

lemma refresh_pass_reports:
  "refresh_pass ids m adv ch = (m', adv', ch') \<Longrightarrow> reports_moved m0 m adv \<Longrightarrow> reports_moved m0 m' adv'"
proof (induction ids m adv ch rule: refresh_pass.induct)
  case (2 sid ids m advanced changed)
  then show ?case
    using reports_moved_advance [of m0 m advanced sid] by (fastforce split: option.splits if_splits)
qed simp

lemma refresh_loop_reports:
  "reports_moved m0 m adv \<Longrightarrow> case refresh_loop ids m adv of (m', adv') \<Rightarrow> reports_moved m0 m' adv'"
proof (induction ids m adv rule: refresh_loop.induct)
  case (1 ids m adv)
  obtain m' adv' ch where pass: "refresh_pass ids m adv False = (m', adv', ch)"
    by (metis prod_cases3)
  with "1.prems" have "reports_moved m0 m' adv'"
    by (blast intro: refresh_pass_reports)
  with 1 pass show ?case
    by (subst refresh_loop.simps) simp
qed

lemma refresh_reports:
  assumes "refresh m = (m', moved)"
  shows "sorted moved \<and> distinct moved
    \<and> (\<forall>sid. sid \<in> set moved \<longleftrightarrow> hm_get (stages m') sid \<noteq> hm_get (stages m) sid)"
proof -
  obtain m1 adv where loop: "refresh_loop (stage_ids m) m [] = (m1, adv)"
    by fastforce
  have "reports_moved m m []"
    by (simp add: reports_moved_def)
  from refresh_loop_reports [OF this, of "stage_ids m"] loop have rep: "reports_moved m m1 adv"
    by simp
  have eqs: "m' = m1" "moved = sort adv"
    using assms loop by (simp_all add: refresh_def)
  show ?thesis
    using rep by (simp add: eqs reports_moved_def)
qed

section \<open>Where the watermarks come from\<close>

text \<open>Along the loop a watermark is never above both its start and what the current state gives.\<close>

definition justified :: "watermark_manager \<Rightarrow> watermark_manager \<Rightarrow> bool" where
  "justified m0 m \<longleftrightarrow>
     (\<forall>sid s s0. hm_get (stages m) sid = Some s \<and> hm_get (stages m0) sid = Some s0 \<longrightarrow>
        input_wm s \<le> max (input_wm s0) (compute_input m s)
        \<and> output_wm s \<le> max (output_wm s0) (compute_output m s))"

lemma same_config_refl [simp]: "same_config s s"
  by (simp add: same_config_def)

lemma same_config_advance [simp]: "same_config s (advance_stage m s)"
  using advance_stage_ge by (simp add: stage_le_def)

lemma justified_advance:
  assumes just: "justified m0 m" and get: "hm_get (stages m) sid = Some s"
  shows "justified m0 (m\<lparr>stages := hm_insert sid (advance_stage m s) (stages m)\<rparr>)" (is "justified m0 ?m2")
proof -
  note le = wm_le_advance [OF get]
  have grow: "compute_input m r \<le> compute_input ?m2 t" "compute_output m r \<le> compute_output ?m2 t"
    if "same_config r t" for r t
    using compute_input_mono [OF le that] compute_output_mono [OF le that] by auto
  have new: "input_wm (advance_stage m s) \<le> max (input_wm s0) (compute_input ?m2 (advance_stage m s))
      \<and> output_wm (advance_stage m s) \<le> max (output_wm s0) (compute_output ?m2 (advance_stage m s))"
    if s0: "hm_get (stages m0) sid = Some s0" for s0
  proof -
    have "input_wm s \<le> max (input_wm s0) (compute_input m s)" "output_wm s \<le> max (output_wm s0) (compute_output m s)"
      using just get s0 by (auto simp: justified_def)
    moreover have "input_wm (advance_stage m s) = max (input_wm s) (compute_input m s)"
        "output_wm (advance_stage m s) = max (output_wm s) (compute_output m s)"
      by (simp_all add: advance_stage_def)
    ultimately show ?thesis
      using grow [OF same_config_advance, of s m] by linarith
  qed
  have old: "input_wm r \<le> max (input_wm s0) (compute_input ?m2 r)
      \<and> output_wm r \<le> max (output_wm s0) (compute_output ?m2 r)"
    if "hm_get (stages m) c = Some r" "hm_get (stages m0) c = Some s0" for c r s0
    using just that grow [OF same_config_refl, of r] by (fastforce simp: justified_def)
  show ?thesis
    unfolding justified_def using new old by (auto split: if_splits)
qed

lemma refresh_pass_justified:
  "refresh_pass ids m adv ch = (m', adv', ch') \<Longrightarrow> justified m0 m \<Longrightarrow> justified m0 m'"
proof (induction ids m adv ch rule: refresh_pass.induct)
  case (2 sid ids m advanced changed)
  then show ?case
    using justified_advance [of m0 m sid] by (fastforce split: option.splits if_splits)
qed simp

lemma refresh_loop_justified: "justified m0 m \<Longrightarrow> justified m0 (fst (refresh_loop ids m adv))"
proof (induction ids m adv rule: refresh_loop.induct)
  case (1 ids m adv)
  obtain m' adv' ch where pass: "refresh_pass ids m adv False = (m', adv', ch)"
    by (metis prod_cases3)
  with "1.prems" have "justified m0 m'"
    by (blast intro: refresh_pass_justified)
  with 1 pass show ?case
    by (subst refresh_loop.simps) simp
qed

lemma refresh_justified: "justified m (fst (refresh m))"
proof -
  have "justified m m"
    by (auto simp: justified_def)
  from refresh_loop_justified [OF this, of "stage_ids m" "[]"] show ?thesis
    by (simp add: refresh_def case_prod_unfold)
qed

lemma refresh_exact:
  assumes "refresh m = (m', moved)" and "hm_get (stages m) sid = Some s"
  obtains s' where "hm_get (stages m') sid = Some s'" "same_config s s'"
    "input_wm s' = max (input_wm s) (compute_input m' s')"
    "output_wm s' = max (output_wm s) (compute_output m' s')"
proof -
  have le: "wm_le m m'" and stable: "wm_stable m'" and just: "justified m m'"
    using refresh_ge [of m] refresh_stable [of m] refresh_justified [of m] assms(1) by simp_all
  obtain s' where s': "hm_get (stages m') sid = Some s'" "stage_le s s'"
    using wm_le_stage [OF le assms(2)] by blast
  have "\<not> stage_moves m' s'"
    using stable s'(1) by (simp add: wm_stable_def)
  then have "input_wm s' = max (input_wm s) (compute_input m' s')"
      "output_wm s' = max (output_wm s) (compute_output m' s')"
    using just s' assms(2) by (fastforce simp: justified_def stage_moves_def stage_le_def)+
  with s' that show thesis
    by (simp add: stage_le_def)
qed

end
