(* ===== verification/Watermark_Props.thy ===== *)
theory Watermark_Props
  imports Watermark_Refresh
begin

text \<open>
  The watermark manager as a state machine. \<open>wm_step\<close> has one rule per public operation
  that changes the manager; \<open>wm_inv\<close> is the invariant of its reachable states: the
  per-stage bookkeeping is consistent (\<open>stage_ok\<close>), the consumer indexes are exactly the
  stages' inputs (\<open>wiring_ok\<close>), a main input counts as produced only after a stage that
  outputs it has completed (\<open>produced_ok\<close>), and no watermark is ahead of the stages it is
  computed from (\<open>causal\<close>). The theory also holds the readiness results: what
  \<open>stage_is_ready\<close> decides on an acyclic wiring, and that a ready stage can be started.
\<close>

section \<open>The step relation\<close>

text \<open>
  A stage is added under a fresh id and its outputs have no other producer (a
  PCollection of a Beam pipeline is produced by exactly one transform, and the stage ids
  of an executable graph are distinct).
\<close>

inductive wm_step :: "watermark_manager \<Rightarrow> watermark_manager \<Rightarrow> bool" where
  add: "hm_get (stages m) stage = None \<Longrightarrow> \<forall>p \<in> set outs. hm_get (producers m) p = None
    \<Longrightarrow> wm_step m (add_stage stage mains sides outs m)"
| source_partition: "report_source_partition_watermark stage p t m = Ok m' \<Longrightarrow> wm_step m m'"
| source_watermark: "report_source_watermark stage t m = Ok m' \<Longrightarrow> wm_step m m'"
| source_idle: "set_source_partition_idle stage p b m = Ok m' \<Longrightarrow> wm_step m m'"
| source_finished: "report_source_finished stage m = Ok m' \<Longrightarrow> wm_step m m'"
| source_auto: "set_source_auto_finish stage b m = Ok m' \<Longrightarrow> wm_step m m'"
| hold: "add_hold stage t m = Ok m' \<Longrightarrow> wm_step m m'"
| event_time_holds: "wm_step m (set_event_time_holds hs m)"
| residual: "wm_step m (set_residual_holds hs m)"
| release: "release_hold stage t m = Ok m' \<Longrightarrow> wm_step m m'"
| set_kind: "set_stage_kind stage k m = Ok m' \<Longrightarrow> wm_step m m'"
| set_required: "set_required_watermark stage t m = Ok m' \<Longrightarrow> wm_step m m'"
| set_max: "set_max_in_flight stage n m = Ok m' \<Longrightarrow> wm_step m m'"
| enqueue: "enqueue_bundles stage n m = Ok m' \<Longrightarrow> wm_step m m'"
| rerun: "mark_rerun stage m = Ok m' \<Longrightarrow> wm_step m m'"
| start: "start_bundle stage m = Ok m' \<Longrightarrow> wm_step m m'"
| complete: "complete_bundle_with_min_and_input stage t n m = Ok (m', newly) \<Longrightarrow> wm_step m m'"
| advance: "refresh m = (m', moved) \<Longrightarrow> wm_step m m'"
| release_empty: "release_empty_input_holds m = (m', n) \<Longrightarrow> wm_step m m'"

inductive wm_reachable :: "watermark_manager \<Rightarrow> bool" where
  initial: "wm_reachable new_manager"
| step: "wm_reachable m \<Longrightarrow> wm_step m m' \<Longrightarrow> wm_reachable m'"

section \<open>The invariant\<close>

definition holds_ok :: "(int, nat) btreemap \<Rightarrow> bool" where
  "holds_ok h \<longleftrightarrow> bt_wf h \<and> (\<forall>c \<in> snd ` set h. 0 < c)"

definition stage_ok :: "stage_state \<Rightarrow> bool" where
  "stage_ok s \<longleftrightarrow>
     (source s \<noteq> None \<longleftrightarrow> main_inputs s = [])
     \<and> unproduced s \<subseteq> set (main_inputs s) \<and> unproduced_side_inputs s \<subseteq> set (side_inputs s)
     \<and> pending s \<subseteq> set (main_inputs s)
     \<and> pending_empty s \<subseteq> set (main_inputs s) \<union> set (side_inputs s)
     \<and> holds_ok (watermark_holds s) \<and> holds_ok (residual_holds s)
     \<and> MIN_TIMESTAMP \<le> input_wm s \<and> input_wm s \<le> MAX_TIMESTAMP
     \<and> MIN_TIMESTAMP \<le> output_wm s \<and> output_wm s \<le> MAX_TIMESTAMP
     \<and> watermark_at_last_run s \<le> input_wm s
     \<and> pending_min s \<le> MAX_TIMESTAMP \<and> (pending s = {} \<longrightarrow> pending_min s = MAX_TIMESTAMP)
     \<and> 0 < max_in_flight s
     \<and> (completed s \<or> 0 < in_flight s \<longrightarrow> unproduced s = {})"

definition wiring_ok :: "watermark_manager \<Rightarrow> bool" where
  "wiring_ok m \<longleftrightarrow>
     (\<forall>p c. c \<in> set (consumers_of (consumers m) p) \<longleftrightarrow>
        (\<exists>s. hm_get (stages m) c = Some s \<and> p \<in> set (main_inputs s)))
     \<and> (\<forall>p c. c \<in> set (consumers_of (side_input_consumers m) p) \<longleftrightarrow>
        (\<exists>s. hm_get (stages m) c = Some s \<and> p \<in> set (side_inputs s)))"

definition is_produced :: "watermark_manager \<Rightarrow> pcollection_id \<Rightarrow> bool" where
  "is_produced m p \<longleftrightarrow>
     (\<exists>c t. hm_get (stages m) c = Some t \<and> completed t \<and> p \<in> set (outputs t))"

definition produced_ok :: "watermark_manager \<Rightarrow> bool" where
  "produced_ok m \<longleftrightarrow>
     (\<forall>sid s. hm_get (stages m) sid = Some s \<longrightarrow>
        (\<forall>p \<in> set (main_inputs s) - unproduced s. is_produced m p))"

definition causal :: "watermark_manager \<Rightarrow> bool" where
  "causal m \<longleftrightarrow>
     (\<forall>sid s. hm_get (stages m) sid = Some s \<and> main_inputs s \<noteq> [] \<longrightarrow>
        (\<forall>p \<in> set (main_inputs s) \<union> set (side_inputs s). input_wm s \<le> upstream m p)
        \<and> (\<forall>p \<in> set (main_inputs s). output_wm s \<le> upstream m p))"

definition wm_inv :: "watermark_manager \<Rightarrow> bool" where
  "wm_inv m \<longleftrightarrow>
     hm_wf (stages m) \<and> (\<forall>sid s. hm_get (stages m) sid = Some s \<longrightarrow> stage_ok s)
     \<and> wiring_ok m \<and> produced_ok m \<and> causal m"

section \<open>Operations that leave the watermarks alone\<close>

text \<open>
  All operations but \<open>add_stage\<close> and the two that call \<open>refresh\<close> rewrite stages in place:
  \<open>stage_evolves P\<close> says what such a rewrite may do to a stage when only the PCollections
  \<open>P\<close> have newly been produced.
\<close>

definition stage_evolves :: "pcollection_id set \<Rightarrow> stage_state \<Rightarrow> stage_state \<Rightarrow> bool" where
  "stage_evolves P s t \<longleftrightarrow>
     main_inputs t = main_inputs s \<and> side_inputs t = side_inputs s \<and> outputs t = outputs s
     \<and> input_wm t = input_wm s \<and> output_wm t = output_wm s
     \<and> (completed s \<longrightarrow> completed t) \<and> (completed t \<longrightarrow> completed s \<or> set (outputs s) \<subseteq> P)
     \<and> unproduced t \<subseteq> unproduced s \<and> unproduced s - unproduced t \<subseteq> P
     \<and> (stage_ok s \<longrightarrow> stage_ok t)"

definition evolves :: "pcollection_id set \<Rightarrow> watermark_manager \<Rightarrow> watermark_manager \<Rightarrow> bool" where
  "evolves P m m' \<longleftrightarrow>
     producers m' = producers m \<and> consumers m' = consumers m
     \<and> side_input_consumers m' = side_input_consumers m \<and> hm_keys (stages m') = hm_keys (stages m)
     \<and> (\<forall>sid. rel_option (stage_evolves P) (hm_get (stages m) sid) (hm_get (stages m') sid))"

lemma stage_evolves_refl [simp]: "stage_evolves P s s"
  by (simp add: stage_evolves_def)

lemma stage_evolves_trans: "stage_evolves P s t \<Longrightarrow> stage_evolves P t u \<Longrightarrow> stage_evolves P s u"
  by (auto simp: stage_evolves_def)

lemma stage_evolves_mono: "stage_evolves P s t \<Longrightarrow> P \<subseteq> Q \<Longrightarrow> stage_evolves Q s t"
  unfolding stage_evolves_def by blast

lemma evolves_refl [simp]: "evolves P m m"
  by (simp add: evolves_def option.rel_refl)

lemma rel_option_stage_evolves_trans:
  "rel_option (stage_evolves P) a b \<Longrightarrow> rel_option (stage_evolves P) b c
   \<Longrightarrow> rel_option (stage_evolves P) a c"
  by (cases a; cases b; cases c) (auto intro: stage_evolves_trans)

lemma evolves_trans: "evolves P m m' \<Longrightarrow> evolves P m' m'' \<Longrightarrow> evolves P m m''"
  unfolding evolves_def by (metis rel_option_stage_evolves_trans)

lemma evolves_mono: "evolves P m m' \<Longrightarrow> P \<subseteq> Q \<Longrightarrow> evolves Q m m'"
  unfolding evolves_def by (metis option.rel_mono_strong stage_evolves_mono)

lemma evolves_insert:
  assumes "hm_get (stages m) stage = Some s" and "stage_evolves P s t"
  shows "evolves P m (m\<lparr>stages := hm_insert stage t (stages m)\<rparr>)"
  using assms by (auto simp: evolves_def hm_keys_insert_present intro!: option.rel_refl)

lemma evolves_map_values:
  "(\<And>sid s. hm_get (stages m) sid = Some s \<Longrightarrow> stage_evolves P s (f sid s))
   \<Longrightarrow> evolves P m (m\<lparr>stages := hm_map_values f (stages m)\<rparr>)"
  by (auto simp: evolves_def option_rel_Some1 rel_option_iff split: option.split)

lemma evolves_stage: "evolves P m m' \<Longrightarrow> hm_get (stages m) sid = Some s \<Longrightarrow>
    \<exists>t. hm_get (stages m') sid = Some t \<and> stage_evolves P s t"
  by (auto simp: evolves_def option_rel_Some1 dest: spec [of _ sid])

lemma evolves_stage_back: "evolves P m m' \<Longrightarrow> hm_get (stages m') sid = Some t \<Longrightarrow>
    \<exists>s. hm_get (stages m) sid = Some s \<and> stage_evolves P s t"
  by (auto simp: evolves_def option_rel_Some2 dest: spec [of _ sid])

lemma evolves_absent: "evolves P m m' \<Longrightarrow> hm_get (stages m') sid = None \<longleftrightarrow> hm_get (stages m) sid = None"
  using evolves_stage [of P m m' sid] evolves_stage_back [of P m m' sid] by fastforce

subsection \<open>Rewrites preserve the invariant\<close>

lemma case_option_output:
  "(case x of None \<Rightarrow> d | Some s \<Rightarrow> output_wm s) = (case map_option output_wm x of None \<Rightarrow> d | Some w \<Rightarrow> w)"
  by (cases x) auto

lemma evolves_upstream:
  assumes "evolves P m m'"
  shows "upstream m' p = upstream m p"
proof -
  have prod: "producers m' = producers m"
    using assms by (simp add: evolves_def)
  have "map_option output_wm (hm_get (stages m') c) = map_option output_wm (hm_get (stages m) c)" for c
  proof (cases "hm_get (stages m) c")
    case None
    then show ?thesis
      using evolves_absent [OF assms] by simp
  next
    case (Some s)
    then show ?thesis
      using evolves_stage [OF assms Some] by (auto simp: stage_evolves_def)
  qed
  then show ?thesis
    by (simp add: upstream_def prod case_option_output split: option.split)
qed

lemma evolves_is_produced: "evolves P m m' \<Longrightarrow> is_produced m p \<Longrightarrow> is_produced m' p"
  unfolding is_produced_def by (fastforce dest: evolves_stage simp: stage_evolves_def)

lemma evolves_wiring:
  assumes "evolves P m m'" and "wiring_ok m"
  shows "wiring_ok m'"
proof -
  have "(\<exists>s. hm_get (stages m') c = Some s \<and> p \<in> set (main_inputs s))
      \<longleftrightarrow> (\<exists>s. hm_get (stages m) c = Some s \<and> p \<in> set (main_inputs s))"
    and "(\<exists>s. hm_get (stages m') c = Some s \<and> p \<in> set (side_inputs s))
      \<longleftrightarrow> (\<exists>s. hm_get (stages m) c = Some s \<and> p \<in> set (side_inputs s))" for c p
    using evolves_stage [OF assms(1), of c] evolves_stage_back [OF assms(1), of c]
    by (fastforce simp: stage_evolves_def)+
  with assms show ?thesis
    by (simp add: wiring_ok_def evolves_def)
qed

lemma evolves_produced_ok:
  assumes "evolves P m m'" and "produced_ok m" and "\<forall>p \<in> P. is_produced m' p"
  shows "produced_ok m'"
  unfolding produced_ok_def
proof (intro allI impI ballI)
  fix sid t p
  assume get: "hm_get (stages m') sid = Some t" and p: "p \<in> set (main_inputs t) - unproduced t"
  obtain s where s: "hm_get (stages m) sid = Some s" "stage_evolves P s t"
    using evolves_stage_back [OF assms(1) get] by blast
  show "is_produced m' p"
  proof (cases "p \<in> unproduced s")
    case True
    with s(2) p have "p \<in> P"
      by (auto simp: stage_evolves_def)
    with assms(3) show ?thesis
      by blast
  next
    case False
    with s p assms(2) have "is_produced m p"
      by (fastforce simp: stage_evolves_def produced_ok_def)
    with assms(1) show ?thesis
      by (rule evolves_is_produced)
  qed
qed

lemma evolves_causal:
  assumes "evolves P m m'" and "causal m"
  shows "causal m'"
  using evolves_stage_back [OF assms(1)] assms(2)
  by (fastforce simp: causal_def evolves_upstream [OF assms(1)] stage_evolves_def)

lemma evolves_inv:
  assumes "evolves P m m'" and "wm_inv m" and "\<forall>p \<in> P. is_produced m' p"
  shows "wm_inv m'"
proof -
  have "hm_wf (stages m')"
    using assms(1,2) by (simp add: wm_inv_def hm_wf_def evolves_def)
  moreover have "stage_ok t" if "hm_get (stages m') sid = Some t" for sid t
    using evolves_stage_back [OF assms(1) that] assms(2) by (auto simp: wm_inv_def stage_evolves_def)
  ultimately show ?thesis
    using assms evolves_wiring [OF assms(1)] evolves_produced_ok [OF assms(1)] evolves_causal [OF assms(1)]
    by (simp add: wm_inv_def)
qed

subsection \<open>Each operation is such a rewrite\<close>

lemma stage_mut_evolves:
  "stage_mut stage f m = Ok m' \<Longrightarrow> (\<And>s. stage_evolves P s (f s)) \<Longrightarrow> evolves P m m'"
  by (auto simp: stage_mut_def intro: evolves_insert split: option.splits)

lemma source_mut_evolves: "source_mut stage f m = Ok m' \<Longrightarrow> evolves P m m'"
proof -
  have "stage_evolves P s (s\<lparr>source := Some src\<rparr>)" if "source s \<noteq> None" for s :: stage_state and src
    using that by (auto simp: stage_evolves_def stage_ok_def dest: subsetD)
  then show "source_mut stage f m = Ok m' \<Longrightarrow> evolves P m m'"
    by (auto simp: source_mut_def intro!: evolves_insert split: option.splits)
qed

lemma holds_ok_Nil [simp]: "holds_ok []"
  by (simp add: holds_ok_def)

lemma snd_set_bt_insert: "snd ` set (bt_insert k v h) \<subseteq> insert v (snd ` set h)"
  by (induction h) auto

lemma holds_ok_insert: "holds_ok h \<Longrightarrow> 0 < c \<Longrightarrow> holds_ok (bt_insert t c h)"
  unfolding holds_ok_def using snd_set_bt_insert [of t c h] by (metis bt_wf_insert insert_iff subset_iff)

lemma holds_ok_add [simp]: "holds_ok h \<Longrightarrow> holds_ok (hold_add t h)"
  by (auto simp: hold_add_def intro!: holds_ok_insert split: option.split)

lemma holds_ok_release [simp]: "holds_ok h \<Longrightarrow> holds_ok (hold_release t h)"
proof -
  assume h: "holds_ok h"
  then have "holds_ok (bt_remove t h)"
    using set_bt_remove [of t h] by (auto simp: holds_ok_def)
  with h show ?thesis
    by (auto simp: hold_release_def intro: holds_ok_insert split: option.split)
qed

lemma holds_ok_from [simp]: "holds_ok (holds_from hs stage)"
proof -
  have "holds_ok h \<Longrightarrow> holds_ok (fold hold_add ts h)" for ts h
    by (induction ts arbitrary: h) auto
  then show ?thesis
    by (simp add: holds_from_def split: option.split)
qed

lemma stage_setter_evolves:
  "add_hold stage t m = Ok m' \<Longrightarrow> evolves {} m m'"
  "release_hold stage t m = Ok m' \<Longrightarrow> evolves {} m m'"
  "set_stage_kind stage k m = Ok m' \<Longrightarrow> evolves {} m m'"
  "set_required_watermark stage t m = Ok m' \<Longrightarrow> evolves {} m m'"
  "set_max_in_flight stage n m = Ok m' \<Longrightarrow> evolves {} m m'"
  "enqueue_bundles stage n m = Ok m' \<Longrightarrow> evolves {} m m'"
  "mark_rerun stage m = Ok m' \<Longrightarrow> evolves {} m m'"
  unfolding add_hold_def release_hold_def set_stage_kind_def set_required_watermark_def
    set_max_in_flight_def enqueue_bundles_def mark_rerun_def
  by (erule stage_mut_evolves, simp add: stage_evolves_def stage_ok_def less_max_iff_disj)+

lemma source_setter_evolves:
  "report_source_partition_watermark stage p t m = Ok m' \<Longrightarrow> evolves {} m m'"
  "report_source_watermark stage t m = Ok m' \<Longrightarrow> evolves {} m m'"
  "set_source_partition_idle stage p b m = Ok m' \<Longrightarrow> evolves {} m m'"
  "report_source_finished stage m = Ok m' \<Longrightarrow> evolves {} m m'"
  "set_source_auto_finish stage b m = Ok m' \<Longrightarrow> evolves {} m m'"
  unfolding report_source_partition_watermark_def report_source_watermark_def
    set_source_partition_idle_def report_source_finished_def set_source_auto_finish_def
  by (erule source_mut_evolves)+

lemma holds_setter_evolves:
  "evolves {} m (set_event_time_holds hs m)" "evolves {} m (set_residual_holds hs m)"
  unfolding set_event_time_holds_def set_residual_holds_def
  by (rule evolves_map_values, simp add: stage_evolves_def stage_ok_def)+

lemmas setter_evolves = stage_setter_evolves source_setter_evolves holds_setter_evolves

lemma start_bundle_evolves: "start_bundle stage m = Ok m' \<Longrightarrow> evolves P m m'"
  by (auto simp: start_bundle_def start_stage_def Let_def stage_evolves_def stage_ok_def
      intro!: evolves_insert split: option.splits if_splits)

lemma release_empty_evolves: "evolves P m (m\<lparr>stages := hm_map_values (\<lambda>_. release_empty_stage) (stages m)\<rparr>)"
  by (intro evolves_map_values) (auto simp: release_empty_stage_def stage_evolves_def stage_ok_def)

lemma wake_main_evolves:
  "p \<in> set (main_inputs s) \<Longrightarrow> stage_evolves {p} s (wake_main p no_rows min_ts s)"
  by (auto simp: wake_main_def Let_def stage_evolves_def stage_ok_def split: option.split)

lemma wake_side_evolves:
  "p \<in> set (side_inputs s) \<Longrightarrow> stage_evolves {p} s (wake_side p no_rows s)"
  by (auto simp: wake_side_def stage_evolves_def stage_ok_def)

lemma modify_stage_evolves:
  "(\<And>s. hm_get (stages m) c = Some s \<Longrightarrow> stage_evolves P s (f s)) \<Longrightarrow> evolves P m (modify_stage c f m)"
  by (auto simp: modify_stage_def intro: evolves_insert split: option.split)

lemma wake_consumers_evolves:
  assumes "\<And>m' c s. evolves P m m' \<Longrightarrow> c \<in> set cs \<Longrightarrow> hm_get (stages m') c = Some s \<Longrightarrow> stage_evolves P s (f s)"
    and "wake_consumers f cs m newly = Some (m2, newly2)"
  shows "evolves P m m2"
  using assms
proof (induction cs arbitrary: m newly)
  case (Cons c cs)
  have first: "evolves P m (modify_stage c f m)"
    using Cons.prems(1) [OF evolves_refl] by (auto intro: modify_stage_evolves)
  obtain newly' where "wake_consumers f cs (modify_stage c f m) newly' = Some (m2, newly2)"
    using Cons.prems(2) by (auto simp: Let_def split: option.splits)
  then have "evolves P (modify_stage c f m) m2"
    using Cons.prems(1) evolves_trans [OF first] by (intro Cons.IH) auto
  with first show ?case
    by (rule evolves_trans)
qed simp

lemma wiring_main:
  "wiring_ok m \<Longrightarrow> evolves P m m' \<Longrightarrow> c \<in> set (consumers_of (consumers m) p) \<Longrightarrow>
   hm_get (stages m') c = Some s \<Longrightarrow> p \<in> set (main_inputs s)"
  by (drule (1) evolves_wiring [rotated]) (auto simp: wiring_ok_def evolves_def)

lemma wiring_side:
  "wiring_ok m \<Longrightarrow> evolves P m m' \<Longrightarrow> c \<in> set (consumers_of (side_input_consumers m) p) \<Longrightarrow>
   hm_get (stages m') c = Some s \<Longrightarrow> p \<in> set (side_inputs s)"
  by (drule (1) evolves_wiring [rotated]) (auto simp: wiring_ok_def evolves_def)

lemma wake_main_consumers_evolves:
  "wiring_ok m \<Longrightarrow> wake_consumers (wake_main p no_rows min_ts) (consumers_of (consumers m) p) m newly = Some (m', newly')
   \<Longrightarrow> evolves {p} m m'"
  by (rule wake_consumers_evolves [of _ _ "consumers_of (consumers m) p"])
    (auto intro: wake_main_evolves wiring_main)

lemma wake_side_consumers_evolves:
  "wiring_ok m \<Longrightarrow> wake_consumers (wake_side p no_rows) (consumers_of (side_input_consumers m) p) m newly = Some (m', newly')
   \<Longrightarrow> evolves {p} m m'"
  by (rule wake_consumers_evolves [of _ _ "consumers_of (side_input_consumers m) p"])
    (auto intro: wake_side_evolves wiring_side)

lemma propagate_outputs_evolves:
  "wiring_ok m \<Longrightarrow> propagate_outputs ps no_rows min_ts m newly = Some (m', newly') \<Longrightarrow> evolves (set ps) m m'"
proof (induction ps arbitrary: m newly)
  case (Cons p ps)
  obtain m1 n1 where w1: "wake_consumers (wake_main p no_rows min_ts) (consumers_of (consumers m) p) m newly = Some (m1, n1)"
    using Cons.prems(2) by (auto split: option.splits)
  obtain m2 n2 where w2: "wake_consumers (wake_side p no_rows) (consumers_of (side_input_consumers m1) p) m1 n1 = Some (m2, n2)"
    and rest: "propagate_outputs ps no_rows min_ts m2 n2 = Some (m', newly')"
    using Cons.prems(2) w1 by (auto split: option.splits)
  note e1 = wake_main_consumers_evolves [OF Cons.prems(1) w1]
  note wir1 = evolves_wiring [OF e1 Cons.prems(1)]
  note e2 = wake_side_consumers_evolves [OF wir1 w2]
  note e3 = Cons.IH [OF evolves_wiring [OF e2 wir1] rest]
  have "evolves {p} m m2"
    by (rule evolves_trans [OF e1 e2])
  then have "evolves (set (p # ps)) m m2" "evolves (set (p # ps)) m2 m'"
    using e3 by (auto elim: evolves_mono)
  then show ?case
    by (rule evolves_trans)
qed simp

lemma complete_bundle_split:
  assumes "complete_bundle_with_min_and_input stage t n m = Ok (m', newly)"
  obtains s b ts newly' where "hm_get (stages m) stage = Some s" "0 < in_flight s"
    "propagate_outputs (outputs s) b ts
       (m\<lparr>stages := hm_insert stage (s\<lparr>in_flight := in_flight s - 1, completed := True\<rparr>) (stages m)\<rparr>) []
     = Some (m', newly')" "newly = remdups_adj (sort newly')"
  using assms
  by (auto simp: complete_bundle_with_min_and_input_def Let_def split: option.splits if_splits)

lemma complete_bundle_evolves:
  assumes "complete_bundle_with_min_and_input stage t n m = Ok (m', newly)" and "wm_inv m"
  shows "\<exists>P. evolves P m m' \<and> (\<forall>p \<in> P. is_produced m' p)"
proof -
  obtain s b ts newly' where get: "hm_get (stages m) stage = Some s" "0 < in_flight s"
    and pr: "propagate_outputs (outputs s) b ts
       (m\<lparr>stages := hm_insert stage (s\<lparr>in_flight := in_flight s - 1, completed := True\<rparr>) (stages m)\<rparr>) []
     = Some (m', newly')"
    using complete_bundle_split [OF assms(1)] by metis
  define m1 where "m1 = m\<lparr>stages := hm_insert stage (s\<lparr>in_flight := in_flight s - 1, completed := True\<rparr>) (stages m)\<rparr>"
  have "stage_evolves (set (outputs s)) s (s\<lparr>in_flight := in_flight s - 1, completed := True\<rparr>)"
    using get(2) by (simp add: stage_evolves_def stage_ok_def)
  then have e1: "evolves (set (outputs s)) m m1"
    unfolding m1_def by (rule evolves_insert [OF get(1)])
  have wir: "wiring_ok m1"
    using evolves_wiring [OF e1] assms(2) by (simp add: wm_inv_def)
  have e2: "evolves (set (outputs s)) m1 m'"
    using propagate_outputs_evolves [OF wir] pr by (simp add: m1_def)
  have "is_produced m1 p" if "p \<in> set (outputs s)" for p
    using that by (auto simp: is_produced_def m1_def)
  then show ?thesis
    using evolves_trans [OF e1 e2] evolves_is_produced [OF e2] by blast
qed

section \<open>Operations that move watermarks or add stages\<close>

lemma wm_le_stage_back:
  assumes "wm_le m m'" and "hm_get (stages m') sid = Some t"
  obtains s where "hm_get (stages m) sid = Some s" "stage_le s t"
proof -
  have "rel_option stage_le (hm_get (stages m) sid) (hm_get (stages m') sid)"
    using assms(1) by (simp add: wm_le_def)
  with assms(2) that show thesis
    by (auto simp: option_rel_Some2)
qed

lemma wm_le_wiring:
  assumes "wm_le m m'" and "wiring_ok m"
  shows "wiring_ok m'"
proof -
  have "(\<exists>s. hm_get (stages m') c = Some s \<and> p \<in> set (main_inputs s))
      \<longleftrightarrow> (\<exists>s. hm_get (stages m) c = Some s \<and> p \<in> set (main_inputs s))"
    and "(\<exists>s. hm_get (stages m') c = Some s \<and> p \<in> set (side_inputs s))
      \<longleftrightarrow> (\<exists>s. hm_get (stages m) c = Some s \<and> p \<in> set (side_inputs s))" for c p
    using wm_le_stage [OF assms(1), of c]
    by (fastforce simp: stage_le_def same_config_fields elim: wm_le_stage_back [OF assms(1)])+
  with assms show ?thesis
    by (simp add: wiring_ok_def wm_le_def)
qed

lemma wm_le_is_produced: "wm_le m m' \<Longrightarrow> is_produced m p \<Longrightarrow> is_produced m' p"
  unfolding is_produced_def by (fastforce dest: wm_le_stage simp: stage_le_def same_config_fields)

lemma wm_le_produced_ok:
  assumes "wm_le m m'" and "produced_ok m"
  shows "produced_ok m'"
  unfolding produced_ok_def
proof (intro allI impI ballI)
  fix sid t p
  assume get: "hm_get (stages m') sid = Some t" and p: "p \<in> set (main_inputs t) - unproduced t"
  obtain s where s: "hm_get (stages m) sid = Some s" "same_config s t"
    using wm_le_stage_back [OF assms(1) get] by (auto simp: stage_le_def)
  then have "is_produced m p"
    using assms(2) p by (fastforce simp: produced_ok_def same_config_fields)
  with assms(1) show "is_produced m' p"
    by (rule wm_le_is_produced)
qed

lemma compute_input_le_upstream:
  "source s = None \<Longrightarrow> p \<in> set (main_inputs s) \<union> set (side_inputs s) \<Longrightarrow> compute_input m s \<le> upstream m p"
  by (auto simp: compute_input_def is_source_def intro: fold_min_le_elem simp del: fold_append)

lemma compute_output_le_upstream:
  assumes "source s = None" and "p \<in> set (main_inputs s)"
  shows "compute_output m s \<le> upstream m p"
proof -
  have "base_output m s \<le> upstream m p"
    using fold_min_le_elem [OF assms(2), of "upstream m" MAX_TIMESTAMP] assms(1)
    by (simp add: base_output_def)
  with compute_output_le_base [of m s] show ?thesis
    by linarith
qed

lemma stage_ok_advance:
  assumes "stage_ok s" and "same_config s t" and "input_wm s \<le> input_wm t" "input_wm t \<le> MAX_TIMESTAMP"
    and "output_wm s \<le> output_wm t" "output_wm t \<le> MAX_TIMESTAMP"
  shows "stage_ok t"
  using assms unfolding stage_ok_def by (simp add: same_config_fields)

lemma refresh_causal:
  assumes ref: "refresh m = (m', moved)" and inv: "wm_inv m"
  shows "causal m'"
  unfolding causal_def
proof (intro allI impI, elim conjE)
  fix sid t
  assume get: "hm_get (stages m') sid = Some t" and ne: "main_inputs t \<noteq> []"
  have le: "wm_le m m'"
    using refresh_ge [of m] ref by simp
  obtain s where s: "hm_get (stages m) sid = Some s"
    using wm_le_stage_back [OF le get] by blast
  from refresh_exact [OF ref s] get have t: "same_config s t"
      "input_wm t = max (input_wm s) (compute_input m' t)"
      "output_wm t = max (output_wm s) (compute_output m' t)"
    by auto
  have "stage_ok s" and c: "causal m"
    using inv s by (auto simp: wm_inv_def)
  then have src: "source t = None" and old: "main_inputs s \<noteq> []"
    using ne t(1) by (auto simp: stage_ok_def same_config_fields)
  have up: "upstream m p \<le> upstream m' p" for p
    by (rule upstream_mono [OF le])
  have i: "input_wm t \<le> upstream m' p" if "p \<in> set (main_inputs t) \<union> set (side_inputs t)" for p
  proof -
    have "input_wm s \<le> upstream m p"
      using c s old that t(1) by (auto simp: causal_def same_config_fields)
    with up [of p] compute_input_le_upstream [OF src that, of m'] t(2) show ?thesis
      by linarith
  qed
  have o: "output_wm t \<le> upstream m' p" if "p \<in> set (main_inputs t)" for p
  proof -
    have "output_wm s \<le> upstream m p"
      using c s old that t(1) by (auto simp: causal_def same_config_fields)
    with up [of p] compute_output_le_upstream [OF src that, of m'] t(3) show ?thesis
      by linarith
  qed
  show "(\<forall>p \<in> set (main_inputs t) \<union> set (side_inputs t). input_wm t \<le> upstream m' p)
      \<and> (\<forall>p \<in> set (main_inputs t). output_wm t \<le> upstream m' p)"
    using i o by blast
qed

lemma refresh_inv:
  assumes ref: "refresh m = (m', moved)" and inv: "wm_inv m"
  shows "wm_inv m'"
proof -
  have le: "wm_le m m'"
    using refresh_ge [of m] ref by simp
  have ok: "stage_ok t" if get: "hm_get (stages m') sid = Some t" for sid t
  proof -
    obtain s where s: "hm_get (stages m) sid = Some s" "stage_le s t"
      using wm_le_stage_back [OF le get] by blast
    from refresh_exact [OF ref s(1)] get
    have t: "input_wm t = max (input_wm s) (compute_input m' t)"
        "output_wm t = max (output_wm s) (compute_output m' t)"
      by auto
    have "stage_ok s"
      using inv s by (auto simp: wm_inv_def)
    moreover from this have "input_wm s \<le> MAX_TIMESTAMP" "output_wm s \<le> MAX_TIMESTAMP"
      by (auto simp: stage_ok_def)
    ultimately show ?thesis
      using s(2) t compute_input_le [of m' t] compute_output_le [of m' t]
      by (intro stage_ok_advance [of s t]) (auto simp: stage_le_def)
  qed
  have "hm_wf (stages m')"
    using le inv by (simp add: wm_le_def wm_inv_def hm_wf_def)
  with ok inv le refresh_causal [OF ref inv] show ?thesis
    by (auto simp: wm_inv_def intro: wm_le_wiring wm_le_produced_ok)
qed

subsection \<open>Adding a stage\<close>

lemma register_consumer_of:
  "set (consumers_of (register_consumer stage p cs) q)
   = (if q = p then insert stage (set (consumers_of cs q)) else set (consumers_of cs q))"
  by (auto simp: register_consumer_def consumers_of_def Let_def split: option.splits)

lemma register_consumers_of:
  "set (consumers_of (fold (register_consumer stage) ps cs) q)
   = (if q \<in> set ps then insert stage (set (consumers_of cs q)) else set (consumers_of cs q))"
  by (induction ps arbitrary: cs) (auto simp: register_consumer_of)

lemma register_producers_of:
  "hm_get (fold (\<lambda>out ps. hm_insert out stage ps) outs ps) p
   = (if p \<in> set outs then Some stage else hm_get ps p)"
  by (induction outs arbitrary: ps) auto

lemma new_stage_ok: "stage_ok (new_stage mains sides outs)"
  by (simp add: new_stage_def stage_ok_def)

lemma add_stage_upstream:
  assumes "hm_get (stages m) stage = None" and "\<forall>p \<in> set outs. hm_get (producers m) p = None"
  shows "upstream (add_stage stage mains sides outs m) p = upstream m p"
  using assms
  by (auto simp: upstream_def add_stage_def register_producers_of new_stage_def split: option.split)

lemma upstream_ge_MIN: "wm_inv m \<Longrightarrow> MIN_TIMESTAMP \<le> upstream m p"
  by (auto simp: upstream_def wm_inv_def stage_ok_def split: option.split)

lemma add_stage_wiring:
  assumes "hm_get (stages m) stage = None" and "wiring_ok m"
  shows "wiring_ok (add_stage stage mains sides outs m)"
  using assms by (auto simp: wiring_ok_def add_stage_def register_consumers_of new_stage_def)

lemma add_stage_inv:
  assumes fresh: "hm_get (stages m) stage = None" and outs: "\<forall>p \<in> set outs. hm_get (producers m) p = None"
    and inv: "wm_inv m"
  shows "wm_inv (add_stage stage mains sides outs m)" (is "wm_inv ?m")
proof -
  have st: "hm_get (stages ?m) = (hm_get (stages m))(stage \<mapsto> new_stage mains sides outs)"
    by (simp add: add_stage_def)
  have new: "main_inputs (new_stage mains sides outs) = mains" "unproduced (new_stage mains sides outs) = set mains"
      "side_inputs (new_stage mains sides outs) = sides" "mains \<noteq> [] \<Longrightarrow> input_wm (new_stage mains sides outs) = MIN_TIMESTAMP"
      "output_wm (new_stage mains sides outs) = MIN_TIMESTAMP"
    by (simp_all add: new_stage_def)
  have "is_produced ?m p" if "is_produced m p" for p
    using that fresh unfolding is_produced_def st by (metis fun_upd_other option.distinct(1))
  then have "produced_ok ?m"
    using inv by (auto simp: wm_inv_def produced_ok_def st new)
  moreover have "causal ?m"
    using inv upstream_ge_MIN [OF inv]
    by (auto simp: wm_inv_def causal_def st new add_stage_upstream [OF fresh outs])
  moreover have "hm_wf (stages ?m)"
    using inv by (simp add: add_stage_def wm_inv_def)
  ultimately show ?thesis
    using inv add_stage_wiring [OF fresh] new_stage_ok by (auto simp: wm_inv_def st)
qed

section \<open>Reachable states\<close>

lemma new_manager_inv: "wm_inv new_manager"
  by (simp add: wm_inv_def new_manager_def wiring_ok_def produced_ok_def causal_def consumers_of_def)

text \<open>Every step is an addition, a propagation of watermarks, or a rewrite of stages.\<close>

lemma wm_step_kinds:
  assumes "wm_step m m'" and "wm_inv m"
  obtains (added) stage mains sides outs where "m' = add_stage stage mains sides outs m"
      "hm_get (stages m) stage = None" "\<forall>p \<in> set outs. hm_get (producers m) p = None"
  | (rewritten) P where "evolves P m m'" "\<forall>p \<in> P. is_produced m' p"
  | (propagated) m1 moved where "evolves {} m m1" "refresh m1 = (m', moved)"
  using assms(1)
proof cases
  case (complete stage t n newly)
  then show ?thesis
    using complete_bundle_evolves [OF _ assms(2)] rewritten by blast
next
  case (advance moved)
  then show ?thesis
    using propagated [OF evolves_refl] by blast
next
  case (release_empty n)
  define m1 where "m1 = m\<lparr>stages := hm_map_values (\<lambda>_. release_empty_stage) (stages m)\<rparr>"
  have "evolves {} m m1"
    unfolding m1_def by (rule release_empty_evolves)
  moreover have "m' = m1 \<or> m' = fst (refresh m1)"
    using release_empty by (auto simp: release_empty_input_holds_def m1_def Let_def split: if_splits)
  ultimately show ?thesis
    using rewritten [of "{}"] propagated [of m1 "snd (refresh m1)"] by auto
qed (blast intro: added rewritten [of "{}"] setter_evolves start_bundle_evolves)+

lemma wm_step_inv:
  assumes "wm_step m m'" and "wm_inv m"
  shows "wm_inv m'"
  using assms
proof (cases rule: wm_step_kinds)
  case (propagated m1 moved)
  then show ?thesis
    using evolves_inv [OF propagated(1) assms(2)] refresh_inv by blast
qed (use assms(2) add_stage_inv evolves_inv in blast)+

lemma wm_reachable_inv: "wm_reachable m \<Longrightarrow> wm_inv m"
  by (induction rule: wm_reachable.induct) (auto intro: new_manager_inv wm_step_inv)

section \<open>Readiness\<close>

text \<open>
  \<open>feeds m\<close> relates a producing stage to the stages that read one of its outputs, both
  known to the manager. \<open>upstream_chain_is_quiescent\<close> searches it backwards.
\<close>

definition feeds :: "watermark_manager \<Rightarrow> (stage_id \<times> stage_id) set" where
  "feeds m = {(c, sid). hm_get (stages m) c \<noteq> None
     \<and> (\<exists>s. hm_get (stages m) sid = Some s
        \<and> (\<exists>p \<in> set (main_inputs s) \<union> set (side_inputs s). hm_get (producers m) p = Some c))}"

definition ancestors :: "watermark_manager \<Rightarrow> stage_id \<Rightarrow> stage_id set" where
  "ancestors m sid = {c. (c, sid) \<in> (feeds m)\<^sup>+}"

definition all_idle_upstream :: "watermark_manager \<Rightarrow> stage_id \<Rightarrow> bool" where
  "all_idle_upstream m sid \<longleftrightarrow>
     (\<forall>c \<in> ancestors m sid. \<forall>p. hm_get (stages m) c = Some p \<longrightarrow> producer_is_idle p)"

lemma all_opt_Some: "(\<And>x. x \<in> set xs \<Longrightarrow> f x = Some (P x)) \<Longrightarrow> all_opt f xs = Some (\<forall>x \<in> set xs. P x)"
  by (induction xs) auto

lemma upstream_stages_iff:
  assumes "hm_get (stages m) sid = Some s"
  shows "p \<in> set (upstream_stages m s) \<longleftrightarrow> (\<exists>c. (c, sid) \<in> feeds m \<and> hm_get (stages m) c = Some p)"
proof -
  have "p \<in> set (upstream_stages m s) \<longleftrightarrow>
      (\<exists>c. (\<exists>q. q \<in> set (main_inputs s @ side_inputs s) \<and> hm_get (producers m) q = Some c)
        \<and> hm_get (stages m) c = Some p)"
    unfolding upstream_stages_def set_map_filter_iff Bex_def by blast
  with assms show ?thesis
    by (auto simp: feeds_def)
qed

lemma feeds_known: "(c, sid) \<in> feeds m \<Longrightarrow> \<exists>p. hm_get (stages m) c = Some p"
  by (auto simp: feeds_def)

lemma feeds_Domain: "Domain (feeds m) \<subseteq> set (hm_keys (stages m))"
  by (force dest!: feeds_known map_of_SomeD)

lemma ancestors_subset: "ancestors m sid \<subseteq> set (hm_keys (stages m))"
  using feeds_Domain [of m] by (auto simp: ancestors_def dest!: tranclD)

lemma finite_ancestors: "finite (ancestors m sid)"
  using ancestors_subset by (rule finite_subset) simp

lemma card_ancestors: "card (ancestors m sid) < quiescence_fuel m"
proof -
  have "card (ancestors m sid) \<le> card (set (hm_keys (stages m)))"
    by (intro card_mono ancestors_subset) simp
  also have "\<dots> \<le> length (stages m)"
    using card_length [of "hm_keys (stages m)"] by simp
  finally show ?thesis
    by (simp add: quiescence_fuel_def)
qed

lemma ancestors_feeds:
  assumes "acyclic (feeds m)" and "(c, sid) \<in> feeds m"
  shows "card (ancestors m c) < card (ancestors m sid)" and "ancestors m c \<subseteq> ancestors m sid"
proof -
  show sub: "ancestors m c \<subseteq> ancestors m sid"
    using assms(2) by (auto simp: ancestors_def intro: trancl.trancl_into_trancl)
  have "c \<in> ancestors m sid" "c \<notin> ancestors m c"
    using assms by (auto simp: ancestors_def acyclic_def)
  with sub have "ancestors m c \<subset> ancestors m sid"
    by blast
  then show "card (ancestors m c) < card (ancestors m sid)"
    by (rule psubset_card_mono [OF finite_ancestors])
qed

lemma all_idle_upstream_step:
  assumes "hm_get (stages m) sid = Some s"
  shows "all_idle_upstream m sid \<longleftrightarrow>
    (\<forall>c p. (c, sid) \<in> feeds m \<longrightarrow> hm_get (stages m) c = Some p \<longrightarrow>
       producer_is_idle p \<and> all_idle_upstream m c)"
proof -
  have "ancestors m sid = {c. (c, sid) \<in> feeds m} \<union> (\<Union>c \<in> {c. (c, sid) \<in> feeds m}. ancestors m c)"
    by (auto simp: ancestors_def elim: tranclE intro: trancl.trancl_into_trancl)
  then show ?thesis
    unfolding all_idle_upstream_def using feeds_known [of _ sid m] by blast
qed

lemma upstream_chain_decides:
  assumes "acyclic (feeds m)"
  shows "hm_get (stages m) sid = Some s \<Longrightarrow> card (ancestors m sid) < fuel \<Longrightarrow>
    upstream_chain_is_quiescent fuel m s = Some (all_idle_upstream m sid)"
proof (induction fuel arbitrary: sid s)
  case (Suc fuel)
  let ?test = "\<lambda>p. if producer_is_idle p then upstream_chain_is_quiescent fuel m p else Some False"
  let ?ok = "\<lambda>p. \<exists>c. (c, sid) \<in> feeds m \<and> hm_get (stages m) c = Some p \<and> producer_is_idle p \<and> all_idle_upstream m c"
  have rec: "upstream_chain_is_quiescent fuel m p = Some (all_idle_upstream m c)"
    if "(c, sid) \<in> feeds m" "hm_get (stages m) c = Some p" for c p
    using Suc.IH [OF that(2)] ancestors_feeds(1) [OF assms that(1)] Suc.prems(2) by linarith
  have same: "all_idle_upstream m c = all_idle_upstream m d"
    if "(c, sid) \<in> feeds m" "hm_get (stages m) c = Some p"
      "(d, sid) \<in> feeds m" "hm_get (stages m) d = Some p" for c d p
    using rec [OF that(1,2)] rec [OF that(3,4)] by simp
  have "?test p = Some (?ok p)" if p: "p \<in> set (upstream_stages m s)" for p
  proof -
    obtain c where c: "(c, sid) \<in> feeds m" "hm_get (stages m) c = Some p"
      using p unfolding upstream_stages_iff [OF Suc.prems(1)] by blast
    have "?ok p \<longleftrightarrow> producer_is_idle p \<and> all_idle_upstream m c"
      using c same [OF c] by blast
    then show ?thesis
      by (simp add: rec [OF c])
  qed
  then have "all_opt ?test (upstream_stages m s) = Some (\<forall>p \<in> set (upstream_stages m s). ?ok p)"
    by (rule all_opt_Some)
  also have "(\<forall>p \<in> set (upstream_stages m s). ?ok p) = all_idle_upstream m sid"
    unfolding all_idle_upstream_step [OF Suc.prems(1)] Ball_def upstream_stages_iff [OF Suc.prems(1)]
    using same by blast
  finally show ?case
    by simp
qed simp

lemma stage_is_ready_decides:
  assumes "acyclic (feeds m)"
  shows "stage_is_ready m stage =
    Some (case hm_get (stages m) stage of
            None \<Rightarrow> False
          | Some s \<Rightarrow> is_ready_without_upstream_barrier s \<and> (kind s = Ordinary \<or> all_idle_upstream m stage))"
  using upstream_chain_decides [OF assms _ card_ancestors]
  by (auto simp: stage_is_ready_def split: option.split)

lemma ready_start_ok:
  assumes "stage_is_ready m stage = Some True"
  shows "\<exists>m'. start_bundle stage m = Ok m'"
  using assms
  by (auto simp: stage_is_ready_def is_ready_without_upstream_barrier_def start_bundle_def has_work_def
      split: option.splits if_splits stage_kind.splits)

lemma done_not_ready: "stage_is_done s \<Longrightarrow> \<not> is_ready_without_upstream_barrier s"
  by (auto simp: stage_is_done_def is_ready_without_upstream_barrier_def has_work_def)

lemma filter_opt_set:
  "filter_opt f xs = Some ys \<Longrightarrow> set ys = {x \<in> set xs. f x = Some True}"
  by (induction xs arbitrary: ys) (auto split: option.splits if_splits)

lemma filter_opt_distinct: "filter_opt f xs = Some ys \<Longrightarrow> distinct xs \<Longrightarrow> distinct ys"
  by (induction xs arbitrary: ys) (auto split: option.splits if_splits simp: filter_opt_set)

lemma filter_opt_total: "(\<And>x. x \<in> set xs \<Longrightarrow> f x = Some (P x)) \<Longrightarrow> filter_opt f xs = Some (filter P xs)"
  by (induction xs) auto

section \<open>Holds\<close>

text \<open>
  What the manager relies on from a collection of holds: it is a multiset of timestamps
  to which holds are added and released one at a time and whose least element is read.
\<close>

locale hold_collection =
  fixes none :: "'h" and add :: "int \<Rightarrow> 'h \<Rightarrow> 'h" and drop :: "int \<Rightarrow> 'h \<Rightarrow> 'h"
    and least :: "'h \<Rightarrow> int option" and ok :: "'h \<Rightarrow> bool" and abs :: "'h \<Rightarrow> int multiset"
  assumes ok_none: "ok none" and ok_add: "ok h \<Longrightarrow> ok (add t h)" and ok_drop: "ok h \<Longrightarrow> ok (drop t h)"
    and abs_none: "abs none = {#}"
    and abs_add: "ok h \<Longrightarrow> abs (add t h) = add_mset t (abs h)"
    and abs_drop: "ok h \<Longrightarrow> abs (drop t h) = abs h - {#t#}"
    and abs_least: "ok h \<Longrightarrow> least h = (if abs h = {#} then None else Some (Min_mset (abs h)))"
begin

lemma add_all: "ok h \<Longrightarrow> ok (fold add ts h) \<and> abs (fold add ts h) = mset ts + abs h"
  by (induction ts arbitrary: h) (auto simp: ok_add abs_add)

lemma least_add_all: "least (fold add ts none) = (if ts = [] then None else Some (Min (set ts)))"
  using add_all [OF ok_none, of ts] by (simp add: abs_least abs_none)

lemma drop_add: "ok h \<Longrightarrow> abs (drop t (add t h)) = abs h"
  by (simp add: abs_drop abs_add ok_add)

lemma least_le: "ok h \<Longrightarrow> t \<in># abs h \<Longrightarrow> \<exists>l. least h = Some l \<and> l \<le> t"
  by (auto simp: abs_least)

end

definition hold_mset :: "(int, nat) btreemap \<Rightarrow> int multiset" where
  "hold_mset h = mset (concat (map (\<lambda>(t, c). replicate c t) h))"

lemma count_hold_mset: "bt_wf h \<Longrightarrow> count (hold_mset h) t = (case map_of h t of None \<Rightarrow> 0 | Some c \<Rightarrow> c)"
proof (induction h)
  case (Cons e h)
  have "map_of h (fst e) = None"
    using Cons.prems by (auto simp: map_of_eq_None_iff)
  with Cons show ?case
    by (cases e) (auto simp: hold_mset_def)
qed (simp add: hold_mset_def)

lemma holds_ok_pos: "holds_ok h \<Longrightarrow> map_of h t = Some c \<Longrightarrow> 0 < c"
  by (force simp: holds_ok_def dest: map_of_SomeD)

lemma hold_mset_empty_iff: "holds_ok h \<Longrightarrow> hold_mset h = {#} \<longleftrightarrow> h = []"
  by (cases h) (auto simp: hold_mset_def holds_ok_def)

lemma set_hold_mset: "holds_ok h \<Longrightarrow> set_mset (hold_mset h) = fst ` set h"
  by (force simp: hold_mset_def holds_ok_def)

interpretation hold: hold_collection "[]" hold_add hold_release bt_first_key holds_ok hold_mset
proof
  show "hold_mset (hold_add t h) = add_mset t (hold_mset h)" if "holds_ok h" for t h
    using that holds_ok_add [OF that, of t]
    by (intro multiset_eqI) (auto simp: holds_ok_def count_hold_mset hold_add_def split: option.split)
  show "hold_mset (hold_release t h) = hold_mset h - {#t#}" if "holds_ok h" for t h
    using that holds_ok_release [OF that, of t] holds_ok_pos [OF that]
    by (intro multiset_eqI) (auto simp: holds_ok_def count_hold_mset hold_release_def split: option.splits)
  show "bt_first_key h = (if hold_mset h = {#} then None else Some (Min_mset (hold_mset h)))"
    if "holds_ok h" for h
  proof (cases h)
    case (Cons e r)
    have "Min (fst ` set (e # r)) = fst e"
      using that Cons by (intro Min_eqI) (auto simp: holds_ok_def)
    with that Cons show ?thesis
      by (simp add: hold_mset_empty_iff set_hold_mset bt_first_key_def del: set_simps)
  qed (simp add: bt_first_key_def hold_mset_def)
qed (simp_all add: hold_mset_def)

lemma compute_output_limits:
  "stage_min_hold s = Some h \<Longrightarrow> compute_output m s \<le> h"
  "source s = None \<Longrightarrow> compute_output m s \<le> pending_min s"
  "\<not> completed s \<Longrightarrow> 0 < in_flight s \<or> 0 < queued s \<Longrightarrow> compute_output m s \<le> watermark_at_last_run s"
  "pending_empty s \<noteq> {} \<Longrightarrow> compute_output m s \<le> MIN_TIMESTAMP"
  by (auto simp: compute_output_def base_output_def Let_def min.coboundedI1 min.coboundedI2 split: option.split)

section \<open>Properties\<close>

text \<open>A two-stage pipeline: source \<open>A\<close> writes \<open>p\<close>, which \<open>B\<close> reads; \<open>A\<close> has run and
  finished, \<open>B\<close> is running.\<close>

definition sample_wired :: watermark_manager where
  "sample_wired = add_stage ''B'' [''p''] [] [] (add_stage ''A'' [] [] [''p''] new_manager)"

definition sample_sourced :: watermark_manager where
  "sample_sourced =
     (let m1 = unwrap_or (start_bundle ''A'' sample_wired) sample_wired;
          m2 = (case complete_bundle_with_min_and_input ''A'' (Some 5) None m1 of Ok (m', _) \<Rightarrow> m' | _ \<Rightarrow> m1)
      in unwrap_or (report_source_watermark ''A'' 7 m2) m2)"

definition sample_running :: watermark_manager where
  "sample_running = unwrap_or (start_bundle ''B'' (fst (refresh sample_sourced))) sample_sourced"

lemma wm_reachable_unwrap:
  "wm_reachable m \<Longrightarrow> (\<And>m'. r = Ok m' \<Longrightarrow> wm_step m m') \<Longrightarrow> wm_reachable (unwrap_or r m)"
  by (cases r) (auto intro: wm_reachable.step)

lemma sample_wired_reachable: "wm_reachable sample_wired"
  unfolding sample_wired_def
  by (rule wm_reachable.step [OF wm_reachable.step [OF wm_reachable.initial]])
    (rule wm_step.add; simp add: add_stage_def new_manager_def)+

lemma sample_sourced_reachable: "wm_reachable sample_sourced"
proof -
  define m1 where "m1 = unwrap_or (start_bundle ''A'' sample_wired) sample_wired"
  define m2 where "m2 = (case complete_bundle_with_min_and_input ''A'' (Some 5) None m1 of Ok (m', _) \<Rightarrow> m' | _ \<Rightarrow> m1)"
  have "wm_reachable m1"
    unfolding m1_def by (rule wm_reachable_unwrap [OF sample_wired_reachable]) (rule wm_step.start)
  then have "wm_reachable m2"
    by (auto simp: m2_def intro: wm_reachable.step wm_step.complete split: rust.split)
  then have "wm_reachable (unwrap_or (report_source_watermark ''A'' 7 m2) m2)"
    by (rule wm_reachable_unwrap) (rule wm_step.source_watermark)
  then show ?thesis
    unfolding sample_sourced_def Let_def m2_def m1_def .
qed

lemma sample_running_reachable: "wm_reachable sample_running"
  using wm_reachable.step [OF sample_sourced_reachable wm_step.advance, of "fst (refresh sample_sourced)" "snd (refresh sample_sourced)"]
    sample_sourced_reachable
  by (cases "start_bundle ''B'' (fst (refresh sample_sourced))")
    (auto simp: sample_running_def intro: wm_reachable.step wm_step.start)

lemma sample_refresh_moves: "snd (refresh sample_sourced) = [''A'', ''B'']"
  by code_simp

text \<open>
  C1: \<open>refresh\<close> always ends, and what it computes is the least stable assignment of
  watermarks above the current one: no watermark goes down and nothing but watermarks
  changes, no stage can advance afterwards, and every other stable assignment above the
  old watermarks is above the new ones, so the result does not depend on the order in
  which the loop visits the stages.
\<close>

theorem refresh_least_fixpoint:
  assumes "refresh m = (m', moved)"
  shows "wm_le m m' \<and> wm_stable m' \<and> (\<forall>M. wm_le m M \<and> wm_stable M \<longrightarrow> wm_le m' M)"
  using refresh_ge [of m] refresh_stable [of m] refresh_below [of m] assms by simp

theorem refresh_least_fixpoint_witness:
  "snd (refresh sample_sourced) = [''A'', ''B''] \<and> wm_stable (fst (refresh sample_sourced))"
  using refresh_least_fixpoint [OF prod.collapse [symmetric], of sample_sourced] sample_refresh_moves
  by blast

text \<open>
  C2: the list \<open>refresh\<close> returns is sorted, has no repetition and names exactly the
  stages whose state changed; refreshing again changes nothing and reports nothing.
\<close>

theorem refresh_reports_moved_stages:
  "case refresh m of (m', moved) \<Rightarrow>
     sorted moved \<and> distinct moved
     \<and> (\<forall>sid. sid \<in> set moved \<longleftrightarrow> hm_get (stages m') sid \<noteq> hm_get (stages m) sid)
     \<and> refresh m' = (m', [])"
  using refresh_reports [of m "fst (refresh m)" "snd (refresh m)"] refresh_of_stable [OF refresh_stable [of m]]
  by (simp add: case_prod_unfold)

text \<open>
  C3: when \<open>refresh\<close> moves the output watermark of a stage, the new value is at most every
  timer hold and every residual hold of the stage, at most the output watermark of the
  producer of each main input and the oldest pending element (for a stage that is not a
  source), at most the watermark of an outstanding first wave of bundles, and the
  minimal timestamp while an empty input is unresolved.
\<close>

theorem refresh_respects_holds:
  assumes "refresh m = (m', moved)" and "hm_get (stages m) sid = Some s" and "stage_ok s"
    and "hm_get (stages m') sid = Some s'" and "output_wm s < output_wm s'"
  shows "(\<forall>t. t \<in># hold_mset (watermark_holds s) + hold_mset (residual_holds s) \<longrightarrow> output_wm s' \<le> t)
    \<and> (source s = None \<longrightarrow> output_wm s' \<le> pending_min s \<and> (\<forall>p \<in> set (main_inputs s). output_wm s' \<le> upstream m' p))
    \<and> (\<not> completed s \<and> (0 < in_flight s \<or> 0 < queued s) \<longrightarrow> output_wm s' \<le> watermark_at_last_run s)
    \<and> (pending_empty s \<noteq> {} \<longrightarrow> output_wm s' \<le> MIN_TIMESTAMP)"
proof -
  have conf: "same_config s s'" and out: "output_wm s' = compute_output m' s'"
    by (rule refresh_exact [OF assms(1,2)]; use assms(4,5) in \<open>simp add: max_def split: if_splits\<close>)+
  have lim: "\<forall>h. stage_min_hold s = Some h \<longrightarrow> output_wm s' \<le> h"
      "source s = None \<Longrightarrow> output_wm s' \<le> pending_min s"
      "\<not> completed s \<and> (0 < in_flight s \<or> 0 < queued s) \<longrightarrow> output_wm s' \<le> watermark_at_last_run s"
      "pending_empty s \<noteq> {} \<longrightarrow> output_wm s' \<le> MIN_TIMESTAMP"
    unfolding out
    using compute_output_limits [where s = s' and m = m'] by (simp_all add: same_config_fields [OF conf] same_config_min_hold [OF conf])
  have "\<exists>h. stage_min_hold s = Some h \<and> h \<le> t"
    if "t \<in># hold_mset (watermark_holds s) + hold_mset (residual_holds s)" for t
    using that assms(3) hold.least_le [of "watermark_holds s" t] hold.least_le [of "residual_holds s" t]
    by (fastforce simp: stage_ok_def stage_min_hold_def split: option.split)
  then have "\<forall>t. t \<in># hold_mset (watermark_holds s) + hold_mset (residual_holds s) \<longrightarrow> output_wm s' \<le> t"
    using lim(1) by (meson order_trans)
  moreover have "output_wm s' \<le> upstream m' p" if "source s = None" "p \<in> set (main_inputs s)" for p
    unfolding out using that by (intro compute_output_le_upstream) (simp_all add: same_config_fields [OF conf])
  ultimately show ?thesis
    using lim(2-4) by blast
qed

definition sample_stage :: "watermark_manager \<Rightarrow> stage_id \<Rightarrow> stage_state" where
  "sample_stage m sid = the (hm_get (stages m) sid)"

lemma sample_refresh_B:
  "hm_get (stages sample_sourced) ''B'' = Some (sample_stage sample_sourced ''B'')"
  "hm_get (stages (fst (refresh sample_sourced))) ''B'' = Some (sample_stage (fst (refresh sample_sourced)) ''B'')"
  "stage_ok (sample_stage sample_sourced ''B'')"
  "output_wm (sample_stage sample_sourced ''B'') < output_wm (sample_stage (fst (refresh sample_sourced)) ''B'')"
  "source (sample_stage sample_sourced ''B'') = None \<and> pending_min (sample_stage sample_sourced ''B'') = 5"
  by code_simp+

theorem refresh_respects_holds_witness:
  "output_wm (sample_stage (fst (refresh sample_sourced)) ''B'') \<le> 5"
  using refresh_respects_holds [OF prod.collapse [symmetric], of sample_sourced,
      OF sample_refresh_B(1,3,2,4)] sample_refresh_B(5)
  by simp

text \<open>
  C4: the manager's invariant holds in every reachable state: stage ids are unique, the
  consumer indexes list exactly the stages that read a PCollection, and every stage is
  consistent, with watermarks between the minimal and the maximal timestamp, hold counts
  that are positive, pending and unproduced sets made of its own inputs, and nothing
  unproduced once a bundle has started.
\<close>

theorem reachable_manager_consistent:
  assumes "wm_reachable m"
  shows "hm_wf (stages m) \<and> wiring_ok m \<and> (\<forall>sid s. hm_get (stages m) sid = Some s \<longrightarrow> stage_ok s)"
  using wm_reachable_inv [OF assms] by (simp add: wm_inv_def)

theorem reachable_manager_consistent_witness: "wiring_ok sample_running"
  using reachable_manager_consistent [OF sample_running_reachable] by blast

text \<open>
  C5: a stage is never run before its inputs exist: in every reachable state, each main
  input of a stage that has a bundle in flight or has completed one is an output of a
  stage that has completed.
\<close>

theorem started_stage_inputs_produced:
  assumes "wm_reachable m" and "hm_get (stages m) sid = Some s" and "0 < in_flight s \<or> completed s"
    and "p \<in> set (main_inputs s)"
  shows "\<exists>c t. hm_get (stages m) c = Some t \<and> completed t \<and> p \<in> set (outputs t)"
proof -
  have "wm_inv m"
    by (rule wm_reachable_inv [OF assms(1)])
  then have "unproduced s = {}" "produced_ok m"
    using assms(2,3) by (auto simp: wm_inv_def stage_ok_def)
  then have "is_produced m p"
    using assms(2,4) by (auto simp: produced_ok_def)
  then show ?thesis
    by (simp add: is_produced_def)
qed

lemma sample_running_B:
  "hm_get (stages sample_running) ''B'' = Some (sample_stage sample_running ''B'')"
  "0 < in_flight (sample_stage sample_running ''B'') \<or> completed (sample_stage sample_running ''B'')"
  "''p'' \<in> set (main_inputs (sample_stage sample_running ''B''))"
  by code_simp+

theorem started_stage_inputs_produced_witness:
  "\<exists>c t. hm_get (stages sample_running) c = Some t \<and> completed t \<and> ''p'' \<in> set (outputs t)"
  by (rule started_stage_inputs_produced [OF sample_running_reachable sample_running_B])

text \<open>
  C6: no watermark overtakes the stages it depends on: in every reachable state the input
  watermark of a stage with main inputs is at most the output watermark of the producer
  of each of its main and side inputs, and its output watermark is at most that of the
  producer of each main input.
\<close>

theorem watermark_never_overtakes:
  assumes "wm_reachable m" and "hm_get (stages m) sid = Some s" and "main_inputs s \<noteq> []"
  shows "(\<forall>p \<in> set (main_inputs s @ side_inputs s). input_wm s \<le> upstream m p)
    \<and> (\<forall>p \<in> set (main_inputs s). output_wm s \<le> upstream m p)"
  using wm_reachable_inv [OF assms(1)] assms(2,3) by (auto simp: wm_inv_def causal_def)

theorem watermark_never_overtakes_witness:
  "output_wm (sample_stage sample_running ''B'') \<le> upstream sample_running ''p''"
  using watermark_never_overtakes [OF sample_running_reachable sample_running_B(1)] sample_running_B(3)
  by force

text \<open>
  C7: every operation keeps every watermark from going back: along any step of the
  manager the input and output watermark of a known stage do not decrease, its wiring is
  unchanged and a completed stage stays completed.
\<close>

theorem watermarks_monotone:
  assumes "wm_inv m" and "wm_step m m'" and "hm_get (stages m) sid = Some s"
  shows "\<exists>s'. hm_get (stages m') sid = Some s' \<and> input_wm s \<le> input_wm s' \<and> output_wm s \<le> output_wm s'
    \<and> main_inputs s' = main_inputs s \<and> side_inputs s' = side_inputs s \<and> outputs s' = outputs s
    \<and> (completed s \<longrightarrow> completed s')"
  using assms(2,1)
proof (cases rule: wm_step_kinds)
  case (added stage mains sides outs)
  with assms(3) show ?thesis
    by (auto simp: add_stage_def)
next
  case (rewritten P)
  then show ?thesis
    using evolves_stage [OF _ assms(3)] by (fastforce simp: stage_evolves_def)
next
  case (propagated m1 moved)
  obtain s1 where s1: "hm_get (stages m1) sid = Some s1" "stage_evolves {} s s1"
    using evolves_stage [OF propagated(1) assms(3)] by blast
  have "wm_le m1 m'"
    using refresh_ge [of m1] propagated(2) by simp
  from wm_le_stage [OF this s1(1)] s1(2) show ?thesis
    by (auto simp: stage_evolves_def stage_le_def same_config_fields)
qed

theorem watermarks_monotone_witness:
  "\<exists>s'. hm_get (stages (fst (refresh sample_sourced))) ''B'' = Some s'
    \<and> output_wm (sample_stage sample_sourced ''B'') \<le> output_wm s'"
  using watermarks_monotone [OF wm_reachable_inv [OF sample_sourced_reachable]
      wm_step.advance [OF prod.collapse [symmetric]] sample_refresh_B(1)]
  by blast

text \<open>
  C8: on an acyclic wiring the recursion of \<open>upstream_chain_is_quiescent\<close> ends within
  the fuel given to it, and readiness is what the scheduler needs: a stage is ready
  exactly when its own state admits a bundle and, for the two watermark-gated kinds,
  every transitive producer of its inputs is idle (completed, nothing in flight, queued,
  pending or held).
\<close>

theorem readiness_correct:
  assumes "acyclic (feeds m)"
  shows "stage_is_ready m stage =
    Some (case hm_get (stages m) stage of
            None \<Rightarrow> False
          | Some s \<Rightarrow> is_ready_without_upstream_barrier s
              \<and> (kind s = Ordinary
                 \<or> (\<forall>c p. (c, stage) \<in> (feeds m)\<^sup>+ \<and> hm_get (stages m) c = Some p \<longrightarrow> producer_is_idle p)))"
  using stage_is_ready_decides [OF assms] by (auto simp: all_idle_upstream_def ancestors_def split: option.split)

lemma sample_wired_acyclic: "acyclic (feeds sample_wired)"
proof -
  have "feeds sample_wired \<subseteq> measure (\<lambda>c. if c = ''A'' then 0 else 1)"
    by (auto simp: feeds_def sample_wired_def add_stage_def new_manager_def new_stage_def split: if_splits)
  then show ?thesis
    by (rule wf_acyclic [OF wf_subset [OF wf_measure]])
qed

theorem readiness_correct_witness:
  "stage_is_ready sample_wired ''A'' = Some True \<and> stage_is_ready sample_wired ''B'' = Some False"
  using readiness_correct [OF sample_wired_acyclic]
  by (simp add: sample_wired_def add_stage_def new_manager_def new_stage_def is_ready_without_upstream_barrier_def has_work_def)

text \<open>
  C9: readiness and starting agree: every stage \<open>ready_stages\<close> lists can be started without
  an error, the list is sorted and free of repetitions, and when the manager reports the
  job complete no stage is ready, so a completed job schedules nothing.
\<close>

theorem ready_stages_can_start:
  assumes "wm_reachable m" and "ready_stages m = Some ready"
  shows "sorted ready \<and> distinct ready \<and> (\<forall>stage \<in> set ready. \<exists>m'. start_bundle stage m = Ok m')
    \<and> (is_complete m \<longrightarrow> ready = [])"
proof -
  obtain ys where ys: "filter_opt (stage_is_ready m) (hm_keys (stages m)) = Some ys" "ready = sort ys"
    using assms(2) by (auto simp: ready_stages_def)
  have iff: "stage \<in> set ready \<longleftrightarrow> stage \<in> set (hm_keys (stages m)) \<and> stage_is_ready m stage = Some True" for stage
    using filter_opt_set [OF ys(1)] by (simp add: ys(2))
  have "distinct (hm_keys (stages m))"
    using wm_reachable_inv [OF assms(1)] by (simp add: wm_inv_def hm_wf_def)
  then have "distinct ready"
    using ys filter_opt_distinct by auto
  moreover have "ready = []" if "is_complete m"
  proof (rule ccontr)
    assume "ready \<noteq> []"
    then obtain stage where "stage_is_ready m stage = Some True"
      using iff by (meson last_in_set)
    then obtain s where "hm_get (stages m) stage = Some s" "is_ready_without_upstream_barrier s"
      by (auto simp: stage_is_ready_def split: option.splits if_splits)
    with that show False
      using done_not_ready by (fastforce simp: is_complete_def list_all_iff dest: map_of_SomeD)
  qed
  ultimately show ?thesis
    using iff ready_start_ok by (auto simp: ys(2))
qed

lemma sample_wired_ready: "ready_stages sample_wired = Some [''A'']"
  by code_simp

theorem ready_stages_can_start_witness: "\<exists>m'. start_bundle ''A'' sample_wired = Ok m'"
  using ready_stages_can_start [OF sample_wired_reachable sample_wired_ready] by simp

text \<open>
  C26: the reference-counted holds are a multiset: in a reachable state adding a hold and
  releasing it again restores the stage's holds, adding counts, releasing an absent hold
  changes nothing, and after \<open>set_event_time_holds\<close> the earliest timer hold of a stage is
  the least timestamp registered for it.
\<close>

theorem holds_refine_multiset:
  assumes "holds_ok h"
  shows "hold_mset (hold_add t h) = add_mset t (hold_mset h)
    \<and> hold_mset (hold_release t h) = hold_mset h - {#t#}
    \<and> hold_mset (hold_release t (hold_add t h)) = hold_mset h
    \<and> bt_first_key h = (if hold_mset h = {#} then None else Some (Min_mset (hold_mset h)))
    \<and> bt_first_key (holds_from hs stage) =
        (case hm_get hs stage of None \<Rightarrow> None | Some ts \<Rightarrow> if ts = [] then None else Some (Min (set ts)))"
  using hold.abs_add [OF assms] hold.abs_drop [OF assms] hold.drop_add [OF assms] hold.abs_least [OF assms]
    hold.least_add_all
  by (simp add: holds_from_def bt_first_key_def split: option.split)

theorem holds_refine_multiset_witness:
  "hold_mset (hold_release 3 (hold_add 3 [(2, 1), (3, 4)])) = hold_mset [(2, 1), (3, 4)]"
proof -
  have "holds_ok [(2, 1), (3, 4)]"
    by (simp add: holds_ok_def)
  from holds_refine_multiset [OF this, of 3] show ?thesis
    by blast
qed

end
