(* ===== verification/Exec_Graph.thy ===== *)
theory Exec_Graph
  imports Watermark_Props Pipeline_Model
begin

text \<open>
  What the scheduler reads of an executable graph (\<open>fusion/pipeline.rs\<close>,
  \<open>fusion/stage.rs\<close>, \<open>fusion/refs.rs\<close>): the nodes with their transforms, side inputs and
  outputs, the edges with their metadata, and the pipeline components. A petgraph graph is
  the list of its node weights and the list of its edges in the order \<open>edges_directed\<close>
  visits them (the newest edge first).
\<close>

section \<open>Nodes\<close>

text \<open>What the nodes of the graph expose of a runner-implemented transform.\<close>

record runner_transform =
  rt_id :: string
  rt_output_pcol_ids :: "string list"
  rt_transform_spec :: "(string, ptransform) hashmap"
  rt_source_auto_finishes :: bool

datatype splittable_process_kind = ProcessElements | ProcessKeyedElements | ProcessSizedElementsAndRestrictions

text \<open>What an edge carries, and the edge itself with the positions of its ends.\<close>

record consumer_meta_data =
  producer_transform_id :: string
  produced_pcol_id :: string
  cm_coder_id :: string
  component_coder :: "string list option"
  consumer_transfrom_id :: string

record graph_edge =
  edge_source :: nat
  edge_target :: nat
  edge_weight :: consumer_meta_data

text \<open>
  A splittable run: its nested graph (nodes and edges), the PCollections that leave it and
  the stages in the order in which one execution runs them.
\<close>

record splittable_execution_plan =
  initialization_stages :: "executable_stage list"
  process_stage :: executable_stage
  process_kind :: splittable_process_kind

datatype executable_node =
    Worker executable_stage
  | Runner runner_transform
  | Splittable (split_id: string) (split_nodes: "executable_node list") (split_edges: "graph_edge list")
      (split_output_pcols: "string list") (split_plan: splittable_execution_plan)

definition pardo_requires_time_sorted_input :: "pardo_decoder \<Rightarrow> ptransform \<Rightarrow> bool" where
  "pardo_requires_time_sorted_input dec t =
     (case pt_spec t of
        None \<Rightarrow> False
      | Some spec \<Rightarrow>
          if spec_urn spec \<noteq> PAR_DO_TRANSFORM then False
          else (case dec (spec_payload spec) of Some p \<Rightarrow> pp_requires_time_sorted_input p | None \<Rightarrow> False))"

definition requires_time_sorted_input :: "pardo_decoder \<Rightarrow> executable_stage \<Rightarrow> bool" where
  "requires_time_sorted_input dec s \<longleftrightarrow>
     list_ex (\<lambda>t. pardo_requires_time_sorted_input dec (ptn_transform t)) (es_transforms s)"

fun output_pcols :: "executable_node \<Rightarrow> string list" where
  "output_pcols (Worker s) = map pcn_id (es_output_pcols s)"
| "output_pcols (Runner r) = rt_output_pcol_ids r"
| "output_pcols (Splittable _ _ _ outs _) = outs"

fun worker_stages :: "executable_node \<Rightarrow> executable_stage list" where
  "worker_stages (Worker s) = [s]"
| "worker_stages (Splittable _ nodes _ _ _) = concat (map worker_stages nodes)"
| "worker_stages (Runner _) = []"

fun node_id :: "executable_node \<Rightarrow> string" where
  "node_id (Worker s) = es_id s"
| "node_id (Runner r) = rt_id r"
| "node_id (Splittable i _ _ _ _) = i"

section \<open>The graph\<close>

record executable_graph =
  graph_nodes :: "executable_node list"
  graph_edges :: "graph_edge list"
  graph_components :: components
  root_metadata :: "consumer_meta_data option"

definition incoming :: "executable_graph \<Rightarrow> nat \<Rightarrow> graph_edge list" where
  "incoming g i = filter (\<lambda>e. edge_target e = i) (graph_edges g)"

definition outgoing :: "executable_graph \<Rightarrow> nat \<Rightarrow> graph_edge list" where
  "outgoing g i = filter (\<lambda>e. edge_source e = i) (graph_edges g)"

definition get_root_metadata :: "executable_graph \<Rightarrow> consumer_meta_data option" where
  "get_root_metadata g = root_metadata g"

text \<open>\<open>side_input_output_metadata\<close>: the first stage that reads the PCollection as a side input.\<close>

definition side_input_reader :: "string \<Rightarrow> executable_node \<Rightarrow> side_input_ref option" where
  "side_input_reader p node =
     find (\<lambda>side. sir_collection_id side = p) (concat (map es_side_inputs (worker_stages node)))"

definition side_input_output_metadata :: "executable_graph \<Rightarrow> string \<Rightarrow> consumer_meta_data option" where
  "side_input_output_metadata g p =
     (case find (\<lambda>node. side_input_reader p node \<noteq> None) (graph_nodes g) of
        None \<Rightarrow> None
      | Some node \<Rightarrow>
          (case (side_input_reader p node, hm_get (c_pcollections (graph_components g)) p) of
             (Some side, Some pcol) \<Rightarrow>
               Some \<lparr>producer_transform_id = node_id node, produced_pcol_id = p, cm_coder_id = pc_coder_id pcol,
                 component_coder = map_option component_coder_ids (hm_get (c_coders (graph_components g)) (pc_coder_id pcol)),
                 consumer_transfrom_id = pt_unique_name (ptn_transform (sir_transform side))\<rparr>
           | _ \<Rightarrow> None))"

section \<open>Watermark gates\<close>

text \<open>
  The loop over the incoming edges both gates run: the largest allowed lateness, and the
  window fn of the last edge that has one.
\<close>

definition edge_strategy :: "executable_graph \<Rightarrow> graph_edge \<Rightarrow> windowing_strategy option" where
  "edge_strategy g e =
     Option.bind (hm_get (c_pcollections (graph_components g)) (produced_pcol_id (edge_weight e)))
       (\<lambda>pcol. hm_get (c_windowing_strategies (graph_components g)) (pc_windowing_strategy_id pcol))"

fun scan_strategies :: "executable_graph \<Rightarrow> graph_edge list \<Rightarrow> string option \<times> int \<Rightarrow> string option \<times> int" where
  "scan_strategies g [] acc = acc"
| "scan_strategies g (e # es) (urn, lateness) =
     scan_strategies g es
       (case edge_strategy g e of
          None \<Rightarrow> (urn, lateness)
        | Some s \<Rightarrow>
            (case ws_window_fn s of Some f \<Rightarrow> Some (spec_urn f) | None \<Rightarrow> urn, max lateness (ws_allowed_lateness s)))"

definition is_global_window :: "string option \<Rightarrow> bool" where
  "is_global_window urn = (case urn of Some u \<Rightarrow> u = GLOBAL_WINDOWS_FN | None \<Rightarrow> True)"

definition is_aggregation :: "executable_node \<Rightarrow> bool" where
  "is_aggregation node =
     (case node of
        Runner r \<Rightarrow>
          list_ex (\<lambda>(_, pt). case pt_spec pt of Some spec \<Rightarrow> spec_urn spec = GROUP_BY_KEY_TRANSFORM | None \<Rightarrow> False)
            (rt_transform_spec r)
      | _ \<Rightarrow> False)"

definition aggregation_required_watermark :: "executable_graph \<Rightarrow> executable_node \<Rightarrow> nat \<Rightarrow> int option" where
  "aggregation_required_watermark g node i =
     (if \<not> is_aggregation node then None
      else let (urn, lateness) = scan_strategies g (incoming g i) (None, 0)
           in if is_global_window urn then Some (global_window_completion_watermark lateness) else Some MIN_TIMESTAMP)"

definition time_sorted_input_required_watermark ::
  "pardo_decoder \<Rightarrow> executable_graph \<Rightarrow> executable_node \<Rightarrow> nat \<Rightarrow> int option" where
  "time_sorted_input_required_watermark dec g node i =
     (case node of
        Worker s \<Rightarrow>
          if \<not> requires_time_sorted_input dec s then None
          else let (urn, lateness) = scan_strategies g (incoming g i) (None, 0)
               in if is_global_window urn then Some (global_window_completion_watermark lateness) else None
      | _ \<Rightarrow> None)"

section \<open>Building the manager\<close>

definition sort_dedup :: "string list \<Rightarrow> string list" where
  "sort_dedup xs = remdups_adj (sort xs)"

definition ignore_error :: "watermark_manager wm_result \<Rightarrow> watermark_manager \<Rightarrow> watermark_manager" where
  "ignore_error r m = unwrap_or r m"

definition set_source_mode :: "executable_node \<Rightarrow> watermark_manager \<Rightarrow> watermark_manager" where
  "set_source_mode node m =
     (case node of
        Runner r \<Rightarrow> if \<not> rt_source_auto_finishes r
                    then ignore_error (set_source_auto_finish (node_id node) False m) m else m
      | _ \<Rightarrow> m)"

definition set_gate :: "stage_id \<Rightarrow> stage_kind \<Rightarrow> int \<Rightarrow> watermark_manager \<Rightarrow> watermark_manager" where
  "set_gate i k required m =
     (let m1 = ignore_error (set_stage_kind i k m) m
      in ignore_error (set_required_watermark i required m1) m1)"

definition add_node :: "pardo_decoder \<Rightarrow> executable_graph \<Rightarrow> nat \<Rightarrow> executable_node \<Rightarrow> watermark_manager \<Rightarrow> watermark_manager" where
  "add_node dec g i node m =
     (let mains = sort_dedup (map (\<lambda>e. produced_pcol_id (edge_weight e)) (incoming g i));
          sides = sort_dedup (concat (map (\<lambda>s. map sir_collection_id (es_side_inputs s)) (worker_stages node)));
          outs = sort_dedup (output_pcols node @ map (\<lambda>e. produced_pcol_id (edge_weight e)) (outgoing g i));
          m1 = set_source_mode node (add_stage (node_id node) mains sides outs m)
      in (case aggregation_required_watermark g node i of
            Some required \<Rightarrow> set_gate (node_id node) WatermarkGated required m1
          | None \<Rightarrow>
              (case time_sorted_input_required_watermark dec g node i of
                 Some required \<Rightarrow> set_gate (node_id node) TimeSortedInputWatermarkGated required m1
               | None \<Rightarrow> m1)))"

definition from_executable_graph :: "pardo_decoder \<Rightarrow> executable_graph \<Rightarrow> watermark_manager" where
  "from_executable_graph dec g =
     fold (\<lambda>(i, node). add_node dec g i node) (enumerate 0 (graph_nodes g)) new_manager"

section \<open>The manager of a graph\<close>

definition node_mains :: "executable_graph \<Rightarrow> nat \<Rightarrow> string list" where
  "node_mains g i = sort_dedup (map (\<lambda>e. produced_pcol_id (edge_weight e)) (incoming g i))"

definition node_sides :: "executable_node \<Rightarrow> string list" where
  "node_sides node = sort_dedup (concat (map (\<lambda>s. map sir_collection_id (es_side_inputs s)) (worker_stages node)))"

definition node_outs :: "executable_graph \<Rightarrow> nat \<Rightarrow> executable_node \<Rightarrow> string list" where
  "node_outs g i node = sort_dedup (output_pcols node @ map (\<lambda>e. produced_pcol_id (edge_weight e)) (outgoing g i))"

text \<open>The gate of a node: its kind and the watermark it requires.\<close>

definition node_gate :: "pardo_decoder \<Rightarrow> executable_graph \<Rightarrow> nat \<Rightarrow> executable_node \<Rightarrow> (stage_kind \<times> int)" where
  "node_gate dec g i node =
     (case aggregation_required_watermark g node i of
        Some required \<Rightarrow> (WatermarkGated, required)
      | None \<Rightarrow>
          (case time_sorted_input_required_watermark dec g node i of
             Some required \<Rightarrow> (TimeSortedInputWatermarkGated, required)
           | None \<Rightarrow> (Ordinary, MIN_TIMESTAMP)))"

definition node_source :: "executable_graph \<Rightarrow> nat \<Rightarrow> executable_node \<Rightarrow> source_state option" where
  "node_source g i node =
     (if node_mains g i \<noteq> [] then None
      else Some (case node of
                   Runner r \<Rightarrow> source_default\<lparr>auto_finish := rt_source_auto_finishes r\<rparr>
                 | _ \<Rightarrow> source_default))"

definition node_stage :: "pardo_decoder \<Rightarrow> executable_graph \<Rightarrow> nat \<Rightarrow> executable_node \<Rightarrow> stage_state" where
  "node_stage dec g i node =
     (new_stage (node_mains g i) (node_sides node) (node_outs g i node))
       \<lparr>source := node_source g i node, kind := fst (node_gate dec g i node),
        required_watermark := snd (node_gate dec g i node)\<rparr>"

lemma set_sort_dedup [simp]: "set (sort_dedup xs) = set xs"
  by (simp add: sort_dedup_def)

lemma ignore_stage_mut:
  "hm_get (stages m) i = Some s \<Longrightarrow> ignore_error (stage_mut i f m) m = m\<lparr>stages := hm_insert i (f s) (stages m)\<rparr>"
  by (simp add: ignore_error_def stage_mut_def)

lemma ignore_source_mut:
  "hm_get (stages m) i = Some s \<Longrightarrow> ignore_error (source_mut i f m) m =
     (case source s of None \<Rightarrow> m | Some src \<Rightarrow> m\<lparr>stages := hm_insert i (s\<lparr>source := Some (f src)\<rparr>) (stages m)\<rparr>)"
  by (simp add: ignore_error_def source_mut_def split: option.split)

lemma reachable_ignore: "wm_reachable m \<Longrightarrow> (\<And>m'. r = Ok m' \<Longrightarrow> wm_step m m') \<Longrightarrow> wm_reachable (ignore_error r m)"
  by (cases r) (auto simp: ignore_error_def intro: wm_reachable.step)

lemma set_gate_reachable: "wm_reachable m \<Longrightarrow> wm_reachable (set_gate i k r m)"
  unfolding set_gate_def Let_def by (intro reachable_ignore wm_step.set_required wm_step.set_kind) auto

lemma set_source_mode_reachable: "wm_reachable m \<Longrightarrow> wm_reachable (set_source_mode node m)"
  by (cases node) (auto simp: set_source_mode_def intro!: reachable_ignore wm_step.source_auto)

lemma add_node_reachable:
  assumes "wm_reachable m" and "hm_get (stages m) (node_id node) = None"
    and "\<forall>p \<in> set (node_outs g i node). hm_get (producers m) p = None"
  shows "wm_reachable (add_node dec g i node m)"
proof -
  have "wm_reachable (set_source_mode node (add_stage (node_id node) (node_mains g i) (node_sides node) (node_outs g i node) m))"
    using assms by (intro set_source_mode_reachable wm_reachable.step [OF assms(1)] wm_step.add) auto
  then show ?thesis
    by (simp add: add_node_def Let_def set_gate_reachable flip: node_mains_def node_sides_def node_outs_def split: option.split)
qed

lemma set_gate_stages:
  assumes "hm_get (stages m) i = Some s"
  shows "hm_get (stages (set_gate i k r m)) = (hm_get (stages m))(i \<mapsto> s\<lparr>kind := k, required_watermark := r\<rparr>)"
    and "producers (set_gate i k r m) = producers m"
  using assms by (simp_all add: set_gate_def set_stage_kind_def set_required_watermark_def ignore_stage_mut)

lemma set_source_mode_stages:
  assumes "hm_get (stages m) (node_id node) = Some s" and "source s = (if mains = [] then Some source_default else None)"
    and "mains = node_mains g i"
  shows "hm_get (stages (set_source_mode node m)) = (hm_get (stages m))(node_id node \<mapsto> s\<lparr>source := node_source g i node\<rparr>)"
    and "producers (set_source_mode node m) = producers m"
proof -
  have same: "s\<lparr>source := source s\<rparr> = s"
    by simp
  have "hm_get (stages m) = (hm_get (stages m))(node_id node \<mapsto> s)"
    using assms(1) by auto
  then show "hm_get (stages (set_source_mode node m)) = (hm_get (stages m))(node_id node \<mapsto> s\<lparr>source := node_source g i node\<rparr>)"
    using assms same ignore_source_mut [OF assms(1), of "\<lambda>s. s\<lparr>auto_finish := False\<rparr>"]
    by (cases node) (auto simp: set_source_mode_def set_source_auto_finish_def node_source_def source_default_def)
  show "producers (set_source_mode node m) = producers m"
    using ignore_source_mut [OF assms(1), of "\<lambda>s. s\<lparr>auto_finish := False\<rparr>"]
    by (cases node) (auto simp: set_source_mode_def set_source_auto_finish_def split: option.split)
qed

lemma add_node_stages:
  "hm_get (stages (add_node dec g i node m)) = (hm_get (stages m))(node_id node \<mapsto> node_stage dec g i node)"
  "producers (add_node dec g i node m) = fold (\<lambda>out ps. hm_insert out (node_id node) ps) (node_outs g i node) (producers m)"
proof -
  let ?m1 = "add_stage (node_id node) (node_mains g i) (node_sides node) (node_outs g i node) m"
  let ?s1 = "new_stage (node_mains g i) (node_sides node) (node_outs g i node)"
  let ?m2 = "set_source_mode node ?m1"
  let ?s2 = "?s1\<lparr>source := node_source g i node\<rparr>"
  have s1: "hm_get (stages ?m1) (node_id node) = Some ?s1"
    by (simp add: add_stage_def)
  have src: "source ?s1 = (if node_mains g i = [] then Some source_default else None)"
    by (simp add: new_stage_def)
  note m2 = set_source_mode_stages [OF s1 src refl]
  have s2: "hm_get (stages ?m2) (node_id node) = Some ?s2"
    by (simp add: m2(1))
  have all: "hm_get (stages ?m2) = (hm_get (stages m))(node_id node \<mapsto> ?s2)"
    by (simp add: m2(1)) (simp add: add_stage_def)
  have ord: "?s2 = ?s2\<lparr>kind := Ordinary, required_watermark := MIN_TIMESTAMP\<rparr>"
    by (simp add: new_stage_def)
  note gate = set_gate_stages [OF s2]
  note unfold = add_node_def Let_def node_mains_def [symmetric] node_sides_def [symmetric] node_outs_def [symmetric]
  show "hm_get (stages (add_node dec g i node m)) = (hm_get (stages m))(node_id node \<mapsto> node_stage dec g i node)"
    unfolding unfold node_stage_def node_gate_def
    using gate(1) all ord by (simp split: option.split)
  show "producers (add_node dec g i node m) = fold (\<lambda>out ps. hm_insert out (node_id node) ps) (node_outs g i node) (producers m)"
    unfolding unfold using gate(2) m2(2) by (simp add: add_stage_def split: option.split)
qed

text \<open>
  The graphs a pipeline gives: node ids are distinct and every PCollection is the output of
  one node only.
\<close>

definition graph_ok :: "executable_graph \<Rightarrow> bool" where
  "graph_ok g \<longleftrightarrow> distinct (map node_id (graph_nodes g))
     \<and> distinct (concat (map (\<lambda>(i, node). node_outs g i node) (enumerate 0 (graph_nodes g))))"

lemma hm_get_producers: "hm_get (fold (\<lambda>out ps. hm_insert out i ps) outs ps) p = (if p \<in> set outs then Some i else hm_get ps p)"
  by (induction outs arbitrary: ps) auto

lemma fold_nodes:
  assumes "wm_reachable m" and "distinct (map (\<lambda>(i, node). node_id node) xs)"
    and "distinct (concat (map (\<lambda>(i, node). node_outs g i node) xs))"
    and "\<forall>(i, node) \<in> set xs. hm_get (stages m) (node_id node) = None
      \<and> (\<forall>p \<in> set (node_outs g i node). hm_get (producers m) p = None)"
  shows "wm_reachable (fold (\<lambda>(i, node). add_node dec g i node) xs m)
    \<and> (\<forall>k. hm_get (stages (fold (\<lambda>(i, node). add_node dec g i node) xs m)) k =
        (case map_of (map (\<lambda>(i, node). (node_id node, node_stage dec g i node)) xs) k of
           Some s \<Rightarrow> Some s | None \<Rightarrow> hm_get (stages m) k))"
  using assms
proof (induction xs arbitrary: m)
  case (Cons x xs)
  obtain i node where x: "x = (i, node)"
    by (cases x)
  let ?m = "add_node dec g i node m"
  have fresh: "hm_get (stages m) (node_id node) = None" "\<forall>p \<in> set (node_outs g i node). hm_get (producers m) p = None"
    using Cons.prems(4) x by auto
  have re: "wm_reachable ?m"
    by (rule add_node_reachable [OF Cons.prems(1) fresh])
  have later: "\<forall>(j, n) \<in> set xs. hm_get (stages ?m) (node_id n) = None \<and> (\<forall>p \<in> set (node_outs g j n). hm_get (producers ?m) p = None)"
  proof (clarify, intro conjI ballI)
    fix j n
    assume jn: "(j, n) \<in> set xs"
    have "node_id n \<noteq> node_id node"
      using Cons.prems(2) jn x by (force simp: image_iff)
    then show "hm_get (stages ?m) (node_id n) = None"
      using Cons.prems(4) jn by (auto simp: add_node_stages(1))
    fix p
    assume p: "p \<in> set (node_outs g j n)"
    have "p \<notin> set (node_outs g i node)"
      using Cons.prems(3) jn p x by auto
    then show "hm_get (producers ?m) p = None"
      using Cons.prems(4) jn p by (auto simp: add_node_stages(2) hm_get_producers)
  qed
  have "map_of (map (\<lambda>(i, node). (node_id node, node_stage dec g i node)) xs) (node_id node) = None"
    using Cons.prems(2) x by (auto simp: map_of_eq_None_iff image_iff)
  then show ?case
    using Cons.IH [OF re _ _ later] Cons.prems(2,3) x by (auto simp: add_node_stages(1) split: option.split)
qed simp

lemma from_executable_graph_reachable:
  assumes "graph_ok g"
  shows "wm_reachable (from_executable_graph dec g)"
    and "hm_get (stages (from_executable_graph dec g)) =
      map_of (map (\<lambda>(i, node). (node_id node, node_stage dec g i node)) (enumerate 0 (graph_nodes g)))"
proof -
  have ids: "map (\<lambda>(i, node). node_id node) (enumerate 0 (graph_nodes g)) = map node_id (graph_nodes g)"
    by (rule nth_equalityI) (auto simp: nth_enumerate_eq)
  note fn = fold_nodes [of new_manager "enumerate 0 (graph_nodes g)" g dec]
  show "wm_reachable (from_executable_graph dec g)"
    using fn ids assms by (auto simp: from_executable_graph_def graph_ok_def new_manager_def wm_reachable.initial [unfolded new_manager_def])
  show "hm_get (stages (from_executable_graph dec g)) =
      map_of (map (\<lambda>(i, node). (node_id node, node_stage dec g i node)) (enumerate 0 (graph_nodes g)))"
    using fn ids assms wm_reachable.initial
    by (auto simp: from_executable_graph_def graph_ok_def new_manager_def fun_eq_iff split: option.split)
qed

lemma node_stage_of:
  assumes "graph_ok g" and "i < length (graph_nodes g)"
  shows "hm_get (stages (from_executable_graph dec g)) (node_id (graph_nodes g ! i))
    = Some (node_stage dec g i (graph_nodes g ! i))"
proof -
  let ?xs = "map (\<lambda>(i, node). (node_id node, node_stage dec g i node)) (enumerate 0 (graph_nodes g))"
  have "map fst ?xs = map node_id (graph_nodes g)"
    by (rule nth_equalityI) (auto simp: nth_enumerate_eq)
  then have "distinct (map fst ?xs)"
    using assms(1) by (simp add: graph_ok_def)
  moreover have "?xs ! i = (node_id (graph_nodes g ! i), node_stage dec g i (graph_nodes g ! i))" "i < length ?xs"
    using assms(2) by (simp_all add: nth_enumerate_eq)
  ultimately show ?thesis
    unfolding from_executable_graph_reachable(2) [OF assms(1)]
    by (metis (no_types, lifting) map_of_is_SomeI nth_mem)
qed

end
