(* ===== verification/Graph_Builder.thy ===== *)
theory Graph_Builder
  imports Exec_Graph
begin

text \<open>
  Building the executable graph from a fused pipeline (\<open>ExecutableGraph::from\<close> of
  \<open>fusion/pipeline.rs\<close>): stages and runner transforms become nodes, discovered from the
  roots along the PCollections they exchange, and runs of splittable stages are folded
  into one node. Also the construction of the runner's transforms (\<open>transforms/mod.rs\<close>).
  Random identifiers come from \<open>uuid\<close> with a counter; petgraph's \<open>toposort\<close> and the
  encoded \<open>RemoteGrpcPort\<close> of a source descriptor are arguments. A failing \<open>expect\<close>,
  \<open>assert!\<close> or \<open>panic!\<close> is \<open>Panic\<close>.
\<close>

section \<open>The runner's transforms\<close>

definition BEAM_SOURCE :: string where "BEAM_SOURCE = ''beam:runner:source:v1''"

definition descriptor :: "string \<Rightarrow> bytes \<Rightarrow> (string, string) hashmap \<Rightarrow> (string, string) hashmap \<Rightarrow> string \<Rightarrow> string \<Rightarrow> ptransform" where
  "descriptor urn payload ins outs name env =
     \<lparr>pt_unique_name = name, pt_spec = Some \<lparr>spec_urn = urn, spec_payload = payload\<rparr>,
      pt_inputs = ins, pt_outputs = outs, pt_subtransforms = [], pt_environment_id = env\<rparr>"

text \<open>\<open>transfrom_spec\<close> of each runner transform\<close>

definition impulse_spec :: "bytes \<Rightarrow> string \<Rightarrow> (string, string) hashmap \<Rightarrow> (string, ptransform) hashmap" where
  "impulse_spec port name outs = [(''Create-Values-Impulse'', descriptor BEAM_SOURCE port [] outs name ''process'')]"

definition test_stream_spec :: "bytes \<Rightarrow> string \<Rightarrow> (string, string) hashmap \<Rightarrow> (string, ptransform) hashmap" where
  "test_stream_spec port name outs = [(name, descriptor BEAM_SOURCE port [] outs name ''process'')]"

definition group_by_key_spec :: "string \<Rightarrow> string \<Rightarrow> (string, string) hashmap \<Rightarrow> (string, string) hashmap \<Rightarrow> (string, ptransform) hashmap" where
  "group_by_key_spec i name ins outs = [(i, descriptor GROUP_BY_KEY_TRANSFORM [] ins outs name '''')]"

definition flatten_spec :: "string \<Rightarrow> string \<Rightarrow> (string, string) hashmap \<Rightarrow> (string, string) hashmap \<Rightarrow> (string, ptransform) hashmap" where
  "flatten_spec i name ins outs = [(i, descriptor FLATTEN_TRANSFORM [] ins outs name '''')]"

text \<open>\<open>from_urn_with_payload\<close>; the script a TestStream reads from the payload belongs to its execution.\<close>

definition from_urn_with_payload :: "bytes \<Rightarrow> string \<Rightarrow> string \<Rightarrow> string \<Rightarrow> (string, string) hashmap \<Rightarrow> (string, string) hashmap
   \<Rightarrow> runner_transform translation" where
  "from_urn_with_payload port i urn name ins outs =
     (let rt = (\<lambda>spec auto. \<lparr>rt_id = i, rt_output_pcol_ids = remdups (map snd outs), rt_transform_spec = spec, rt_source_auto_finishes = auto\<rparr>)
      in if urn = IMPULSE_TRANSFORM then Ok (rt (impulse_spec port name outs) True)
         else if urn = GROUP_BY_KEY_TRANSFORM then Ok (rt (group_by_key_spec i name ins outs) True)
         else if urn = FLATTEN_TRANSFORM then Ok (rt (flatten_spec i name ins outs) True)
         else if urn = TEST_STREAM_TRANSFORM then Ok (rt (test_stream_spec port name outs) False)
         else Panic)"

section \<open>Stages\<close>

definition is_splittable :: "executable_stage \<Rightarrow> bool" where
  "is_splittable s \<longleftrightarrow>
     list_ex (\<lambda>t. case pt_spec (ptn_transform t) of Some spec \<Rightarrow> spec_urn spec \<in> set SPLITTABLE_PARDO_COMPONENTS | None \<Rightarrow> False)
       (es_transforms s)"

definition process_kind_of_urn :: "string \<Rightarrow> splittable_process_kind option" where
  "process_kind_of_urn urn =
     (if urn = SPLITTABLE_PROCESS_ELEMENTS_URN then Some ProcessElements
      else if urn = SPLITTABLE_PROCESS_KEYED_URN then Some ProcessKeyedElements
      else if urn = SPLITTABLE_PROCESS_SIZED_ELEMENTS_AND_RESTRICTIONS_URN then Some ProcessSizedElementsAndRestrictions
      else None)"

definition splittable_process_kind_of :: "executable_stage \<Rightarrow> splittable_process_kind option" where
  "splittable_process_kind_of s =
     (case List.map_filter (\<lambda>t. Option.bind (pt_spec (ptn_transform t)) (\<lambda>spec. process_kind_of_urn (spec_urn spec))) (es_transforms s) of
        [] \<Rightarrow> None | k # _ \<Rightarrow> Some k)"

section \<open>Consumers of PCollections\<close>

record consumer_link =
  cl_node :: executable_node
  cl_transform_id :: string

type_synonym consumer_map = "(string, consumer_link list) hashmap"

text \<open>\<open>map.entry(key).or_default().push(link)\<close>\<close>

definition push_link :: "string \<Rightarrow> consumer_link \<Rightarrow> consumer_map \<Rightarrow> consumer_map" where
  "push_link k l m = hm_insert k (case hm_get m k of Some ls \<Rightarrow> ls @ [l] | None \<Rightarrow> [l]) m"

definition worker_links :: "executable_stage \<Rightarrow> consumer_map \<Rightarrow> consumer_map" where
  "worker_links s m =
     fold (\<lambda>t m. if pcn_id (es_input_pcol s) \<in> set (map snd (pt_inputs (ptn_transform t)))
                 then push_link (pcn_id (es_input_pcol s)) \<lparr>cl_node = Worker s, cl_transform_id = pt_unique_name (ptn_transform t)\<rparr> m
                 else m)
       (es_transforms s) m"

definition runner_links :: "(nat \<Rightarrow> string) \<Rightarrow> bytes \<Rightarrow> ptransform_node \<Rightarrow> consumer_map \<times> nat \<Rightarrow> (consumer_map \<times> nat) translation" where
  "runner_links uuid port t acc =
     (case (acc, pt_spec (ptn_transform t)) of
        ((m, n), None) \<Rightarrow> Ok (m, n)
      | ((m, n), Some spec) \<Rightarrow>
          rbind (from_urn_with_payload port (uuid n) (spec_urn spec) (pt_unique_name (ptn_transform t))
                   (pt_inputs (ptn_transform t)) (pt_outputs (ptn_transform t))) (\<lambda>r.
            Ok (fold (\<lambda>p. push_link p \<lparr>cl_node = Runner r, cl_transform_id = pt_unique_name (ptn_transform t)\<rparr>)
                  (map snd (pt_inputs (ptn_transform t))) m, Suc n)))"

text \<open>What the construction only reads.\<close>

record build_context =
  bc_components :: components
  bc_sdk_stages :: "executable_stage list"
  bc_runner_stages :: "ptransform_node list"
  bc_consumers :: consumer_map
  bc_side_inputs :: "string list"

definition links_of :: "build_context \<Rightarrow> string \<Rightarrow> consumer_link list" where
  "links_of bc p = (case hm_get (bc_consumers bc) p of Some ls \<Rightarrow> ls | None \<Rightarrow> [])"

definition get_producer_transform :: "executable_stage list \<Rightarrow> ptransform_node list \<Rightarrow> string \<Rightarrow> string translation" where
  "get_producer_transform sdk runner p =
     (case find (\<lambda>t. p \<in> set (map snd (pt_outputs (ptn_transform t)))) (concat (map es_transforms sdk) @ runner) of
        Some t \<Rightarrow> Ok (pt_unique_name (ptn_transform t)) | None \<Rightarrow> Panic)"

definition build_consumer_metadata :: "build_context \<Rightarrow> string \<Rightarrow> string \<Rightarrow> consumer_meta_data translation" where
  "build_consumer_metadata bc p consumer =
     rbind (get_producer_transform (bc_sdk_stages bc) (bc_runner_stages bc) p) (\<lambda>producer.
       case hm_get (c_pcollections (bc_components bc)) p of
         None \<Rightarrow> Panic
       | Some pcol \<Rightarrow>
           Ok \<lparr>producer_transform_id = producer, produced_pcol_id = p, cm_coder_id = pc_coder_id pcol,
               component_coder = map_option component_coder_ids (hm_get (c_coders (bc_components bc)) (pc_coder_id pcol)),
               consumer_transfrom_id = consumer\<rparr>)"

section \<open>Splittable runs\<close>

record nested_run =
  nr_nodes :: "executable_stage list"
  nr_edges :: "graph_edge list"
  nr_indices :: "(string, nat) hashmap"
  nr_boundary :: "string list"
  nr_pending :: "executable_stage list"
  nr_visited :: "string list"
  nr_members :: "string list"

definition nested_index :: "executable_stage \<Rightarrow> nested_run \<Rightarrow> nat \<times> nested_run" where
  "nested_index s run =
     (case hm_get (nr_indices run) (es_id s) of
        Some i \<Rightarrow> (i, run)
      | None \<Rightarrow> (length (nr_nodes run),
          run\<lparr>nr_nodes := nr_nodes run @ [s], nr_indices := hm_insert (es_id s) (length (nr_nodes run)) (nr_indices run)\<rparr>))"

definition nested_link :: "build_context \<Rightarrow> bool \<Rightarrow> nat \<Rightarrow> string \<Rightarrow> consumer_link \<Rightarrow> nested_run \<times> bool \<Rightarrow> (nested_run \<times> bool) translation" where
  "nested_link bc completes i p l acc =
     (case (acc, cl_node l) of
        ((run, external), Worker s) \<Rightarrow>
          if is_splittable s \<and> \<not> completes
          then let (j, run1) = nested_index s run
               in rbind (build_consumer_metadata bc p (cl_transform_id l)) (\<lambda>w.
                    Ok (run1\<lparr>nr_edges := \<lparr>edge_source = i, edge_target = j, edge_weight = w\<rparr> # nr_edges run1,
                             nr_pending := nr_pending run1 @ [s]\<rparr>, external))
          else Ok (run, True)
      | ((run, external), _) \<Rightarrow> Ok (run, True))"

definition nested_output :: "build_context \<Rightarrow> bool \<Rightarrow> nat \<Rightarrow> string \<Rightarrow> nested_run \<Rightarrow> nested_run translation" where
  "nested_output bc completes i p run =
     rbind (rfold (nested_link bc completes i p) (links_of bc p) (run, p \<in> set (bc_side_inputs bc))) (\<lambda>(run', external).
       Ok (if external then run'\<lparr>nr_boundary := List.insert p (nr_boundary run')\<rparr> else run'))"

definition nested_stage :: "build_context \<Rightarrow> executable_stage \<Rightarrow> nested_run \<Rightarrow> nested_run translation" where
  "nested_stage bc s run =
     (let (i, run1) = nested_index s run
      in rfold (nested_output bc (splittable_process_kind_of s \<noteq> None) i) (map pcn_id (es_output_pcols s))
           (run1\<lparr>nr_members := nr_members run1 @ [es_id s]\<rparr>))"

text \<open>
  The loop over the pending stages ends: a stage it pops is already visited, or it is
  visited now and only stages of the consumer map are added.
\<close>

definition linked_worker :: "consumer_link \<Rightarrow> string option" where
  "linked_worker l = (case cl_node l of Worker s \<Rightarrow> Some (es_id s) | _ \<Rightarrow> None)"

definition worker_ids :: "build_context \<Rightarrow> string set" where
  "worker_ids bc = set (List.map_filter linked_worker (concat (map snd (bc_consumers bc))))"

lemma finite_worker_ids [simp]: "finite (worker_ids bc)"
  by (simp add: worker_ids_def)

lemma links_worker:
  assumes "l \<in> set (links_of bc p)" and "cl_node l = Worker s"
  shows "es_id s \<in> worker_ids bc"
proof -
  obtain ls where "(p, ls) \<in> set (bc_consumers bc)" "l \<in> set ls"
    using assms(1) by (cases "hm_get (bc_consumers bc) p") (auto simp: links_of_def dest: map_of_SomeD)
  then have "l \<in> set (concat (map snd (bc_consumers bc)))"
    by force
  moreover have "linked_worker l = Some (es_id s)"
    by (simp add: linked_worker_def assms(2))
  ultimately show ?thesis
    by (force simp: worker_ids_def List.map_filter_def)
qed

definition unvisited :: "build_context \<Rightarrow> nested_run \<Rightarrow> string set" where
  "unvisited bc run = (es_id ` set (nr_pending run) \<union> worker_ids bc) - set (nr_visited run)"

definition nested_bound :: "build_context \<Rightarrow> string set \<Rightarrow> string list \<Rightarrow> nested_run \<Rightarrow> bool" where
  "nested_bound bc ids visited run \<longleftrightarrow> nr_visited run = visited \<and> (\<forall>s \<in> set (nr_pending run). es_id s \<in> ids \<union> worker_ids bc)"

lemma nested_index_fields [simp]:
  "nr_visited (snd (nested_index s run)) = nr_visited run" "nr_pending (snd (nested_index s run)) = nr_pending run"
  by (simp_all add: nested_index_def split: option.split)

lemma nested_link_bound:
  assumes "nested_link bc completes i p l acc = Ok acc'" and "l \<in> set (links_of bc p)" and "nested_bound bc ids visited (fst acc)"
  shows "nested_bound bc ids visited (fst acc')"
proof -
  obtain run external where acc: "acc = (run, external)"
    by (cases acc)
  show ?thesis
  proof (cases "cl_node l")
    case (Worker s)
    obtain j run1 where run1: "nested_index s run = (j, run1)"
      by (cases "nested_index s run")
    have "nr_visited run1 = nr_visited run" "nr_pending run1 = nr_pending run"
      using nested_index_fields [of s run] by (simp_all add: run1)
    then show ?thesis
      using assms links_worker [OF assms(2) Worker]
      by (auto simp: nested_link_def acc Worker run1 nested_bound_def split: if_splits)
  qed (use assms in \<open>auto simp: nested_link_def acc\<close>)
qed

lemma nested_output_bound:
  assumes "nested_output bc completes i p run = Ok run'" and "nested_bound bc ids visited run"
  shows "nested_bound bc ids visited run'"
proof -
  obtain run1 external where fold: "rfold (nested_link bc completes i p) (links_of bc p) (run, p \<in> set (bc_side_inputs bc)) = Ok (run1, external)"
    and run': "run' = (if external then run1\<lparr>nr_boundary := List.insert p (nr_boundary run1)\<rparr> else run1)"
    using assms(1) by (auto simp: nested_output_def)
  have "nested_bound bc ids visited (fst (run1, external))"
    by (rule rfold_invariant [where P = "\<lambda>acc. nested_bound bc ids visited (fst acc)", OF fold])
      (use assms(2) nested_link_bound in auto)
  then show ?thesis
    by (simp add: run' nested_bound_def)
qed

lemma nested_stage_bound:
  assumes "nested_stage bc s run = Ok run'" and "nested_bound bc ids visited run"
  shows "nested_bound bc ids visited run'"
proof -
  obtain i run1 where run1: "nested_index s run = (i, run1)"
    by (cases "nested_index s run")
  have start: "nested_bound bc ids visited (run1\<lparr>nr_members := nr_members run1 @ [es_id s]\<rparr>)"
    using assms(2) nested_index_fields [of s run] by (simp add: run1 nested_bound_def)
  have "rfold (nested_output bc (splittable_process_kind_of s \<noteq> None) i) (map pcn_id (es_output_pcols s))
      (run1\<lparr>nr_members := nr_members run1 @ [es_id s]\<rparr>) = Ok run'"
    using assms(1) by (simp add: nested_stage_def run1)
  then show ?thesis
    by (rule rfold_invariant [where P = "nested_bound bc ids visited", OF _ start]) (rule nested_output_bound)
qed

lemma nested_stage_decreases:
  assumes pending: "nr_pending run = s # rest" and new: "es_id s \<notin> set (nr_visited run)"
    and run': "nested_stage bc s (run\<lparr>nr_pending := rest, nr_visited := es_id s # nr_visited run\<rparr>) = Ok run'"
  shows "card (unvisited bc run') < card (unvisited bc run)"
proof (rule psubset_card_mono)
  have "nested_bound bc (es_id ` set rest) (es_id s # nr_visited run) run'"
    by (rule nested_stage_bound [OF run']) (simp add: nested_bound_def)
  then have "unvisited bc run' \<subseteq> unvisited bc run - {es_id s}"
    by (auto simp: unvisited_def nested_bound_def pending)
  moreover have "es_id s \<in> unvisited bc run"
    using new by (simp add: unvisited_def pending)
  ultimately show "unvisited bc run' \<subset> unvisited bc run"
    by blast
qed (simp add: unvisited_def)

function nested_loop :: "build_context \<Rightarrow> nested_run \<Rightarrow> nested_run translation" where
  "nested_loop bc run =
     (case nr_pending run of
        [] \<Rightarrow> Ok run
      | s # rest \<Rightarrow>
          if es_id s \<in> set (nr_visited run) then nested_loop bc (run\<lparr>nr_pending := rest\<rparr>)
          else rbind (nested_stage bc s (run\<lparr>nr_pending := rest, nr_visited := es_id s # nr_visited run\<rparr>)) (nested_loop bc))"
  by pat_completeness auto

termination
proof (relation "measures [\<lambda>(bc, run). card (unvisited bc run), \<lambda>(bc, run). length (nr_pending run)]", goal_cases)
  case (2 bc run s rest)
  then have "unvisited bc (run\<lparr>nr_pending := rest\<rparr>) = unvisited bc run"
    by (auto simp: unvisited_def)
  then show ?case
    using 2 by simp
next
  case (3 bc run s rest run')
  then show ?case
    using nested_stage_decreases by simp
qed simp

declare nested_loop.simps [simp del]

fun join_with :: "char \<Rightarrow> string list \<Rightarrow> string" where
  "join_with c [] = []"
| "join_with c [x] = x"
| "join_with c (x # y # ys) = x @ c # join_with c (y # ys)"

text \<open>\<open>petgraph::algo::toposort\<close> on a graph given by its size and its edges, \<open>None\<close> on a cycle.\<close>

type_synonym toposort = "nat \<Rightarrow> (nat \<times> nat) list \<Rightarrow> nat list option"

definition build_splittable_execution_plan :: "toposort \<Rightarrow> nested_run \<Rightarrow> splittable_execution_plan translation" where
  "build_splittable_execution_plan topo run =
     (case topo (length (nr_nodes run)) (map (\<lambda>e. (edge_source e, edge_target e)) (nr_edges run)) of
        None \<Rightarrow> Panic
      | Some order \<Rightarrow>
          if \<not> list_all (\<lambda>i. i < length (nr_nodes run)) order then Panic
          else let sorted = map (\<lambda>i. nr_nodes run ! i) order;
                   inits = filter (\<lambda>s. splittable_process_kind_of s = None) sorted;
                   procs = filter (\<lambda>s. splittable_process_kind_of s \<noteq> None) sorted
               in if inits = [] \<or> procs = [] then Panic
                  else Ok \<lparr>initialization_stages = inits, process_stage = last procs,
                           process_kind = the (splittable_process_kind_of (last procs))\<rparr>)"

definition build_splittable_node :: "toposort \<Rightarrow> build_context \<Rightarrow> executable_stage \<Rightarrow> (executable_node \<times> string list) translation" where
  "build_splittable_node topo bc start =
     rbind (nested_loop bc \<lparr>nr_nodes = [], nr_edges = [], nr_indices = [], nr_boundary = [], nr_pending = [start],
              nr_visited = [], nr_members = []\<rparr>) (\<lambda>run.
     rbind (build_splittable_execution_plan topo run) (\<lambda>plan.
       let members = sort (nr_members run)
       in Ok (Splittable (''splittable:'' @ join_with CHR '','' members) (map Worker (nr_nodes run)) (nr_edges run)
                (nr_boundary run) plan, members)))"

definition resolve_consumer :: "toposort \<Rightarrow> build_context \<Rightarrow> executable_node \<Rightarrow> (string, executable_node) hashmap
   \<Rightarrow> (executable_node \<times> (string, executable_node) hashmap) translation" where
  "resolve_consumer topo bc node cache =
     (case node of
        Worker s \<Rightarrow>
          if \<not> is_splittable s then Ok (node, cache)
          else (case hm_get cache (es_id s) of
                  Some existing \<Rightarrow> Ok (existing, cache)
                | None \<Rightarrow>
                    rbind (build_splittable_node topo bc s) (\<lambda>(splittable, members).
                      Ok (splittable, fold (\<lambda>m. hm_insert m splittable) members cache)))
      | _ \<Rightarrow> Ok (node, cache))"

section \<open>The graph\<close>

record graph_builder =
  gb_nodes :: "executable_node list"
  gb_edges :: "graph_edge list"
  gb_indices :: "(string, nat) hashmap"
  gb_root_metadata :: "consumer_meta_data option"
  gb_cache :: "(string, executable_node) hashmap"
  gb_queue :: "executable_node list"
  gb_queued :: "string list"

definition ensure_node_exists :: "executable_node \<Rightarrow> graph_builder \<Rightarrow> nat \<times> graph_builder" where
  "ensure_node_exists node gb =
     (case hm_get (gb_indices gb) (node_id node) of
        Some i \<Rightarrow> (i, gb)
      | None \<Rightarrow> (length (gb_nodes gb),
          gb\<lparr>gb_nodes := gb_nodes gb @ [node], gb_indices := hm_insert (node_id node) (length (gb_nodes gb)) (gb_indices gb)\<rparr>))"

text \<open>\<open>if queued.insert(id) { work_queue.push_back(node) }\<close>\<close>

definition enqueue :: "executable_node \<Rightarrow> graph_builder \<Rightarrow> graph_builder" where
  "enqueue node gb =
     (if node_id node \<in> set (gb_queued gb) then gb
      else gb\<lparr>gb_queued := node_id node # gb_queued gb, gb_queue := gb_queue gb @ [node]\<rparr>)"

text \<open>The node of the consumer is created if needed, linked to its producer and queued.\<close>

definition connect :: "build_context \<Rightarrow> bool \<Rightarrow> nat \<Rightarrow> string \<Rightarrow> string \<Rightarrow> executable_node \<Rightarrow> graph_builder \<Rightarrow> graph_builder translation" where
  "connect bc root i p transform node gb =
     (let (j, gb1) = ensure_node_exists node gb
      in rbind (build_consumer_metadata bc p transform) (\<lambda>w.
           let gb2 = (if root \<and> gb_root_metadata gb1 = None then gb1\<lparr>gb_root_metadata := Some w\<rparr> else gb1)
           in Ok (enqueue node (gb2\<lparr>gb_edges := \<lparr>edge_source = i, edge_target = j, edge_weight = w\<rparr> # gb_edges gb2\<rparr>))))"

definition root_link :: "toposort \<Rightarrow> build_context \<Rightarrow> nat \<Rightarrow> string \<Rightarrow> consumer_link \<Rightarrow> graph_builder \<Rightarrow> graph_builder translation" where
  "root_link topo bc i p l gb =
     rbind (resolve_consumer topo bc (cl_node l) (gb_cache gb)) (\<lambda>(node, cache).
       connect bc True i p (cl_transform_id l) node (gb\<lparr>gb_cache := cache\<rparr>))"

definition producer_link :: "toposort \<Rightarrow> build_context \<Rightarrow> executable_node \<Rightarrow> nat \<Rightarrow> string \<Rightarrow> consumer_link
   \<Rightarrow> graph_builder \<Rightarrow> graph_builder translation" where
  "producer_link topo bc producer i p l gb =
     rbind (resolve_consumer topo bc (cl_node l) (gb_cache gb)) (\<lambda>(node, cache).
       if node_id node = node_id producer then Ok (gb\<lparr>gb_cache := cache\<rparr>)
       else connect bc False i p (cl_transform_id l) node (gb\<lparr>gb_cache := cache\<rparr>))"

text \<open>\<open>get_roots\<close> and the loop over the roots\<close>

definition get_roots :: "ptransform_node list \<Rightarrow> ptransform_node list" where
  "get_roots runner = filter (\<lambda>t. pt_inputs (ptn_transform t) = []) runner"

definition add_root :: "(nat \<Rightarrow> string) \<Rightarrow> bytes \<Rightarrow> toposort \<Rightarrow> build_context \<Rightarrow> ptransform_node
   \<Rightarrow> graph_builder \<times> nat \<Rightarrow> (graph_builder \<times> nat) translation" where
  "add_root uuid port topo bc root acc =
     (case (acc, pt_spec (ptn_transform root)) of
        ((gb, n), None) \<Rightarrow> Ok (gb, n)
      | ((gb, n), Some spec) \<Rightarrow>
          rbind (from_urn_with_payload port (uuid n) (spec_urn spec) (pt_unique_name (ptn_transform root))
                   (pt_inputs (ptn_transform root)) (pt_outputs (ptn_transform root))) (\<lambda>r.
            let (i, gb1) = ensure_node_exists (Runner r) gb;
                gb2 = gb1\<lparr>gb_queued := List.insert (rt_id r) (gb_queued gb1)\<rparr>
            in rbind (rfold (\<lambda>p. rfold (root_link topo bc i p) (links_of bc p)) (map snd (pt_outputs (ptn_transform root))) gb2) (\<lambda>gb3.
                 Ok (gb3, Suc n))))"

text \<open>One round of the loop over the work queue, on the node taken from it.\<close>

definition expand_node :: "toposort \<Rightarrow> build_context \<Rightarrow> executable_node \<Rightarrow> graph_builder \<Rightarrow> graph_builder translation" where
  "expand_node topo bc producer gb =
     (let (i, gb1) = ensure_node_exists producer gb
      in rfold (\<lambda>p. rfold (producer_link topo bc producer i p) (links_of bc p)) (output_pcols producer) gb1)"

text \<open>
  The loop ends: a node is queued once, and every new splittable node puts a further stage
  of the consumer map into the cache.
\<close>

definition link_ids :: "build_context \<Rightarrow> string set" where
  "link_ids bc = (node_id \<circ> cl_node) ` set (concat (map snd (bc_consumers bc)))"

definition work_bound :: "build_context \<Rightarrow> graph_builder \<Rightarrow> nat" where
  "work_bound bc gb =
     2 * card (worker_ids bc - fst ` set (gb_cache gb))
     + card ((link_ids bc \<union> node_id ` snd ` set (gb_cache gb)) - set (gb_queued gb)) + length (gb_queue gb)"

lemma links_of_mem: "l \<in> set (links_of bc p) \<Longrightarrow> l \<in> set (concat (map snd (bc_consumers bc)))"
  by (cases "hm_get (bc_consumers bc) p") (force simp: links_of_def dest: map_of_SomeD)+

lemma values_insert: "snd ` set (hm_insert k v m) \<subseteq> insert v (snd ` set m)"
  by (induction m) auto

lemma values_fold_insert: "snd ` set (fold (\<lambda>k. hm_insert k v) ks m) \<subseteq> insert v (snd ` set m)"
proof (induction ks arbitrary: m)
  case (Cons k ks)
  have "snd ` set (fold (\<lambda>k. hm_insert k v) ks (hm_insert k v m)) \<subseteq> insert v (snd ` set (hm_insert k v m))"
    by (rule Cons.IH)
  also have "\<dots> \<subseteq> insert v (snd ` set m)"
    using values_insert [of k v m] by (simp add: insert_absorb2 subset_insertI2)
  finally show ?case
    by simp
qed auto

lemma keys_fold_insert: "fst ` set (fold (\<lambda>k. hm_insert k v) ks m) = set ks \<union> fst ` set m"
  by (induction ks arbitrary: m) (auto simp: dom_update)

lemma nested_members_mono:
  "nested_stage bc s run = Ok run' \<Longrightarrow> nr_members run' = nr_members run @ [es_id s]"
proof -
  have index: "nr_members (snd (nested_index s run)) = nr_members run" for s run
    by (simp add: nested_index_def split: option.split)
  have link: "nr_members (fst acc') = nr_members (fst acc)" if "nested_link bc c i p l acc = Ok acc'" for c i p l acc acc'
  proof (cases "cl_node l")
    case (Worker s)
    then show ?thesis
      using that index [of s "fst acc"] by (auto simp: nested_link_def split: prod.splits if_splits)
  qed (use that in \<open>auto simp: nested_link_def split: prod.splits\<close>)
  have outp: "nr_members run' = nr_members run" if out: "nested_output bc c i p run = Ok run'" for c i p run run'
  proof -
    obtain run1 ext where fold: "rfold (nested_link bc c i p) (links_of bc p) (run, p \<in> set (bc_side_inputs bc)) = Ok (run1, ext)"
      and run': "nr_members run' = nr_members run1"
      using out by (auto simp: nested_output_def split: if_splits)
    have "nr_members (fst (run1, ext)) = nr_members run"
      by (rule rfold_invariant [where P = "\<lambda>acc. nr_members (fst acc) = nr_members run", OF fold]) (use link in auto)
    then show ?thesis
      by (simp add: run')
  qed
  assume stage: "nested_stage bc s run = Ok run'"
  obtain i run1 where run1: "nested_index s run = (i, run1)"
    by (cases "nested_index s run")
  have fold: "rfold (nested_output bc (splittable_process_kind_of s \<noteq> None) i) (map pcn_id (es_output_pcols s))
      (run1\<lparr>nr_members := nr_members run1 @ [es_id s]\<rparr>) = Ok run'"
    using stage by (simp add: nested_stage_def run1)
  have "nr_members run' = nr_members run1 @ [es_id s]"
    by (rule rfold_invariant [where P = "\<lambda>r. nr_members r = nr_members run1 @ [es_id s]", OF fold]) (use outp in auto)
  then show "nr_members run' = nr_members run @ [es_id s]"
    using index [of s run] by (simp add: run1)
qed

lemma nested_loop_members: "nested_loop bc run = Ok run' \<Longrightarrow> set (nr_members run) \<subseteq> set (nr_members run')"
proof (induction bc run rule: nested_loop.induct)
  case (1 bc run)
  show ?case
  proof (cases "nr_pending run")
    case Nil
    then show ?thesis
      using 1(3) by (simp add: nested_loop.simps)
  next
    case (Cons s rest)
    show ?thesis
    proof (cases "es_id s \<in> set (nr_visited run)")
      case True
      then have "nested_loop bc (run\<lparr>nr_pending := rest\<rparr>) = Ok run'"
        using 1(3) Cons by (subst (asm) nested_loop.simps) simp
      then show ?thesis
        using 1(1) [OF Cons True] by simp
    next
      case False
      then obtain run1 where run1: "nested_stage bc s (run\<lparr>nr_pending := rest, nr_visited := es_id s # nr_visited run\<rparr>) = Ok run1"
        "nested_loop bc run1 = Ok run'"
        using 1(3) Cons by (subst (asm) nested_loop.simps) auto
      have "set (nr_members run1) \<subseteq> set (nr_members run')"
        using 1(2) [OF Cons False, of run1] run1 by blast
      then show ?thesis
        using nested_members_mono [OF run1(1)] by auto
    qed
  qed
qed

lemma start_is_member:
  assumes "build_splittable_node topo bc s = Ok (node, members)"
  shows "es_id s \<in> set members"
proof -
  let ?run = "\<lparr>nr_nodes = [], nr_edges = [], nr_indices = [], nr_boundary = [], nr_pending = [s], nr_visited = [], nr_members = []\<rparr>"
  obtain run where run: "nested_loop bc ?run = Ok run" and m: "set members = set (nr_members run)"
    using assms by (auto simp: build_splittable_node_def Let_def)
  obtain run1 where run1: "nested_stage bc s (?run\<lparr>nr_pending := [], nr_visited := [es_id s]\<rparr>) = Ok run1" "nested_loop bc run1 = Ok run"
    using run by (subst (asm) nested_loop.simps) auto
  then show ?thesis
    using nested_members_mono [OF run1(1)] nested_loop_members [OF run1(2)] m by auto
qed

lemma resolve_consumer_cases:
  assumes "resolve_consumer topo bc node cache = Ok (node', cache')"
  obtains (plain) "node' = node" "cache' = cache" "\<And>s. node = Worker s \<Longrightarrow> \<not> is_splittable s"
  | (cached) s where "node = Worker s" "is_splittable s" "hm_get cache (es_id s) = Some node'" "cache' = cache"
  | (built) s members where "node = Worker s" "is_splittable s" "hm_get cache (es_id s) = None"
      "build_splittable_node topo bc s = Ok (node', members)" "cache' = fold (\<lambda>m. hm_insert m node') members cache"
proof (cases node)
  case (Worker s)
  show thesis
  proof (cases "is_splittable s")
    case True
    show thesis
    proof (cases "hm_get cache (es_id s)")
      case None
      then obtain members where "build_splittable_node topo bc s = Ok (node', members)" "cache' = fold (\<lambda>m. hm_insert m node') members cache"
        using assms True by (auto simp: resolve_consumer_def Worker)
      then show thesis
        by (rule built [OF Worker True None])
    next
      case (Some existing)
      then have "hm_get cache (es_id s) = Some node'" "cache' = cache"
        using assms True by (simp_all add: resolve_consumer_def Worker)
      then show thesis
        by (rule cached [OF Worker True])
    qed
  next
    case False
    then show thesis
      using assms by (intro plain) (auto simp: resolve_consumer_def Worker)
  qed
qed (use assms plain in \<open>simp_all add: resolve_consumer_def\<close>)

lemma get_fold_insert: "hm_get (fold (\<lambda>k. hm_insert k v) ks m) k = (if k \<in> set ks then Some v else hm_get m k)"
  by (induction ks arbitrary: m) auto

definition known_ids :: "build_context \<Rightarrow> (string, executable_node) hashmap \<Rightarrow> string set" where
  "known_ids bc cache = link_ids bc \<union> node_id ` snd ` set cache"

lemma finite_known_ids [simp]: "finite (known_ids bc cache)"
  by (simp add: known_ids_def link_ids_def)

lemma resolve_consumer_ids:
  assumes "resolve_consumer topo bc (cl_node l) cache = Ok (node, cache')" and l: "l \<in> set (links_of bc p)"
  shows "node_id node \<in> known_ids bc cache'"
    and "cache' = cache \<or> known_ids bc cache' \<subseteq> insert (node_id node) (known_ids bc cache)
      \<and> worker_ids bc - fst ` set cache' \<subset> worker_ids bc - fst ` set cache"
proof -
  have link: "node_id (cl_node l) \<in> link_ids bc"
    using links_of_mem [OF l] unfolding link_ids_def comp_def by (rule imageI)
  from assms(1) have "node_id node \<in> known_ids bc cache' \<and> (cache' = cache \<or> known_ids bc cache' \<subseteq> insert (node_id node) (known_ids bc cache)
      \<and> worker_ids bc - fst ` set cache' \<subset> worker_ids bc - fst ` set cache)"
  proof (cases rule: resolve_consumer_cases)
    case plain
    then show ?thesis
      using link by (simp add: known_ids_def)
  next
    case (cached s)
    have "node \<in> snd ` set cache"
      using map_of_SomeD [OF cached(3)] by force
    then show ?thesis
      by (simp add: known_ids_def cached(4))
  next
    case (built s members)
    have m: "es_id s \<in> set members"
      by (rule start_is_member [OF built(4)])
    have vals: "snd ` set cache' \<subseteq> insert node (snd ` set cache)"
      unfolding built(5) by (rule values_fold_insert)
    have keys: "fst ` set cache' = set members \<union> fst ` set cache"
      unfolding built(5) by (rule keys_fold_insert)
    have "hm_get cache' (es_id s) = Some node"
      by (simp add: built(5) get_fold_insert m)
    then have "node \<in> snd ` set cache'"
      using map_of_SomeD by force
    then have "node_id node \<in> known_ids bc cache'"
      by (simp add: known_ids_def)
    moreover have "known_ids bc cache' \<subseteq> insert (node_id node) (known_ids bc cache)"
      unfolding known_ids_def using image_mono [OF vals, of node_id] by auto
    moreover have "worker_ids bc - fst ` set cache' \<subset> worker_ids bc - fst ` set cache"
    proof (rule psubsetI)
      have "es_id s \<in> worker_ids bc - fst ` set cache" "es_id s \<notin> worker_ids bc - fst ` set cache'"
        using links_worker [OF l built(1)] built(3) m keys by (simp_all add: map_of_eq_None_iff)
      then show "worker_ids bc - fst ` set cache' \<noteq> worker_ids bc - fst ` set cache"
        by metis
    qed (auto simp: keys)
    ultimately show ?thesis
      by (intro conjI disjI2)
  qed
  then show "node_id node \<in> known_ids bc cache'"
    and "cache' = cache \<or> known_ids bc cache' \<subseteq> insert (node_id node) (known_ids bc cache)
      \<and> worker_ids bc - fst ` set cache' \<subset> worker_ids bc - fst ` set cache"
    by blast+
qed

lemma resolve_work_bound:
  assumes "resolve_consumer topo bc (cl_node l) (gb_cache gb) = Ok (node, cache)" and "l \<in> set (links_of bc p)"
  shows "work_bound bc (gb\<lparr>gb_cache := cache\<rparr>) \<le> work_bound bc gb" and "node_id node \<in> known_ids bc cache"
proof -
  note r = resolve_consumer_ids [OF assms]
  show "node_id node \<in> known_ids bc cache"
    by (rule r(1))
  show "work_bound bc (gb\<lparr>gb_cache := cache\<rparr>) \<le> work_bound bc gb"
  proof (cases "cache = gb_cache gb")
    case False
    then have sub: "known_ids bc cache \<subseteq> insert (node_id node) (known_ids bc (gb_cache gb))"
      and less: "worker_ids bc - fst ` set cache \<subset> worker_ids bc - fst ` set (gb_cache gb)"
      using r(2) by blast+
    have "card (worker_ids bc - fst ` set cache) < card (worker_ids bc - fst ` set (gb_cache gb))"
      by (rule psubset_card_mono [OF _ less]) simp
    moreover have "card (known_ids bc cache - set (gb_queued gb)) \<le> Suc (card (known_ids bc (gb_cache gb) - set (gb_queued gb)))"
    proof -
      have "card (known_ids bc cache - set (gb_queued gb)) \<le> card (insert (node_id node) (known_ids bc (gb_cache gb) - set (gb_queued gb)))"
        using sub by (intro card_mono) auto
      also have "\<dots> \<le> Suc (card (known_ids bc (gb_cache gb) - set (gb_queued gb)))"
        by (rule card_insert_le_m1) simp_all
      finally show ?thesis .
    qed
    ultimately show ?thesis
      by (simp add: work_bound_def known_ids_def)
  qed simp
qed

lemma ensure_node_fields [simp]:
  "gb_cache (snd (ensure_node_exists node gb)) = gb_cache gb" "gb_queue (snd (ensure_node_exists node gb)) = gb_queue gb"
  "gb_queued (snd (ensure_node_exists node gb)) = gb_queued gb" "gb_edges (snd (ensure_node_exists node gb)) = gb_edges gb"
  "gb_root_metadata (snd (ensure_node_exists node gb)) = gb_root_metadata gb"
  by (simp_all add: ensure_node_exists_def split: option.split)

lemma enqueue_work_bound:
  assumes "node_id node \<in> known_ids bc (gb_cache gb)"
  shows "work_bound bc (enqueue node gb) \<le> work_bound bc gb"
proof (cases "node_id node \<in> set (gb_queued gb)")
  case False
  have "known_ids bc (gb_cache gb) - insert (node_id node) (set (gb_queued gb)) \<subset> known_ids bc (gb_cache gb) - set (gb_queued gb)"
    using assms False by blast
  then have "card (known_ids bc (gb_cache gb) - insert (node_id node) (set (gb_queued gb))) < card (known_ids bc (gb_cache gb) - set (gb_queued gb))"
    by (intro psubset_card_mono) simp_all
  then show ?thesis
    using False by (simp add: enqueue_def work_bound_def known_ids_def)
qed (simp add: enqueue_def)

lemma connect_work_bound:
  assumes "connect bc root i p t node gb = Ok gb'" and "node_id node \<in> known_ids bc (gb_cache gb)"
  shows "work_bound bc gb' \<le> work_bound bc gb"
proof -
  obtain j gb1 where gb1: "ensure_node_exists node gb = (j, gb1)"
    by (cases "ensure_node_exists node gb")
  note f = ensure_node_fields [of node gb, unfolded gb1 snd_conv]
  obtain gb2 where gb': "gb' = enqueue node gb2" and same: "gb_cache gb2 = gb_cache gb1" "gb_queue gb2 = gb_queue gb1" "gb_queued gb2 = gb_queued gb1"
    using assms(1) by (auto simp: connect_def gb1 Let_def)
  have "work_bound bc gb' \<le> work_bound bc gb2"
    unfolding gb' by (rule enqueue_work_bound) (simp add: same f assms(2))
  also have "work_bound bc gb2 = work_bound bc gb"
    by (simp add: work_bound_def same f)
  finally show ?thesis .
qed

lemma producer_link_work_bound:
  assumes "producer_link topo bc producer i p l gb = Ok gb'" and "l \<in> set (links_of bc p)"
  shows "work_bound bc gb' \<le> work_bound bc gb"
proof -
  obtain node cache where r: "resolve_consumer topo bc (cl_node l) (gb_cache gb) = Ok (node, cache)"
    and gb': "(if node_id node = node_id producer then Ok (gb\<lparr>gb_cache := cache\<rparr>)
       else connect bc False i p (cl_transform_id l) node (gb\<lparr>gb_cache := cache\<rparr>)) = Ok gb'"
    using assms(1) by (auto simp: producer_link_def)
  note pot = resolve_work_bound [OF r assms(2)]
  show ?thesis
  proof (cases "node_id node = node_id producer")
    case True
    then show ?thesis
      using gb' pot(1) by simp
  next
    case False
    then have "connect bc False i p (cl_transform_id l) node (gb\<lparr>gb_cache := cache\<rparr>) = Ok gb'"
      using gb' by simp
    then have "work_bound bc gb' \<le> work_bound bc (gb\<lparr>gb_cache := cache\<rparr>)"
      by (rule connect_work_bound) (simp add: pot(2))
    then show ?thesis
      using pot(1) by simp
  qed
qed

lemma expand_node_work_bound:
  assumes "expand_node topo bc producer gb = Ok gb'"
  shows "work_bound bc gb' \<le> work_bound bc gb"
proof -
  obtain i gb1 where gb1: "ensure_node_exists producer gb = (i, gb1)"
    by (cases "ensure_node_exists producer gb")
  have start: "work_bound bc gb1 \<le> work_bound bc gb"
    using ensure_node_fields [of producer gb] by (simp add: gb1 work_bound_def)
  have fold: "rfold (\<lambda>p. rfold (producer_link topo bc producer i p) (links_of bc p)) (output_pcols producer) gb1 = Ok gb'"
    using assms by (simp add: expand_node_def gb1)
  show ?thesis
  proof (rule rfold_invariant [where P = "\<lambda>g. work_bound bc g \<le> work_bound bc gb", OF fold start])
    fix p g g'
    assume g: "work_bound bc g \<le> work_bound bc gb" and inner: "rfold (producer_link topo bc producer i p) (links_of bc p) g = Ok g'"
    show "work_bound bc g' \<le> work_bound bc gb"
      by (rule rfold_invariant [where P = "\<lambda>g. work_bound bc g \<le> work_bound bc gb", OF inner g])
        (use producer_link_work_bound le_trans in blast)
  qed
qed

function work_loop :: "toposort \<Rightarrow> build_context \<Rightarrow> graph_builder \<Rightarrow> graph_builder translation" where
  "work_loop topo bc gb =
     (case gb_queue gb of
        [] \<Rightarrow> Ok gb
      | producer # rest \<Rightarrow> rbind (expand_node topo bc producer (gb\<lparr>gb_queue := rest\<rparr>)) (work_loop topo bc))"
  by pat_completeness auto

termination
proof (relation "measure (\<lambda>(topo, bc, gb). work_bound bc gb)", goal_cases)
  case (2 topo bc gb producer rest gb')
  then have "work_bound bc (gb\<lparr>gb_queue := rest\<rparr>) < work_bound bc gb"
    by (simp add: work_bound_def)
  then show ?case
    using expand_node_work_bound [of topo bc producer _ gb'] 2 by fastforce
qed simp

declare work_loop.simps [simp del]

section \<open>The whole construction\<close>

definition side_input_pcollections :: "executable_stage list \<Rightarrow> string list" where
  "side_input_pcollections sdk = concat (map (\<lambda>s. map sir_collection_id (es_side_inputs s)) sdk)"

definition build_executable_graph :: "(nat \<Rightarrow> string) \<Rightarrow> bytes \<Rightarrow> toposort \<Rightarrow> nat \<Rightarrow> components \<Rightarrow> executable_stage list \<Rightarrow> ptransform_node list
   \<Rightarrow> (executable_graph \<times> nat) translation" where
  "build_executable_graph uuid port topo n comps sdk runner =
     rbind (rfold (runner_links uuid port) runner (fold worker_links sdk [], n)) (\<lambda>(consumers, n1).
       let bc = \<lparr>bc_components = comps, bc_sdk_stages = sdk, bc_runner_stages = runner, bc_consumers = consumers,
                 bc_side_inputs = side_input_pcollections sdk\<rparr>
       in rbind (rfold (add_root uuid port topo bc) (get_roots runner)
                   (\<lparr>gb_nodes = [], gb_edges = [], gb_indices = [], gb_root_metadata = None, gb_cache = [], gb_queue = [], gb_queued = []\<rparr>, n1))
            (\<lambda>(gb, n2). rbind (work_loop topo bc gb) (\<lambda>gb'.
               Ok (\<lparr>graph_nodes = gb_nodes gb', graph_edges = gb_edges gb', graph_components = comps,
                    root_metadata = gb_root_metadata gb'\<rparr>, n2))))"

end
