(* ===== verification/Splittable_Runs.thy ===== *)
theory Splittable_Runs
  imports Graph_Builder Fusion_Complete
begin

text \<open>
  The splittable runs folded into one node: a run is the set of stages reachable from its
  first stage through splittable stages that do not process, and when every PCollection has
  one producer, runs that start at stages nothing splittable feeds are disjoint.
\<close>

section \<open>Steps of a run\<close>

definition run_step :: "build_context \<Rightarrow> executable_stage \<Rightarrow> executable_stage \<Rightarrow> bool" where
  "run_step bc s t \<longleftrightarrow> is_splittable s \<and> splittable_process_kind_of s = None \<and> is_splittable t
     \<and> (\<exists>p \<in> produced_ids s. \<exists>l \<in> set (links_of bc p). cl_node l = Worker t)"

definition run_of :: "build_context \<Rightarrow> executable_stage \<Rightarrow> executable_stage set" where
  "run_of bc s = {t. (run_step bc)\<^sup>*\<^sup>* s t}"

lemma run_of_self [simp]: "s \<in> run_of bc s"
  by (simp add: run_of_def)

lemma run_of_step: "t \<in> run_of bc s \<Longrightarrow> run_step bc t u \<Longrightarrow> u \<in> run_of bc s"
  by (simp add: run_of_def)

lemma run_of_splittable: "t \<in> run_of bc s \<Longrightarrow> is_splittable s \<Longrightarrow> is_splittable t"
  unfolding run_of_def mem_Collect_eq by (induction rule: rtranclp_induct) (auto simp: run_step_def)

section \<open>The loop computes the run\<close>

text \<open>The state changes while the outputs of \<open>s\<close> are visited.\<close>

definition run_grown :: "build_context \<Rightarrow> executable_stage \<Rightarrow> nested_run \<Rightarrow> nested_run \<Rightarrow> bool" where
  "run_grown bc s run run' \<longleftrightarrow>
     nr_visited run' = nr_visited run \<and> nr_members run' = nr_members run
     \<and> set (nr_nodes run) \<subseteq> set (nr_nodes run') \<and> set (nr_pending run) \<subseteq> set (nr_pending run')
     \<and> (\<forall>t \<in> set (nr_nodes run'). t \<in> set (nr_nodes run) \<or> t \<in> set (nr_pending run'))
     \<and> (\<forall>t \<in> set (nr_pending run'). t \<in> set (nr_pending run) \<or> run_step bc s t)
     \<and> set (nr_boundary run') \<subseteq> set (nr_boundary run) \<union> produced_ids s
     \<and> (fst ` set (nr_indices run) = es_id ` set (nr_nodes run) \<longrightarrow> fst ` set (nr_indices run') = es_id ` set (nr_nodes run'))"

lemma run_grown_refl [simp]: "run_grown bc s run run"
  by (simp add: run_grown_def)

lemma run_grownD:
  assumes "run_grown bc s run run'"
  shows "nr_visited run' = nr_visited run" and "nr_members run' = nr_members run"
    and "set (nr_nodes run) \<subseteq> set (nr_nodes run')" and "set (nr_pending run) \<subseteq> set (nr_pending run')"
    and "t \<in> set (nr_nodes run') \<Longrightarrow> t \<in> set (nr_nodes run) \<or> t \<in> set (nr_pending run')"
    and "t \<in> set (nr_pending run') \<Longrightarrow> t \<in> set (nr_pending run) \<or> run_step bc s t"
    and "set (nr_boundary run') \<subseteq> set (nr_boundary run) \<union> produced_ids s"
    and "fst ` set (nr_indices run) = es_id ` set (nr_nodes run) \<Longrightarrow> fst ` set (nr_indices run') = es_id ` set (nr_nodes run')"
  using assms unfolding run_grown_def by blast+

lemma run_grown_trans:
  assumes ab: "run_grown bc s a b" and bc: "run_grown bc s b c"
  shows "run_grown bc s a c"
  unfolding run_grown_def
proof (intro conjI ballI impI)
  note D = run_grownD [OF ab] and E = run_grownD [OF bc]
  show "nr_visited c = nr_visited a" "nr_members c = nr_members a"
    using D(1,2) E(1,2) by simp_all
  show "set (nr_nodes a) \<subseteq> set (nr_nodes c)"
    by (rule subset_trans [OF D(3) E(3)])
  show "set (nr_pending a) \<subseteq> set (nr_pending c)"
    by (rule subset_trans [OF D(4) E(4)])
  show "t \<in> set (nr_nodes a) \<or> t \<in> set (nr_pending c)" if "t \<in> set (nr_nodes c)" for t
    using E(5) [OF that] D(5) [of t] subsetD [OF E(4), of t] by blast
  show "t \<in> set (nr_pending a) \<or> run_step bc s t" if "t \<in> set (nr_pending c)" for t
    using E(6) [OF that] D(6) [of t] by (elim disjE) simp_all
  show "set (nr_boundary c) \<subseteq> set (nr_boundary a) \<union> produced_ids s"
    using D(7) E(7) by fast
  show "fst ` set (nr_indices c) = es_id ` set (nr_nodes c)" if "fst ` set (nr_indices a) = es_id ` set (nr_nodes a)"
    by (rule E(8) [OF D(8) [OF that]])
qed

lemma nested_index_nodes:
  assumes "nested_index s run = (i, run')"
  shows "set (nr_nodes run) \<subseteq> set (nr_nodes run')" and "set (nr_nodes run') \<subseteq> insert s (set (nr_nodes run))"
    and "fst ` set (nr_indices run) = es_id ` set (nr_nodes run) \<Longrightarrow> fst ` set (nr_indices run') = es_id ` set (nr_nodes run') \<and> es_id s \<in> es_id ` set (nr_nodes run')"
    and "nr_visited run' = nr_visited run" and "nr_members run' = nr_members run" and "nr_pending run' = nr_pending run"
    and "nr_boundary run' = nr_boundary run"
proof -
  have "set (nr_nodes run) \<subseteq> set (nr_nodes run') \<and> set (nr_nodes run') \<subseteq> insert s (set (nr_nodes run))
    \<and> (fst ` set (nr_indices run) = es_id ` set (nr_nodes run) \<longrightarrow> fst ` set (nr_indices run') = es_id ` set (nr_nodes run') \<and> es_id s \<in> es_id ` set (nr_nodes run'))
    \<and> nr_visited run' = nr_visited run \<and> nr_members run' = nr_members run \<and> nr_pending run' = nr_pending run \<and> nr_boundary run' = nr_boundary run"
  proof (cases "hm_get (nr_indices run) (es_id s)")
    case None
    then have run': "run' = run\<lparr>nr_nodes := nr_nodes run @ [s], nr_indices := hm_insert (es_id s) (length (nr_nodes run)) (nr_indices run)\<rparr>"
      using assms by (auto simp: nested_index_def)
    show ?thesis
      by (auto simp: run' dom_update)
  next
    case (Some k)
    then have "run' = run"
      using assms by (simp add: nested_index_def)
    moreover have "es_id s \<in> fst ` set (nr_indices run)"
      using map_of_SomeD [OF Some] by force
    moreover have "set (nr_nodes run) \<subseteq> insert s (set (nr_nodes run))"
      by (rule subset_insertI)
    ultimately show ?thesis
      by (metis order_refl)
  qed
  then show "set (nr_nodes run) \<subseteq> set (nr_nodes run')" and "set (nr_nodes run') \<subseteq> insert s (set (nr_nodes run))"
    and "fst ` set (nr_indices run) = es_id ` set (nr_nodes run) \<Longrightarrow> fst ` set (nr_indices run') = es_id ` set (nr_nodes run') \<and> es_id s \<in> es_id ` set (nr_nodes run')"
    and "nr_visited run' = nr_visited run" and "nr_members run' = nr_members run" and "nr_pending run' = nr_pending run"
    and "nr_boundary run' = nr_boundary run"
    by blast+
qed

lemma nested_link_grows:
  assumes link: "nested_link bc (splittable_process_kind_of s \<noteq> None) i p l (run, external) = Ok (run', external')"
    and s: "is_splittable s" "p \<in> produced_ids s" and l: "l \<in> set (links_of bc p)"
  shows "run_grown bc s run run'" and "cl_node l = Worker t \<Longrightarrow> run_step bc s t \<Longrightarrow> t \<in> set (nr_pending run')"
proof -
  have "run_grown bc s run run' \<and> (\<forall>t. cl_node l = Worker t \<longrightarrow> run_step bc s t \<longrightarrow> t \<in> set (nr_pending run'))"
  proof (cases "\<exists>t. cl_node l = Worker t \<and> is_splittable t \<and> splittable_process_kind_of s = None")
    case True
    then obtain t where t: "cl_node l = Worker t" "is_splittable t" "splittable_process_kind_of s = None"
      by blast
    obtain j run1 where run1: "nested_index t run = (j, run1)"
      by (cases "nested_index t run")
    note idx = nested_index_nodes [OF run1]
    obtain w where run': "run' = run1\<lparr>nr_edges := \<lparr>edge_source = i, edge_target = j, edge_weight = w\<rparr> # nr_edges run1, nr_pending := nr_pending run1 @ [t]\<rparr>"
      using link t run1 by (auto simp: nested_link_def)
    have "run_step bc s t"
      using s t l unfolding run_step_def by blast
    then have "run_grown bc s run run'"
      using idx unfolding run_grown_def run' by auto
    then show ?thesis
      using t(1) by (simp add: run' idx(6))
  next
    case False
    have "run' = run"
      using link False by (cases "cl_node l") (auto simp: nested_link_def split: if_splits)
    moreover have "\<not> run_step bc s t" if "cl_node l = Worker t" for t
      using False that by (auto simp: run_step_def)
    ultimately show ?thesis
      by simp
  qed
  then show "run_grown bc s run run'" and "cl_node l = Worker t \<Longrightarrow> run_step bc s t \<Longrightarrow> t \<in> set (nr_pending run')"
    by blast+
qed

lemma nested_links_grow:
  assumes "rfold (nested_link bc (splittable_process_kind_of s \<noteq> None) i p) ls (run, external) = Ok (run', external')"
    and "is_splittable s" "p \<in> produced_ids s" and "set ls \<subseteq> set (links_of bc p)"
  shows "run_grown bc s run run' \<and> (\<forall>l \<in> set ls. \<forall>t. cl_node l = Worker t \<longrightarrow> run_step bc s t \<longrightarrow> t \<in> set (nr_pending run'))"
  using assms
proof (induction ls arbitrary: run external)
  case (Cons l ls)
  obtain run1 ext1 where one: "nested_link bc (splittable_process_kind_of s \<noteq> None) i p l (run, external) = Ok (run1, ext1)"
    and rest: "rfold (nested_link bc (splittable_process_kind_of s \<noteq> None) i p) ls (run1, ext1) = Ok (run', external')"
    using Cons.prems(1) by auto
  note g1 = nested_link_grows [OF one Cons.prems(2,3)]
  have g2: "run_grown bc s run1 run' \<and> (\<forall>l \<in> set ls. \<forall>t. cl_node l = Worker t \<longrightarrow> run_step bc s t \<longrightarrow> t \<in> set (nr_pending run'))"
    using Cons.IH [OF rest Cons.prems(2,3)] Cons.prems(4) by simp
  have l: "l \<in> set (links_of bc p)"
    using Cons.prems(4) by simp
  show ?case
  proof (intro conjI ballI allI impI)
    show "run_grown bc s run run'"
      by (rule run_grown_trans [OF g1(1) [OF l] conjunct1 [OF g2]])
    fix k t
    assume k: "k \<in> set (l # ls)" "cl_node k = Worker t" "run_step bc s t"
    show "t \<in> set (nr_pending run')"
    proof (cases "k = l")
      case True
      then have "t \<in> set (nr_pending run1)"
        using g1(2) [OF l] k by simp
      then show ?thesis
        using run_grownD(4) [OF conjunct1 [OF g2]] by (rule subsetD [rotated])
    next
      case False
      then show ?thesis
        using conjunct2 [OF g2] k by simp
    qed
  qed
qed simp

lemma nested_outputs_grow:
  assumes "rfold (nested_output bc (splittable_process_kind_of s \<noteq> None) i) ps run = Ok run'"
    and "is_splittable s" and "set ps \<subseteq> produced_ids s"
  shows "run_grown bc s run run'
    \<and> (\<forall>p \<in> set ps. \<forall>l \<in> set (links_of bc p). \<forall>t. cl_node l = Worker t \<longrightarrow> run_step bc s t \<longrightarrow> t \<in> set (nr_pending run'))"
  using assms
proof (induction ps arbitrary: run)
  case (Cons p ps)
  obtain run2 where one: "nested_output bc (splittable_process_kind_of s \<noteq> None) i p run = Ok run2"
    and rest: "rfold (nested_output bc (splittable_process_kind_of s \<noteq> None) i) ps run2 = Ok run'"
    using Cons.prems(1) by auto
  obtain run1 ext where links: "rfold (nested_link bc (splittable_process_kind_of s \<noteq> None) i p) (links_of bc p) (run, p \<in> set (bc_side_inputs bc)) = Ok (run1, ext)"
    and run2: "run2 = (if ext then run1\<lparr>nr_boundary := List.insert p (nr_boundary run1)\<rparr> else run1)"
    using one by (auto simp: nested_output_def)
  have p: "p \<in> produced_ids s"
    using Cons.prems(3) by simp
  note g1 = nested_links_grow [OF links Cons.prems(2) p order_refl]
  have "run_grown bc s run1 run2"
    using p by (auto simp: run2 run_grown_def)
  then have g2: "run_grown bc s run run2"
    using g1 run_grown_trans by blast
  have pend: "nr_pending run2 = nr_pending run1"
    by (simp add: run2)
  have g3: "run_grown bc s run2 run'
    \<and> (\<forall>p \<in> set ps. \<forall>l \<in> set (links_of bc p). \<forall>t. cl_node l = Worker t \<longrightarrow> run_step bc s t \<longrightarrow> t \<in> set (nr_pending run'))"
    using Cons.IH [OF rest Cons.prems(2)] Cons.prems(3) by simp
  have mono: "set (nr_pending run1) \<subseteq> set (nr_pending run')"
    using run_grownD(4) [OF conjunct1 [OF g3]] by (simp add: pend)
  show ?case
  proof (intro conjI ballI allI impI)
    show "run_grown bc s run run'"
      by (rule run_grown_trans [OF g2 conjunct1 [OF g3]])
    fix p' l t
    assume t: "p' \<in> set (p # ps)" "l \<in> set (links_of bc p')" "cl_node l = Worker t" "run_step bc s t"
    show "t \<in> set (nr_pending run')"
    proof (cases "p' = p")
      case True
      then have "t \<in> set (nr_pending run1)"
        using conjunct2 [OF g1] t by simp
      then show ?thesis
        by (rule subsetD [OF mono])
    next
      case False
      then show ?thesis
        using conjunct2 [OF g3] t by simp
    qed
  qed
qed simp

text \<open>
  Between rounds: everything met is reachable from the first stage, the visited stages are
  the members, and a step from a visited stage leads to one that is visited or pending.
\<close>

definition run_inv :: "build_context \<Rightarrow> executable_stage \<Rightarrow> nested_run \<Rightarrow> bool" where
  "run_inv bc start run \<longleftrightarrow>
     (\<forall>t \<in> set (nr_nodes run) \<union> set (nr_pending run). t \<in> run_of bc start)
     \<and> fst ` set (nr_indices run) = es_id ` set (nr_nodes run)
     \<and> set (nr_members run) = set (nr_visited run)
     \<and> set (nr_visited run) \<subseteq> es_id ` set (nr_nodes run)
     \<and> (\<forall>t \<in> set (nr_nodes run). es_id t \<in> set (nr_visited run) \<or> t \<in> set (nr_pending run))
     \<and> (\<forall>t \<in> set (nr_nodes run). es_id t \<in> set (nr_visited run) \<longrightarrow>
          (\<forall>u. run_step bc t u \<longrightarrow> es_id u \<in> set (nr_visited run) \<or> u \<in> set (nr_pending run)))
     \<and> set (nr_boundary run) \<subseteq> (\<Union>t \<in> set (nr_nodes run). produced_ids t)"

lemma run_invD:
  assumes "run_inv bc start run"
  shows "t \<in> set (nr_nodes run) \<Longrightarrow> t \<in> run_of bc start" and "t \<in> set (nr_pending run) \<Longrightarrow> t \<in> run_of bc start"
    and "fst ` set (nr_indices run) = es_id ` set (nr_nodes run)" and "set (nr_members run) = set (nr_visited run)"
    and "set (nr_visited run) \<subseteq> es_id ` set (nr_nodes run)"
    and "t \<in> set (nr_nodes run) \<Longrightarrow> es_id t \<in> set (nr_visited run) \<or> t \<in> set (nr_pending run)"
    and "t \<in> set (nr_nodes run) \<Longrightarrow> es_id t \<in> set (nr_visited run) \<Longrightarrow> run_step bc t u \<Longrightarrow> es_id u \<in> set (nr_visited run) \<or> u \<in> set (nr_pending run)"
    and "set (nr_boundary run) \<subseteq> (\<Union>t \<in> set (nr_nodes run). produced_ids t)"
  using assms unfolding run_inv_def by blast+

lemma nested_stage_inv:
  assumes inv: "run_inv bc start run" and pending: "nr_pending run = s # rest" and new: "es_id s \<notin> set (nr_visited run)"
    and ids: "inj_on es_id (run_of bc start)" and start: "is_splittable start"
    and run': "nested_stage bc s (run\<lparr>nr_pending := rest, nr_visited := es_id s # nr_visited run\<rparr>) = Ok run'"
  shows "run_inv bc start run'"
proof -
  let ?run = "run\<lparr>nr_pending := rest, nr_visited := es_id s # nr_visited run\<rparr>"
  note I = run_invD [OF inv]
  have s: "s \<in> run_of bc start"
    using I(2) [of s] by (simp add: pending)
  obtain i run1 where run1: "nested_index s ?run = (i, run1)"
    by (cases "nested_index s ?run")
  note idx = nested_index_nodes [OF run1]
  let ?run2 = "run1\<lparr>nr_members := nr_members run1 @ [es_id s]\<rparr>"
  have "rfold (nested_output bc (splittable_process_kind_of s \<noteq> None) i) (map pcn_id (es_output_pcols s)) ?run2 = Ok run'"
    using run' by (simp add: nested_stage_def run1)
  note g = nested_outputs_grow [OF this run_of_splittable [OF s start]]
  have grown: "run_grown bc s ?run2 run'"
    using g by (simp add: produced_ids_def)
  have reached: "u \<in> set (nr_pending run')" if u: "run_step bc s u" for u
  proof -
    obtain p l where "p \<in> produced_ids s" "l \<in> set (links_of bc p)" "cl_node l = Worker u"
      using u unfolding run_step_def by blast
    then show ?thesis
      using g u by (fastforce simp: produced_ids_def)
  qed
  note G = run_grownD [OF grown]
  have nodes1: "t = s \<or> t \<in> set (nr_nodes run)" if "t \<in> set (nr_nodes run1)" for t
    using idx(2) that by auto
  have index: "fst ` set (nr_indices run1) = es_id ` set (nr_nodes run1)" "es_id s \<in> es_id ` set (nr_nodes run1)"
    using idx(3) I(3) by simp_all
  have here: "s \<in> set (nr_nodes run1)"
  proof -
    obtain t where t: "t \<in> set (nr_nodes run1)" "es_id t = es_id s"
      using index(2) by force
    then have "t \<in> run_of bc start"
      using nodes1 [OF t(1)] I(1) s by blast
    then show ?thesis
      using t inj_onD [OF ids t(2) _ s] by simp
  qed
  have pend: "t \<in> set rest \<or> run_step bc s t" if "t \<in> set (nr_pending run')" for t
    using G(6) [OF that] idx(6) by simp
  have rest: "set rest \<subseteq> set (nr_pending run')"
    using G(4) idx(6) by simp
  have nodes: "t = s \<or> t \<in> set (nr_nodes run) \<or> t \<in> set (nr_pending run')" if "t \<in> set (nr_nodes run')" for t
    using G(5) [OF that] nodes1 [of t] by auto
  have mono: "set (nr_nodes run) \<subseteq> set (nr_nodes run')" "s \<in> set (nr_nodes run')"
    using G(3) idx(1) here by auto
  have visited: "nr_visited run' = es_id s # nr_visited run" "nr_members run' = nr_members run @ [es_id s]"
    using G(1,2) idx(4,5) by simp_all
  have left: "es_id t \<in> set (nr_visited run') \<or> t \<in> set (nr_pending run')" if "es_id t \<in> set (nr_visited run) \<or> t \<in> set (nr_pending run)" for t
    using that rest by (auto simp: pending visited)
  show ?thesis
    unfolding run_inv_def
  proof (intro conjI ballI impI allI)
    have pend_run: "t \<in> run_of bc start" if "t \<in> set (nr_pending run')" for t
      using pend [OF that] I(2) [of t] run_of_step [OF s] by (auto simp: pending)
    show "t \<in> run_of bc start" if "t \<in> set (nr_nodes run') \<union> set (nr_pending run')" for t
      using that nodes [of t] I(1) [of t] s pend_run by auto
    show "fst ` set (nr_indices run') = es_id ` set (nr_nodes run')"
      using G(8) index(1) by simp
    show "set (nr_members run') = set (nr_visited run')"
      using I(4) by (simp add: visited)
    show "set (nr_visited run') \<subseteq> es_id ` set (nr_nodes run')"
      using I(5) mono by (auto simp: visited)
    show "es_id t \<in> set (nr_visited run') \<or> t \<in> set (nr_pending run')" if "t \<in> set (nr_nodes run')" for t
      using nodes [OF that] I(6) [of t] left [of t] by (auto simp: visited)
    show "es_id u \<in> set (nr_visited run') \<or> u \<in> set (nr_pending run')"
      if t: "t \<in> set (nr_nodes run')" "es_id t \<in> set (nr_visited run')" "run_step bc t u" for t u
    proof (cases "t = s")
      case True
      then show ?thesis
        using reached t(3) by simp
    next
      case False
      have tr: "t \<in> run_of bc start"
        using t(1) nodes [of t] I(1) [of t] pend_run s by auto
      then have "es_id t \<noteq> es_id s"
        using False inj_onD [OF ids _ tr s] by blast
      then have vis: "es_id t \<in> set (nr_visited run)"
        using t(2) by (simp add: visited)
      then obtain v where v: "v \<in> set (nr_nodes run)" "es_id v = es_id t"
        using I(5) by force
      then have "v = t"
        using inj_onD [OF ids v(2) I(1) [OF v(1)] tr] by simp
      then show ?thesis
        using left [OF I(7) [OF _ vis t(3)]] v(1) by simp
    qed
    show "set (nr_boundary run') \<subseteq> (\<Union>t \<in> set (nr_nodes run'). produced_ids t)"
      using G(7) I(8) mono idx(7) by (simp add: UN_subset_iff subset_iff) blast
  qed
qed

lemma nested_loop_inv:
  "nested_loop bc run = Ok run' \<Longrightarrow> run_inv bc start run \<Longrightarrow> inj_on es_id (run_of bc start) \<Longrightarrow> is_splittable start
    \<Longrightarrow> run_inv bc start run' \<and> nr_pending run' = []"
proof (induction bc run rule: nested_loop.induct)
  case (1 bc run)
  show ?case
  proof (cases "nr_pending run")
    case Nil
    then show ?thesis
      using 1(3,4) by (simp add: nested_loop.simps)
  next
    case (Cons s rest)
    show ?thesis
    proof (cases "es_id s \<in> set (nr_visited run)")
      case True
      note I = run_invD [OF 1(4)]
      have "run_inv bc start (run\<lparr>nr_pending := rest\<rparr>)"
        unfolding run_inv_def
      proof (intro conjI ballI impI allI)
        show "es_id t \<in> set (nr_visited (run\<lparr>nr_pending := rest\<rparr>)) \<or> t \<in> set (nr_pending (run\<lparr>nr_pending := rest\<rparr>))"
          if "t \<in> set (nr_nodes (run\<lparr>nr_pending := rest\<rparr>))" for t
          using I(6) [of t] that True Cons by auto
        show "es_id u \<in> set (nr_visited (run\<lparr>nr_pending := rest\<rparr>)) \<or> u \<in> set (nr_pending (run\<lparr>nr_pending := rest\<rparr>))"
          if "t \<in> set (nr_nodes (run\<lparr>nr_pending := rest\<rparr>))" "es_id t \<in> set (nr_visited (run\<lparr>nr_pending := rest\<rparr>))" "run_step bc t u" for t u
          using I(7) [of t u] that True Cons by auto
      qed (use I Cons in auto)
      moreover have "nested_loop bc (run\<lparr>nr_pending := rest\<rparr>) = Ok run'"
        using 1(3) Cons True by (subst (asm) nested_loop.simps) simp
      ultimately show ?thesis
        using 1(1) [OF Cons True] 1(5,6) by blast
    next
      case False
      then obtain run1 where run1: "nested_stage bc s (run\<lparr>nr_pending := rest, nr_visited := es_id s # nr_visited run\<rparr>) = Ok run1"
        "nested_loop bc run1 = Ok run'"
        using 1(3) Cons by (subst (asm) nested_loop.simps) auto
      have "run_inv bc start run1"
        by (rule nested_stage_inv [OF 1(4) Cons False 1(5,6) run1(1)])
      then show ?thesis
        using 1(2) [OF Cons False, of run1] run1 1(5,6) by blast
    qed
  qed
qed

section \<open>The node of a run\<close>

lemma join_with_inj:
  assumes "xs \<noteq> []" and "ys \<noteq> []" and "\<forall>x \<in> set xs \<union> set ys. c \<notin> set x" and "join_with c xs = join_with c ys"
  shows "xs = ys"
  using assms
proof (induction c xs arbitrary: ys rule: join_with.induct)
  case (2 c x)
  show ?case
  proof (cases "tl ys = []")
    case True
    then show ?thesis
      using 2 by (cases ys) auto
  next
    case False
    then obtain a b zs where ys: "ys = a # b # zs"
      by (metis list.collapse 2(2))
    have "c \<in> set (join_with c ys)"
      by (simp add: ys)
    then show ?thesis
      using 2 by simp
  qed
next
  case (3 c x y zs)
  show ?case
  proof (cases "tl ys = []")
    case True
    then have "c \<notin> set (join_with c ys)"
      using 3(3,4) by (cases ys) auto
    moreover have "c \<in> set (join_with c (x # y # zs))"
      by simp
    ultimately show ?thesis
      using 3(5) by metis
  next
    case False
    then obtain a b ws where ys: "ys = a # b # ws"
      by (metis list.collapse 3(3))
    have free: "c \<notin> set x" "c \<notin> set a"
      using 3(4) by (simp_all add: ys)
    have eq: "x @ c # join_with c (y # zs) = a @ c # join_with c (b # ws)"
      using 3(5) by (simp add: ys)
    have "takeWhile (\<lambda>d. d \<noteq> c) (x @ c # join_with c (y # zs)) = x" "takeWhile (\<lambda>d. d \<noteq> c) (a @ c # join_with c (b # ws)) = a"
      using free by (simp_all add: takeWhile_append)
    then have "x = a"
      using eq by metis
    moreover have "y # zs = b # ws"
      using 3(1) [of "b # ws"] 3(4) eq \<open>x = a\<close> by (simp add: ys)
    ultimately show ?thesis
      by (simp add: ys)
  qed
qed simp

definition split_name :: "string list \<Rightarrow> string" where
  "split_name members = ''splittable:'' @ join_with CHR '','' members"

lemma built_run:
  assumes node: "build_splittable_node topo bc s = Ok (node, members)"
    and ids: "inj_on es_id (run_of bc s)" and s: "is_splittable s"
  shows "set (worker_stages node) = run_of bc s" and "set members = es_id ` run_of bc s" and "node_id node = split_name members"
    and "set (output_pcols node) \<subseteq> (\<Union>t \<in> run_of bc s. produced_ids t)"
    and "\<exists>i ns es outs plan. node = Splittable i ns es outs plan"
proof -
  let ?run = "\<lparr>nr_nodes = [], nr_edges = [], nr_indices = [], nr_boundary = [], nr_pending = [s], nr_visited = [], nr_members = []\<rparr>"
  obtain run plan where run: "nested_loop bc ?run = Ok run" and m: "members = sort (nr_members run)"
    and n: "node = Splittable (split_name members) (map Worker (nr_nodes run)) (nr_edges run) (nr_boundary run) plan"
    using node by (auto simp: build_splittable_node_def Let_def split_name_def)
  have "run_inv bc s ?run"
    by (simp add: run_inv_def)
  note end_inv = nested_loop_inv [OF run this ids s]
  note I = run_invD [OF conjunct1 [OF end_inv]]
  have vis: "es_id t \<in> set (nr_visited run)" if "t \<in> set (nr_nodes run)" for t
    using I(6) [OF that] end_inv by simp
  have known: "t \<in> set (nr_nodes run)" if t: "t \<in> run_of bc s" "es_id t \<in> set (nr_visited run)" for t
  proof -
    obtain v where v: "v \<in> set (nr_nodes run)" "es_id v = es_id t"
      using I(5) t(2) by force
    then show ?thesis
      using inj_onD [OF ids v(2) I(1) [OF v(1)] t(1)] by simp
  qed
  have start: "s \<in> set (nr_nodes run)"
    using known [of s] start_is_member [OF node] I(4) by (simp add: m)
  have "t \<in> set (nr_nodes run)" if "t \<in> run_of bc s" for t
    using that unfolding run_of_def mem_Collect_eq
  proof (induction rule: rtranclp_induct)
    case (step t u)
    have "u \<in> run_of bc s"
      using step(1,2) by (simp add: run_of_def)
    then show ?case
      using known I(7) [OF step(3) vis [OF step(3)] step(2)] end_inv by simp
  qed (rule start)
  then have nodes: "set (nr_nodes run) = run_of bc s"
    using I(1) by blast
  then show "set (worker_stages node) = run_of bc s"
    by (simp add: n comp_def)
  have "set (nr_visited run) = es_id ` set (nr_nodes run)"
    using I(5) vis by blast
  then show "set members = es_id ` run_of bc s"
    using I(4) by (simp add: m nodes)
  show "node_id node = split_name members" "\<exists>i ns es outs plan. node = Splittable i ns es outs plan"
    by (simp_all add: n)
  show "set (output_pcols node) \<subseteq> (\<Union>t \<in> run_of bc s. produced_ids t)"
    using I(8) by (simp add: n nodes)
qed

section \<open>Runs are disjoint\<close>

text \<open>What the construction relies on: one producer per PCollection, and identifiers of their own.\<close>

definition build_sources :: "build_context \<Rightarrow> runner_transform set \<Rightarrow> bool" where
  "build_sources bc R \<longleftrightarrow>
     inj_on es_id (set (bc_sdk_stages bc)) \<and> inj_on rt_id R
     \<and> (\<forall>s \<in> set (bc_sdk_stages bc). \<forall>r \<in> R. es_id s \<noteq> rt_id r \<and> produced_ids s \<inter> set (rt_output_pcol_ids r) = {})
     \<and> (\<forall>s \<in> set (bc_sdk_stages bc). \<forall>t \<in> set (bc_sdk_stages bc). s \<noteq> t \<longrightarrow> produced_ids s \<inter> produced_ids t = {})
     \<and> (\<forall>r \<in> R. \<forall>r' \<in> R. r \<noteq> r' \<longrightarrow> set (rt_output_pcol_ids r) \<inter> set (rt_output_pcol_ids r') = {})
     \<and> (\<forall>i \<in> es_id ` set (bc_sdk_stages bc) \<union> rt_id ` R. CHR '':'' \<notin> set i \<and> CHR '','' \<notin> set i)
     \<and> (\<forall>p. \<forall>l \<in> set (links_of bc p). (\<exists>s \<in> set (bc_sdk_stages bc). cl_node l = Worker s \<and> pcn_id (es_input_pcol s) = p)
          \<or> (\<exists>r \<in> R. cl_node l = Runner r))"

lemma build_sourcesD:
  assumes "build_sources bc R"
  shows "inj_on es_id (set (bc_sdk_stages bc))" and "inj_on rt_id R"
    and "s \<in> set (bc_sdk_stages bc) \<Longrightarrow> r \<in> R \<Longrightarrow> es_id s \<noteq> rt_id r \<and> produced_ids s \<inter> set (rt_output_pcol_ids r) = {}"
    and "s \<in> set (bc_sdk_stages bc) \<Longrightarrow> t \<in> set (bc_sdk_stages bc) \<Longrightarrow> s \<noteq> t \<Longrightarrow> produced_ids s \<inter> produced_ids t = {}"
    and "r \<in> R \<Longrightarrow> r' \<in> R \<Longrightarrow> r \<noteq> r' \<Longrightarrow> set (rt_output_pcol_ids r) \<inter> set (rt_output_pcol_ids r') = {}"
    and "s \<in> set (bc_sdk_stages bc) \<Longrightarrow> CHR '':'' \<notin> set (es_id s) \<and> CHR '','' \<notin> set (es_id s)"
    and "r \<in> R \<Longrightarrow> CHR '':'' \<notin> set (rt_id r)"
    and "l \<in> set (links_of bc p) \<Longrightarrow> cl_node l = Worker u \<Longrightarrow> u \<in> set (bc_sdk_stages bc) \<and> pcn_id (es_input_pcol u) = p"
    and "l \<in> set (links_of bc p) \<Longrightarrow> (\<exists>s. cl_node l = Worker s) \<or> (\<exists>r \<in> R. cl_node l = Runner r)"
proof -
  let ?S = "set (bc_sdk_stages bc)"
  have all1: "inj_on es_id ?S"
    using assms unfolding build_sources_def by (elim conjE)
  have all2: "inj_on rt_id R"
    using assms unfolding build_sources_def by (elim conjE)
  have all3: "\<forall>s \<in> ?S. \<forall>r \<in> R. es_id s \<noteq> rt_id r \<and> produced_ids s \<inter> set (rt_output_pcol_ids r) = {}"
    using assms unfolding build_sources_def by (elim conjE)
  have all4: "\<forall>s \<in> ?S. \<forall>t \<in> ?S. s \<noteq> t \<longrightarrow> produced_ids s \<inter> produced_ids t = {}"
    using assms unfolding build_sources_def by (elim conjE)
  have all5: "\<forall>r \<in> R. \<forall>r' \<in> R. r \<noteq> r' \<longrightarrow> set (rt_output_pcol_ids r) \<inter> set (rt_output_pcol_ids r') = {}"
    using assms unfolding build_sources_def by (elim conjE)
  have all6: "\<forall>i \<in> es_id ` ?S \<union> rt_id ` R. CHR '':'' \<notin> set i \<and> CHR '','' \<notin> set i"
    using assms unfolding build_sources_def by (elim conjE)
  have all7: "\<forall>p. \<forall>l \<in> set (links_of bc p). (\<exists>s \<in> ?S. cl_node l = Worker s \<and> pcn_id (es_input_pcol s) = p) \<or> (\<exists>r \<in> R. cl_node l = Runner r)"
    using assms unfolding build_sources_def by (elim conjE)
  note all = all1 all2 all3 all4 all5 all6 all7
  show "inj_on es_id ?S" "inj_on rt_id R"
    by (rule all)+
  show "s \<in> ?S \<Longrightarrow> r \<in> R \<Longrightarrow> es_id s \<noteq> rt_id r \<and> produced_ids s \<inter> set (rt_output_pcol_ids r) = {}"
    using all(3) by simp
  show "s \<in> ?S \<Longrightarrow> t \<in> ?S \<Longrightarrow> s \<noteq> t \<Longrightarrow> produced_ids s \<inter> produced_ids t = {}"
    using all(4) by simp
  show "r \<in> R \<Longrightarrow> r' \<in> R \<Longrightarrow> r \<noteq> r' \<Longrightarrow> set (rt_output_pcol_ids r) \<inter> set (rt_output_pcol_ids r') = {}"
    using all(5) by simp
  show "s \<in> ?S \<Longrightarrow> CHR '':'' \<notin> set (es_id s) \<and> CHR '','' \<notin> set (es_id s)"
    using all(6) by simp
  show "r \<in> R \<Longrightarrow> CHR '':'' \<notin> set (rt_id r)"
    using all(6) by simp
  show "l \<in> set (links_of bc p) \<Longrightarrow> cl_node l = Worker u \<Longrightarrow> u \<in> ?S \<and> pcn_id (es_input_pcol u) = p"
    using bspec [OF spec [OF all(7)], of l p] by auto
  show "l \<in> set (links_of bc p) \<Longrightarrow> (\<exists>s. cl_node l = Worker s) \<or> (\<exists>r \<in> R. cl_node l = Runner r)"
    using bspec [OF spec [OF all(7)], of l p] by auto
qed

lemma run_step_sdk: "build_sources bc R \<Longrightarrow> run_step bc s t \<Longrightarrow> t \<in> set (bc_sdk_stages bc)"
  unfolding run_step_def using build_sourcesD(8) by blast

lemma run_of_sdk:
  assumes "build_sources bc R" and "s \<in> set (bc_sdk_stages bc)"
  shows "run_of bc s \<subseteq> set (bc_sdk_stages bc)"
proof
  fix t
  assume "t \<in> run_of bc s"
  then show "t \<in> set (bc_sdk_stages bc)"
    unfolding run_of_def mem_Collect_eq by (induction rule: rtranclp_induct) (use assms run_step_sdk in blast)+
qed

lemma run_of_inj: "build_sources bc R \<Longrightarrow> s \<in> set (bc_sdk_stages bc) \<Longrightarrow> inj_on es_id (run_of bc s)"
  by (rule inj_on_subset [OF build_sourcesD(1) run_of_sdk])

text \<open>A stage is entered from one stage only, the one that produces its input.\<close>

lemma run_step_unique:
  assumes src: "build_sources bc R" and "run_step bc x t" and "run_step bc y t" and "x \<in> set (bc_sdk_stages bc)" and "y \<in> set (bc_sdk_stages bc)"
  shows "x = y"
proof -
  obtain p l where p: "p \<in> produced_ids x" "l \<in> set (links_of bc p)" "cl_node l = Worker t"
    using assms(2) unfolding run_step_def by blast
  obtain p' l' where p': "p' \<in> produced_ids y" "l' \<in> set (links_of bc p')" "cl_node l' = Worker t"
    using assms(3) unfolding run_step_def by blast
  have "p = p'"
    using build_sourcesD(8) [OF src p(2,3)] build_sourcesD(8) [OF src p'(2,3)] by simp
  then show ?thesis
    using build_sourcesD(4) [OF src assms(4,5)] p(1) p'(1) by blast
qed

definition run_start :: "build_context \<Rightarrow> executable_stage \<Rightarrow> bool" where
  "run_start bc s \<longleftrightarrow> s \<in> set (bc_sdk_stages bc) \<and> is_splittable s \<and> (\<forall>x \<in> set (bc_sdk_stages bc). \<not> run_step bc x s)"

lemma runs_disjoint:
  assumes src: "build_sources bc R" and s: "run_start bc s" and s': "run_start bc s'" and "s \<noteq> s'"
  shows "run_of bc s \<inter> run_of bc s' = {}"
proof -
  have "t \<notin> run_of bc s'" if "t \<in> run_of bc s" for t
    using that unfolding run_of_def [of bc s] mem_Collect_eq
  proof (induction rule: rtranclp_induct)
    case base
    show ?case
    proof
      assume "s \<in> run_of bc s'"
      then obtain x where "x \<in> run_of bc s'" "run_step bc x s"
        using assms(4) unfolding run_of_def mem_Collect_eq by (auto elim: rtranclp.cases)
      moreover have "x \<in> set (bc_sdk_stages bc)"
        using calculation(1) run_of_sdk [OF src] s' unfolding run_start_def by blast
      ultimately show False
        using s unfolding run_start_def by blast
    qed
  next
    case (step t u)
    show ?case
    proof
      assume "u \<in> run_of bc s'"
      moreover have t: "t \<in> set (bc_sdk_stages bc)"
        using step(1) run_of_sdk [OF src, of s] s unfolding run_start_def run_of_def by blast
      ultimately consider "u = s'" | x where "x \<in> run_of bc s'" "run_step bc x u"
        unfolding run_of_def mem_Collect_eq by (auto elim: rtranclp.cases)
      then show False
      proof cases
        case 1
        then show ?thesis
          using step(2) t s' unfolding run_start_def by blast
      next
        case 2
        have "x \<in> set (bc_sdk_stages bc)"
          using 2(1) run_of_sdk [OF src] s' unfolding run_start_def by blast
        then have "x = t"
          using run_step_unique [OF src 2(2) step(2)] t by blast
        then show ?thesis
          using 2(1) step(3) by simp
      qed
    qed
  qed
  then show ?thesis
    by blast
qed

end
