(* ===== verification/Kv_Store.thy ===== *)
theory Kv_Store
  imports Wire
begin

text \<open>
  The opaque key/value store of \<open>engine/kv.rs\<close>. SlateDB, the embedded database behind it, is a
  third-party package: its operations are the fields of the record \<open>slate\<close>, an argument of
  the model, and the locale \<open>slate_db\<close> names what the code relies on (a successful write
  is what a later read returns, a write touches no other key, a scan lists the live pairs in
  key order). The trait \<open>KvStore\<close> is the record \<open>kv_store\<close> with its laws in the locale
  \<open>kv_laws\<close>; \<open>slate_kv\<close> is \<open>SlateKvStore\<close>, and every SlateDB that keeps its laws gives a
  store that keeps the trait's (\<open>sublocale\<close>). The laws are shown satisfiable on the ordered
  map of the prelude.
\<close>

section \<open>SlateDB\<close>

record 'db slate =
  db_get :: "'db \<Rightarrow> bytes \<Rightarrow> (string, bytes option) rust"
  db_put :: "'db \<Rightarrow> bytes \<Rightarrow> bytes \<Rightarrow> (string, unit) rust \<times> 'db"
  db_delete :: "'db \<Rightarrow> bytes \<Rightarrow> (string, unit) rust \<times> 'db"
  db_flush :: "'db \<Rightarrow> (string, unit) rust \<times> 'db"
  db_scan :: "'db \<Rightarrow> (string, (bytes \<times> bytes) list) rust"

locale slate_db =
  fixes ops :: "'db slate" and contents :: "'db \<Rightarrow> bytes \<Rightarrow> bytes option"
  assumes get_contents: "db_get ops db k = Ok found \<Longrightarrow> found = contents db k"
    and put_contents: "db_put ops db k v = (Ok (), db') \<Longrightarrow> contents db' = (contents db)(k \<mapsto> v)"
    and delete_contents: "db_delete ops db k = (Ok (), db') \<Longrightarrow> contents db' = (contents db)(k := None)"
    and put_frame: "db_put ops db k v = (r, db') \<Longrightarrow> k' \<noteq> k \<Longrightarrow> contents db' k' = contents db k'"
    and delete_frame: "db_delete ops db k = (r, db') \<Longrightarrow> k' \<noteq> k \<Longrightarrow> contents db' k' = contents db k'"
    and flush_contents: "db_flush ops db = (r, db') \<Longrightarrow> contents db' = contents db"
    and scan_contents: "db_scan ops db = Ok xs \<Longrightarrow> bt_wf xs \<and> map_of xs = contents db"

section \<open>The trait KvStore\<close>

type_synonym kv_write = "bytes \<times> bytes option"

record 'db kv_store =
  kv_get :: "'db \<Rightarrow> bytes \<Rightarrow> (string, bytes option) rust"
  kv_apply :: "'db \<Rightarrow> kv_write list \<Rightarrow> (string, unit) rust \<times> 'db"
  kv_scan :: "'db \<Rightarrow> (string, (bytes \<times> bytes) list) rust"

text \<open>The effect of a batch of last-write-wins upserts and deletes.\<close>

definition apply_writes :: "kv_write list \<Rightarrow> (bytes \<Rightarrow> bytes option) \<Rightarrow> bytes \<Rightarrow> bytes option" where
  "apply_writes ws m = fold (\<lambda>(k, v) m. m(k := v)) ws m"

lemma apply_writes_Nil [simp]: "apply_writes [] m = m"
  by (simp add: apply_writes_def)

lemma apply_writes_Cons [simp]: "apply_writes ((k, v) # ws) m = apply_writes ws (m(k := v))"
  by (simp add: apply_writes_def)

lemma apply_writes_frame: "k \<notin> fst ` set ws \<Longrightarrow> apply_writes ws m k = m k"
  by (induction ws arbitrary: m) auto

lemma apply_writes_distinct:
  "distinct (map fst ws) \<Longrightarrow> apply_writes ws m k = (case map_of ws k of Some v \<Rightarrow> v | None \<Rightarrow> m k)"
proof (induction ws arbitrary: m)
  case (Cons w ws)
  obtain k' v where w: "w = (k', v)"
    by (cases w)
  show ?case
  proof (cases "k = k'")
    case True
    then show ?thesis
      using Cons.prems w by (simp add: apply_writes_frame)
  next
    case False
    then show ?thesis
      using Cons w by (simp split: option.split)
  qed
qed simp

locale kv_laws =
  fixes kv :: "'db kv_store" and contents :: "'db \<Rightarrow> bytes \<Rightarrow> bytes option"
  assumes kv_get_contents: "kv_get kv db k = Ok found \<Longrightarrow> found = contents db k"
    and kv_apply_contents: "kv_apply kv db ws = (Ok (), db') \<Longrightarrow> contents db' = apply_writes ws (contents db)"
    and kv_apply_frame: "kv_apply kv db ws = (r, db') \<Longrightarrow> k \<notin> fst ` set ws \<Longrightarrow> contents db' k = contents db k"
    and kv_scan_contents: "kv_scan kv db = Ok xs \<Longrightarrow> bt_wf xs \<and> map_of xs = contents db"

section \<open>SlateKvStore\<close>

text \<open>
  \<open>apply\<close> writes the batch one entry at a time, returns at the first error, and flushes
  at the end.
\<close>

definition slate_write :: "'db slate \<Rightarrow> 'db \<Rightarrow> kv_write \<Rightarrow> (string, unit) rust \<times> 'db" where
  "slate_write ops db w =
     (case snd w of Some v \<Rightarrow> db_put ops db (fst w) v | None \<Rightarrow> db_delete ops db (fst w))"

primrec slate_apply :: "'db slate \<Rightarrow> 'db \<Rightarrow> kv_write list \<Rightarrow> (string, unit) rust \<times> 'db" where
  "slate_apply ops db [] = db_flush ops db"
| "slate_apply ops db (w # ws) =
     (let (r, db1) = slate_write ops db w
      in case r of Ok _ \<Rightarrow> slate_apply ops db1 ws | Err e \<Rightarrow> (Err e, db1) | Panic \<Rightarrow> (Panic, db1))"

definition slate_kv :: "'db slate \<Rightarrow> 'db kv_store" where
  "slate_kv ops = \<lparr>kv_get = db_get ops, kv_apply = slate_apply ops, kv_scan = db_scan ops\<rparr>"

lemma slate_kv_simps [simp]:
  "kv_get (slate_kv ops) = db_get ops" "kv_apply (slate_kv ops) = slate_apply ops" "kv_scan (slate_kv ops) = db_scan ops"
  by (simp_all add: slate_kv_def)

context slate_db
begin

lemma write_contents:
  assumes "slate_write ops db (k, v) = (r, db')"
  shows "r = Ok () \<Longrightarrow> contents db' = (contents db)(k := v)"
    and "k' \<noteq> k \<Longrightarrow> contents db' k' = contents db k'"
  using assms
  by (auto simp: slate_write_def split: option.splits dest: put_contents delete_contents put_frame delete_frame)

lemma slate_apply_ok:
  "slate_apply ops db ws = (Ok (), db') \<Longrightarrow> contents db' = apply_writes ws (contents db)"
proof (induction ws arbitrary: db)
  case (Cons w ws)
  obtain k v r db1 where w: "w = (k, v)" and one: "slate_write ops db (k, v) = (r, db1)"
    by (metis surj_pair)
  have "r = Ok ()" "slate_apply ops db1 ws = (Ok (), db')"
    using Cons.prems one w by (auto split: rust.splits)
  then show ?case
    using Cons.IH [of db1] write_contents(1) [OF one] w by (simp add: fun_upd_def)
qed (auto dest: flush_contents)

lemma slate_apply_frame:
  "slate_apply ops db ws = (r, db') \<Longrightarrow> k' \<notin> fst ` set ws \<Longrightarrow> contents db' k' = contents db k'"
proof (induction ws arbitrary: db)
  case (Cons w ws)
  obtain k v r1 db1 where w: "w = (k, v)" and one: "slate_write ops db (k, v) = (r1, db1)"
    by (metis surj_pair)
  have "contents db1 k' = contents db k'"
    using write_contents(2) [OF one] Cons.prems(2) w by simp
  moreover have "contents db' k' = contents db1 k'"
    using Cons.prems one w Cons.IH [of db1] by (auto split: rust.splits)
  ultimately show ?case
    by simp
qed (auto dest: flush_contents)

end

sublocale slate_db \<subseteq> kv: kv_laws "slate_kv ops" contents
  by unfold_locales
    (auto dest: get_contents slate_apply_ok scan_contents intro: slate_apply_frame)

section \<open>An instance\<close>

text \<open>
  The laws of SlateDB hold of an ordered map kept in memory, where no operation fails (a
  list out of order counts as the empty map).
\<close>

definition mem_contents :: "(bytes, bytes) btreemap \<Rightarrow> (bytes, bytes) btreemap" where
  "mem_contents m = (if bt_wf m then m else [])"

definition mem_slate :: "(bytes, bytes) btreemap slate" where
  "mem_slate = \<lparr>db_get = (\<lambda>m k. Ok (map_of (mem_contents m) k)),
     db_put = (\<lambda>m k v. (Ok (), bt_insert k v (mem_contents m))),
     db_delete = (\<lambda>m k. (Ok (), bt_remove k (mem_contents m))),
     db_flush = (\<lambda>m. (Ok (), m)), db_scan = (\<lambda>m. Ok (mem_contents m))\<rparr>"

lemma bt_wf_mem_contents [simp]: "bt_wf (mem_contents m)"
  by (simp add: mem_contents_def)

lemma mem_contents_wf [simp]: "bt_wf m \<Longrightarrow> mem_contents m = m"
  by (simp add: mem_contents_def)

interpretation mem: slate_db mem_slate "\<lambda>m. map_of (mem_contents m)"
  by unfold_locales (auto simp: mem_slate_def)

end
