(* ===== verification/State_Backend.thy ===== *)
theory State_Backend
  imports Kv_Store
begin

text \<open>
  \<open>StateBackend\<close> of \<open>engine/state.rs\<close>: a write-back cache over a \<open>KvStore\<close>. The mutex makes
  every operation atomic, so an operation is a function of the store, the cache and its
  arguments that returns its result with the new backend. The main result is that the
  backend refines a plain map, whatever the cache evicts and even where a flush fails.
\<close>

section \<open>The cache\<close>

definition STATE_FLUSH_THRESHOLD :: nat where "STATE_FLUSH_THRESHOLD = 512"
definition STATE_CACHE_MAX_ENTRIES :: nat where "STATE_CACHE_MAX_ENTRIES = 100000"
definition STATE_CACHE_EVICT_TARGET :: nat where "STATE_CACHE_EVICT_TARGET = STATE_CACHE_MAX_ENTRIES div 4 * 3"

text \<open>The dirty \<open>HashSet\<close> is a list without repetitions.\<close>

record state_cache =
  cells :: "(bytes, bytes option) hashmap"
  dirty :: "bytes list"

fun retain_clean :: "bytes list \<Rightarrow> nat \<Rightarrow> (bytes, bytes option) hashmap \<Rightarrow> (bytes, bytes option) hashmap" where
  "retain_clean d excess [] = []"
| "retain_clean d excess (e # m) =
     (if 0 < excess \<and> fst e \<notin> set d then retain_clean d (excess - 1) m else e # retain_clean d excess m)"

definition evict_clean_to_fit :: "nat \<Rightarrow> state_cache \<Rightarrow> state_cache" where
  "evict_clean_to_fit target c =
     (if length (cells c) \<le> target then c
      else c\<lparr>cells := retain_clean (dirty c) (length (cells c) - target) (cells c)\<rparr>)"

definition evict_if_needed :: "state_cache \<Rightarrow> state_cache" where
  "evict_if_needed c =
     (if STATE_CACHE_MAX_ENTRIES < length (cells c) then evict_clean_to_fit STATE_CACHE_EVICT_TARGET c else c)"

section \<open>Operations\<close>

record 'db state_backend =
  store :: 'db
  cache :: state_cache

definition with_store :: "'db \<Rightarrow> 'db state_backend" where
  "with_store db = \<lparr>store = db, cache = \<lparr>cells = [], dirty = []\<rparr>\<rparr>"

definition cache_insert :: "bytes \<Rightarrow> bytes option \<Rightarrow> state_cache \<Rightarrow> state_cache" where
  "cache_insert k v c = evict_if_needed (c\<lparr>cells := hm_insert k v (cells c)\<rparr>)"

definition cache_write :: "bytes \<Rightarrow> bytes option \<Rightarrow> state_cache \<Rightarrow> state_cache" where
  "cache_write k v c = evict_if_needed (c\<lparr>cells := hm_insert k v (cells c), dirty := List.insert k (dirty c)\<rparr>)"

definition get_locked ::
  "'db kv_store \<Rightarrow> 'db state_backend \<Rightarrow> bytes \<Rightarrow> (string, bytes option) rust \<times> 'db state_backend" where
  "get_locked kv b k =
     (case hm_get (cells (cache b)) k of
        Some v \<Rightarrow> (Ok v, b)
      | None \<Rightarrow>
          (case kv_get kv (store b) k of
             Ok v \<Rightarrow> (Ok v, b\<lparr>cache := cache_insert k v (cache b)\<rparr>)
           | Err e \<Rightarrow> (Err e, b)
           | Panic \<Rightarrow> (Panic, b)))"

definition state_get ::
  "'db kv_store \<Rightarrow> 'db state_backend \<Rightarrow> bytes \<Rightarrow> (string, bytes option) rust \<times> 'db state_backend" where
  "state_get kv b k = get_locked kv b k"

definition pending_writes :: "state_cache \<Rightarrow> kv_write list" where
  "pending_writes c = map (\<lambda>k. (k, Option.bind (hm_get (cells c) k) (\<lambda>v. v))) (dirty c)"

definition flush_locked :: "'db kv_store \<Rightarrow> 'db state_backend \<Rightarrow> (string, unit) rust \<times> 'db state_backend" where
  "flush_locked kv b =
     (if dirty (cache b) = [] then (Ok (), b)
      else let (r, db) = kv_apply kv (store b) (pending_writes (cache b))
           in case r of
                Ok _ \<Rightarrow> (Ok (), b\<lparr>store := db, cache := (cache b)\<lparr>dirty := []\<rparr>\<rparr>)
              | _ \<Rightarrow> (r, b\<lparr>store := db\<rparr>))"

definition maybe_flush :: "'db kv_store \<Rightarrow> 'db state_backend \<Rightarrow> (string, unit) rust \<times> 'db state_backend" where
  "maybe_flush kv b =
     (if STATE_FLUSH_THRESHOLD \<le> length (dirty (cache b)) then flush_locked kv b else (Ok (), b))"

definition state_flush :: "'db kv_store \<Rightarrow> 'db state_backend \<Rightarrow> (string, unit) rust \<times> 'db state_backend" where
  "state_flush kv b = flush_locked kv b"

definition state_put ::
  "'db kv_store \<Rightarrow> 'db state_backend \<Rightarrow> bytes \<Rightarrow> bytes \<Rightarrow> (string, unit) rust \<times> 'db state_backend" where
  "state_put kv b k v = maybe_flush kv (b\<lparr>cache := cache_write k (Some v) (cache b)\<rparr>)"

definition state_delete ::
  "'db kv_store \<Rightarrow> 'db state_backend \<Rightarrow> bytes \<Rightarrow> (string, unit) rust \<times> 'db state_backend" where
  "state_delete kv b k = maybe_flush kv (b\<lparr>cache := cache_write k None (cache b)\<rparr>)"

definition read_modify_write ::
  "'db kv_store \<Rightarrow> 'db state_backend \<Rightarrow> bytes \<Rightarrow> (bytes \<Rightarrow> bytes) \<Rightarrow> (string, unit) rust \<times> 'db state_backend" where
  "read_modify_write kv b k update =
     (case get_locked kv b k of
        (Ok current, b1) \<Rightarrow>
          let nxt = update (case current of Some x \<Rightarrow> x | None \<Rightarrow> [])
          in maybe_flush kv (b1\<lparr>cache := cache_write k (Some nxt) (cache b1)\<rparr>)
      | (Err e, b1) \<Rightarrow> (Err e, b1)
      | (Panic, b1) \<Rightarrow> (Panic, b1))"

section \<open>Eviction\<close>

lemma set_retain_clean: "set (retain_clean d n m) \<subseteq> set m"
  by (induction d n m rule: retain_clean.induct) auto

lemma retain_clean_dirty: "e \<in> set m \<Longrightarrow> fst e \<in> set d \<Longrightarrow> e \<in> set (retain_clean d n m)"
  by (induction d n m rule: retain_clean.induct) auto

lemma hm_wf_retain_clean: "hm_wf m \<Longrightarrow> hm_wf (retain_clean d n m)"
proof (induction d n m rule: retain_clean.induct)
  case (2 d n e m)
  then show ?case
    using set_retain_clean [of d n m] by (auto simp: hm_wf_def)
qed simp

lemma length_retain_clean:
  "length (retain_clean d n m) \<le> max (length m - n) (length (filter (\<lambda>e. fst e \<in> set d) m))"
proof (induction d n m rule: retain_clean.induct)
  case (2 d n e m)
  show ?case
    using 2 by (auto simp: max_def split: if_splits) (use length_filter_le [of "\<lambda>e. fst e \<in> set d" m] in linarith)
qed simp

definition cache_wf :: "state_cache \<Rightarrow> bool" where
  "cache_wf c \<longleftrightarrow> hm_wf (cells c) \<and> distinct (dirty c) \<and> set (dirty c) \<subseteq> set (hm_keys (cells c))"

lemma evict_cells: "set (cells (evict_if_needed c)) \<subseteq> set (cells c)"
  using set_retain_clean by (auto simp: evict_if_needed_def evict_clean_to_fit_def)

lemma dirty_evict [simp]: "dirty (evict_if_needed c) = dirty c"
  by (simp add: evict_if_needed_def evict_clean_to_fit_def)

lemma hm_wf_evict: "hm_wf (cells c) \<Longrightarrow> hm_wf (cells (evict_if_needed c))"
  by (simp add: evict_if_needed_def evict_clean_to_fit_def hm_wf_retain_clean)

lemma evict_keeps_dirty: "e \<in> set (cells c) \<Longrightarrow> fst e \<in> set (dirty c) \<Longrightarrow> e \<in> set (cells (evict_if_needed c))"
  by (auto simp: evict_if_needed_def evict_clean_to_fit_def retain_clean_dirty)

lemma cache_wf_evict: "cache_wf c \<Longrightarrow> cache_wf (evict_if_needed c)"
  using evict_keeps_dirty [of _ c] hm_wf_evict [of c] by (fastforce simp: cache_wf_def)

lemma dirty_cells_bound:
  assumes "cache_wf c"
  shows "length (filter (\<lambda>e. fst e \<in> set (dirty c)) (cells c)) \<le> length (dirty c)"
proof -
  let ?l = "map fst (filter (\<lambda>e. fst e \<in> set (dirty c)) (cells c))"
  have "distinct ?l"
    using assms by (simp add: cache_wf_def hm_wf_def distinct_map_filter)
  then have "length ?l = card (set ?l)"
    by (rule distinct_card [symmetric])
  also have "\<dots> \<le> card (set (dirty c))"
    by (rule card_mono) auto
  also have "\<dots> \<le> length (dirty c)"
    by (rule card_length)
  finally show ?thesis
    by simp
qed

text \<open>The cache never holds more than its bound, unless all that exceeds it is dirty.\<close>

lemma evict_bound:
  assumes "cache_wf c"
  shows "length (cells (evict_if_needed c)) \<le> max STATE_CACHE_MAX_ENTRIES (length (dirty c))"
  using length_retain_clean [of "dirty c" "length (cells c) - STATE_CACHE_EVICT_TARGET" "cells c"] dirty_cells_bound [OF assms]
  by (auto simp: evict_if_needed_def evict_clean_to_fit_def STATE_CACHE_EVICT_TARGET_def STATE_CACHE_MAX_ENTRIES_def)

section \<open>Refinement of a plain map\<close>

text \<open>
  The map a client sees: the cached value where there is one, the stored one otherwise.
  Clean cells of the cache agree with the store, so dropping them changes nothing.
\<close>

definition view :: "('db \<Rightarrow> bytes \<Rightarrow> bytes option) \<Rightarrow> 'db state_backend \<Rightarrow> bytes \<Rightarrow> bytes option" where
  "view contents b k = (case hm_get (cells (cache b)) k of Some v \<Rightarrow> v | None \<Rightarrow> contents (store b) k)"

definition cache_agrees :: "(bytes \<Rightarrow> bytes option) \<Rightarrow> state_cache \<Rightarrow> bool" where
  "cache_agrees m c \<longleftrightarrow>
     (\<forall>k v. hm_get (cells c) k = Some v \<and> k \<notin> set (dirty c) \<longrightarrow> m k = v)"

definition backend_inv :: "('db \<Rightarrow> bytes \<Rightarrow> bytes option) \<Rightarrow> 'db state_backend \<Rightarrow> bool" where
  "backend_inv contents b \<longleftrightarrow>
     cache_wf (cache b) \<and> cache_agrees (contents (store b)) (cache b)"

text \<open>The bounds the thresholds are there for.\<close>

definition backend_small :: "'db state_backend \<Rightarrow> bool" where
  "backend_small b \<longleftrightarrow>
     length (cells (cache b)) \<le> STATE_CACHE_MAX_ENTRIES \<and> length (dirty (cache b)) < STATE_FLUSH_THRESHOLD"

definition cache_view :: "(bytes \<Rightarrow> bytes option) \<Rightarrow> state_cache \<Rightarrow> bytes \<Rightarrow> bytes option" where
  "cache_view m c k = (case hm_get (cells c) k of Some v \<Rightarrow> v | None \<Rightarrow> m k)"

lemma view_cache_view: "view contents b = cache_view (contents (store b)) (cache b)"
  by (simp add: fun_eq_iff view_def cache_view_def)

lemma hm_get_evict:
  assumes "cache_wf c"
  shows "hm_get (cells (evict_if_needed c)) k = Some v \<Longrightarrow> hm_get (cells c) k = Some v"
    and "k \<in> set (dirty c) \<Longrightarrow> hm_get (cells (evict_if_needed c)) k = hm_get (cells c) k"
proof -
  have wf: "hm_wf (cells c)" "hm_wf (cells (evict_if_needed c))"
    using assms hm_wf_evict by (auto simp: cache_wf_def)
  show "hm_get (cells (evict_if_needed c)) k = Some v \<Longrightarrow> hm_get (cells c) k = Some v" for k v
    using evict_cells [of c] by (auto simp: hm_get_iff_mem [OF wf(1)] hm_get_iff_mem [OF wf(2)])
  show "hm_get (cells (evict_if_needed c)) k = hm_get (cells c) k" if k: "k \<in> set (dirty c)"
  proof -
    obtain v where v: "(k, v) \<in> set (cells c)"
      using assms k by (auto simp: cache_wf_def)
    then have "(k, v) \<in> set (cells (evict_if_needed c))"
      using evict_keeps_dirty k by fastforce
    then show ?thesis
      using v by (simp flip: hm_get_iff_mem [OF wf(1)] hm_get_iff_mem [OF wf(2)])
  qed
qed

lemma evict_preserves:
  assumes "cache_wf c" and "cache_agrees m c"
  shows "cache_agrees m (evict_if_needed c)" and "cache_view m (evict_if_needed c) = cache_view m c"
proof -
  show "cache_agrees m (evict_if_needed c)"
    using assms(2) hm_get_evict(1) [OF assms(1)] by (auto simp: cache_agrees_def)
  show "cache_view m (evict_if_needed c) = cache_view m c"
  proof
    fix k
    show "cache_view m (evict_if_needed c) k = cache_view m c k"
    proof (cases "k \<in> set (dirty c)")
      case True
      then show ?thesis
        using hm_get_evict(2) [OF assms(1)] by (simp add: cache_view_def)
    next
      case False
      then show ?thesis
        using assms(2) hm_get_evict(1) [OF assms(1), of k]
        by (auto simp: cache_view_def cache_agrees_def split: option.split)
    qed
  qed
qed

lemma cache_write_refines:
  assumes "cache_wf c" and "cache_agrees m c"
  shows "cache_wf (cache_write k v c)" "cache_agrees m (cache_write k v c)"
    "cache_view m (cache_write k v c) = (cache_view m c)(k := v)"
    "length (cells (cache_write k v c)) \<le> max STATE_CACHE_MAX_ENTRIES (length (dirty (cache_write k v c)))"
    "k \<in> set (dirty (cache_write k v c))"
proof -
  let ?c = "c\<lparr>cells := hm_insert k v (cells c), dirty := List.insert k (dirty c)\<rparr>"
  have wf: "cache_wf ?c"
    using assms(1) by (auto simp: cache_wf_def dom_update)
  have ag: "cache_agrees m ?c"
    using assms(2) by (auto simp: cache_agrees_def)
  have vw: "cache_view m ?c = (cache_view m c)(k := v)"
    by (auto simp: cache_view_def)
  show "cache_wf (cache_write k v c)" "cache_agrees m (cache_write k v c)"
    "cache_view m (cache_write k v c) = (cache_view m c)(k := v)"
    "length (cells (cache_write k v c)) \<le> max STATE_CACHE_MAX_ENTRIES (length (dirty (cache_write k v c)))"
    "k \<in> set (dirty (cache_write k v c))"
    using cache_wf_evict [OF wf] evict_preserves [OF wf ag] evict_bound [OF wf] vw by (simp_all add: cache_write_def)
qed

lemma cache_insert_refines:
  assumes "cache_wf c" and "cache_agrees m c" and "hm_get (cells c) k = None"
  shows "cache_wf (cache_insert k (m k) c)" "cache_agrees m (cache_insert k (m k) c)"
    "cache_view m (cache_insert k (m k) c) = cache_view m c"
    "length (cells (cache_insert k (m k) c)) \<le> max STATE_CACHE_MAX_ENTRIES (length (dirty (cache_insert k (m k) c)))"
proof -
  let ?c = "c\<lparr>cells := hm_insert k (m k) (cells c)\<rparr>"
  have wf: "cache_wf ?c"
    using assms(1) by (auto simp: cache_wf_def dom_update)
  have ag: "cache_agrees m ?c"
    using assms(2) by (auto simp: cache_agrees_def)
  have vw: "cache_view m ?c = cache_view m c"
    using assms(3) by (auto simp: cache_view_def)
  show "cache_wf (cache_insert k (m k) c)" "cache_agrees m (cache_insert k (m k) c)"
    "cache_view m (cache_insert k (m k) c) = cache_view m c"
    "length (cells (cache_insert k (m k) c)) \<le> max STATE_CACHE_MAX_ENTRIES (length (dirty (cache_insert k (m k) c)))"
    using cache_wf_evict [OF wf] evict_preserves [OF wf ag] evict_bound [OF wf] vw by (simp_all add: cache_insert_def)
qed

lemma backend_inv_with_store: "backend_inv contents (with_store db)"
  by (simp add: backend_inv_def with_store_def cache_wf_def cache_agrees_def)

lemma view_with_store [simp]: "view contents (with_store db) = contents db"
  by (simp add: fun_eq_iff view_def with_store_def)

context kv_laws
begin

lemma get_locked_refines:
  assumes "backend_inv contents b" and "get_locked kv b k = (r, b')"
  shows "backend_inv contents b'" and "view contents b' = view contents b" and "r = Ok v \<Longrightarrow> v = view contents b k"
    and "dirty (cache b') = dirty (cache b)" and "store b' = store b"
proof -
  have b: "cache_wf (cache b)" "cache_agrees (contents (store b)) (cache b)"
    using assms(1) by (auto simp: backend_inv_def)
  consider v where "hm_get (cells (cache b)) k = Some v" "r = Ok v" "b' = b"
    | "hm_get (cells (cache b)) k = None" "r = Ok (contents (store b) k)"
        "b' = b\<lparr>cache := cache_insert k (contents (store b) k) (cache b)\<rparr>"
    | "hm_get (cells (cache b)) k = None" "\<And>v. r \<noteq> Ok v" "b' = b"
  proof (cases "hm_get (cells (cache b)) k")
    case None
    show thesis
    proof (cases "kv_get kv (store b) k")
      case (Ok found)
      then show thesis
        using None assms(2) kv_get_contents [OF Ok] that(2) by (simp add: get_locked_def)
    next
      case (Err e)
      then have "r = Err e" "b' = b"
        using None assms(2) by (simp_all add: get_locked_def)
      then show thesis
        using that(3) None by simp
    next
      case Panic
      then have "r = Panic" "b' = b"
        using None assms(2) by (simp_all add: get_locked_def)
      then show thesis
        using that(3) None by simp
    qed
  next
    case (Some v)
    then have "r = Ok v" "b' = b"
      using assms(2) by (simp_all add: get_locked_def)
    then show thesis
      by (rule that(1) [OF Some])
  qed
  then have "backend_inv contents b' \<and> view contents b' = view contents b \<and> (\<forall>v. r = Ok v \<longrightarrow> v = view contents b k)
    \<and> dirty (cache b') = dirty (cache b) \<and> store b' = store b"
  proof cases
    case 2
    note ci = cache_insert_refines [OF b 2(1)]
    have "dirty (cache b') = dirty (cache b)"
      by (simp add: 2(3) cache_insert_def)
    then show ?thesis
      using ci 2 by (auto simp: backend_inv_def view_cache_view) (simp add: cache_view_def)
  next
    case 1
    then show ?thesis
      using assms(1) by (simp add: view_def)
  next
    case 3
    then show ?thesis
      using assms(1) by simp
  qed
  then show "backend_inv contents b'" "view contents b' = view contents b" "r = Ok v \<Longrightarrow> v = view contents b k"
    "dirty (cache b') = dirty (cache b)" "store b' = store b"
    by auto
qed

lemma pending_contents:
  assumes "cache_wf c" and "cache_agrees m c"
  shows "apply_writes (pending_writes c) m = cache_view m c"
proof
  fix k
  have keys: "map fst (pending_writes c) = dirty c"
    by (simp add: pending_writes_def comp_def)
  have dist: "distinct (map fst (pending_writes c))"
    using assms(1) by (simp add: keys cache_wf_def)
  have "map_of (pending_writes c) k
    = (if k \<in> set (dirty c) then Some (Option.bind (hm_get (cells c) k) (\<lambda>v. v)) else None)"
    by (simp add: pending_writes_def map_of_map_restrict restrict_map_def)
  moreover have "hm_get (cells c) k \<noteq> None" if "k \<in> set (dirty c)"
    using assms(1) that by (auto simp: cache_wf_def map_of_eq_None_iff simp del: not_None_eq)
  ultimately show "apply_writes (pending_writes c) m k = cache_view m c k"
    using assms(2) by (auto simp: apply_writes_distinct [OF dist] cache_view_def cache_agrees_def split: option.split)
qed

lemma flush_locked_refines:
  assumes "backend_inv contents b" and "flush_locked kv b = (r, b')"
  shows "backend_inv contents b'" and "view contents b' = view contents b"
    and "r = Ok () \<Longrightarrow> dirty (cache b') = [] \<and> contents (store b') = view contents b"
proof -
  have b: "cache_wf (cache b)" "cache_agrees (contents (store b)) (cache b)"
    using assms(1) by (auto simp: backend_inv_def)
  have "backend_inv contents b' \<and> view contents b' = view contents b
    \<and> (r = Ok () \<longrightarrow> dirty (cache b') = [] \<and> contents (store b') = view contents b)"
  proof (cases "dirty (cache b) = []")
    case True
    then have eq: "r = Ok ()" "b' = b"
      using assms(2) by (auto simp: flush_locked_def)
    have "view contents b = contents (store b)"
      using pending_contents [OF b(1,2)] True by (simp add: pending_writes_def view_cache_view)
    then show ?thesis
      using eq assms(1) True by simp
  next
    case False
    obtain r1 db where ap: "kv_apply kv (store b) (pending_writes (cache b)) = (r1, db)"
      by fastforce
    show ?thesis
    proof (cases "r1 = Ok ()")
      case True
      then have eq: "r = Ok ()" "b' = b\<lparr>store := db, cache := (cache b)\<lparr>dirty := []\<rparr>\<rparr>"
        using assms(2) False ap by (auto simp: flush_locked_def)
      have db: "contents db = view contents b"
        using kv_apply_contents [OF ap [unfolded True]] pending_contents [OF b(1,2)] by (simp add: view_cache_view)
      then show ?thesis
        using eq b by (auto simp: backend_inv_def cache_wf_def cache_agrees_def view_def fun_eq_iff split: option.split)
    next
      case err: False
      then have eq: "r = r1" "b' = b\<lparr>store := db\<rparr>"
        using assms(2) False ap by (auto simp: flush_locked_def split: rust.splits)
      have frame: "contents db k = contents (store b) k" if "k \<notin> set (dirty (cache b))" for k
        using kv_apply_frame [OF ap] that by (auto simp: pending_writes_def image_image)
      have "cache_agrees (contents db) (cache b)"
        using b(2) frame by (auto simp: cache_agrees_def)
      moreover have "view contents b' = view contents b"
      proof
        fix k
        have "k \<notin> set (dirty (cache b))" if "hm_get (cells (cache b)) k = None"
          using that b(1) by (auto simp: cache_wf_def map_of_eq_None_iff)
        then show "view contents b' k = view contents b k"
          using frame by (auto simp: eq(2) view_def split: option.split)
      qed
      ultimately show ?thesis
        using eq b err by (simp add: backend_inv_def)
    qed
  qed
  then show "backend_inv contents b'" "view contents b' = view contents b"
    "r = Ok () \<Longrightarrow> dirty (cache b') = [] \<and> contents (store b') = view contents b"
    by auto
qed

end

context kv_laws
begin

lemma maybe_flush_refines:
  assumes "backend_inv contents b" and "maybe_flush kv b = (r, b')"
  shows "backend_inv contents b'" and "view contents b' = view contents b"
  using assms flush_locked_refines [of b] by (auto simp: maybe_flush_def split: if_splits)

lemma maybe_flush_small:
  assumes "backend_inv contents b" and "maybe_flush kv b = (Ok (), b')"
  shows "length (dirty (cache b')) < STATE_FLUSH_THRESHOLD" and "cells (cache b') = cells (cache b)"
proof -
  have "cells (cache b') = cells (cache b)" if "flush_locked kv b = (Ok (), b')"
    using that by (auto simp: flush_locked_def split: if_splits rust.splits prod.splits)
  then show "length (dirty (cache b')) < STATE_FLUSH_THRESHOLD" "cells (cache b') = cells (cache b)"
    using assms flush_locked_refines(3) [of b "Ok ()" b']
    by (auto simp: maybe_flush_def STATE_FLUSH_THRESHOLD_def split: if_splits)
qed

text \<open>A write through the cache: \<open>put\<close>, \<open>delete\<close> and the second half of \<open>read_modify_write\<close>.\<close>

lemma write_refines:
  assumes "backend_inv contents b" and "maybe_flush kv (b\<lparr>cache := cache_write k v (cache b)\<rparr>) = (r, b')"
  shows "backend_inv contents b'" and "view contents b' = (view contents b)(k := v)"
    and "r = Ok () \<Longrightarrow> backend_small b \<Longrightarrow> backend_small b'"
proof -
  let ?b = "b\<lparr>cache := cache_write k v (cache b)\<rparr>"
  have b: "cache_wf (cache b)" "cache_agrees (contents (store b)) (cache b)"
    using assms(1) by (auto simp: backend_inv_def)
  note cw = cache_write_refines [OF b, of k v]
  have inv: "backend_inv contents ?b"
    using cw by (simp add: backend_inv_def)
  show "backend_inv contents b'"
    by (rule maybe_flush_refines(1) [OF inv assms(2)])
  show "view contents b' = (view contents b)(k := v)"
    using maybe_flush_refines(2) [OF inv assms(2)] cw(3) by (simp add: view_cache_view)
  show "backend_small b'" if "r = Ok ()" "backend_small b"
  proof -
    have "length (dirty (cache ?b)) \<le> Suc (length (dirty (cache b)))"
      by (simp add: cache_write_def List.insert_def)
    then have "length (cells (cache ?b)) \<le> STATE_CACHE_MAX_ENTRIES"
      using cw(4) that(2) by (simp add: backend_small_def STATE_CACHE_MAX_ENTRIES_def STATE_FLUSH_THRESHOLD_def)
    then show ?thesis
      using maybe_flush_small [OF inv assms(2) [unfolded that(1)]] by (simp add: backend_small_def)
  qed
qed

lemma get_small:
  assumes "backend_inv contents b" and "backend_small b" and "get_locked kv b k = (r, b')"
  shows "backend_small b'"
proof -
  have b: "cache_wf (cache b)" "cache_agrees (contents (store b)) (cache b)"
    using assms(1) by (auto simp: backend_inv_def)
  have "length (cells (cache b')) \<le> STATE_CACHE_MAX_ENTRIES"
  proof (cases "hm_get (cells (cache b)) k = None \<and> (\<exists>v. kv_get kv (store b) k = Ok v)")
    case True
    then obtain found where found: "kv_get kv (store b) k = Ok found" "hm_get (cells (cache b)) k = None"
      by blast
    have "b' = b\<lparr>cache := cache_insert k (contents (store b) k) (cache b)\<rparr>"
      using assms(3) found kv_get_contents [OF found(1)] by (simp add: get_locked_def)
    then show ?thesis
      using cache_insert_refines(4) [OF b found(2)] assms(2)
      by (simp add: backend_small_def cache_insert_def STATE_CACHE_MAX_ENTRIES_def STATE_FLUSH_THRESHOLD_def)
  next
    case False
    then have "b' = b"
      using assms(3) by (auto simp: get_locked_def split: option.splits rust.splits)
    then show ?thesis
      using assms(2) by (simp add: backend_small_def)
  qed
  then show ?thesis
    using assms(2) get_locked_refines(4) [OF assms(1,3)] by (simp add: backend_small_def)
qed

lemma rmw_refines:
  assumes "backend_inv contents b" and "read_modify_write kv b k update = (r, b')"
  shows "backend_inv contents b'"
    and "r = Ok () \<Longrightarrow> view contents b' = (view contents b)(k \<mapsto> update (case view contents b k of Some x \<Rightarrow> x | None \<Rightarrow> []))"
    and "view contents b' = view contents b
      \<or> view contents b' = (view contents b)(k \<mapsto> update (case view contents b k of Some x \<Rightarrow> x | None \<Rightarrow> []))"
    and "r = Ok () \<Longrightarrow> backend_small b \<Longrightarrow> backend_small b'"
proof -
  obtain r1 b1 where g: "get_locked kv b k = (r1, b1)"
    by fastforce
  note gr = get_locked_refines [OF assms(1) g]
  let ?new = "(view contents b)(k \<mapsto> update (case view contents b k of Some x \<Rightarrow> x | None \<Rightarrow> []))"
  have "backend_inv contents b' \<and> (r = Ok () \<longrightarrow> view contents b' = ?new)
    \<and> (view contents b' = view contents b \<or> view contents b' = ?new)
    \<and> (r = Ok () \<longrightarrow> backend_small b \<longrightarrow> backend_small b')"
  proof (cases r1)
    case (Ok current)
    have w: "maybe_flush kv (b1\<lparr>cache := cache_write k
      (Some (update (case view contents b k of Some x \<Rightarrow> x | None \<Rightarrow> []))) (cache b1)\<rparr>) = (r, b')"
      using assms(2) g Ok gr(3) [OF Ok] by (simp add: read_modify_write_def)
    show ?thesis
      using write_refines [OF gr(1) w] gr(2) get_small [OF assms(1) _ g] by simp
  qed (use assms(2) g gr in \<open>auto simp: read_modify_write_def\<close>)
  then show "backend_inv contents b'" "r = Ok () \<Longrightarrow> view contents b' = ?new"
    "view contents b' = view contents b \<or> view contents b' = ?new"
    "r = Ok () \<Longrightarrow> backend_small b \<Longrightarrow> backend_small b'"
    by auto
qed

end

end
