(* ===== verification/User_State.thy ===== *)
theory User_State
  imports State_Backend Coders
begin

text \<open>
  Beam user state of \<open>engine/state.rs\<close> over the state backend: composite state keys, bag
  state, multimap state with its serialized cell, and the dispatch of \<open>UserStateStore\<close>. A
  state operation takes the store handle and the backend and returns its result with the
  new backend.
\<close>

type_synonym ('a, 'db) state_result = "(string, 'a) rust \<times> 'db state_backend"

text \<open>\<open>op.await?\<close> followed by the rest of the function.\<close>

definition sbind ::
  "('a, 'db) state_result \<Rightarrow> ('a \<Rightarrow> 'db state_backend \<Rightarrow> ('b, 'db) state_result) \<Rightarrow> ('b, 'db) state_result" where
  "sbind m f = (case m of (Ok x, b) \<Rightarrow> f x b | (Err e, b) \<Rightarrow> (Err e, b) | (Panic, b) \<Rightarrow> (Panic, b))"

lemma sbind_simps [simp]:
  "sbind (Ok x, b) f = f x b" "sbind (Err e, b) f = (Err e, b)" "sbind (Panic, b) f = (Panic, b)"
  by (simp_all add: sbind_def)

lemma sbind_eq_Ok: "sbind m f = (Ok y, b') \<longleftrightarrow> (\<exists>x b. m = (Ok x, b) \<and> f x b = (Ok y, b'))"
  by (auto simp: sbind_def split: prod.splits rust.splits)

section \<open>Length-prefixed parts\<close>

text \<open>
  \<open>put_u32\<close> and \<open>put_bytes\<close> (which \<open>build_state_key\<close> and \<open>TimerKey::storage_key\<close> write
  inline), with the readers of the multimap cell.
\<close>

definition put_u32 :: "nat \<Rightarrow> bytes" where "put_u32 n = u32_be (of_nat n)"

definition put_bytes :: "bytes \<Rightarrow> bytes" where "put_bytes v = put_u32 (length v) @ v"

definition read_u32 :: "nat reader" where
  "read_u32 buf =
     (if length buf < 4 then Err (WhileDecoding ''multimap state cell has a truncated length'')
      else rbind (get_u32 buf) (\<lambda>(w, rest). Ok (unat w, rest)))"

definition read_bytes :: "bytes reader" where
  "read_bytes buf =
     rbind (read_u32 buf) (\<lambda>(n, rest).
       if length rest < n then Err (WhileDecoding ''multimap state cell has a truncated value'')
       else get_slice n rest)"

definition fits_u32 :: "nat \<Rightarrow> bool" where "fits_u32 n \<longleftrightarrow> n < 2 ^ 32"

lemma unat_put_u32 [simp]: "fits_u32 n \<Longrightarrow> unat (of_nat n :: 32 word) = n"
  by (simp add: fits_u32_def unat_of_nat)

lemma read_u32_put: "fits_u32 n \<Longrightarrow> read_u32 (put_u32 n @ rest) = Ok (n, rest)"
  by (simp add: read_u32_def put_u32_def u32_be_roundtrip del: rbind_eq_Ok)

lemma read_bytes_put: "fits_u32 (length v) \<Longrightarrow> read_bytes (put_bytes v @ rest) = Ok (v, rest)"
  by (simp add: read_bytes_def put_bytes_def read_u32_put del: rbind_eq_Ok)

interpretation u32_len: wire_codec put_u32 read_u32 fits_u32
  by unfold_locales (rule read_u32_put)

interpretation part: wire_codec put_bytes read_bytes "\<lambda>v. fits_u32 (length v)"
  by unfold_locales (rule read_bytes_put)

text \<open>A composite key determines its parts.\<close>

lemma parts_inject:
  assumes "list_all (\<lambda>v. fits_u32 (length v)) xs" and "list_all (\<lambda>v. fits_u32 (length v)) ys" and "length xs = length ys"
  shows "concat (map put_bytes xs) = concat (map put_bytes ys) \<longleftrightarrow> xs = ys"
proof
  assume eq: "concat (map put_bytes xs) = concat (map put_bytes ys)"
  have "get_many read_bytes (length xs) (concat (map put_bytes xs)) = Ok (xs, [])"
    "get_many read_bytes (length xs) (concat (map put_bytes xs)) = Ok (ys, [])"
    using part.roundtrip_many [OF assms(1), of "[]"] part.roundtrip_many [OF assms(2), of "[]"]
    unfolding append_Nil2 assms(3) eq by blast+
  then show "xs = ys"
    by (metis rust.inject(1) prod.inject)
qed simp

section \<open>State keys and addresses\<close>

definition build_state_key :: "string \<Rightarrow> string \<Rightarrow> bytes \<Rightarrow> bytes \<Rightarrow> bytes" where
  "build_state_key transform_id user_state_id window key =
     concat (map put_bytes [as_bytes transform_id, as_bytes user_state_id, window, key])"

datatype user_state_kind = Bag | MultimapKeys | MultimapEntries | MultimapValues

fun wire_name :: "user_state_kind \<Rightarrow> string" where
  "wire_name Bag = ''bag_user_state''"
| "wire_name MultimapKeys = ''multimap_keys_user_state''"
| "wire_name MultimapEntries = ''multimap_entries_user_state''"
| "wire_name MultimapValues = ''multimap_user_state''"

record user_state_address =
  addr_kind :: user_state_kind
  addr_transform_id :: string
  addr_user_state_id :: string
  addr_window :: bytes
  addr_key :: bytes
  addr_map_key :: bytes

definition new_address :: "user_state_kind \<Rightarrow> string \<Rightarrow> string \<Rightarrow> bytes \<Rightarrow> bytes \<Rightarrow> user_state_address" where
  "new_address kd t u w k =
     \<lparr>addr_kind = kd, addr_transform_id = t, addr_user_state_id = u, addr_window = w, addr_key = k, addr_map_key = []\<rparr>"

definition new_multimap ::
  "user_state_kind \<Rightarrow> string \<Rightarrow> string \<Rightarrow> bytes \<Rightarrow> bytes \<Rightarrow> bytes \<Rightarrow> user_state_address" where
  "new_multimap kd t u w k mk =
     \<lparr>addr_kind = kd, addr_transform_id = t, addr_user_state_id = u, addr_window = w, addr_key = k, addr_map_key = mk\<rparr>"

definition composite_key :: "user_state_address \<Rightarrow> bytes" where
  "composite_key a = build_state_key (addr_transform_id a) (addr_user_state_id a) (addr_window a) (addr_key a)"

section \<open>Bag state\<close>

definition bag_get :: "'db kv_store \<Rightarrow> 'db state_backend \<Rightarrow> bytes \<Rightarrow> (bytes, 'db) state_result" where
  "bag_get kv b k = sbind (state_get kv b k) (\<lambda>v b. (Ok (case v of Some x \<Rightarrow> x | None \<Rightarrow> []), b))"

definition bag_append :: "'db kv_store \<Rightarrow> 'db state_backend \<Rightarrow> bytes \<Rightarrow> bytes \<Rightarrow> (unit, 'db) state_result" where
  "bag_append kv b k v = read_modify_write kv b k (\<lambda>current. current @ v)"

definition bag_clear :: "'db kv_store \<Rightarrow> 'db state_backend \<Rightarrow> bytes \<Rightarrow> (unit, 'db) state_result" where
  "bag_clear kv b k = state_delete kv b k"

section \<open>Multimap state\<close>

record mm_entry =
  entry_key :: bytes
  entry_values :: "bytes list"

definition put_entry :: "mm_entry \<Rightarrow> bytes" where
  "put_entry e = put_bytes (entry_key e) @ put_u32 (length (entry_values e)) @ concat (map put_bytes (entry_values e))"

definition encode_entries :: "mm_entry list \<Rightarrow> bytes" where
  "encode_entries es = put_u32 (length es) @ concat (map put_entry es)"

definition read_entry :: "mm_entry reader" where
  "read_entry buf =
     rbind (read_bytes buf) (\<lambda>(k, r1).
       rbind (read_u32 r1) (\<lambda>(n, r2).
         rmap (\<lambda>vs. \<lparr>entry_key = k, entry_values = vs\<rparr>) (get_many read_bytes n r2)))"

definition decode_entries :: "bytes \<Rightarrow> (coders_error, mm_entry list) rust" where
  "decode_entries data =
     rbind (read_u32 data) (\<lambda>(n, r1).
       rbind (get_many read_entry n r1) (\<lambda>(es, rest).
         if rest \<noteq> [] then Err (WhileDecoding ''multimap state cell has trailing bytes'') else Ok es))"

fun as_anyhow :: "(coders_error, 'a) rust \<Rightarrow> (string, 'a) rust" where
  "as_anyhow (Ok x) = Ok x"
| "as_anyhow (Err (WhileDecoding s)) = Err s"
| "as_anyhow Panic = Panic"

definition mm_read :: "'db kv_store \<Rightarrow> 'db state_backend \<Rightarrow> bytes \<Rightarrow> (mm_entry list, 'db) state_result" where
  "mm_read kv b k =
     sbind (state_get kv b k) (\<lambda>v b.
       case v of Some data \<Rightarrow> (as_anyhow (decode_entries data), b) | None \<Rightarrow> (Ok [], b))"

definition mm_write :: "'db kv_store \<Rightarrow> 'db state_backend \<Rightarrow> bytes \<Rightarrow> mm_entry list \<Rightarrow> (unit, 'db) state_result" where
  "mm_write kv b k es = state_put kv b k (encode_entries es)"

definition mm_keys :: "'db kv_store \<Rightarrow> 'db state_backend \<Rightarrow> bytes \<Rightarrow> (bytes, 'db) state_result" where
  "mm_keys kv b k = sbind (mm_read kv b k) (\<lambda>es b. (Ok (concat (map entry_key es)), b))"

definition mm_values :: "'db kv_store \<Rightarrow> 'db state_backend \<Rightarrow> bytes \<Rightarrow> bytes \<Rightarrow> (bytes, 'db) state_result" where
  "mm_values kv b k mk =
     sbind (mm_read kv b k) (\<lambda>es b.
       (Ok (case find (\<lambda>e. entry_key e = mk) es of Some e \<Rightarrow> concat (entry_values e) | None \<Rightarrow> []), b))"

primrec entries_bytes :: "mm_entry list \<Rightarrow> (string, bytes) rust" where
  "entries_bytes [] = Ok []"
| "entries_bytes (e # es) =
     (if length (entry_values e) < 2 ^ 31
      then rbind (entries_bytes es) (\<lambda>bs.
             Ok (entry_key e @ u32_be (of_nat (length (entry_values e))) @ concat (entry_values e) @ bs))
      else Err ''multimap state contains too many values for one map key'')"

definition mm_entries :: "'db kv_store \<Rightarrow> 'db state_backend \<Rightarrow> bytes \<Rightarrow> (bytes, 'db) state_result" where
  "mm_entries kv b k = sbind (mm_read kv b k) (\<lambda>es b. (entries_bytes es, b))"

definition add_key :: "bytes \<Rightarrow> mm_entry list \<Rightarrow> mm_entry list" where
  "add_key k es =
     (if \<exists>e \<in> set es. entry_key e = k then es else es @ [\<lparr>entry_key = k, entry_values = []\<rparr>])"

definition add_keys :: "bytes list \<Rightarrow> mm_entry list \<Rightarrow> mm_entry list" where
  "add_keys ks es = fold add_key ks es"

definition mm_append_keys :: "'db kv_store \<Rightarrow> 'db state_backend \<Rightarrow> bytes \<Rightarrow> bytes list \<Rightarrow> (unit, 'db) state_result" where
  "mm_append_keys kv b k ks = sbind (mm_read kv b k) (\<lambda>es b. mm_write kv b k (add_keys ks es))"

fun add_values :: "bytes \<Rightarrow> bytes list \<Rightarrow> mm_entry list \<Rightarrow> mm_entry list" where
  "add_values mk vs [] = [\<lparr>entry_key = mk, entry_values = vs\<rparr>]"
| "add_values mk vs (e # es) =
     (if entry_key e = mk then e\<lparr>entry_values := entry_values e @ vs\<rparr> # es else e # add_values mk vs es)"

definition mm_append_values ::
  "'db kv_store \<Rightarrow> 'db state_backend \<Rightarrow> bytes \<Rightarrow> bytes \<Rightarrow> bytes list \<Rightarrow> (unit, 'db) state_result" where
  "mm_append_values kv b k mk vs = sbind (mm_read kv b k) (\<lambda>es b. mm_write kv b k (add_values mk vs es))"

definition drop_key :: "bytes \<Rightarrow> mm_entry list \<Rightarrow> mm_entry list" where
  "drop_key mk es = filter (\<lambda>e. entry_key e \<noteq> mk) es"

definition mm_clear_values :: "'db kv_store \<Rightarrow> 'db state_backend \<Rightarrow> bytes \<Rightarrow> bytes \<Rightarrow> (unit, 'db) state_result" where
  "mm_clear_values kv b k mk = sbind (mm_read kv b k) (\<lambda>es b. mm_write kv b k (drop_key mk es))"

definition mm_clear :: "'db kv_store \<Rightarrow> 'db state_backend \<Rightarrow> bytes \<Rightarrow> (unit, 'db) state_result" where
  "mm_clear kv b k = state_delete kv b k"

text \<open>
  \<open>split_encoded_values\<close>: the loop stops with an error as soon as a value takes no bytes,
  so it always returns.
\<close>

function split_encoded_values :: "standard_coder \<Rightarrow> bytes \<Rightarrow> (string, bytes list) rust" where
  "split_encoded_values c data =
     (if data = [] then Ok []
      else (case decode c data of
              Ok (_, rest) \<Rightarrow>
                (if length data \<le> length rest then Err ''multimap state coder consumed no bytes''
                 else rbind (split_encoded_values c rest) (\<lambda>vs. Ok (take (length data - length rest) data # vs)))
            | Err (WhileDecoding s) \<Rightarrow> Err s
            | Panic \<Rightarrow> Panic))"
  by pat_completeness auto
termination
  by (relation "measure (\<lambda>(c, data). length data)") auto

declare split_encoded_values.simps [simp del]

section \<open>UserStateStore\<close>

definition user_state_get :: "'db kv_store \<Rightarrow> 'db state_backend \<Rightarrow> user_state_address \<Rightarrow> (bytes, 'db) state_result" where
  "user_state_get kv b a =
     (case addr_kind a of
        Bag \<Rightarrow> bag_get kv b (composite_key a)
      | MultimapKeys \<Rightarrow> mm_keys kv b (composite_key a)
      | MultimapEntries \<Rightarrow> mm_entries kv b (composite_key a)
      | MultimapValues \<Rightarrow> mm_values kv b (composite_key a) (addr_map_key a))"

definition user_state_append ::
  "'db kv_store \<Rightarrow> 'db state_backend \<Rightarrow> user_state_address \<Rightarrow> bytes \<Rightarrow> (unit, 'db) state_result" where
  "user_state_append kv b a data =
     (case addr_kind a of
        Bag \<Rightarrow> bag_append kv b (composite_key a) data
      | MultimapKeys \<Rightarrow> (Err ''multimap keys append requires parsed map keys'', b)
      | MultimapEntries \<Rightarrow> (Err ''append is not supported for multimap entries state'', b)
      | MultimapValues \<Rightarrow> (Err ''multimap value append requires parsed map values'', b))"

definition user_state_clear :: "'db kv_store \<Rightarrow> 'db state_backend \<Rightarrow> user_state_address \<Rightarrow> (unit, 'db) state_result" where
  "user_state_clear kv b a =
     (case addr_kind a of
        Bag \<Rightarrow> bag_clear kv b (composite_key a)
      | MultimapKeys \<Rightarrow> mm_clear kv b (composite_key a)
      | MultimapEntries \<Rightarrow> mm_clear kv b (composite_key a)
      | MultimapValues \<Rightarrow> mm_clear_values kv b (composite_key a) (addr_map_key a))"

definition append_multimap_keys ::
  "'db kv_store \<Rightarrow> 'db state_backend \<Rightarrow> user_state_address \<Rightarrow> bytes list \<Rightarrow> (unit, 'db) state_result" where
  "append_multimap_keys kv b a ks = mm_append_keys kv b (composite_key a) ks"

definition append_multimap_values ::
  "'db kv_store \<Rightarrow> 'db state_backend \<Rightarrow> user_state_address \<Rightarrow> bytes list \<Rightarrow> (unit, 'db) state_result" where
  "append_multimap_values kv b a vs = mm_append_values kv b (composite_key a) (addr_map_key a) vs"

section \<open>Serialized cells\<close>

definition entry_fits :: "mm_entry \<Rightarrow> bool" where
  "entry_fits e \<longleftrightarrow> fits_u32 (length (entry_key e)) \<and> fits_u32 (length (entry_values e))
     \<and> list_all (\<lambda>v. fits_u32 (length v)) (entry_values e)"

definition entries_fit :: "mm_entry list \<Rightarrow> bool" where
  "entries_fit es \<longleftrightarrow> fits_u32 (length es) \<and> list_all entry_fits es"

lemma read_entry_put: "entry_fits e \<Longrightarrow> read_entry (put_entry e @ rest) = Ok (e, rest)"
  using part.roundtrip_many [of "entry_values e" rest]
  by (simp add: entry_fits_def read_entry_def put_entry_def read_bytes_put read_u32_put del: rbind_eq_Ok)

interpretation entry: wire_codec put_entry read_entry entry_fits
  by unfold_locales (rule read_entry_put)

lemma entries_roundtrip: "entries_fit es \<Longrightarrow> decode_entries (encode_entries es) = Ok es"
  using entry.roundtrip_many [of es "[]"]
  by (simp add: entries_fit_def decode_entries_def encode_entries_def read_u32_put del: rbind_eq_Ok)

subsection \<open>The cell as a finite map from map keys to value lists\<close>

definition mm_lookup :: "mm_entry list \<Rightarrow> bytes \<Rightarrow> bytes list option" where
  "mm_lookup es k = map_option entry_values (find (\<lambda>e. entry_key e = k) es)"

lemma mm_lookup_Nil [simp]: "mm_lookup [] k = None"
  by (simp add: mm_lookup_def)

lemma mm_lookup_Cons [simp]:
  "mm_lookup (e # es) k = (if entry_key e = k then Some (entry_values e) else mm_lookup es k)"
  by (simp add: mm_lookup_def)

lemma mm_lookup_append [simp]:
  "mm_lookup (es @ fs) k = (case mm_lookup es k of Some vs \<Rightarrow> Some vs | None \<Rightarrow> mm_lookup fs k)"
  by (induction es) auto

lemma mm_lookup_None: "mm_lookup es k = None \<longleftrightarrow> k \<notin> entry_key ` set es"
  by (induction es) auto

lemma mm_lookup_add_values:
  "mm_lookup (add_values mk vs es) =
     (mm_lookup es)(mk \<mapsto> (case mm_lookup es mk of Some old \<Rightarrow> old | None \<Rightarrow> []) @ vs)"
  by (induction mk vs es rule: add_values.induct) (auto simp: fun_eq_iff)

lemma mm_lookup_drop_key: "mm_lookup (drop_key mk es) = (mm_lookup es)(mk := None)"
  by (induction es) (auto simp: drop_key_def fun_eq_iff)

lemma mm_lookup_add_key:
  "mm_lookup (add_key a es) k = (if k = a \<and> mm_lookup es k = None then Some [] else mm_lookup es k)"
proof (cases "\<exists>e \<in> set es. entry_key e = a")
  case True
  then have "mm_lookup es a \<noteq> None"
    by (auto simp: mm_lookup_None simp del: not_None_eq)
  with True show ?thesis
    by (auto simp: add_key_def)
next
  case False
  then show ?thesis
    by (auto simp: add_key_def split: option.split)
qed

lemma mm_lookup_add_keys:
  "mm_lookup (add_keys ks es) k =
     (case mm_lookup es k of Some vs \<Rightarrow> Some vs | None \<Rightarrow> if k \<in> set ks then Some [] else None)"
  by (induction ks arbitrary: es) (auto simp: add_keys_def mm_lookup_add_key split: option.split)

lemma keys_add_values: "entry_key ` set (add_values mk vs es) = insert mk (entry_key ` set es)"
  by (induction mk vs es rule: add_values.induct) auto

lemma distinct_add_values: "distinct (map entry_key es) \<Longrightarrow> distinct (map entry_key (add_values mk vs es))"
  by (induction mk vs es rule: add_values.induct) (auto simp: keys_add_values)

lemma distinct_add_key: "distinct (map entry_key es) \<Longrightarrow> distinct (map entry_key (add_key k es))"
  by (auto simp: add_key_def)

lemma distinct_add_keys: "distinct (map entry_key es) \<Longrightarrow> distinct (map entry_key (add_keys ks es))"
  by (induction ks arbitrary: es) (simp_all add: add_keys_def distinct_add_key)

lemma distinct_drop_key: "distinct (map entry_key es) \<Longrightarrow> distinct (map entry_key (drop_key mk es))"
  by (simp add: drop_key_def distinct_map_filter)

section \<open>Operations refine the map the backend shows\<close>

text \<open>The entries of a cell: absent means empty.\<close>

definition cell_entries :: "bytes option \<Rightarrow> mm_entry list \<Rightarrow> bool" where
  "cell_entries v es \<longleftrightarrow> (case v of None \<Rightarrow> es = [] | Some data \<Rightarrow> decode_entries data = Ok es)"

context kv_laws
begin

lemma state_get_Ok:
  assumes "backend_inv contents b" and "state_get kv b k = (Ok v, b')"
  shows "backend_inv contents b'" "view contents b' = view contents b" "v = view contents b k"
    "backend_small b \<Longrightarrow> backend_small b'"
  using get_locked_refines [OF assms(1), of k "Ok v" b'] get_small [OF assms(1), of k "Ok v" b'] assms(2)
  by (auto simp: state_get_def)

lemma mm_read_Ok:
  assumes "backend_inv contents b" and "mm_read kv b k = (Ok es, b')"
  shows "backend_inv contents b'" "view contents b' = view contents b" "cell_entries (view contents b k) es"
proof -
  obtain v where v: "state_get kv b k = (Ok v, b')"
    "(case v of Some data \<Rightarrow> as_anyhow (decode_entries data) | None \<Rightarrow> Ok []) = Ok es"
    using assms(2) by (auto simp: mm_read_def sbind_eq_Ok split: option.splits)
  note g = state_get_Ok [OF assms(1) v(1)]
  show "backend_inv contents b'" "view contents b' = view contents b"
    using g by auto
  show "cell_entries (view contents b k) es"
    using v(2) g(3) by (auto simp: cell_entries_def split: option.splits elim: as_anyhow.elims)
qed

text \<open>A multimap update: read the cell, change its entries, write it back.\<close>

lemma mm_update:
  assumes "backend_inv contents b" and "sbind (mm_read kv b k) (\<lambda>es b. mm_write kv b k (f es)) = (Ok (), b')"
  shows "\<exists>es. cell_entries (view contents b k) es \<and> backend_inv contents b'
    \<and> view contents b' = (view contents b)(k \<mapsto> encode_entries (f es))"
proof -
  obtain es b1 where es: "mm_read kv b k = (Ok es, b1)" "mm_write kv b1 k (f es) = (Ok (), b')"
    using assms(2) by (auto simp: sbind_eq_Ok)
  note r = mm_read_Ok [OF assms(1) es(1)]
  show ?thesis
    using write_refines(1,2) [OF r(1), of k "Some (encode_entries (f es))" "Ok ()" b'] es(2) r
    by (auto simp: mm_write_def state_put_def)
qed

end

lemma split_encoded_roundtrip:
  assumes "list_all (fits c) rs" and "list_all (\<lambda>r. encode_bytes c r \<noteq> []) rs"
  shows "split_encoded_values c (concat (map (encode_bytes c) rs)) = Ok (map (encode_bytes c) rs)"
  using assms
proof (induction rs)
  case Nil
  then show ?case
    by (simp add: split_encoded_values.simps)
next
  case (Cons r rs)
  let ?rest = "concat (map (encode_bytes c) rs)"
  have "decode c (encode_bytes c r @ ?rest) = Ok (r, ?rest)"
    using Cons.prems(1) by (simp add: decode_def element.roundtrip)
  then show ?case
    using Cons by (subst split_encoded_values.simps) (simp del: rbind_eq_Ok)
qed

section \<open>Runs of state calls\<close>

text \<open>
  The calls the Fn State handler makes of a backend, their execution, and the specification:
  the same calls on a plain map.
\<close>

datatype state_call = CGet bytes | CPut bytes bytes | CDelete bytes | CAppend bytes bytes | CFlush

definition no_value :: "(unit, 'db) state_result \<Rightarrow> (bytes option, 'db) state_result" where
  "no_value m = sbind m (\<lambda>_ b. (Ok None, b))"

fun state_exec :: "'db kv_store \<Rightarrow> state_call \<Rightarrow> 'db state_backend \<Rightarrow> (bytes option, 'db) state_result" where
  "state_exec kv (CGet k) b = state_get kv b k"
| "state_exec kv (CPut k v) b = no_value (state_put kv b k v)"
| "state_exec kv (CDelete k) b = no_value (state_delete kv b k)"
| "state_exec kv (CAppend k v) b = no_value (bag_append kv b k v)"
| "state_exec kv CFlush b = no_value (state_flush kv b)"

fun spec_exec :: "state_call \<Rightarrow> (bytes \<Rightarrow> bytes option) \<Rightarrow> bytes option \<times> (bytes \<Rightarrow> bytes option)" where
  "spec_exec (CGet k) m = (m k, m)"
| "spec_exec (CPut k v) m = (None, m(k \<mapsto> v))"
| "spec_exec (CDelete k) m = (None, m(k := None))"
| "spec_exec (CAppend k v) m = (None, m(k \<mapsto> (case m k of Some x \<Rightarrow> x | None \<Rightarrow> []) @ v))"
| "spec_exec CFlush m = (None, m)"

fun state_run :: "'db kv_store \<Rightarrow> state_call list \<Rightarrow> 'db state_backend \<Rightarrow> (string, bytes option) rust list \<times> 'db state_backend" where
  "state_run kv [] b = ([], b)"
| "state_run kv (c # cs) b =
     (let (r, b1) = state_exec kv c b; (rs, b2) = state_run kv cs b1 in (r # rs, b2))"

fun spec_run :: "state_call list \<Rightarrow> (bytes \<Rightarrow> bytes option) \<Rightarrow> bytes option list \<times> (bytes \<Rightarrow> bytes option)" where
  "spec_run [] m = ([], m)"
| "spec_run (c # cs) m =
     (let (r, m1) = spec_exec c m; (rs, m2) = spec_run cs m1 in (r # rs, m2))"

lemma no_value_Ok: "no_value m = (Ok v, b) \<longleftrightarrow> v = None \<and> m = (Ok (), b)"
  by (auto simp: no_value_def sbind_eq_Ok)

context kv_laws
begin

lemma flush_small:
  assumes "backend_small b" and "flush_locked kv b = (Ok (), b')"
  shows "backend_small b'"
  using assms by (auto simp: flush_locked_def backend_small_def STATE_FLUSH_THRESHOLD_def
      split: if_splits rust.splits prod.splits)

lemma state_exec_refines:
  assumes "backend_inv contents b" and "backend_small b" and "state_exec kv c b = (Ok v, b')"
  shows "backend_inv contents b' \<and> backend_small b' \<and> spec_exec c (view contents b) = (v, view contents b')"
proof (cases c)
  case (CGet k)
  then show ?thesis
    using state_get_Ok [OF assms(1), of k v b'] assms(2,3) by simp
next
  case (CPut k x)
  then show ?thesis
    using write_refines [OF assms(1), of k "Some x" "Ok ()" b'] assms(2,3) by (simp add: no_value_Ok state_put_def)
next
  case (CDelete k)
  then show ?thesis
    using write_refines [OF assms(1), of k None "Ok ()" b'] assms(2,3) by (simp add: no_value_Ok state_delete_def)
next
  case (CAppend k x)
  then show ?thesis
    using rmw_refines [OF assms(1), of k "\<lambda>cur. cur @ x" "Ok ()" b'] assms(2,3) by (simp add: no_value_Ok bag_append_def)
next
  case CFlush
  then show ?thesis
    using flush_locked_refines [OF assms(1), of "Ok ()" b'] flush_small [OF assms(2)] assms(3)
    by (simp add: no_value_Ok state_flush_def)
qed

lemma state_run_refines:
  assumes "backend_inv contents b" and "backend_small b" and "state_run kv cs b = (rs, b')" and "\<forall>r \<in> set rs. \<exists>v. r = Ok v"
  shows "backend_inv contents b' \<and> backend_small b'
    \<and> rs = map Ok (fst (spec_run cs (view contents b))) \<and> view contents b' = snd (spec_run cs (view contents b))"
  using assms
proof (induction cs arbitrary: b rs)
  case (Cons c cs)
  obtain r b1 rs1 where run: "state_exec kv c b = (r, b1)" "state_run kv cs b1 = (rs1, b')" "rs = r # rs1"
    using Cons.prems(3) by (auto split: prod.splits)
  obtain v where v: "r = Ok v"
    using Cons.prems(4) run(3) by auto
  have step: "backend_inv contents b1 \<and> backend_small b1 \<and> spec_exec c (view contents b) = (v, view contents b1)"
    using state_exec_refines [OF Cons.prems(1,2)] run(1) v by blast
  then show ?case
    using Cons.IH [of b1 rs1] Cons.prems(4) run(2,3) v by (auto split: prod.splits)
qed auto

text \<open>No operation on one state key changes what another key shows, even one that fails.\<close>

lemma write_frame:
  assumes "backend_inv contents b" and "maybe_flush kv (b\<lparr>cache := cache_write k v (cache b)\<rparr>) = (r, b')" and "k' \<noteq> k"
  shows "backend_inv contents b' \<and> view contents b' k' = view contents b k'"
  using write_refines(1,2) [OF assms(1,2)] assms(3) by simp

lemma mm_read_frame:
  assumes "backend_inv contents b" and "mm_read kv b k = (r, b')"
  shows "backend_inv contents b' \<and> view contents b' = view contents b"
proof -
  obtain v b1 where g: "get_locked kv b k = (v, b1)"
    by fastforce
  then have "b' = b1"
    using assms(2) by (cases v) (auto simp: mm_read_def state_get_def split: option.splits)
  then show ?thesis
    using get_locked_refines(1,2) [OF assms(1) g] by simp
qed

lemma mm_update_frame:
  assumes "backend_inv contents b" and "sbind (mm_read kv b k) (\<lambda>es b. mm_write kv b k (f es)) = (r, b')" and "k' \<noteq> k"
  shows "backend_inv contents b' \<and> view contents b' k' = view contents b k'"
proof -
  obtain v b1 where g: "mm_read kv b k = (v, b1)"
    by fastforce
  note fr = mm_read_frame [OF assms(1) g]
  show ?thesis
  proof (cases v)
    case (Ok es)
    then show ?thesis
      using write_frame [of b1 k "Some (encode_entries (f es))" r b'] fr g assms(2,3) by (simp add: mm_write_def state_put_def)
  qed (use fr g assms(2) in auto)
qed

lemma bag_append_frame:
  assumes "backend_inv contents b" and "bag_append kv b k x = (r, b')" and "k' \<noteq> k"
  shows "backend_inv contents b' \<and> view contents b' k' = view contents b k'"
  using rmw_refines(1,3) [OF assms(1), of k "\<lambda>cur. cur @ x" r b'] assms(2,3) by (auto simp: bag_append_def)

end

section \<open>Properties\<close>

text \<open>
  C30: the write-back cache refines a plain map: a run of gets, puts, deletes, appends and
  flushes whose calls all succeed returns exactly what the same calls on a map return, the
  cache and the pending set stay within their bounds, and a successful flush leaves in the
  store the map the client sees, so a backend reopened over that store continues with it.
\<close>

theorem state_backend_refines_map:
  assumes "kv_laws kv contents" and "state_run kv calls (with_store db) = (rs, b)" and "\<forall>r \<in> set rs. \<exists>v. r = Ok v"
  shows "rs = map Ok (fst (spec_run calls (contents db))) \<and> view contents b = snd (spec_run calls (contents db))
    \<and> length (cells (cache b)) \<le> STATE_CACHE_MAX_ENTRIES \<and> length (dirty (cache b)) < STATE_FLUSH_THRESHOLD
    \<and> (\<forall>b'. state_flush kv b = (Ok (), b') \<longrightarrow> view contents (with_store (store b')) = snd (spec_run calls (contents db)))"
proof -
  have small: "backend_small (with_store db)"
    by (simp add: backend_small_def with_store_def STATE_FLUSH_THRESHOLD_def)
  note run = kv_laws.state_run_refines [OF assms(1) backend_inv_with_store small assms(2,3)]
  then have "view contents (with_store (store b')) = snd (spec_run calls (contents db))"
    if "state_flush kv b = (Ok (), b')" for b'
    using kv_laws.flush_locked_refines(3) [OF assms(1), of b "Ok ()" b'] that by (simp add: state_flush_def)
  then show ?thesis
    using run by (auto simp: backend_small_def)
qed

theorem state_backend_refines_map_witness:
  "fst (state_run (slate_kv mem_slate) [CPut [1] [2], CAppend [1] [3], CGet [1], CDelete [1], CGet [1]] (with_store []))
   = map Ok [None, None, Some [2, 3], None, None]"
proof -
  let ?calls = "[CPut [1] [2], CAppend [1] [3], CGet [1], CDelete [1], CGet [1]]"
  have run: "state_run (slate_kv mem_slate) ?calls (with_store [])
    = (map Ok [None, None, Some [2, 3], None, None],
       \<lparr>store = [], cache = \<lparr>cells = [([1], None)], dirty = [[1]]\<rparr>\<rparr>)"
    by (simp add: state_put_def state_get_def state_delete_def bag_append_def read_modify_write_def get_locked_def
        with_store_def maybe_flush_def cache_write_def evict_if_needed_def no_value_def
        STATE_CACHE_MAX_ENTRIES_def STATE_FLUSH_THRESHOLD_def List.insert_def)
  have "\<forall>r \<in> set (map Ok [None, None, Some [2, 3], None, None] :: (string, bytes option) rust list). \<exists>v. r = Ok v"
    by simp
  from state_backend_refines_map [OF mem.kv.kv_laws_axioms run this] run show ?thesis
    by simp
qed



text \<open>
  Map state behaves as a map of value lists: after values were appended under one map
  key, reading that map key returns what it held before followed by the new values in
  order, and reading any other map key returns what it returned before, provided the cell
  fits its 32-bit lengths.
\<close>

lemma multimap_append_then_read:
  assumes "kv_laws kv contents" and "backend_inv contents b" and "addr_kind a = MultimapValues"
    and "append_multimap_values kv b a vs = (Ok (), b1)"
    and "\<forall>es. cell_entries (view contents b (composite_key a)) es \<longrightarrow> entries_fit (add_values (addr_map_key a) vs es)"
    and "user_state_get kv b (a\<lparr>addr_map_key := mk\<rparr>) = (Ok before, b0)"
    and "user_state_get kv b1 (a\<lparr>addr_map_key := mk\<rparr>) = (Ok after, b2)"
  shows "after = (if mk = addr_map_key a then before @ concat vs else before)"
proof -
  let ?k = "composite_key a"
  have key: "composite_key (a\<lparr>addr_map_key := mk\<rparr>) = ?k"
    by (simp add: composite_key_def)
  have val: "(case find (\<lambda>e. entry_key e = mk) es of Some e \<Rightarrow> concat (entry_values e) | None \<Rightarrow> [])
    = concat (case mm_lookup es mk of Some ws \<Rightarrow> ws | None \<Rightarrow> [])" for es
    by (simp add: mm_lookup_def split: option.split)
  obtain es where es: "cell_entries (view contents b ?k) es" "backend_inv contents b1"
    "view contents b1 = (view contents b)(?k \<mapsto> encode_entries (add_values (addr_map_key a) vs es))"
    using kv_laws.mm_update [OF assms(1,2), of ?k "add_values (addr_map_key a) vs" b1] assms(4)
    by (auto simp: append_multimap_values_def mm_append_values_def)
  obtain es0 b3 where es0: "mm_read kv b ?k = (Ok es0, b3)"
    "before = concat (case mm_lookup es0 mk of Some ws \<Rightarrow> ws | None \<Rightarrow> [])"
    using assms(3,6) by (auto simp: user_state_get_def key mm_values_def sbind_eq_Ok val)
  obtain es1 b4 where es1: "mm_read kv b1 ?k = (Ok es1, b4)"
    "after = concat (case mm_lookup es1 mk of Some ws \<Rightarrow> ws | None \<Rightarrow> [])"
    using assms(3,7) by (auto simp: user_state_get_def key mm_values_def sbind_eq_Ok val)
  have "es0 = es"
    using kv_laws.mm_read_Ok(3) [OF assms(1,2) es0(1)] es(1) by (auto simp: cell_entries_def split: option.splits)
  moreover have "es1 = add_values (addr_map_key a) vs es"
    using kv_laws.mm_read_Ok(3) [OF assms(1) es(2) es1(1)] es(1,3) assms(5) entries_roundtrip
    by (auto simp: cell_entries_def)
  ultimately show ?thesis
    using es0(2) es1(2) by (auto simp: mm_lookup_add_values split: option.split)
qed

end
