(* ===== verification/Timers.thy ===== *)
theory Timers
  imports User_State
begin

text \<open>
  Durable user timers of \<open>engine/timer.rs\<close>: identities and their storage keys, the timer
  store over a \<open>KvStore\<close>, and the timer service with its processing-time clock. The JSON
  serializer (\<open>serde_json\<close>) is third-party code: the record \<open>timer_json\<close> is an argument of the
  model and the locale \<open>timer_serde\<close> states that what it writes it reads back. Waking of
  waiters (\<open>Notify\<close>) has no effect on the state and is not modelled.
\<close>

section \<open>Timers and their identities\<close>

datatype time_domain = EventTime | ProcessingTime

record timer_key =
  tk_transform_id :: string
  tk_timer_family_id :: string
  tk_tag :: string
  tk_window :: string
  tk_user_key :: bytes

record timer_entry =
  te_key :: timer_key
  te_domain :: time_domain
  te_fire_timestamp :: int
  te_hold_timestamp :: int

definition key_parts :: "timer_key \<Rightarrow> bytes list" where
  "key_parts k = [as_bytes (tk_transform_id k), as_bytes (tk_timer_family_id k), as_bytes (tk_tag k),
     as_bytes (tk_window k), tk_user_key k]"

definition storage_key :: "timer_key \<Rightarrow> bytes" where
  "storage_key k = concat (map put_bytes (key_parts k))"

definition is_due_at_watermark :: "timer_entry \<Rightarrow> int \<Rightarrow> bool" where
  "is_due_at_watermark e watermark \<longleftrightarrow> te_domain e = EventTime \<and> te_fire_timestamp e \<le> watermark"

text \<open>The timers the Rust types admit, with parts short enough for their length prefix.\<close>

definition timer_ok :: "timer_entry \<Rightarrow> bool" where
  "timer_ok e \<longleftrightarrow> list_all (\<lambda>v. fits_u32 (length v)) (key_parts (te_key e))
     \<and> in_i64 (te_fire_timestamp e) \<and> in_i64 (te_hold_timestamp e)"

lemma key_parts_inject [simp]: "key_parts k = key_parts k' \<longleftrightarrow> k = k'"
  by (auto simp: key_parts_def)

lemma storage_key_inject:
  "timer_ok e \<Longrightarrow> timer_ok e' \<Longrightarrow> storage_key (te_key e) = storage_key (te_key e') \<longleftrightarrow> te_key e = te_key e'"
  using parts_inject [of "key_parts (te_key e)" "key_parts (te_key e')"]
  by (simp add: timer_ok_def storage_key_def key_parts_def [THEN arg_cong [of _ _ length]])

section \<open>The timer store\<close>

record timer_json =
  json_to_vec :: "timer_entry \<Rightarrow> (string, bytes) rust"
  json_from_slice :: "bytes \<Rightarrow> (string, timer_entry) rust"

definition timer_upsert ::
  "'db kv_store \<Rightarrow> timer_json \<Rightarrow> 'db \<Rightarrow> timer_entry \<Rightarrow> (string, unit) rust \<times> 'db" where
  "timer_upsert kv js db e =
     (case json_to_vec js e of
        Ok v \<Rightarrow> kv_apply kv db [(storage_key (te_key e), Some v)]
      | Err x \<Rightarrow> (Err x, db)
      | Panic \<Rightarrow> (Panic, db))"

definition timer_delete :: "'db kv_store \<Rightarrow> 'db \<Rightarrow> bytes \<Rightarrow> (string, unit) rust \<times> 'db" where
  "timer_delete kv db k = kv_apply kv db [(k, None)]"

primrec timer_writes :: "timer_json \<Rightarrow> (bytes, timer_entry option) hashmap \<Rightarrow> (string, kv_write list) rust" where
  "timer_writes js [] = Ok []"
| "timer_writes js (p # ps) =
     rbind (case snd p of Some e \<Rightarrow> rbind (json_to_vec js e) (\<lambda>v. Ok (Some v)) | None \<Rightarrow> Ok None) (\<lambda>v.
       rbind (timer_writes js ps) (\<lambda>ws. Ok ((fst p, v) # ws)))"

definition timer_store_apply ::
  "'db kv_store \<Rightarrow> timer_json \<Rightarrow> 'db \<Rightarrow> (bytes, timer_entry option) hashmap \<Rightarrow> (string, unit) rust \<times> 'db" where
  "timer_store_apply kv js db pend =
     (if pend = [] then (Ok (), db)
      else (case timer_writes js pend of
              Ok ws \<Rightarrow> kv_apply kv db ws
            | Err x \<Rightarrow> (Err x, db)
            | Panic \<Rightarrow> (Panic, db)))"

definition timer_store_get :: "'db kv_store \<Rightarrow> timer_json \<Rightarrow> 'db \<Rightarrow> bytes \<Rightarrow> (string, timer_entry option) rust" where
  "timer_store_get kv js db k =
     rbind (kv_get kv db k) (\<lambda>v.
       case v of Some x \<Rightarrow> rbind (json_from_slice js x) (\<lambda>e. Ok (Some e)) | None \<Rightarrow> Ok None)"

primrec parse_timers :: "timer_json \<Rightarrow> (bytes \<times> bytes) list \<Rightarrow> (string, timer_entry list) rust" where
  "parse_timers js [] = Ok []"
| "parse_timers js (p # ps) =
     rbind (json_from_slice js (snd p)) (\<lambda>e. rbind (parse_timers js ps) (\<lambda>es. Ok (e # es)))"

definition timer_entries :: "'db kv_store \<Rightarrow> timer_json \<Rightarrow> 'db \<Rightarrow> (string, timer_entry list) rust" where
  "timer_entries kv js db = rbind (kv_scan kv db) (parse_timers js)"

section \<open>The timer service\<close>

text \<open>
  The clock: \<open>manual_now\<close> is \<open>i64::MIN\<close> while unset; the wall clock enters as the time elapsed
  since the service was made.
\<close>

record timer_clock =
  origin_epoch_millis :: int
  manual_now :: int

definition service_now :: "timer_clock \<Rightarrow> int \<Rightarrow> int" where
  "service_now c elapsed_millis =
     (if manual_now c \<noteq> i64_min then manual_now c else wrap_i64 (origin_epoch_millis c + elapsed_millis))"

definition is_manual :: "timer_clock \<Rightarrow> bool" where "is_manual c \<longleftrightarrow> manual_now c \<noteq> i64_min"

definition set_processing_time :: "int \<Rightarrow> timer_clock \<Rightarrow> timer_clock" where
  "set_processing_time t c = c\<lparr>manual_now := t\<rparr>"

definition service_set ::
  "'db kv_store \<Rightarrow> timer_json \<Rightarrow> 'db \<Rightarrow> timer_entry \<Rightarrow> (string, unit) rust \<times> 'db" where
  "service_set kv js db e = timer_upsert kv js db e"

definition service_clear :: "'db kv_store \<Rightarrow> 'db \<Rightarrow> timer_key \<Rightarrow> (string, unit) rust \<times> 'db" where
  "service_clear kv db k = timer_delete kv db (storage_key k)"

definition service_apply ::
  "'db kv_store \<Rightarrow> timer_json \<Rightarrow> 'db \<Rightarrow> (bytes, timer_entry option) hashmap \<Rightarrow> (string, unit) rust \<times> 'db" where
  "service_apply kv js db pend = timer_store_apply kv js db pend"

definition is_due_at :: "int \<Rightarrow> timer_entry \<Rightarrow> bool" where
  "is_due_at now e \<longleftrightarrow> te_domain e = ProcessingTime \<and> te_fire_timestamp e \<le> now"

definition due_processing_time ::
  "'db kv_store \<Rightarrow> timer_json \<Rightarrow> 'db \<Rightarrow> int \<Rightarrow> (string, timer_entry list) rust" where
  "due_processing_time kv js db now =
     rbind (timer_entries kv js db) (\<lambda>es. Ok (sort_key te_fire_timestamp (filter (is_due_at now) es)))"

definition next_processing_deadline :: "'db kv_store \<Rightarrow> timer_json \<Rightarrow> 'db \<Rightarrow> (string, int option) rust" where
  "next_processing_deadline kv js db =
     rbind (timer_entries kv js db) (\<lambda>es.
       let fires = map te_fire_timestamp (filter (\<lambda>e. te_domain e = ProcessingTime) es)
       in Ok (case fires of [] \<Rightarrow> None | t # ts \<Rightarrow> Some (fold min ts t)))"

text \<open>The \<open>HashMap\<close> of deletions collected from the delivered timers.\<close>

definition deletions :: "timer_entry list \<Rightarrow> (bytes, timer_entry option) hashmap" where
  "deletions es = fold (\<lambda>e m. hm_insert (storage_key (te_key e)) None m) es []"

definition take_due_processing_time ::
  "'db kv_store \<Rightarrow> timer_json \<Rightarrow> 'db \<Rightarrow> int \<Rightarrow> (string, timer_entry list) rust \<times> 'db" where
  "take_due_processing_time kv js db now =
     (case due_processing_time kv js db now of
        Ok due \<Rightarrow>
          (if due = [] then (Ok due, db)
           else (case timer_store_apply kv js db (deletions due) of
                   (Ok _, db') \<Rightarrow> (Ok due, db')
                 | (Err x, db') \<Rightarrow> (Err x, db')
                 | (Panic, db') \<Rightarrow> (Panic, db')))
      | Err x \<Rightarrow> (Err x, db)
      | Panic \<Rightarrow> (Panic, db))"

definition all_event_time_timers :: "'db kv_store \<Rightarrow> timer_json \<Rightarrow> 'db \<Rightarrow> (string, timer_entry list) rust" where
  "all_event_time_timers kv js db =
     rbind (timer_entries kv js db) (\<lambda>es. Ok (filter (\<lambda>e. te_domain e = EventTime) es))"

definition delete_all ::
  "'db kv_store \<Rightarrow> timer_json \<Rightarrow> 'db \<Rightarrow> timer_entry list \<Rightarrow> (string, unit) rust \<times> 'db" where
  "delete_all kv js db es =
     (if es = [] then (Ok (), db) else timer_store_apply kv js db (deletions es))"

text \<open>The unbounded channel: a batch sent after the receiver is gone is lost.\<close>

record timer_channel =
  receiver_open :: bool
  sent_batches :: "timer_entry list list"

definition channel_send :: "timer_entry list \<Rightarrow> timer_channel \<Rightarrow> timer_channel" where
  "channel_send batch tx = (if receiver_open tx then tx\<lparr>sent_batches := sent_batches tx @ [batch]\<rparr> else tx)"

definition deliver_due_processing_time ::
  "'db kv_store \<Rightarrow> timer_json \<Rightarrow> 'db \<Rightarrow> int \<Rightarrow> timer_channel \<Rightarrow> (string, nat) rust \<times> 'db \<times> timer_channel" where
  "deliver_due_processing_time kv js db now tx =
     (case take_due_processing_time kv js db now of
        (Ok due, db') \<Rightarrow> if due = [] then (Ok 0, db', tx) else (Ok (length due), db', channel_send due tx)
      | (Err x, db') \<Rightarrow> (Err x, db', tx)
      | (Panic, db') \<Rightarrow> (Panic, db', tx))"

section \<open>The set of stored timers\<close>

locale timer_serde =
  fixes js :: timer_json
  assumes json_roundtrip: "timer_ok e \<Longrightarrow> json_to_vec js e = Ok v \<Longrightarrow> json_from_slice js v = Ok e"

locale timer_store = kv_laws kv contents + timer_serde js
  for kv :: "'db kv_store" and contents and js

text \<open>
  A well-formed database holds under every key the timer of that identity; the stored
  timers are what its cells decode to.
\<close>

definition timers_wf :: "timer_json \<Rightarrow> (bytes \<Rightarrow> bytes option) \<Rightarrow> bool" where
  "timers_wf js m \<longleftrightarrow>
     (\<forall>k v. m k = Some v \<longrightarrow> (\<exists>e. json_from_slice js v = Ok e \<and> timer_ok e \<and> storage_key (te_key e) = k))"

definition stored_timers :: "timer_json \<Rightarrow> (bytes \<Rightarrow> bytes option) \<Rightarrow> timer_entry set" where
  "stored_timers js m = {e. \<exists>k v. m k = Some v \<and> json_from_slice js v = Ok e}"

lemma stored_iff:
  assumes "timers_wf js m"
  shows "e \<in> stored_timers js m \<longleftrightarrow> (\<exists>v. m (storage_key (te_key e)) = Some v \<and> json_from_slice js v = Ok e)"
  using assms by (fastforce simp: stored_timers_def timers_wf_def)

lemma stored_ok: "timers_wf js m \<Longrightarrow> e \<in> stored_timers js m \<Longrightarrow> timer_ok e"
  by (fastforce simp: stored_timers_def timers_wf_def)

lemma stored_key_unique:
  "timers_wf js m \<Longrightarrow> e \<in> stored_timers js m \<Longrightarrow> e' \<in> stored_timers js m \<Longrightarrow> te_key e = te_key e' \<Longrightarrow> e = e'"
  by (auto simp: stored_iff)

text \<open>Writing the cell of one identity changes the timer of that identity and no other.\<close>

lemma stored_after:
  assumes "timers_wf js m" and "timers_wf js m'" and "m' = m(storage_key (te_key e) := cell)" and "timer_ok e"
  shows "x \<in> stored_timers js m' \<longleftrightarrow>
    (case cell of Some v \<Rightarrow> json_from_slice js v = Ok x | None \<Rightarrow> False) \<or> x \<in> stored_timers js m \<and> te_key x \<noteq> te_key e"
proof (cases "storage_key (te_key x) = storage_key (te_key e)")
  case True
  have "te_key x = te_key e" if "x \<in> stored_timers js m"
    using True storage_key_inject [OF stored_ok [OF assms(1) that] assms(4)] by simp
  moreover have "x \<in> stored_timers js m' \<longleftrightarrow> (\<exists>v. cell = Some v \<and> json_from_slice js v = Ok x)"
    unfolding stored_iff [OF assms(2)] using True assms(3) by simp
  ultimately show ?thesis
    by (auto split: option.splits)
next
  case False
  have "storage_key (te_key x) = storage_key (te_key e)" if "cell = Some v" "json_from_slice js v = Ok x" for v
  proof -
    have "m' (storage_key (te_key e)) = Some v"
      using assms(3) that(1) by simp
    then show ?thesis
      using assms(2) that(2) by (fastforce simp: timers_wf_def)
  qed
  moreover have "x \<in> stored_timers js m' \<longleftrightarrow> x \<in> stored_timers js m"
    unfolding stored_iff [OF assms(2)] stored_iff [OF assms(1)] using False assms(3) by simp
  ultimately show ?thesis
    using False by (auto split: option.splits)
qed

lemma parse_timers_Ok:
  "parse_timers js ps = Ok es \<longleftrightarrow> list_all2 (\<lambda>p e. json_from_slice js (snd p) = Ok e) ps es"
  by (induction ps arbitrary: es) (auto simp: list_all2_Cons1)

lemma parsed_set:
  "list_all2 (\<lambda>p e. json_from_slice js (snd p) = Ok e) ps es \<Longrightarrow>
   set es = {e. \<exists>p \<in> set ps. json_from_slice js (snd p) = Ok e}"
  by (induction rule: list_all2_induct) auto

lemma deletions_get: "map_of (fold (\<lambda>e m. hm_insert (storage_key (te_key e)) None m) es m) k
    = (if k \<in> (storage_key \<circ> te_key) ` set es then Some None else map_of m k)"
  by (induction es arbitrary: m) auto

lemma hm_wf_deletions: "hm_wf (deletions es)"
proof -
  have "hm_wf m \<Longrightarrow> hm_wf (fold (\<lambda>e m. hm_insert (storage_key (te_key e)) None m) es m)" for m
    by (induction es arbitrary: m) auto
  from this [of "[]"] show ?thesis
    by (simp add: deletions_def)
qed

lemma deletion_writes:
  "\<forall>p \<in> set ps. snd p = None \<Longrightarrow> timer_writes js ps = Ok (map (\<lambda>p. (fst p, None)) ps)"
  by (induction ps) auto

lemma deletions_None: "p \<in> set (deletions es) \<Longrightarrow> snd p = None"
proof -
  assume p: "p \<in> set (deletions es)"
  then have "map_of (deletions es) (fst p) = Some (snd p)"
    using hm_wf_deletions [of es] by (simp add: hm_get_iff_mem)
  then show ?thesis
    unfolding deletions_def deletions_get by (simp split: if_splits)
qed

lemma apply_writes_delete:
  "apply_writes (map (\<lambda>p. (fst p, None)) ps) m k = (if k \<in> fst ` set ps then None else m k)"
  by (induction ps arbitrary: m) auto

lemma fst_deletions: "fst ` set (deletions es) = (storage_key \<circ> te_key) ` set es"
proof -
  have "k \<in> fst ` set (deletions es) \<longleftrightarrow> map_of (deletions es) k \<noteq> None" for k
    by (simp add: map_of_eq_None_iff del: not_None_eq)
  moreover have "map_of (deletions es) k \<noteq> None \<longleftrightarrow> k \<in> (storage_key \<circ> te_key) ` set es" for k
    unfolding deletions_def deletions_get by simp
  ultimately show ?thesis
    by blast
qed

lemma fold_min_set: "fold min ts (t :: int) = Min (set (t # ts))"
  by (rule Min.set_eq_fold [symmetric])

context timer_store
begin

lemma timer_entries_Ok:
  assumes "timers_wf js (contents db)" and "timer_entries kv js db = Ok es"
  shows "set es = stored_timers js (contents db)" and "distinct es"
proof -
  obtain ps where ps: "kv_scan kv db = Ok ps" "list_all2 (\<lambda>p e. json_from_slice js (snd p) = Ok e) ps es"
    using assms(2) by (auto simp: timer_entries_def parse_timers_Ok)
  have c: "bt_wf ps" "map_of ps = contents db"
    using kv_scan_contents [OF ps(1)] by auto
  have dist: "distinct (map fst ps)"
    using bt_wf_distinct [OF c(1)] .
  have mem: "(k, v) \<in> set ps \<longleftrightarrow> contents db k = Some v" for k v
    using map_of_eq_Some_iff [OF dist, of k v] c(2) by simp
  show "set es = stored_timers js (contents db)"
    using parsed_set [OF ps(2)] mem by (force simp: stored_timers_def)
  have key: "storage_key (te_key (es ! i)) = fst (ps ! i)" if i: "i < length es" for i
  proof -
    have len: "length ps = length es"
      using list_all2_lengthD [OF ps(2)] .
    have "contents db (fst (ps ! i)) = Some (snd (ps ! i))"
      using mem [of "fst (ps ! i)" "snd (ps ! i)"] i len by simp
    moreover have "json_from_slice js (snd (ps ! i)) = Ok (es ! i)"
      using list_all2_nthD2 [OF ps(2) i] .
    ultimately show ?thesis
      using assms(1) by (fastforce simp: timers_wf_def)
  qed
  have "map (storage_key \<circ> te_key) es = map fst ps"
    using key list_all2_lengthD [OF ps(2)] by (intro nth_equalityI) auto
  then show "distinct es"
    using dist by (metis distinct_map)
qed

text \<open>A successful batch of deletions removes exactly the timers of those identities.\<close>

lemma delete_batch:
  assumes "timers_wf js (contents db)" and "timer_store_apply kv js db (deletions es) = (Ok (), db')"
    and "set es \<subseteq> stored_timers js (contents db)"
  shows "timers_wf js (contents db')" and "stored_timers js (contents db') = stored_timers js (contents db) - set es"
proof -
  have c: "contents db' k = (if k \<in> (storage_key \<circ> te_key) ` set es then None else contents db k)" for k
  proof (cases "deletions es = []")
    case True
    then show ?thesis
      using assms(2) fst_deletions [of es] by (simp add: timer_store_apply_def)
  next
    case False
    then have "kv_apply kv db (map (\<lambda>p. (fst p, None)) (deletions es)) = (Ok (), db')"
      using assms(2) deletions_None by (simp add: timer_store_apply_def deletion_writes)
    then show ?thesis
      using kv_apply_contents by (simp add: apply_writes_delete fst_deletions)
  qed
  show wf: "timers_wf js (contents db')"
    using assms(1) by (auto simp: timers_wf_def c)
  show "stored_timers js (contents db') = stored_timers js (contents db) - set es"
  proof (intro set_eqI iffI)
    fix e
    assume e: "e \<in> stored_timers js (contents db')"
    then show "e \<in> stored_timers js (contents db) - set es"
      by (auto simp: stored_iff [OF wf] stored_iff [OF assms(1)] c split: if_splits)
  next
    fix e
    assume e: "e \<in> stored_timers js (contents db) - set es"
    have "storage_key (te_key e) \<noteq> storage_key (te_key e')" if e': "e' \<in> set es" for e'
    proof
      assume "storage_key (te_key e) = storage_key (te_key e')"
      moreover have "e' \<in> stored_timers js (contents db)"
        using e' assms(3) by blast
      ultimately have "e = e'"
        using e stored_ok [OF assms(1)] storage_key_inject stored_key_unique [OF assms(1)] by blast
      then show False
        using e e' by blast
    qed
    then show "e \<in> stored_timers js (contents db')"
      using e by (auto simp: stored_iff [OF wf] stored_iff [OF assms(1)] c)
  qed
qed

lemma due_Ok:
  assumes "timers_wf js (contents db)" and "due_processing_time kv js db now = Ok due"
  shows "set due = {e \<in> stored_timers js (contents db). is_due_at now e}" and "distinct due"
    and "sorted (map te_fire_timestamp due)"
  using assms timer_entries_Ok [OF assms(1)] by (auto simp: due_processing_time_def)

lemma deadline_Ok:
  assumes "timers_wf js (contents db)" and "next_processing_deadline kv js db = Ok d"
  shows "(\<exists>e \<in> stored_timers js (contents db). is_due_at now e) \<longleftrightarrow> (\<exists>t. d = Some t \<and> t \<le> now)"
proof -
  obtain es where es: "timer_entries kv js db = Ok es"
    and d: "d = (case map te_fire_timestamp (filter (\<lambda>e. te_domain e = ProcessingTime) es) of
      [] \<Rightarrow> None | t # ts \<Rightarrow> Some (fold min ts t))"
    using assms(2) by (auto simp: next_processing_deadline_def Let_def)
  let ?fires = "map te_fire_timestamp (filter (\<lambda>e. te_domain e = ProcessingTime) es)"
  have "(\<exists>e \<in> stored_timers js (contents db). is_due_at now e) \<longleftrightarrow> (\<exists>t \<in> set ?fires. t \<le> now)"
    using timer_entries_Ok(1) [OF assms(1) es] by (auto simp: is_due_at_def)
  also have "\<dots> \<longleftrightarrow> (\<exists>t. d = Some t \<and> t \<le> now)"
  proof (cases ?fires)
    case Nil
    then show ?thesis
      using d by simp
  next
    case (Cons t ts)
    then have "d = Some (Min (set ?fires))"
      using d fold_min_set by simp
    then show ?thesis
      using Cons Min_le_iff [of "set ?fires" now] by simp
  qed
  finally show ?thesis .
qed

lemma upsert_Ok:
  assumes "timers_wf js (contents db)" and "timer_ok e" and "timer_upsert kv js db e = (Ok (), db')"
  shows "timers_wf js (contents db')"
    and "stored_timers js (contents db') = insert e {e' \<in> stored_timers js (contents db). te_key e' \<noteq> te_key e}"
proof -
  obtain v where v: "json_to_vec js e = Ok v" "kv_apply kv db [(storage_key (te_key e), Some v)] = (Ok (), db')"
    using assms(3) by (auto simp: timer_upsert_def split: rust.splits)
  have dec: "json_from_slice js v = Ok e"
    by (rule json_roundtrip [OF assms(2) v(1)])
  have c: "contents db' = (contents db)(storage_key (te_key e) \<mapsto> v)"
    using kv_apply_contents [OF v(2)] by simp
  show wf: "timers_wf js (contents db')"
    using assms(1,2) dec by (auto simp: timers_wf_def c)
  show "stored_timers js (contents db') = insert e {e' \<in> stored_timers js (contents db). te_key e' \<noteq> te_key e}"
    using stored_after [OF assms(1) wf c assms(2)] dec by auto
qed

lemma clear_Ok:
  assumes "timers_wf js (contents db)" and "timer_ok e" and "timer_delete kv db (storage_key (te_key e)) = (Ok (), db')"
  shows "timers_wf js (contents db')"
    and "stored_timers js (contents db') = {e' \<in> stored_timers js (contents db). te_key e' \<noteq> te_key e}"
proof -
  have c: "contents db' = (contents db)(storage_key (te_key e) := None)"
    using kv_apply_contents [OF assms(3) [unfolded timer_delete_def]] by simp
  show wf: "timers_wf js (contents db')"
    using assms(1) by (auto simp: timers_wf_def c)
  show "stored_timers js (contents db') = {e' \<in> stored_timers js (contents db). te_key e' \<noteq> te_key e}"
    using stored_after [OF assms(1) wf c assms(2)] by auto
qed

end

section \<open>A serializer\<close>

text \<open>The law asked of the serializer is satisfiable: a concrete one that keeps it.\<close>

definition plain_to_vec :: "timer_entry \<Rightarrow> bytes" where
  "plain_to_vec e = storage_key (te_key e) @ [if te_domain e = EventTime then 0 else 1]
     @ encode_timestamp_millis (te_fire_timestamp e) @ encode_timestamp_millis (te_hold_timestamp e)"

definition plain_timer :: "bytes list \<Rightarrow> byte \<Rightarrow> int \<Rightarrow> int \<Rightarrow> timer_entry" where
  "plain_timer ps d fire hold =
     \<lparr>te_key = \<lparr>tk_transform_id = map char_of_byte (ps ! 0), tk_timer_family_id = map char_of_byte (ps ! 1),
        tk_tag = map char_of_byte (ps ! 2), tk_window = map char_of_byte (ps ! 3), tk_user_key = ps ! 4\<rparr>,
      te_domain = (if d = 0 then EventTime else ProcessingTime), te_fire_timestamp = fire, te_hold_timestamp = hold\<rparr>"

definition plain_from_slice :: "bytes \<Rightarrow> (coders_error, timer_entry) rust" where
  "plain_from_slice bs =
     rbind (get_many read_bytes 5 bs) (\<lambda>(ps, r1).
       rbind (get_u8 r1) (\<lambda>(d, r2).
         rbind (decode_timestamp_millis r2) (\<lambda>(fire, r3).
           rbind (decode_timestamp_millis r3) (\<lambda>(hold, r4). Ok (plain_timer ps d fire hold)))))"

definition plain_json :: timer_json where
  "plain_json = \<lparr>json_to_vec = (\<lambda>e. Ok (plain_to_vec e)), json_from_slice = (\<lambda>bs. as_anyhow (plain_from_slice bs))\<rparr>"

lemma plain_timer_parts:
  "plain_timer (key_parts (te_key e)) (if te_domain e = EventTime then 0 else 1) (te_fire_timestamp e) (te_hold_timestamp e) = e"
  by (cases "te_domain e") (simp_all add: plain_timer_def key_parts_def)

lemma plain_roundtrip:
  assumes "timer_ok e"
  shows "plain_from_slice (plain_to_vec e) = Ok e"
proof -
  have "length (key_parts (te_key e)) = 5"
    by (simp add: key_parts_def)
  then have "get_many read_bytes 5 (concat (map put_bytes (key_parts (te_key e))) @ rest) = Ok (key_parts (te_key e), rest)" for rest
    using part.roundtrip_many [of "key_parts (te_key e)" rest] assms by (simp add: timer_ok_def)
  then show ?thesis
    using assms timestamp_roundtrip [of "te_fire_timestamp e"] timestamp_roundtrip [of "te_hold_timestamp e" "[]"]
    by (simp add: plain_from_slice_def plain_to_vec_def storage_key_def timer_ok_def plain_timer_parts del: rbind_eq_Ok)
qed

interpretation plain: timer_serde plain_json
  by unfold_locales (auto simp: plain_json_def plain_roundtrip)

interpretation plain_store: timer_store "slate_kv mem_slate" "\<lambda>m. map_of (mem_contents m)" plain_json
  by unfold_locales

section \<open>Properties\<close>

text \<open>
  Taking the due processing-time timers returns exactly the stored timers of that
  domain whose time has come, earliest first, and deletes exactly those, so that no timer
  is ever taken twice and every other timer stays; the next deadline tells whether
  anything is due.
\<close>

lemma due_timers_taken_once:
  assumes "timer_store kv contents js" and "timers_wf js (contents db)"
    and "take_due_processing_time kv js db now = (Ok due, db')"
  shows "sorted (map te_fire_timestamp due) \<and> distinct due
    \<and> set due = {e \<in> stored_timers js (contents db). te_domain e = ProcessingTime \<and> te_fire_timestamp e \<le> now}
    \<and> timers_wf js (contents db') \<and> stored_timers js (contents db') = stored_timers js (contents db) - set due
    \<and> (\<forall>due2 db2. take_due_processing_time kv js db' now = (Ok due2, db2) \<longrightarrow> due2 = [])
    \<and> (\<forall>d. next_processing_deadline kv js db = Ok d \<longrightarrow> (due \<noteq> [] \<longleftrightarrow> (\<exists>t. d = Some t \<and> t \<le> now)))"
proof -
  have taken: "due_processing_time kv js x now = Ok ds" if "take_due_processing_time kv js x now = (Ok ds, x')" for x ds x'
    using that by (auto simp: take_due_processing_time_def split: rust.splits if_splits prod.splits)
  note due = timer_store.due_Ok [OF assms(1,2) taken [OF assms(3)]]
  have after: "timers_wf js (contents db') \<and> stored_timers js (contents db') = stored_timers js (contents db) - set due"
  proof (cases "due = []")
    case True
    then show ?thesis
      using assms(2,3) taken [OF assms(3)] by (auto simp: take_due_processing_time_def)
  next
    case False
    then have "timer_store_apply kv js db (deletions due) = (Ok (), db')"
      using assms(3) taken [OF assms(3)] by (auto simp: take_due_processing_time_def split: rust.splits prod.splits)
    then show ?thesis
      using timer_store.delete_batch [OF assms(1,2)] due(1) by auto
  qed
  have "due2 = []" if "take_due_processing_time kv js db' now = (Ok due2, db2)" for due2 db2
  proof -
    note again = timer_store.due_Ok(1) [OF assms(1) conjunct1 [OF after] taken [OF that]]
    have "e \<notin> set due2" for e
    proof
      assume "e \<in> set due2"
      then have e: "is_due_at now e" "e \<in> stored_timers js (contents db) - set due"
        unfolding again conjunct2 [OF after] by simp_all
      then have "e \<in> set due"
        by (simp add: due(1))
      with e(2) show False
        by simp
    qed
    then show ?thesis
      by (cases due2) auto
  qed
  moreover have "due \<noteq> [] \<longleftrightarrow> (\<exists>t. d = Some t \<and> t \<le> now)" if "next_processing_deadline kv js db = Ok d" for d
  proof -
    have "due \<noteq> [] \<longleftrightarrow> (\<exists>e \<in> stored_timers js (contents db). is_due_at now e)"
      using due(1) by (cases due) auto
    then show ?thesis
      using timer_store.deadline_Ok [OF assms(1,2) that, of now] by simp
  qed
  ultimately show ?thesis
    using due after by (auto simp: is_due_at_def)
qed

definition sample_timer :: timer_entry where
  "sample_timer = \<lparr>te_key = \<lparr>tk_transform_id = ''t'', tk_timer_family_id = ''f'', tk_tag = [], tk_window = ''global'', tk_user_key = [1]\<rparr>,
     te_domain = ProcessingTime, te_fire_timestamp = 5, te_hold_timestamp = 5\<rparr>"

lemma sample_timer_ok: "timer_ok sample_timer"
  by (simp add: sample_timer_def timer_ok_def key_parts_def fits_u32_def i64_range_defs)

text \<open>
  Setting a timer replaces the timer of its identity and no other, clearing removes
  it and no other; distinct identities never share a storage key.
\<close>

lemma set_and_clear_timer:
  assumes "timer_store kv contents js" and "timers_wf js (contents db)" and "timer_ok e"
  shows "(\<forall>db'. service_set kv js db e = (Ok (), db') \<longrightarrow> timers_wf js (contents db')
           \<and> stored_timers js (contents db') = insert e {e' \<in> stored_timers js (contents db). te_key e' \<noteq> te_key e}
           \<and> (\<forall>r. timer_store_get kv js db' (storage_key (te_key e)) = Ok r \<longrightarrow> r = Some e))
    \<and> (\<forall>db'. service_clear kv db (te_key e) = (Ok (), db') \<longrightarrow> timers_wf js (contents db')
           \<and> stored_timers js (contents db') = {e' \<in> stored_timers js (contents db). te_key e' \<noteq> te_key e})"
proof (intro conjI allI impI)
  have kv: "kv_laws kv contents"
    using assms(1) by (simp add: timer_store_def)
  fix db'
  assume set: "service_set kv js db e = (Ok (), db')"
  note up = timer_store.upsert_Ok [OF assms set [unfolded service_set_def]]
  show wf: "timers_wf js (contents db')"
    by (rule up(1))
  show "stored_timers js (contents db') = insert e {e' \<in> stored_timers js (contents db). te_key e' \<noteq> te_key e}"
    by (rule up(2))
  fix r
  assume get: "timer_store_get kv js db' (storage_key (te_key e)) = Ok r"
  obtain v where v: "contents db' (storage_key (te_key e)) = Some v" "json_from_slice js v = Ok e"
    using up(2) stored_iff [OF wf, of e] by auto
  obtain cell where cell: "kv_get kv db' (storage_key (te_key e)) = Ok cell"
    using get by (auto simp: timer_store_get_def)
  then show "r = Some e"
    using get v kv_laws.kv_get_contents [OF kv cell] by (auto simp: timer_store_get_def)
next
  fix db'
  assume clear: "service_clear kv db (te_key e) = (Ok (), db')"
  note cl = timer_store.clear_Ok [OF assms clear [unfolded service_clear_def]]
  show "timers_wf js (contents db')"
    by (rule cl(1))
  show "stored_timers js (contents db') = {e' \<in> stored_timers js (contents db). te_key e' \<noteq> te_key e}"
    by (rule cl(2))
qed

end
