(* ===== verification/Scheduler.thy ===== *)
theory Scheduler
  imports Exec_Graph Timers
begin

text \<open>
  \<open>NodeScheduler\<close> of \<open>engine/scheduler.rs\<close>: construction from an executable graph, the
  selection and start of ready nodes, completion, and the routing of due timers to the
  stages that own them. Logging is left out. An operation that asks the watermark manager
  for readiness returns \<open>None\<close> where that recursion does not end (a cyclic wiring); the
  theorems show it returns on acyclic graphs.
\<close>

section \<open>Construction\<close>

text \<open>
  \<open>splittable_max_in_flight_from\<close>: \<open>configured\<close> is the environment variable, if set, as
  \<open>value.trim().parse::<usize>()\<close> read it, and \<open>parallelism\<close> what
  \<open>available_parallelism()\<close> returned.
\<close>

definition splittable_max_in_flight_from :: "nat option option \<Rightarrow> nat option \<Rightarrow> nat" where
  "splittable_max_in_flight_from configured parallelism =
     (case configured of
        Some (Some parsed) \<Rightarrow> max parsed 1
      | _ \<Rightarrow> max 1 (min (case parallelism of Some n \<Rightarrow> n | None \<Rightarrow> 1) 4))"

record node_scheduler =
  sched_graph :: executable_graph
  watermarks :: watermark_manager
  index_of :: "(string, nat) hashmap"
  transform_to_stage :: "(string, string) hashmap"

definition index_node :: "nat \<times> executable_node \<Rightarrow> (string, nat) hashmap \<Rightarrow> (string, nat) hashmap" where
  "index_node p m = hm_insert (node_id (snd p)) (fst p) m"

definition index_transforms :: "executable_node \<Rightarrow> (string, string) hashmap \<Rightarrow> (string, string) hashmap" where
  "index_transforms node m =
     (case node of
        Worker s \<Rightarrow> fold (\<lambda>t. hm_insert (ptn_id t) (es_id s)) (es_transforms s) m
      | _ \<Rightarrow> m)"

definition set_concurrency :: "nat \<Rightarrow> executable_node \<Rightarrow> watermark_manager \<Rightarrow> watermark_manager" where
  "set_concurrency n node m =
     (case node of
        Splittable i _ _ _ plan \<Rightarrow>
          if process_kind plan = ProcessSizedElementsAndRestrictions then ignore_error (set_max_in_flight i n m) m else m
      | _ \<Rightarrow> m)"

definition new_scheduler :: "pardo_decoder \<Rightarrow> nat \<Rightarrow> executable_graph \<Rightarrow> node_scheduler" where
  "new_scheduler dec splittable_concurrency g =
     \<lparr>sched_graph = g,
      watermarks = fold (set_concurrency splittable_concurrency) (graph_nodes g) (from_executable_graph dec g),
      index_of = fold index_node (enumerate 0 (graph_nodes g)) [],
      transform_to_stage = fold index_transforms (graph_nodes g) []\<rparr>"

section \<open>Selecting nodes\<close>

text \<open>
  The inner loop of \<open>next_nodes\<close>: start bundles of one stage while it admits them and has
  declared work items left. The number of queued work items goes down with every further
  start, so the loop ends.
\<close>

lemma start_bundle_queued:
  assumes "start_bundle stage m = Ok m'"
  shows "queued_bundles m' stage = queued_bundles m stage - 1"
  using assms
  by (auto simp: start_bundle_def queued_bundles_def start_stage_def Let_def split: option.splits if_splits)

function start_bundles :: "stage_id \<Rightarrow> watermark_manager \<Rightarrow> watermark_manager \<times> nat" where
  "start_bundles stage m =
     (case start_bundle stage m of
        Ok m' \<Rightarrow>
          if queued_bundles m' stage = 0 then (m', 1)
          else (let (m'', n) = start_bundles stage m' in (m'', Suc n))
      | _ \<Rightarrow> (m, 0))"
  by pat_completeness auto
termination
  by (relation "measure (\<lambda>(stage, m). queued_bundles m stage)") (auto simp: start_bundle_queued)

declare start_bundles.simps [simp del]

fun start_ready :: "(string, nat) hashmap \<Rightarrow> executable_graph \<Rightarrow> stage_id list \<Rightarrow> watermark_manager
   \<Rightarrow> watermark_manager \<times> (nat \<times> executable_node) list" where
  "start_ready idx g [] m = (m, [])"
| "start_ready idx g (stage # ready) m =
     (case hm_get idx stage of
        None \<Rightarrow> start_ready idx g ready m
      | Some i \<Rightarrow>
          (let (m1, n) = start_bundles stage m;
               (m2, rest) = start_ready idx g ready m1
           in (m2, replicate n (i, graph_nodes g ! i) @ rest)))"

definition next_nodes :: "node_scheduler \<Rightarrow> (node_scheduler \<times> (nat \<times> executable_node) list) option" where
  "next_nodes sc =
     (let m = fst (refresh (watermarks sc))
      in case ready_stages m of
           None \<Rightarrow> None
         | Some ready \<Rightarrow>
             (let (m', nodes) = start_ready (index_of sc) (sched_graph sc) ready m
              in Some (sc\<lparr>watermarks := m'\<rparr>, nodes)))"

section \<open>Completion\<close>

text \<open>\<open>graph[idx]\<close> panics on an index out of range, which is \<open>None\<close>.\<close>

definition node_at :: "node_scheduler \<Rightarrow> nat \<Rightarrow> executable_node option" where
  "node_at sc i = (if i < length (graph_nodes (sched_graph sc)) then Some (graph_nodes (sched_graph sc) ! i) else None)"

definition stage_id_of :: "node_scheduler \<Rightarrow> nat \<Rightarrow> string option" where
  "stage_id_of sc i = map_option node_id (node_at sc i)"

text \<open>An error of \<open>complete_bundle\<close> is dropped (\<open>unwrap_or_default\<close>); watermarks are refreshed in any case.\<close>

definition finish_source :: "stage_id \<Rightarrow> watermark_manager \<Rightarrow> watermark_manager" where
  "finish_source stage m =
     (if is_source_stage m stage \<and> source_auto_finishes m stage
      then ignore_error (report_source_finished stage m) m else m)"

definition mark_complete_with_min_and_input ::
  "nat \<Rightarrow> int option \<Rightarrow> nat option \<Rightarrow> node_scheduler \<Rightarrow> node_scheduler option" where
  "mark_complete_with_min_and_input i output_min_ts input_count sc =
     (case stage_id_of sc i of
        None \<Rightarrow> None
      | Some stage \<Rightarrow>
          (let m1 = finish_source stage (watermarks sc)
           in case complete_bundle_with_min_and_input stage output_min_ts input_count m1 of
                Ok (m2, newly) \<Rightarrow> Some (sc\<lparr>watermarks := fst (refresh m2)\<rparr>)
              | Err e \<Rightarrow> Some (sc\<lparr>watermarks := fst (refresh m1)\<rparr>)
              | Panic \<Rightarrow> None))"

definition mark_complete_with_min :: "nat \<Rightarrow> int option \<Rightarrow> node_scheduler \<Rightarrow> node_scheduler option" where
  "mark_complete_with_min i output_min_ts sc = mark_complete_with_min_and_input i output_min_ts None sc"

definition mark_complete :: "nat \<Rightarrow> node_scheduler \<Rightarrow> node_scheduler option" where
  "mark_complete i sc = mark_complete_with_min i None sc"

section \<open>Timers\<close>

text \<open>\<open>by_stage.entry(stage).or_default().push(entry)\<close>\<close>

definition push_timer :: "string \<Rightarrow> timer_entry \<Rightarrow> (string, timer_entry list) btreemap \<Rightarrow> (string, timer_entry list) btreemap" where
  "push_timer stage e m = bt_insert stage ((case map_of m stage of Some l \<Rightarrow> l | None \<Rightarrow> []) @ [e]) m"

fun promote_loop :: "(string, string) hashmap \<Rightarrow> timer_entry list \<Rightarrow> watermark_manager \<Rightarrow> (string, timer_entry list) btreemap
   \<Rightarrow> watermark_manager \<times> (string, timer_entry list) btreemap" where
  "promote_loop owner [] m by_stage = (m, by_stage)"
| "promote_loop owner (e # due) m by_stage =
     (case hm_get owner (tk_transform_id (te_key e)) of
        None \<Rightarrow> promote_loop owner due m by_stage
      | Some stage \<Rightarrow> promote_loop owner due (ignore_error (mark_rerun stage m) m) (push_timer stage e by_stage))"

definition promote_due_timers ::
  "timer_entry list \<Rightarrow> node_scheduler \<Rightarrow> node_scheduler \<times> (string \<times> timer_entry list) list" where
  "promote_due_timers due sc =
     (let (m, by_stage) = promote_loop (transform_to_stage sc) due (watermarks sc) []
      in (sc\<lparr>watermarks := m\<rparr>, by_stage))"

fun promote_event_loop :: "(string, string) hashmap \<Rightarrow> timer_entry list \<Rightarrow> watermark_manager \<Rightarrow> (string, timer_entry list) btreemap
   \<Rightarrow> watermark_manager \<times> (string, timer_entry list) btreemap" where
  "promote_event_loop owner [] m by_stage = (m, by_stage)"
| "promote_event_loop owner (e # timers) m by_stage =
     (if te_domain e \<noteq> EventTime then promote_event_loop owner timers m by_stage
      else (case hm_get owner (tk_transform_id (te_key e)) of
              None \<Rightarrow> promote_event_loop owner timers m by_stage
            | Some stage \<Rightarrow>
                (let wm = (case effective_input_watermark m stage of Some w \<Rightarrow> w | None \<Rightarrow> MIN_TIMESTAMP)
                 in if is_due_at_watermark e wm
                    then promote_event_loop owner timers (ignore_error (mark_rerun stage m) m) (push_timer stage e by_stage)
                    else promote_event_loop owner timers m by_stage)))"

definition promote_due_event_time_timers ::
  "timer_entry list \<Rightarrow> node_scheduler \<Rightarrow> node_scheduler \<times> (string \<times> timer_entry list) list" where
  "promote_due_event_time_timers timers sc =
     (let (m, by_stage) = promote_event_loop (transform_to_stage sc) timers (watermarks sc) []
      in (sc\<lparr>watermarks := m\<rparr>, by_stage))"

section \<open>Queries\<close>

definition stage_for_transform :: "node_scheduler \<Rightarrow> string \<Rightarrow> string option" where
  "stage_for_transform sc t = hm_get (transform_to_stage sc) t"

text \<open>A graph without root metadata panics (\<open>expect\<close>), which is \<open>None\<close>.\<close>

definition input_edge_metadata :: "node_scheduler \<Rightarrow> nat \<Rightarrow> consumer_meta_data list option" where
  "input_edge_metadata sc i =
     (let inc = map edge_weight (incoming (sched_graph sc) i)
      in if inc = [] then map_option (\<lambda>r. [r]) (get_root_metadata (sched_graph sc)) else Some inc)"

text \<open>\<open>.filter(|metadata| seen.insert(..))\<close> keeps the first edge of every PCollection.\<close>

fun distinct_outputs :: "string set \<Rightarrow> consumer_meta_data list \<Rightarrow> consumer_meta_data list \<times> string set" where
  "distinct_outputs seen [] = ([], seen)"
| "distinct_outputs seen (c # cs) =
     (if produced_pcol_id c \<in> seen then distinct_outputs seen cs
      else (let (ys, seen') = distinct_outputs (insert (produced_pcol_id c) seen) cs in (c # ys, seen')))"

fun side_outputs :: "executable_graph \<Rightarrow> string set \<Rightarrow> string list \<Rightarrow> consumer_meta_data list" where
  "side_outputs g seen [] = []"
| "side_outputs g seen (p # ps) =
     (if p \<in> seen then side_outputs g seen ps
      else (case side_input_output_metadata g p of
              Some meta \<Rightarrow> meta # side_outputs g (insert p seen) ps
            | None \<Rightarrow> side_outputs g seen ps))"

definition output_edge_metadata_all :: "node_scheduler \<Rightarrow> nat \<Rightarrow> consumer_meta_data list option" where
  "output_edge_metadata_all sc i =
     (let g = sched_graph sc;
          (outs, seen) = distinct_outputs {} (map edge_weight (outgoing g i))
      in map_option (\<lambda>node. outs @ side_outputs g seen (output_pcols node)) (node_at sc i))"

definition output_edge_metadata :: "node_scheduler \<Rightarrow> nat \<Rightarrow> consumer_meta_data option option" where
  "output_edge_metadata sc i =
     map_option (\<lambda>outs. case outs of [] \<Rightarrow> None | c # _ \<Rightarrow> Some c) (output_edge_metadata_all sc i)"

definition scheduler_is_complete :: "node_scheduler \<Rightarrow> bool" where
  "scheduler_is_complete sc = is_complete (watermarks sc)"

section \<open>Starting bundles\<close>

lemma start_bundle_stage:
  assumes "start_bundle stage m = Ok m'"
  obtains s where "hm_get (stages m) stage = Some s" "in_flight s < max_in_flight s" "unproduced s = {}"
    "stages m' = hm_insert stage (start_stage s) (stages m)"
  using assms by (auto simp: start_bundle_def split: option.splits if_splits)

lemma start_stage_counts [simp]:
  "in_flight (start_stage s) = Suc (in_flight s)" "max_in_flight (start_stage s) = max_in_flight s"
  by (simp_all add: start_stage_def Let_def)

text \<open>The bundles started for a stage are counted by its \<open>in_flight\<close> field, and no other stage changes.\<close>

lemma start_bundles_effect:
  assumes "start_bundles stage m = (m', n)"
  shows "in_flight_bundles m' stage = in_flight_bundles m stage + n
    \<and> (0 < n \<longrightarrow> in_flight_bundles m' stage \<le> max_in_flight_of m stage)
    \<and> max_in_flight_of m' stage = max_in_flight_of m stage
    \<and> (\<forall>other. other \<noteq> stage \<longrightarrow> hm_get (stages m') other = hm_get (stages m) other)
    \<and> (n = 0 \<longleftrightarrow> (\<forall>m1. start_bundle stage m \<noteq> Ok m1))"
  using assms
proof (induction stage m arbitrary: m' n rule: start_bundles.induct)
  case (1 stage m)
  show ?case
  proof (cases "start_bundle stage m")
    case (Ok m1)
    obtain s where s: "hm_get (stages m) stage = Some s" "in_flight s < max_in_flight s"
      "stages m1 = hm_insert stage (start_stage s) (stages m)"
      using start_bundle_stage [OF Ok] by metis
    have m1: "in_flight_bundles m1 stage = Suc (in_flight_bundles m stage)"
      "max_in_flight_of m1 stage = max_in_flight_of m stage" "in_flight_bundles m stage < max_in_flight_of m stage"
      "\<forall>other. other \<noteq> stage \<longrightarrow> hm_get (stages m1) other = hm_get (stages m) other"
      using s by (simp_all add: in_flight_bundles_def max_in_flight_of_def)
    show ?thesis
    proof (cases "queued_bundles m1 stage = 0")
      case True
      then have "m' = m1 \<and> n = 1"
        using "1.prems" Ok by (simp add: start_bundles.simps [of stage m])
      then show ?thesis
        using m1 Ok by auto
    next
      case False
      obtain n1 where n1: "start_bundles stage m1 = (m', n1)" "n = Suc n1"
        using "1.prems" Ok False by (auto simp: start_bundles.simps [of stage m] split: prod.splits)
      show ?thesis
        using "1.IH" [OF Ok False n1(1)] m1 n1(2) Ok by (cases "n1 = 0") auto
    qed
  qed (use "1.prems" in \<open>auto simp: start_bundles.simps [of stage m]\<close>)
qed

lemma start_bundles_reachable:
  "start_bundles stage m = (m', n) \<Longrightarrow> wm_reachable m \<Longrightarrow> wm_reachable m' \<and> evolves {} m m'"
proof (induction stage m arbitrary: m' n rule: start_bundles.induct)
  case (1 stage m)
  show ?case
  proof (cases "start_bundle stage m")
    case (Ok m1)
    have m1: "wm_reachable m1" "evolves {} m m1"
      using "1.prems"(2) Ok start_bundle_evolves by (auto intro: wm_reachable.step wm_step.start)
    show ?thesis
    proof (cases "queued_bundles m1 stage = 0")
      case True
      then show ?thesis
        using "1.prems" Ok m1 by (simp add: start_bundles.simps [of stage m])
    next
      case False
      obtain n1 where n1: "start_bundles stage m1 = (m', n1)"
        using "1.prems" Ok False by (auto simp: start_bundles.simps [of stage m] split: prod.splits)
      show ?thesis
        using "1.IH" [OF Ok False n1 m1(1)] m1(2) evolves_trans by blast
    qed
  qed (use "1.prems" in \<open>auto simp: start_bundles.simps [of stage m]\<close>)
qed

lemma start_ready_reachable:
  "start_ready idx g ready m = (m', nodes) \<Longrightarrow> wm_reachable m \<Longrightarrow> wm_reachable m' \<and> evolves {} m m'"
proof (induction idx g ready m arbitrary: m' nodes rule: start_ready.induct)
  case (2 idx g stage ready m)
  show ?case
  proof (cases "hm_get idx stage")
    case (Some i)
    obtain m1 n rest where r: "start_bundles stage m = (m1, n)" "start_ready idx g ready m1 = (m', rest)"
      using "2.prems"(1) Some by (auto split: prod.splits)
    then show ?thesis
      using "2.IH"(2) [OF Some r(1) [symmetric] refl] start_bundles_reachable [OF r(1) "2.prems"(2)] r(2)
      by (meson evolves_trans)
  qed (use 2 in simp)
qed simp

text \<open>What starting the ready stages does to each of them, for an index without collisions.\<close>

definition index_ok :: "(string, nat) hashmap \<Rightarrow> executable_graph \<Rightarrow> bool" where
  "index_ok idx g \<longleftrightarrow>
     (\<forall>stage i. hm_get idx stage = Some i \<longrightarrow> i < length (graph_nodes g) \<and> node_id (graph_nodes g ! i) = stage)"

definition started_of :: "stage_id \<Rightarrow> (nat \<times> executable_node) list \<Rightarrow> nat" where
  "started_of stage nodes = length (filter (\<lambda>(i, node). node_id node = stage) nodes)"

lemma started_of_simps [simp]:
  "started_of stage [] = 0" "started_of stage (xs @ ys) = started_of stage xs + started_of stage ys"
  "started_of stage (replicate n (i, node)) = (if node_id node = stage then n else 0)"
  by (simp_all add: started_of_def)

text \<open>\<open>k\<close> bundles of a stage were started, within its ceiling.\<close>

definition bundles_started :: "stage_id \<Rightarrow> nat \<Rightarrow> watermark_manager \<Rightarrow> watermark_manager \<Rightarrow> bool" where
  "bundles_started stage k m m' \<longleftrightarrow>
     in_flight_bundles m' stage = in_flight_bundles m stage + k \<and> max_in_flight_of m' stage = max_in_flight_of m stage
     \<and> (0 < k \<longrightarrow> in_flight_bundles m' stage \<le> max_in_flight_of m stage)"

lemma bundles_started_refl: "hm_get (stages m') stage = hm_get (stages m) stage \<Longrightarrow> bundles_started stage 0 m m'"
  by (simp add: bundles_started_def in_flight_bundles_def max_in_flight_of_def)

lemma bundles_started_trans:
  "bundles_started stage a m m1 \<Longrightarrow> bundles_started stage b m1 m2 \<Longrightarrow> bundles_started stage (a + b) m m2"
  by (cases "b = 0") (auto simp: bundles_started_def)

lemma start_bundles_started:
  assumes "start_bundles stage m = (m', n)"
  shows "bundles_started other (if other = stage then n else 0) m m'"
proof (cases "other = stage")
  case True
  then show ?thesis
    using start_bundles_effect [OF assms] unfolding bundles_started_def by (auto simp del: One_nat_def)
next
  case False
  then show ?thesis
    using start_bundles_effect [OF assms] by (simp add: bundles_started_refl)
qed

lemma start_ready_started:
  "start_ready idx g ready m = (m', nodes) \<Longrightarrow> index_ok idx g \<Longrightarrow> bundles_started stage (started_of stage nodes) m m'"
proof (induction idx g ready m arbitrary: m' nodes rule: start_ready.induct)
  case (1 idx g m)
  then show ?case
    by (simp add: bundles_started_refl)
next
  case (2 idx g st ready m)
  show ?case
  proof (cases "hm_get idx st")
    case (Some i)
    obtain m1 n rest where r: "start_bundles st m = (m1, n)" "start_ready idx g ready m1 = (m', rest)"
      "nodes = replicate n (i, graph_nodes g ! i) @ rest"
      using "2.prems"(1) Some by (auto split: prod.splits)
    have "node_id (graph_nodes g ! i) = st"
      using "2.prems"(2) Some by (auto simp: index_ok_def)
    then have "started_of stage nodes = (if stage = st then n else 0) + started_of stage rest"
      by (auto simp: r(3))
    then show ?thesis
      using bundles_started_trans [OF start_bundles_started [OF r(1)] "2.IH"(2) [OF Some r(1) [symmetric] refl r(2) "2.prems"(2)]]
      by simp
  qed (use 2 in simp)
qed

lemma start_ready_nodes:
  "start_ready idx g ready m = (m', nodes) \<Longrightarrow> index_ok idx g \<Longrightarrow> (i, node) \<in> set nodes \<Longrightarrow>
   i < length (graph_nodes g) \<and> node = graph_nodes g ! i \<and> node_id node \<in> set ready"
proof (induction idx g ready m arbitrary: m' nodes rule: start_ready.induct)
  case (2 idx g st ready m)
  show ?case
  proof (cases "hm_get idx st")
    case (Some j)
    obtain m1 n rest where r: "start_bundles st m = (m1, n)" "start_ready idx g ready m1 = (m', rest)"
      "nodes = replicate n (j, graph_nodes g ! j) @ rest"
      using "2.prems"(1) Some by (auto split: prod.splits)
    have "j < length (graph_nodes g)" "node_id (graph_nodes g ! j) = st"
      using "2.prems"(2) Some by (auto simp: index_ok_def)
    then show ?thesis
      using "2.IH"(2) [OF Some r(1) [symmetric] refl r(2) "2.prems"(2)] "2.prems"(3) r(3) by auto
  qed (use 2 in auto)
qed simp

lemma start_bundle_local:
  assumes "hm_get (stages m') stage = hm_get (stages m) stage"
  shows "(\<exists>x. start_bundle stage m' = Ok x) \<longleftrightarrow> (\<exists>x. start_bundle stage m = Ok x)"
  using assms by (auto simp: start_bundle_def split: option.split)

lemma start_ready_starts:
  "start_ready idx g ready m = (m', nodes) \<Longrightarrow> index_ok idx g \<Longrightarrow> distinct ready \<Longrightarrow> stage \<in> set ready \<Longrightarrow>
   hm_get idx stage \<noteq> None \<Longrightarrow> \<exists>x. start_bundle stage m = Ok x \<Longrightarrow> 0 < started_of stage nodes"
proof (induction idx g ready m arbitrary: m' nodes rule: start_ready.induct)
  case (2 idx g st ready m)
  show ?case
  proof (cases "hm_get idx st")
    case (Some j)
    obtain m1 n rest where r: "start_bundles st m = (m1, n)" "start_ready idx g ready m1 = (m', rest)"
      "nodes = replicate n (j, graph_nodes g ! j) @ rest"
      using "2.prems"(1) Some by (auto split: prod.splits)
    note e = start_bundles_effect [OF r(1)]
    have id: "node_id (graph_nodes g ! j) = st"
      using "2.prems"(2) Some by (auto simp: index_ok_def)
    show ?thesis
    proof (cases "stage = st")
      case True
      then show ?thesis
        using e "2.prems"(6) id r(3) by auto
    next
      case False
      then have "hm_get (stages m1) stage = hm_get (stages m) stage"
        using e by blast
      then have ok: "\<exists>x. start_bundle stage m1 = Ok x"
        using start_bundle_local [of m1 stage m] "2.prems"(6) by blast
      have "distinct ready" "stage \<in> set ready"
        using "2.prems"(3,4) False by auto
      then have "0 < started_of stage rest"
        by (rule "2.IH"(2) [OF Some r(1) [symmetric] refl r(2) "2.prems"(2) _ _ "2.prems"(5) ok])
      then show ?thesis
        by (simp add: r(3))
    qed
  next
    case None
    then have "stage \<in> set ready" "start_ready idx g ready m = (m', nodes)"
      using "2.prems"(1,4,5) by auto
    then show ?thesis
      using "2.IH"(1) [OF None] "2.prems"(2,3,5,6) by simp
  qed
qed simp

section \<open>Due timers\<close>

text \<open>
  The timers a loop promotes: the event-time timers that some stage owns and whose owner's
  effective input watermark has reached them. Re-arming a stage does not move watermarks.
\<close>

definition owner_watermark :: "watermark_manager \<Rightarrow> stage_id \<Rightarrow> int" where
  "owner_watermark m stage = (case effective_input_watermark m stage of Some w \<Rightarrow> w | None \<Rightarrow> MIN_TIMESTAMP)"

definition due_for :: "(string, string) hashmap \<Rightarrow> watermark_manager \<Rightarrow> stage_id \<Rightarrow> timer_entry \<Rightarrow> bool" where
  "due_for owner m stage e \<longleftrightarrow>
     hm_get owner (tk_transform_id (te_key e)) = Some stage \<and> is_due_at_watermark e (owner_watermark m stage)"

lemma rerun_stages:
  "hm_get (stages (ignore_error (mark_rerun stage m) m)) k =
     (if k = stage then map_option (\<lambda>s. s\<lparr>rerun_pending := True\<rparr>) (hm_get (stages m) stage) else hm_get (stages m) k)"
  by (auto simp: mark_rerun_def stage_mut_def ignore_error_def split: option.split)

lemma rerun_watermark [simp]: "owner_watermark (ignore_error (mark_rerun stage m) m) k = owner_watermark m k"
  by (cases "hm_get (stages m) stage") (auto simp: owner_watermark_def effective_input_watermark_def rerun_stages)

lemma rerun_due [simp]: "due_for owner (ignore_error (mark_rerun stage m) m) = due_for owner m"
  by (simp add: fun_eq_iff due_for_def)

lemma bt_wf_push [simp]: "bt_wf b \<Longrightarrow> bt_wf (push_timer stage e b)"
  by (simp add: push_timer_def)

lemma get_push:
  "bt_wf b \<Longrightarrow> map_of (push_timer stage e b) k =
     (if k = stage then Some ((case map_of b stage of Some l \<Rightarrow> l | None \<Rightarrow> []) @ [e]) else map_of b k)"
  by (simp add: push_timer_def)

definition group_of :: "(string, timer_entry list) btreemap \<Rightarrow> stage_id \<Rightarrow> timer_entry list" where
  "group_of b stage = (case map_of b stage of Some l \<Rightarrow> l | None \<Rightarrow> [])"

lemma group_push: "bt_wf b \<Longrightarrow> group_of (push_timer stage e b) k = group_of b k @ (if k = stage then [e] else [])"
  by (simp add: group_of_def get_push)

lemma promote_event_groups:
  "promote_event_loop owner timers m b = (m', b') \<Longrightarrow> bt_wf b \<Longrightarrow>
   bt_wf b' \<and> group_of b' stage = group_of b stage @ filter (due_for owner m stage) timers"
proof (induction owner timers m b arbitrary: m' b' rule: promote_event_loop.induct)
  case (2 owner e timers m b)
  show ?case
  proof (cases "\<exists>st. due_for owner m st e")
    case True
    then obtain st where st: "hm_get owner (tk_transform_id (te_key e)) = Some st" "is_due_at_watermark e (owner_watermark m st)"
      by (auto simp: due_for_def)
    then have ev: "te_domain e = EventTime"
      by (simp add: is_due_at_watermark_def)
    have step: "promote_event_loop owner timers (ignore_error (mark_rerun st m) m) (push_timer st e b) = (m', b')"
      using "2.prems"(1) st ev by (simp add: owner_watermark_def)
    have "due_for owner m stage e \<longleftrightarrow> stage = st"
      using st by (auto simp: due_for_def)
    then show ?thesis
      using "2.IH"(3) [OF _ st(1) refl _ step] ev st(2) "2.prems"(2) by (auto simp: owner_watermark_def group_push)
  next
    case False
    then have "promote_event_loop owner timers m b = (m', b')"
      using "2.prems"(1) by (auto simp: due_for_def owner_watermark_def Let_def split: if_splits option.splits)
    moreover have "\<not> due_for owner m stage e"
      using False by blast
    ultimately show ?thesis
      using "2.IH" "2.prems"(2) False
      by (cases "te_domain e \<noteq> EventTime"; cases "hm_get owner (tk_transform_id (te_key e))")
        (auto simp: due_for_def owner_watermark_def Let_def)
  qed
qed simp

lemma promote_event_stages:
  "promote_event_loop owner timers m b = (m', b') \<Longrightarrow>
   hm_get (stages m') stage =
     (if \<exists>e \<in> set timers. due_for owner m stage e
      then map_option (\<lambda>s. s\<lparr>rerun_pending := True\<rparr>) (hm_get (stages m) stage) else hm_get (stages m) stage)"
proof (induction owner timers m b arbitrary: m' b' rule: promote_event_loop.induct)
  case (2 owner e timers m b)
  show ?case
  proof (cases "\<exists>st. due_for owner m st e")
    case True
    then obtain st where st: "hm_get owner (tk_transform_id (te_key e)) = Some st" "is_due_at_watermark e (owner_watermark m st)"
      by (auto simp: due_for_def)
    then have ev: "te_domain e = EventTime"
      by (simp add: is_due_at_watermark_def)
    have step: "promote_event_loop owner timers (ignore_error (mark_rerun st m) m) (push_timer st e b) = (m', b')"
      using "2.prems"(1) st ev by (simp add: owner_watermark_def)
    have "due_for owner m stage e \<longleftrightarrow> stage = st"
      using st by (auto simp: due_for_def)
    then show ?thesis
      using "2.IH"(3) [OF _ st(1) refl _ step] ev st(2) by (auto simp: owner_watermark_def rerun_stages option.map_comp comp_def)
  next
    case False
    then have "promote_event_loop owner timers m b = (m', b')"
      using "2.prems"(1) by (auto simp: due_for_def owner_watermark_def Let_def split: if_splits option.splits)
    moreover have "\<not> due_for owner m stage e"
      using False by blast
    ultimately show ?thesis
      using "2.IH" False
      by (cases "te_domain e \<noteq> EventTime"; cases "hm_get owner (tk_transform_id (te_key e))")
        (auto simp: due_for_def owner_watermark_def Let_def)
  qed
qed simp

end
