(* ===== verification/Scheduler_Props.thy ===== *)
theory Scheduler_Props
  imports Scheduler
begin

text \<open>
  What the scheduler guarantees along every sequence of its operations. A state is
  reachable when it is built from an executable graph and then changed by selecting nodes,
  completing bundles, promoting timers, and the calls the dispatcher makes on the
  watermark manager. The wiring of the manager never changes after construction, so
  readiness is decided by the graph; a node is started only when its inputs are there;
  and on an acyclic graph with nothing outstanding the scheduler either starts a node or
  the job is complete.
\<close>

section \<open>The wiring is fixed\<close>

definition wires :: "stage_state \<Rightarrow> string list \<times> string list \<times> string list" where
  "wires s = (main_inputs s, side_inputs s, outputs s)"

definition same_wiring :: "watermark_manager \<Rightarrow> watermark_manager \<Rightarrow> bool" where
  "same_wiring m m' \<longleftrightarrow> producers m' = producers m
     \<and> (\<forall>sid. map_option wires (hm_get (stages m') sid) = map_option wires (hm_get (stages m) sid))"

lemma same_wiring_refl [simp]: "same_wiring m m"
  by (simp add: same_wiring_def)

lemma same_wiring_trans: "same_wiring m m' \<Longrightarrow> same_wiring m' m'' \<Longrightarrow> same_wiring m m''"
  by (simp add: same_wiring_def)

lemma rel_option_map_eq: "rel_option R x y \<Longrightarrow> (\<And>a b. R a b \<Longrightarrow> f b = f a) \<Longrightarrow> map_option f y = map_option f x"
  by (cases x; cases y) auto

lemma evolves_same_wiring: "evolves P m m' \<Longrightarrow> same_wiring m m'"
  unfolding evolves_def same_wiring_def
  by (auto intro!: rel_option_map_eq [of "stage_evolves P"] simp: stage_evolves_def wires_def)

lemma wm_le_same_wiring: "wm_le m m' \<Longrightarrow> same_wiring m m'"
  unfolding wm_le_def same_wiring_def
  by (auto intro!: rel_option_map_eq [of stage_le] simp: stage_le_def same_config_fields wires_def)

lemma refresh_same_wiring: "same_wiring m (fst (refresh m))"
  by (rule wm_le_same_wiring [OF refresh_ge])

lemma same_wiring_stage:
  assumes "same_wiring m m'" and "hm_get (stages m) sid = Some s"
  obtains t where "hm_get (stages m') sid = Some t" "main_inputs t = main_inputs s"
    "side_inputs t = side_inputs s" "outputs t = outputs s"
proof -
  have "map_option wires (hm_get (stages m') sid) = Some (wires s)"
    using assms unfolding same_wiring_def by (metis option.map(2))
  then show ?thesis
    using that by (auto simp: wires_def)
qed

lemma same_wiring_sym: "same_wiring m m' \<Longrightarrow> same_wiring m' m"
  by (simp add: same_wiring_def)

lemma same_wiring_feeds: "same_wiring m m' \<Longrightarrow> feeds m' \<subseteq> feeds m"
proof
  fix x
  assume w: "same_wiring m m'" and x: "x \<in> feeds m'"
  obtain c sid s t p where *: "x = (c, sid)" "hm_get (stages m') c = Some t" "hm_get (stages m') sid = Some s"
    "p \<in> set (main_inputs s) \<union> set (side_inputs s)" "hm_get (producers m') p = Some c"
    using x unfolding feeds_def by blast
  note prev = same_wiring_stage [OF same_wiring_sym [OF w]]
  obtain t' where "hm_get (stages m) c = Some t'"
    using prev [OF *(2)] by metis
  moreover obtain s' where "hm_get (stages m) sid = Some s'" "main_inputs s' = main_inputs s" "side_inputs s' = side_inputs s"
    using prev [OF *(3)] by metis
  moreover have "hm_get (producers m) p = Some c"
    using w *(5) by (simp add: same_wiring_def)
  ultimately show "x \<in> feeds m"
    using * by (auto simp: feeds_def)
qed

lemma same_wiring_feeds_eq: "same_wiring m m' \<Longrightarrow> feeds m' = feeds m"
  using same_wiring_feeds same_wiring_sym by blast

section \<open>Inputs that wait have no completed producer\<close>

definition open_ok :: "watermark_manager \<Rightarrow> bool" where
  "open_ok m \<longleftrightarrow> (\<forall>sid s. hm_get (stages m) sid = Some s \<longrightarrow> (\<forall>p \<in> unproduced s. \<not> is_produced m p))"

lemma open_ok_evolves:
  assumes "open_ok m" and "evolves P m m'"
    and "\<And>sid t p. hm_get (stages m') sid = Some t \<Longrightarrow> p \<in> P \<Longrightarrow> p \<notin> unproduced t"
  shows "open_ok m'"
  unfolding open_ok_def
proof (intro allI impI ballI)
  fix sid t p
  assume t: "hm_get (stages m') sid = Some t" and p: "p \<in> unproduced t"
  obtain s where s: "hm_get (stages m) sid = Some s" "stage_evolves P s t"
    using evolves_stage_back [OF assms(2) t] by metis
  then have ps: "p \<in> unproduced s"
    using p by (auto simp: stage_evolves_def)
  show "\<not> is_produced m' p"
  proof
    assume "is_produced m' p"
    then obtain c u where u: "hm_get (stages m') c = Some u" "completed u" "p \<in> set (outputs u)"
      by (auto simp: is_produced_def)
    obtain v where v: "hm_get (stages m) c = Some v" "stage_evolves P v u"
      using evolves_stage_back [OF assms(2) u(1)] by metis
    have "p \<notin> P"
      using assms(3) [OF t] p by blast
    then have "completed v" "p \<in> set (outputs v)"
      using v(2) u by (auto simp: stage_evolves_def)
    then show False
      using assms(1) s(1) ps v(1) by (auto simp: open_ok_def is_produced_def)
  qed
qed

lemma open_ok_wm_le:
  assumes "open_ok m" and "wm_le m m'"
  shows "open_ok m'"
  unfolding open_ok_def
proof (intro allI impI ballI)
  fix sid t p
  assume t: "hm_get (stages m') sid = Some t" and p: "p \<in> unproduced t"
  obtain s where s: "hm_get (stages m) sid = Some s" "stage_le s t"
    using wm_le_stage_back [OF assms(2) t] by metis
  have "is_produced m p" if "is_produced m' p"
  proof -
    obtain c u where u: "hm_get (stages m') c = Some u" "completed u" "p \<in> set (outputs u)"
      using \<open>is_produced m' p\<close> by (auto simp: is_produced_def)
    obtain v where v: "hm_get (stages m) c = Some v" "stage_le v u"
      using wm_le_stage_back [OF assms(2) u(1)] by metis
    have "same_config v u"
      using v(2) by (simp add: stage_le_def)
    from same_config_fields [OF this] u have "completed v" "p \<in> set (outputs v)"
      by simp_all
    then show ?thesis
      unfolding is_produced_def using v(1) by blast
  qed
  moreover have "p \<in> unproduced s"
    using p s(2) by (auto simp: stage_le_def same_config_fields)
  ultimately show "\<not> is_produced m' p"
    using assms(1) s(1) by (auto simp: open_ok_def)
qed

text \<open>Completing a bundle removes its outputs from what their consumers wait for.\<close>

lemma modify_stage_other: "d \<noteq> c \<Longrightarrow> hm_get (stages (modify_stage d f m)) c = hm_get (stages m) c"
  by (simp add: modify_stage_def split: option.split)

lemma wake_consumers_other:
  "wake_consumers f cs m newly = Some (m', newly') \<Longrightarrow> c \<notin> set cs \<Longrightarrow> hm_get (stages m') c = hm_get (stages m) c"
proof (induction cs arbitrary: m newly)
  case (Cons d cs)
  obtain newly1 where "wake_consumers f cs (modify_stage d f m) newly1 = Some (m', newly')"
    using Cons.prems(1) by (auto simp: Let_def split: option.splits)
  then show ?case
    using Cons.IH Cons.prems(2) modify_stage_other [of d c f m] by auto
qed simp

lemma wake_consumers_stage:
  "wake_consumers f cs m newly = Some (m', newly') \<Longrightarrow> c \<in> set cs \<Longrightarrow> hm_get (stages m') c = Some t \<Longrightarrow>
   (\<And>s. p \<notin> unproduced (f s)) \<Longrightarrow> p \<notin> unproduced t"
proof (induction cs arbitrary: m newly)
  case (Cons d cs)
  obtain newly1 where rest: "wake_consumers f cs (modify_stage d f m) newly1 = Some (m', newly')"
    using Cons.prems(1) by (auto simp: Let_def split: option.splits)
  show ?case
  proof (cases "c \<in> set cs")
    case True
    then show ?thesis
      using Cons.IH [OF rest] Cons.prems(3,4) by blast
  next
    case False
    then have "hm_get (stages m') c = hm_get (stages (modify_stage d f m)) c"
      by (rule wake_consumers_other [OF rest])
    then show ?thesis
      using Cons.prems(2,3,4) False by (auto simp: modify_stage_def split: option.splits)
  qed
qed simp

lemma wake_main_consumers_close:
  assumes "wiring_ok m" and "wake_consumers (wake_main p no_rows min_ts) (consumers_of (consumers m) p) m newly = Some (m', newly')"
    and "hm_get (stages m') c = Some t" and "stage_ok t"
  shows "p \<notin> unproduced t"
proof (cases "c \<in> set (consumers_of (consumers m) p)")
  case True
  have "p \<notin> unproduced (wake_main p no_rows min_ts s)" for s
    by (simp add: wake_main_def Let_def split: option.split)
  then show ?thesis
    using wake_consumers_stage [OF assms(2) True assms(3)] by blast
next
  case False
  have "wiring_ok m'" "consumers m' = consumers m"
    using wake_main_consumers_evolves [OF assms(1,2)] evolves_wiring assms(1) by (auto simp: evolves_def)
  then have "p \<notin> set (main_inputs t)"
    using False assms(3) by (metis wiring_ok_def)
  then show ?thesis
    using assms(4) by (auto simp: stage_ok_def)
qed

lemma propagate_outputs_close:
  "wiring_ok m \<Longrightarrow> (\<And>c s. hm_get (stages m) c = Some s \<Longrightarrow> stage_ok s) \<Longrightarrow>
   propagate_outputs ps no_rows min_ts m newly = Some (m', newly') \<Longrightarrow>
   p \<in> set ps \<Longrightarrow> hm_get (stages m') c = Some t \<Longrightarrow> p \<notin> unproduced t"
proof (induction ps arbitrary: m newly)
  case (Cons q ps)
  obtain m1 n1 where w1: "wake_consumers (wake_main q no_rows min_ts) (consumers_of (consumers m) q) m newly = Some (m1, n1)"
    using Cons.prems(3) by (auto split: option.splits)
  obtain m2 n2 where w2: "wake_consumers (wake_side q no_rows) (consumers_of (side_input_consumers m1) q) m1 n1 = Some (m2, n2)"
    and rest: "propagate_outputs ps no_rows min_ts m2 n2 = Some (m', newly')"
    using Cons.prems(3) w1 by (auto split: option.splits)
  note e1 = wake_main_consumers_evolves [OF Cons.prems(1) w1]
  note wir1 = evolves_wiring [OF e1 Cons.prems(1)]
  note e2 = wake_side_consumers_evolves [OF wir1 w2]
  note wir2 = evolves_wiring [OF e2 wir1]
  have ok1: "stage_ok s" if "hm_get (stages m1) c = Some s" for c s
    using evolves_stage_back [OF e1 \<open>hm_get (stages m1) c = Some s\<close>] Cons.prems(2) unfolding stage_evolves_def by metis
  have ok2: "stage_ok s" if "hm_get (stages m2) c = Some s" for c s
    using evolves_stage_back [OF e2 \<open>hm_get (stages m2) c = Some s\<close>] ok1 unfolding stage_evolves_def by metis
  show ?case
  proof (cases "p = q")
    case True
    obtain t2 where t2: "hm_get (stages m2) c = Some t2" "unproduced t \<subseteq> unproduced t2"
      using evolves_stage_back [OF propagate_outputs_evolves [OF wir2 rest] Cons.prems(5)] unfolding stage_evolves_def by metis
    obtain t1 where t1: "hm_get (stages m1) c = Some t1" "unproduced t2 \<subseteq> unproduced t1"
      using evolves_stage_back [OF e2 t2(1)] unfolding stage_evolves_def by metis
    show ?thesis
      using wake_main_consumers_close [OF Cons.prems(1) w1 t1(1) ok1 [OF t1(1)]] t1(2) t2(2) True by blast
  next
    case False
    then show ?thesis
      using Cons.IH [OF wir2 ok2 rest _ Cons.prems(5)] Cons.prems(4) by simp
  qed
qed simp

lemma complete_bundle_open_ok:
  assumes "complete_bundle_with_min_and_input stage t n m = Ok (m', newly)" and "wm_inv m" and "open_ok m"
  shows "open_ok m'"
proof -
  obtain s b ts newly' where get: "hm_get (stages m) stage = Some s" "0 < in_flight s"
    and pr: "propagate_outputs (outputs s) b ts
       (m\<lparr>stages := hm_insert stage (s\<lparr>in_flight := in_flight s - 1, completed := True\<rparr>) (stages m)\<rparr>) []
     = Some (m', newly')"
    using complete_bundle_split [OF assms(1)] by metis
  define m1 where "m1 = m\<lparr>stages := hm_insert stage (s\<lparr>in_flight := in_flight s - 1, completed := True\<rparr>) (stages m)\<rparr>"
  have "stage_evolves (set (outputs s)) s (s\<lparr>in_flight := in_flight s - 1, completed := True\<rparr>)"
    using get(2) by (simp add: stage_evolves_def stage_ok_def)
  then have e1: "evolves (set (outputs s)) m m1"
    unfolding m1_def by (rule evolves_insert [OF get(1)])
  have wir: "wiring_ok m1"
    using evolves_wiring [OF e1] assms(2) by (simp add: wm_inv_def)
  have ok: "stage_ok u" if "hm_get (stages m1) c = Some u" for c u
    using evolves_stage_back [OF e1 \<open>hm_get (stages m1) c = Some u\<close>] assms(2) unfolding stage_evolves_def wm_inv_def by metis
  have e: "evolves (set (outputs s)) m m'"
    using evolves_trans [OF e1 propagate_outputs_evolves [OF wir]] pr by (simp add: m1_def)
  show ?thesis
    by (rule open_ok_evolves [OF assms(3) e]) (rule propagate_outputs_close [OF wir ok pr [folded m1_def]])
qed

text \<open>A step that adds no stage keeps the wiring and the open inputs.\<close>

lemma add_stage_keys: "hm_get (stages m) stage = None \<Longrightarrow> stage \<in> set (hm_keys (stages (add_stage stage mains sides outs m)))"
proof -
  have "hm_get (stages (add_stage stage mains sides outs m)) stage = Some (new_stage mains sides outs)"
    by (simp add: add_stage_def)
  then show ?thesis
    by (metis domI dom_map_of_conv_image_fst image_set)
qed

lemma wm_step_open_ok:
  assumes "wm_step m m'" and "wm_inv m" and "hm_keys (stages m') = hm_keys (stages m)"
  shows "same_wiring m m'" and "open_ok m \<Longrightarrow> open_ok m'"
proof -
  have "same_wiring m m' \<and> (open_ok m \<longrightarrow> open_ok m')"
    using assms(1)
  proof cases
    case (add stage outs mains sides)
    then have "stage \<in> set (hm_keys (stages m))"
      using add_stage_keys assms(3) by metis
    then show ?thesis
      using add(2) by (auto simp: map_of_eq_None_iff)
  next
    case (complete stage t n newly)
    then show ?thesis
      using complete_bundle_evolves [OF complete assms(2)] complete_bundle_open_ok [OF complete assms(2)] evolves_same_wiring by blast
  next
    case (advance moved)
    then have "wm_le m m'"
      using refresh_ge [of m] by simp
    then show ?thesis
      using wm_le_same_wiring open_ok_wm_le by blast
  next
    case (release_empty n)
    define m1 where "m1 = m\<lparr>stages := hm_map_values (\<lambda>_. release_empty_stage) (stages m)\<rparr>"
    have e: "evolves {} m m1"
      unfolding m1_def by (rule release_empty_evolves)
    have "m' = m1 \<or> m' = fst (refresh m1)"
      using release_empty by (auto simp: release_empty_input_holds_def m1_def Let_def split: if_splits)
    then have "wm_le m1 m'"
      using refresh_ge [of m1] by auto
    then show ?thesis
      using same_wiring_trans [OF evolves_same_wiring [OF e] wm_le_same_wiring] open_ok_wm_le open_ok_evolves [OF _ e] by blast
  qed (use evolves_same_wiring open_ok_evolves [of m "{}"] setter_evolves start_bundle_evolves [where P = "{}"] in \<open>metis empty_iff\<close>)+
  then show "same_wiring m m'" and "open_ok m \<Longrightarrow> open_ok m'"
    by blast+
qed

section \<open>The states of a scheduler\<close>

inductive sched_step :: "node_scheduler \<Rightarrow> node_scheduler \<Rightarrow> bool" where
  select: "next_nodes sc = Some (sc', nodes) \<Longrightarrow> sched_step sc sc'"
| complete: "mark_complete_with_min_and_input i t n sc = Some sc' \<Longrightarrow> sched_step sc sc'"
| timers: "promote_due_timers due sc = (sc', groups) \<Longrightarrow> sched_step sc sc'"
| event_timers: "promote_due_event_time_timers es sc = (sc', groups) \<Longrightarrow> sched_step sc sc'"
| manager: "wm_step (watermarks sc) m \<Longrightarrow> hm_keys (stages m) = hm_keys (stages (watermarks sc)) \<Longrightarrow>
    sched_step sc (sc\<lparr>watermarks := m\<rparr>)"

inductive sched_reachable :: "pardo_decoder \<Rightarrow> nat \<Rightarrow> executable_graph \<Rightarrow> node_scheduler \<Rightarrow> bool"
  for dec n g where
  built: "graph_ok g \<Longrightarrow> sched_reachable dec n g (new_scheduler dec n g)"
| step: "sched_reachable dec n g sc \<Longrightarrow> sched_step sc sc' \<Longrightarrow> sched_reachable dec n g sc'"

text \<open>What every one of these steps keeps of the manager.\<close>

definition keeps :: "watermark_manager \<Rightarrow> watermark_manager \<Rightarrow> bool" where
  "keeps m m' \<longleftrightarrow> (wm_reachable m \<and> open_ok m \<longrightarrow> wm_reachable m' \<and> open_ok m' \<and> same_wiring m m')"

lemma keeps_refl [simp]: "keeps m m"
  by (simp add: keeps_def)

lemma keeps_trans: "keeps m m' \<Longrightarrow> keeps m' m'' \<Longrightarrow> keeps m m''"
  unfolding keeps_def using same_wiring_trans by blast

lemma keeps_step: "wm_step m m' \<Longrightarrow> hm_keys (stages m') = hm_keys (stages m) \<Longrightarrow> keeps m m'"
  unfolding keeps_def using wm_step_open_ok wm_reachable_inv wm_reachable.step by blast

lemma keeps_evolves: "(wm_reachable m \<Longrightarrow> wm_reachable m' \<and> evolves {} m m') \<Longrightarrow> keeps m m'"
  unfolding keeps_def using evolves_same_wiring open_ok_evolves [of m "{}" m'] by blast

lemma keeps_refresh: "keeps m (fst (refresh m))"
proof (rule keeps_step)
  show "wm_step m (fst (refresh m))"
    using wm_step.advance [of m "fst (refresh m)" "snd (refresh m)"] by simp
  show "hm_keys (stages (fst (refresh m))) = hm_keys (stages m)"
    using refresh_ge [of m] by (simp add: wm_le_def)
qed

lemma keeps_ignore: "(\<And>m'. r = Ok m' \<Longrightarrow> keeps m m') \<Longrightarrow> keeps m (ignore_error r m)"
  by (cases r) (auto simp: ignore_error_def)

lemma keeps_setter: "wm_step m m' \<Longrightarrow> evolves {} m m' \<Longrightarrow> keeps m m'"
  by (rule keeps_step) (simp_all add: evolves_def)

lemma keeps_rerun: "keeps m (ignore_error (mark_rerun stage m) m)"
  by (rule keeps_ignore) (blast intro: keeps_setter wm_step.rerun setter_evolves)

lemma keeps_finish_source: "keeps m (finish_source stage m)"
  unfolding finish_source_def
  by (auto intro!: keeps_ignore intro: keeps_setter wm_step.source_finished setter_evolves)

lemma keeps_complete:
  assumes "complete_bundle_with_min_and_input stage t n m = Ok (m', newly)"
  shows "keeps m m'"
  unfolding keeps_def
proof (intro impI, elim conjE)
  assume m: "wm_reachable m" "open_ok m"
  have inv: "wm_inv m"
    by (rule wm_reachable_inv [OF m(1)])
  show "wm_reachable m' \<and> open_ok m' \<and> same_wiring m m'"
    using complete_bundle_evolves [OF assms inv] complete_bundle_open_ok [OF assms inv m(2)] evolves_same_wiring
      wm_reachable.step [OF m(1) wm_step.complete [OF assms]] by blast
qed

lemma keeps_promote: "promote_loop owner due m b = (m', b') \<Longrightarrow> keeps m m'"
proof (induction owner due m b rule: promote_loop.induct)
  case (2 owner e due m b)
  then show ?case
    using keeps_rerun keeps_trans by (auto split: option.splits) blast
qed simp

lemma keeps_promote_event: "promote_event_loop owner es m b = (m', b') \<Longrightarrow> keeps m m'"
proof (induction es arbitrary: m b)
  case (Cons e es)
  have "\<exists>m1 b1. promote_event_loop owner es m1 b1 = (m', b') \<and> keeps m m1"
    using Cons.prems by (simp add: Let_def split: if_splits option.splits) (metis keeps_refl keeps_rerun)+
  then show ?case
    using Cons.IH keeps_trans by blast
qed simp

lemma keeps_concurrency: "keeps m (fold (set_concurrency n) nodes m)"
proof (induction nodes arbitrary: m)
  case (Cons node nodes)
  have "keeps m (set_concurrency n node m)"
    by (auto simp: set_concurrency_def split: executable_node.split
        intro!: keeps_ignore intro: keeps_setter wm_step.set_max setter_evolves)
  then show ?case
    using Cons.IH keeps_trans by simp
qed simp

lemma sched_step_keeps:
  assumes "sched_step sc sc'"
  shows "keeps (watermarks sc) (watermarks sc') \<and> sched_graph sc' = sched_graph sc \<and> index_of sc' = index_of sc
    \<and> transform_to_stage sc' = transform_to_stage sc"
  using assms
proof cases
  case (select nodes)
  obtain ready m' where "start_ready (index_of sc) (sched_graph sc) ready (fst (refresh (watermarks sc))) = (m', nodes)"
    "sc' = sc\<lparr>watermarks := m'\<rparr>"
    using select by (auto simp: next_nodes_def Let_def split: option.splits prod.splits)
  then show ?thesis
    using keeps_trans [OF keeps_refresh keeps_evolves] start_ready_reachable by simp
next
  case (complete i t n)
  then obtain stage where stage: "stage_id_of sc i = Some stage"
    by (auto simp: mark_complete_with_min_and_input_def split: option.splits)
  let ?m1 = "finish_source stage (watermarks sc)"
  have "\<exists>m2. keeps ?m1 m2 \<and> sc' = sc\<lparr>watermarks := fst (refresh m2)\<rparr>"
    using complete stage keeps_complete [of stage t n ?m1]
    by (simp add: mark_complete_with_min_and_input_def Let_def split: rust.splits prod.splits) (metis keeps_refl)+
  then obtain m2 where "keeps ?m1 m2" "sc' = sc\<lparr>watermarks := fst (refresh m2)\<rparr>"
    by blast
  then show ?thesis
    using keeps_trans [OF keeps_finish_source keeps_trans [OF _ keeps_refresh]] by simp
next
  case (timers due groups)
  then show ?thesis
    by (auto simp: promote_due_timers_def dest: keeps_promote split: prod.splits)
next
  case (event_timers es groups)
  then show ?thesis
    by (auto simp: promote_due_event_time_timers_def dest: keeps_promote_event split: prod.splits)
next
  case (manager m)
  then show ?thesis
    by (simp add: keeps_step)
qed

section \<open>The invariant of a scheduler\<close>

lemma index_node_fold:
  "distinct (map (\<lambda>p. node_id (snd p)) ps) \<Longrightarrow> hm_get (fold index_node ps m) k =
     (case map_of (map (\<lambda>(i, node). (node_id node, i)) ps) k of Some i \<Rightarrow> Some i | None \<Rightarrow> hm_get m k)"
proof (induction ps arbitrary: m)
  case (Cons p ps)
  have "map_of (map (\<lambda>(i, node). (node_id node, i)) ps) (node_id (snd p)) = None"
    using Cons.prems by (force simp: map_of_eq_None_iff)
  then show ?case
    using Cons by (auto simp: index_node_def split: option.split prod.splits)
qed simp

definition node_index :: "executable_graph \<Rightarrow> (string, nat) hashmap" where
  "node_index g = fold index_node (enumerate 0 (graph_nodes g)) []"

lemma enumerate_ids: "map (\<lambda>p. node_id (snd p)) (enumerate k ns) = map node_id ns"
  by (rule nth_equalityI) (auto simp: nth_enumerate_eq)

lemma node_index_iff:
  assumes "graph_ok g"
  shows "hm_get (node_index g) stage = Some i \<longleftrightarrow> i < length (graph_nodes g) \<and> node_id (graph_nodes g ! i) = stage"
proof -
  let ?es = "enumerate 0 (graph_nodes g)"
  let ?ps = "map (\<lambda>(i, node). (node_id node, i)) ?es"
  have ids: "distinct (map (\<lambda>p. node_id (snd p)) ?es)"
    using assms by (simp add: enumerate_ids graph_ok_def)
  have "map fst ?ps = map (\<lambda>p. node_id (snd p)) ?es"
    by (auto simp: case_prod_beta)
  then have d: "distinct (map fst ?ps)"
    using ids by (simp only:)
  have "hm_get (node_index g) stage = map_of ?ps stage"
    using index_node_fold [OF ids, of "[]" stage] by (auto simp: node_index_def split: option.splits)
  also have "map_of ?ps stage = Some i \<longleftrightarrow> (stage, i) \<in> set ?ps"
    using d by simp
  also have "\<dots> \<longleftrightarrow> (\<exists>node. (i, node) \<in> set ?es \<and> node_id node = stage)"
    by force
  also have "\<dots> \<longleftrightarrow> i < length (graph_nodes g) \<and> node_id (graph_nodes g ! i) = stage"
    by (auto simp: in_set_enumerate_eq)
  finally show ?thesis .
qed

definition sched_inv :: "pardo_decoder \<Rightarrow> executable_graph \<Rightarrow> node_scheduler \<Rightarrow> bool" where
  "sched_inv dec g sc \<longleftrightarrow> graph_ok g \<and> sched_graph sc = g \<and> index_of sc = node_index g
     \<and> wm_reachable (watermarks sc) \<and> open_ok (watermarks sc)
     \<and> same_wiring (from_executable_graph dec g) (watermarks sc)"

lemma graph_stage:
  assumes "graph_ok g" and "hm_get (stages (from_executable_graph dec g)) k = Some s"
  obtains i where "i < length (graph_nodes g)" "k = node_id (graph_nodes g ! i)" "s = node_stage dec g i (graph_nodes g ! i)"
proof -
  have "(k, s) \<in> set (map (\<lambda>(i, node). (node_id node, node_stage dec g i node)) (enumerate 0 (graph_nodes g)))"
    using assms(2) unfolding from_executable_graph_reachable(2) [OF assms(1)] by (rule map_of_SomeD)
  then show thesis
    by (auto simp: in_set_enumerate_eq intro: that)
qed

lemma graph_open_ok:
  assumes "graph_ok g"
  shows "open_ok (from_executable_graph dec g)"
proof -
  have "\<not> completed s" if "hm_get (stages (from_executable_graph dec g)) k = Some s" for k s
    by (rule graph_stage [OF assms \<open>hm_get (stages (from_executable_graph dec g)) k = Some s\<close>])
      (simp add: node_stage_def new_stage_def)
  then show ?thesis
    by (auto simp: open_ok_def is_produced_def)
qed

lemma sched_reachable_inv: "sched_reachable dec n g sc \<Longrightarrow> sched_inv dec g sc"
proof (induction rule: sched_reachable.induct)
  case built
  have "keeps (from_executable_graph dec g) (watermarks (new_scheduler dec n g))"
    by (simp add: new_scheduler_def keeps_concurrency)
  then show ?case
    using built from_executable_graph_reachable(1) [OF built] graph_open_ok [OF built]
    by (simp add: sched_inv_def keeps_def) (simp add: new_scheduler_def node_index_def)
next
  case (step sc sc')
  then show ?case
    using sched_step_keeps [OF step(2)] same_wiring_trans by (auto simp: sched_inv_def keeps_def)
qed

lemma sched_inv_index: "sched_inv dec g sc \<Longrightarrow> index_ok (index_of sc) (sched_graph sc)"
  by (auto simp: sched_inv_def index_ok_def node_index_iff)

section \<open>What is started\<close>

text \<open>The manager a selection works on, and the stages it finds ready there.\<close>

lemma next_nodes_unfold:
  assumes "next_nodes sc = Some (sc', nodes)"
  obtains ready m' where "ready_stages (fst (refresh (watermarks sc))) = Some ready"
    "start_ready (index_of sc) (sched_graph sc) ready (fst (refresh (watermarks sc))) = (m', nodes)"
    "sc' = sc\<lparr>watermarks := m'\<rparr>"
  using assms that by (auto simp: next_nodes_def Let_def split: option.splits prod.splits)

lemma ready_stage_state:
  assumes "ready_stages m = Some ready" and "stage \<in> set ready"
  obtains s where "hm_get (stages m) stage = Some s" "unproduced s = {}" "unproduced_side_inputs s = {}"
    "kind s \<noteq> Ordinary \<longrightarrow> required_watermark s \<le> input_wm s"
proof -
  obtain ys where "filter_opt (stage_is_ready m) (hm_keys (stages m)) = Some ys" "ready = sort ys"
    using assms(1) by (auto simp: ready_stages_def)
  then have "stage_is_ready m stage = Some True"
    using filter_opt_set assms(2) by force
  then show thesis
    using that
    by (auto simp: stage_is_ready_def is_ready_without_upstream_barrier_def split: option.splits if_splits stage_kind.splits)
qed

lemma refresh_in_flight:
  "in_flight_bundles (fst (refresh m)) stage = in_flight_bundles m stage"
  "max_in_flight_of (fst (refresh m)) stage = max_in_flight_of m stage"
proof -
  have "rel_option stage_le (hm_get (stages m) stage) (hm_get (stages (fst (refresh m))) stage)"
    using refresh_ge [of m] by (simp add: wm_le_def)
  then show "in_flight_bundles (fst (refresh m)) stage = in_flight_bundles m stage"
    "max_in_flight_of (fst (refresh m)) stage = max_in_flight_of m stage"
    by (auto simp: in_flight_bundles_def max_in_flight_of_def stage_le_def same_config_fields option_rel_Some1 split: option.splits)
qed

section \<open>No deadlock\<close>

text \<open>
  Nothing outside the scheduler is outstanding: no bundle runs, no hold and no empty input
  is left, side inputs are there, a source that has run reported its end, and no gate
  waits for more than the end of time.
\<close>

definition stage_settled :: "stage_state \<Rightarrow> bool" where
  "stage_settled s \<longleftrightarrow> in_flight s = 0 \<and> stage_min_hold s = None \<and> pending_empty s = {}
     \<and> unproduced_side_inputs s = {} \<and> required_watermark s \<le> MAX_TIMESTAMP
     \<and> (case source s of None \<Rightarrow> True | Some src \<Rightarrow> completed s \<longrightarrow> finished src)"

definition settled :: "watermark_manager \<Rightarrow> bool" where
  "settled m \<longleftrightarrow> list_all (\<lambda>(_, s). stage_settled s) (stages m)"

lemma settled_stage: "settled m \<Longrightarrow> hm_get (stages m) k = Some s \<Longrightarrow> stage_settled s"
  by (auto simp: settled_def list_all_iff dest!: map_of_SomeD)

text \<open>Every input is the output of some stage.\<close>

definition inputs_fed :: "watermark_manager \<Rightarrow> bool" where
  "inputs_fed m \<longleftrightarrow> (\<forall>sid s. hm_get (stages m) sid = Some s \<longrightarrow>
     (\<forall>p \<in> set (main_inputs s) \<union> set (side_inputs s). \<exists>c t. hm_get (producers m) p = Some c
        \<and> hm_get (stages m) c = Some t \<and> p \<in> set (outputs t)))"

lemma fold_min_MAX: "(\<And>p. p \<in> set ps \<Longrightarrow> MAX_TIMESTAMP \<le> f p) \<Longrightarrow> fold (\<lambda>i wm. min wm (f i)) ps MAX_TIMESTAMP = MAX_TIMESTAMP"
  by (induction ps) auto

lemma upstream_MAX:
  assumes "inputs_fed m" and "hm_get (stages m) sid = Some s" and "p \<in> set (main_inputs s) \<union> set (side_inputs s)"
    and "\<And>c t. (c, sid) \<in> feeds m \<Longrightarrow> hm_get (stages m) c = Some t \<Longrightarrow> output_wm t = MAX_TIMESTAMP"
  shows "upstream m p = MAX_TIMESTAMP"
proof -
  obtain c t where "hm_get (producers m) p = Some c" "hm_get (stages m) c = Some t"
    using assms(1-3) unfolding inputs_fed_def by blast
  moreover from this have "(c, sid) \<in> feeds m"
    using assms(2,3) unfolding feeds_def by auto
  ultimately show ?thesis
    using assms(4) by (simp add: upstream_def)
qed

lemma done_output_MAX:
  assumes "wm_inv m" "wm_stable m" "settled m" "inputs_fed m"
    and "hm_get (stages m) sid = Some s" "stage_is_done s"
    and "\<And>c t. (c, sid) \<in> feeds m \<Longrightarrow> hm_get (stages m) c = Some t \<Longrightarrow> output_wm t = MAX_TIMESTAMP"
  shows "output_wm s = MAX_TIMESTAMP"
proof -
  have ok: "stage_ok s" and set: "stage_settled s"
    using assms(1,5) settled_stage [OF assms(3,5)] by (auto simp: wm_inv_def)
  have "base_output m s = MAX_TIMESTAMP"
  proof (cases "source s")
    case (Some src)
    then show ?thesis
      using set assms(6) by (simp add: stage_settled_def stage_is_done_def base_output_def source_output_def)
  next
    case None
    have "fold (\<lambda>i wm. min wm (upstream m i)) (main_inputs s) MAX_TIMESTAMP = MAX_TIMESTAMP"
      using upstream_MAX [OF assms(4,5) _ assms(7)] by (intro fold_min_MAX) auto
    then show ?thesis
      using None ok assms(6) by (simp add: base_output_def stage_ok_def stage_is_done_def)
  qed
  then have "compute_output m s = MAX_TIMESTAMP"
    using set assms(6) by (simp add: compute_output_def stage_settled_def stage_is_done_def)
  moreover have "\<not> stage_moves m s"
    using assms(2,5) by (auto simp: wm_stable_def)
  ultimately show ?thesis
    using ok by (simp add: stage_moves_def stage_ok_def)
qed

lemma wf_feeds: "acyclic (feeds m) \<Longrightarrow> wf (feeds m)"
proof (rule finite_acyclic_wf)
  have "feeds m \<subseteq> set (hm_keys (stages m)) \<times> set (hm_keys (stages m))"
    by (force simp: feeds_def dest!: map_of_SomeD)
  then show "finite (feeds m)"
    by (rule finite_subset) simp
qed

text \<open>
  A manager's state in which the scheduler can only wait for its own stages: reachable,
  fully wired, propagated and settled.
\<close>

definition quiet :: "watermark_manager \<Rightarrow> bool" where
  "quiet m \<longleftrightarrow> wm_inv m \<and> wm_stable m \<and> settled m \<and> inputs_fed m \<and> open_ok m \<and> acyclic (feeds m)"

lemma ancestors_output_MAX:
  assumes "quiet m" and "\<And>c t. (c, sid) \<in> (feeds m)\<^sup>+ \<Longrightarrow> hm_get (stages m) c = Some t \<Longrightarrow> stage_is_done t"
  shows "(c, sid) \<in> (feeds m)\<^sup>+ \<Longrightarrow> hm_get (stages m) c = Some t \<Longrightarrow> output_wm t = MAX_TIMESTAMP"
proof -
  have q: "wm_inv m" "wm_stable m" "settled m" "inputs_fed m" and wf: "wf (feeds m)"
    using assms(1) wf_feeds by (simp_all add: quiet_def)
  show "(c, sid) \<in> (feeds m)\<^sup>+ \<Longrightarrow> hm_get (stages m) c = Some t \<Longrightarrow> output_wm t = MAX_TIMESTAMP"
    using wf
  proof (induction c arbitrary: t rule: wf_induct_rule)
    case (less c)
    show ?case
    proof (rule done_output_MAX [OF q less.prems(2)])
      show "stage_is_done t"
        using assms(2) less.prems by blast
      show "output_wm t' = MAX_TIMESTAMP" if "(d, c) \<in> feeds m" "hm_get (stages m) d = Some t'" for d t'
        using less.IH [OF that(1) _ that(2)] that(1) less.prems(1) by (meson trancl_into_trancl2)
    qed
  qed
qed

lemma first_undone_ready:
  assumes q: "quiet m" and get: "hm_get (stages m) sid = Some s" and undone: "\<not> stage_is_done s"
    and anc: "\<And>c t. (c, sid) \<in> (feeds m)\<^sup>+ \<Longrightarrow> hm_get (stages m) c = Some t \<Longrightarrow> stage_is_done t"
  shows "stage_is_ready m sid = Some True"
proof -
  have ok: "stage_ok s" and set: "stage_settled s"
    using q get settled_stage [of m sid s] by (auto simp: quiet_def wm_inv_def)
  have un: "unproduced s = {}"
  proof (rule ccontr)
    assume "unproduced s \<noteq> {}"
    then obtain p where p: "p \<in> unproduced s" "p \<in> set (main_inputs s)"
      using ok by (auto simp: stage_ok_def)
    obtain c t where c: "hm_get (producers m) p = Some c" "hm_get (stages m) c = Some t" "p \<in> set (outputs t)"
      using q get p(2) unfolding quiet_def inputs_fed_def by blast
    have "(c, sid) \<in> feeds m"
      using c get p(2) unfolding feeds_def by auto
    then have "completed t"
      using anc c(2) by (auto simp: stage_is_done_def)
    then show False
      using q get p(1) c unfolding quiet_def open_ok_def is_produced_def by blast
  qed
  have outs: "output_wm t = MAX_TIMESTAMP" if "(c, sid) \<in> feeds m" "hm_get (stages m) c = Some t" for c t
    by (rule ancestors_output_MAX [OF q anc]) (use that in auto)
  have "upstream m p = MAX_TIMESTAMP" if "p \<in> set (main_inputs s) \<union> set (side_inputs s)" for p
    using q by (intro upstream_MAX [OF _ get that outs]) (simp_all add: quiet_def)
  then have "compute_input m s = MAX_TIMESTAMP"
    by (simp add: compute_input_def fold_min_MAX)
  moreover have "\<not> stage_moves m s"
    using q get unfolding quiet_def wm_stable_def by blast
  ultimately have wm: "input_wm s = MAX_TIMESTAMP"
    using ok by (simp add: stage_moves_def stage_ok_def)
  have "has_work s"
    using undone set ok by (auto simp: has_work_def stage_is_done_def stage_settled_def stage_ok_def)
  then have ready: "is_ready_without_upstream_barrier s"
    using un set ok wm by (auto simp: is_ready_without_upstream_barrier_def stage_settled_def stage_ok_def split: stage_kind.split)
  have "producer_is_idle t" if "c \<in> ancestors m sid" "hm_get (stages m) c = Some t" for c t
    using anc [of c t] that settled_stage [of m c t] q
    by (auto simp: ancestors_def producer_is_idle_def stage_is_done_def stage_settled_def quiet_def)
  then have "all_idle_upstream m sid"
    by (auto simp: all_idle_upstream_def)
  then show ?thesis
    using stage_is_ready_decides [of m sid] q get ready by (simp add: quiet_def)
qed

lemma quiet_progress:
  assumes q: "quiet m" and "\<not> is_complete m"
  obtains stage where "stage_is_ready m stage = Some True"
proof -
  let ?Q = "{sid. \<exists>s. hm_get (stages m) sid = Some s \<and> \<not> stage_is_done s}"
  have wf: "wf ((feeds m)\<^sup>+)"
    using q by (auto simp: quiet_def intro: wf_trancl wf_feeds)
  have "hm_wf (stages m)"
    using q by (simp add: quiet_def wm_inv_def)
  moreover obtain sid0 s0 where "(sid0, s0) \<in> set (stages m)" "\<not> stage_is_done s0"
    using assms(2) unfolding is_complete_def list_all_iff by blast
  ultimately have "hm_get (stages m) sid0 = Some s0"
    by (simp add: hm_wf_def)
  then have q0: "sid0 \<in> ?Q"
    using \<open>\<not> stage_is_done s0\<close> by blast
  obtain sid where sid: "sid \<in> ?Q" and least: "\<And>c. (c, sid) \<in> (feeds m)\<^sup>+ \<Longrightarrow> c \<notin> ?Q"
    using wfE_min [OF wf q0] by blast
  then obtain s where "hm_get (stages m) sid = Some s" "\<not> stage_is_done s"
    by blast
  then have "stage_is_ready m sid = Some True"
    using first_undone_ready [OF q] least by blast
  then show thesis
    by (rule that)
qed

section \<open>Selection decides\<close>

lemma settled_refresh: "settled m \<Longrightarrow> wm_inv m \<Longrightarrow> settled (fst (refresh m))"
proof -
  assume m: "settled m" "wm_inv m"
  have "stage_settled t" if t: "hm_get (stages (fst (refresh m))) k = Some t" for k t
  proof -
    obtain s where s: "hm_get (stages m) k = Some s" "stage_le s t"
      using wm_le_stage_back [OF refresh_ge t] by metis
    then have c: "same_config s t"
      by (simp add: stage_le_def)
    show ?thesis
      using settled_stage [OF m(1) s(1)] by (simp add: stage_settled_def same_config_fields [OF c] same_config_min_hold [OF c] split: option.splits)
  qed
  moreover have "hm_wf (stages (fst (refresh m)))"
    using m(2) refresh_ge [of m] by (simp add: wm_inv_def wm_le_def hm_wf_def)
  ultimately show ?thesis
    by (auto simp: settled_def list_all_iff hm_wf_def)
qed

lemma inputs_fed_wiring:
  assumes w: "same_wiring m m'" and fed: "inputs_fed m"
  shows "inputs_fed m'"
  unfolding inputs_fed_def
proof (intro allI impI ballI)
  fix sid s p
  assume s: "hm_get (stages m') sid = Some s" and p: "p \<in> set (main_inputs s) \<union> set (side_inputs s)"
  obtain s0 where "hm_get (stages m) sid = Some s0" "main_inputs s0 = main_inputs s" "side_inputs s0 = side_inputs s"
    using same_wiring_stage [OF same_wiring_sym [OF w] s] by metis
  then obtain c t where c: "hm_get (producers m) p = Some c" "hm_get (stages m) c = Some t" "p \<in> set (outputs t)"
    using fed p unfolding inputs_fed_def by metis
  moreover obtain t' where "hm_get (stages m') c = Some t'" "outputs t' = outputs t"
    using same_wiring_stage [OF w c(2)] by metis
  ultimately show "\<exists>c t. hm_get (producers m') p = Some c \<and> hm_get (stages m') c = Some t \<and> p \<in> set (outputs t)"
    using w by (auto simp: same_wiring_def)
qed

lemma ready_stages_iff:
  assumes "acyclic (feeds m)"
  obtains ready where "ready_stages m = Some ready"
    "\<And>stage. stage \<in> set ready \<longleftrightarrow> stage_is_ready m stage = Some True"
proof -
  let ?P = "\<lambda>stage. stage_is_ready m stage = Some True"
  have "stage_is_ready m x = Some (?P x)" for x
    using stage_is_ready_decides [OF assms, of x] by auto
  then have ready: "filter_opt (stage_is_ready m) (hm_keys (stages m)) = Some (filter ?P (hm_keys (stages m)))"
    by (intro filter_opt_total)
  have known: "stage \<in> set (hm_keys (stages m))" if "?P stage" for stage
  proof -
    have "hm_get (stages m) stage \<noteq> None"
      using that by (auto simp: stage_is_ready_def split: option.splits)
    then show ?thesis
      by (metis domIff dom_map_of_conv_image_fst image_set)
  qed
  show thesis
  proof (rule that)
    show "ready_stages m = Some (sort (filter ?P (hm_keys (stages m))))"
      by (simp add: ready_stages_def ready)
    show "stage \<in> set (sort (filter ?P (hm_keys (stages m)))) \<longleftrightarrow> ?P stage" for stage
      using known [of stage] by auto
  qed
qed

lemma sched_inv_stage_indexed:
  assumes "sched_inv dec g sc" and "hm_get (stages m) stage = Some s" and "same_wiring (watermarks sc) m"
  shows "hm_get (index_of sc) stage \<noteq> None"
proof -
  have "same_wiring m (from_executable_graph dec g)"
    using assms by (meson same_wiring_sym same_wiring_trans sched_inv_def)
  then obtain s0 where "hm_get (stages (from_executable_graph dec g)) stage = Some s0"
    using same_wiring_stage [OF _ assms(2)] by metis
  then obtain i where "i < length (graph_nodes g)" "stage = node_id (graph_nodes g ! i)"
    using graph_stage assms(1) unfolding sched_inv_def by metis
  then have "hm_get (node_index g) stage = Some i"
    using node_index_iff assms(1) unfolding sched_inv_def by blast
  then show ?thesis
    using assms(1) by (simp add: sched_inv_def)
qed

lemma complete_nothing_ready:
  assumes "is_complete m" and "stage_is_ready m stage = Some True"
  shows False
proof -
  obtain s where "hm_get (stages m) stage = Some s" "is_ready_without_upstream_barrier s"
    using assms(2) by (auto simp: stage_is_ready_def split: option.splits if_splits)
  moreover from this have "stage_is_done s"
    using assms(1) by (auto simp: is_complete_def list_all_iff dest!: map_of_SomeD)
  ultimately show False
    using done_not_ready by blast
qed

text \<open>On an acyclic graph a selection returns, and starts exactly the nodes of the ready stages.\<close>

lemma next_nodes_decides:
  assumes inv: "sched_inv dec g sc" and ac: "acyclic (feeds (from_executable_graph dec g))"
  obtains sc' nodes where "next_nodes sc = Some (sc', nodes)"
    "\<And>stage. 0 < started_of stage nodes \<longleftrightarrow> stage_is_ready (fst (refresh (watermarks sc))) stage = Some True"
proof -
  let ?m = "fst (refresh (watermarks sc))"
  have w: "same_wiring (from_executable_graph dec g) ?m"
    using inv same_wiring_trans refresh_same_wiring by (auto simp: sched_inv_def)
  have re: "wm_reachable ?m"
    using inv keeps_refresh [of "watermarks sc"] by (simp add: sched_inv_def keeps_def)
  have "acyclic (feeds ?m)"
    using ac same_wiring_feeds_eq [OF w] by simp
  then obtain ready where ready: "ready_stages ?m = Some ready"
    "\<And>stage. stage \<in> set ready \<longleftrightarrow> stage_is_ready ?m stage = Some True"
    using ready_stages_iff by metis
  obtain m' nodes where st: "start_ready (index_of sc) (sched_graph sc) ready ?m = (m', nodes)"
    by (cases "start_ready (index_of sc) (sched_graph sc) ready ?m")
  have "distinct (hm_keys (stages ?m))"
    using wm_reachable_inv [OF re] by (simp add: wm_inv_def hm_wf_def)
  then have d: "distinct ready"
    using ready(1) filter_opt_distinct by (auto simp: ready_stages_def)
  have starts: "0 < started_of stage nodes" if r: "stage_is_ready ?m stage = Some True" for stage
  proof -
    obtain s where s: "hm_get (stages ?m) stage = Some s"
      using r by (auto simp: stage_is_ready_def split: option.splits)
    show ?thesis
      using start_ready_starts [OF st sched_inv_index [OF inv] d] ready(2) r ready_start_ok [OF r]
        sched_inv_stage_indexed [OF inv s refresh_same_wiring] by blast
  qed
  have only: "stage_is_ready ?m stage = Some True" if pos: "0 < started_of stage nodes" for stage
  proof -
    obtain i node where "(i, node) \<in> set nodes" "node_id node = stage"
      using pos by (auto simp: started_of_def filter_empty_conv)
    then show ?thesis
      using start_ready_nodes [OF st sched_inv_index [OF inv]] ready(2) by blast
  qed
  have "next_nodes sc = Some (sc\<lparr>watermarks := m'\<rparr>, nodes)"
    by (simp add: next_nodes_def ready(1) st)
  then show thesis
    by (rule that) (use starts only in blast)
qed

section \<open>Concurrency ceilings\<close>

definition set_ceiling :: "nat \<Rightarrow> executable_node \<Rightarrow> stage_state \<Rightarrow> stage_state" where
  "set_ceiling n node s =
     (case node of
        Splittable _ _ _ _ plan \<Rightarrow> if process_kind plan = ProcessSizedElementsAndRestrictions then s\<lparr>max_in_flight := max n 1\<rparr> else s
      | _ \<Rightarrow> s)"

lemma set_concurrency_stages:
  "hm_get (stages (set_concurrency n node m)) k =
     (if k = node_id node then map_option (set_ceiling n node) (hm_get (stages m) k) else hm_get (stages m) k)"
  by (cases node; cases "hm_get (stages m) (node_id node)")
    (auto simp: set_concurrency_def set_ceiling_def set_max_in_flight_def stage_mut_def ignore_error_def option.map_id0)

lemma set_concurrency_other:
  "k \<notin> set (map node_id nodes) \<Longrightarrow> hm_get (stages (fold (set_concurrency n) nodes m)) k = hm_get (stages m) k"
  by (induction nodes arbitrary: m) (auto simp: set_concurrency_stages)

lemma set_concurrency_fold:
  "distinct (map node_id nodes) \<Longrightarrow> i < length nodes \<Longrightarrow>
   hm_get (stages (fold (set_concurrency n) nodes m)) (node_id (nodes ! i)) =
     map_option (set_ceiling n (nodes ! i)) (hm_get (stages m) (node_id (nodes ! i)))"
proof (induction nodes arbitrary: m i)
  case (Cons node nodes)
  show ?case
  proof (cases i)
    case 0
    then show ?thesis
      using Cons.prems(1) by (simp add: set_concurrency_other set_concurrency_stages)
  next
    case (Suc j)
    then have "node_id (nodes ! j) \<noteq> node_id node"
      using Cons.prems by (metis distinct.simps(2) image_eqI length_Cons list.simps(9) list.set_map not_less_eq nth_mem)
    then show ?thesis
      using Cons.IH [of j] Cons.prems Suc by (simp add: set_concurrency_stages)
  qed
qed simp

section \<open>A sample pipeline\<close>

definition sample_meta :: consumer_meta_data where
  "sample_meta = \<lparr>producer_transform_id = ''A'', produced_pcol_id = ''p'', cm_coder_id = ''c'',
     component_coder = None, consumer_transfrom_id = ''B''\<rparr>"

definition sample_components :: components where
  "sample_components = \<lparr>c_transforms = [], c_pcollections = [], c_windowing_strategies = [], c_coders = [], c_environments = []\<rparr>"

definition sample_node :: "string \<Rightarrow> pcollection_node" where
  "sample_node p = \<lparr>pcn_id = p, pcn_collection = \<lparr>pc_unique_name = p, pc_coder_id = ''c'', pc_is_bounded = 2, pc_windowing_strategy_id = ''w''\<rparr>\<rparr>"

definition sample_stage :: "string \<Rightarrow> pcollection_node \<Rightarrow> pcollection_node list \<Rightarrow> ptransform_node list \<Rightarrow> executable_stage" where
  "sample_stage i inp outs ts = \<lparr>es_id = i, es_components = sample_components, es_environment = \<lparr>env_urn = ''docker'', env_rest = []\<rparr>,
     es_input_pcol = inp, es_side_inputs = [], es_user_states = [], es_timers = [], es_output_pcols = outs, es_transforms = ts\<rparr>"

definition sample_graph :: executable_graph where
  "sample_graph = \<lparr>graph_nodes =
       [Worker (sample_stage ''A'' (sample_node ''q'') [sample_node ''p''] []),
        Worker (sample_stage ''B'' (sample_node ''p'') []
          [\<lparr>ptn_id = ''t'', ptn_transform = \<lparr>pt_unique_name = ''t'', pt_spec = None, pt_inputs = [], pt_outputs = [],
             pt_subtransforms = [], pt_environment_id = []\<rparr>\<rparr>])],
     graph_edges = [\<lparr>edge_source = 0, edge_target = 1, edge_weight = sample_meta\<rparr>],
     graph_components = sample_components,
     root_metadata = None\<rparr>"

lemmas sample_graph_simps = sample_graph_def sample_stage_def sample_node_def sample_components_def

abbreviation sample_manager :: watermark_manager where
  "sample_manager \<equiv> from_executable_graph (\<lambda>_. None) sample_graph"

definition sample_scheduler :: node_scheduler where
  "sample_scheduler = new_scheduler (\<lambda>_. None) 1 sample_graph"

lemma sample_graph_ok: "graph_ok sample_graph"
  by (simp add: graph_ok_def sample_graph_simps node_outs_def outgoing_def sort_dedup_def sample_meta_def)

lemma sample_scheduler_reachable: "sched_reachable (\<lambda>_. None) 1 sample_graph sample_scheduler"
  unfolding sample_scheduler_def by (rule sched_reachable.built [OF sample_graph_ok])

lemma sample_manager_producers: "producers sample_manager = [(''p'', ''A'')]"
  by code_simp

lemma sample_manager_stages:
  "map (\<lambda>(i, s). (i, main_inputs s, side_inputs s, outputs s)) (stages sample_manager) =
     [(''A'', [], [], [''p'']), (''B'', [''p''], [], [])]"
  by code_simp

lemma sample_manager_stage:
  assumes "hm_get (stages sample_manager) sid = Some s"
  shows "sid = ''A'' \<and> main_inputs s = [] \<and> side_inputs s = [] \<and> outputs s = [''p'']
    \<or> sid = ''B'' \<and> main_inputs s = [''p''] \<and> side_inputs s = [] \<and> outputs s = []"
proof -
  have "(sid, main_inputs s, side_inputs s, outputs s) \<in>
      set (map (\<lambda>(i, s). (i, main_inputs s, side_inputs s, outputs s)) (stages sample_manager))"
    using map_of_SomeD [OF assms] by force
  then show ?thesis
    unfolding sample_manager_stages by auto
qed

lemma sample_manager_acyclic: "acyclic (feeds sample_manager)"
proof -
  have "feeds sample_manager \<subseteq> measure (\<lambda>c. if c = ''A'' then 0 else 1)"
    using sample_manager_stage by (fastforce simp: feeds_def sample_manager_producers)
  then show ?thesis
    by (rule wf_acyclic [OF wf_subset [OF wf_measure]])
qed

lemma sample_manager_fed: "inputs_fed sample_manager"
proof -
  have "\<exists>t. hm_get (stages sample_manager) ''A'' = Some t \<and> outputs t = [''p'']"
    using node_stage_of [OF sample_graph_ok, of 0 "\<lambda>_. None"]
    by (simp add: sample_graph_simps node_stage_def new_stage_def node_outs_def outgoing_def sort_dedup_def sample_meta_def)
  then show ?thesis
    using sample_manager_stage by (fastforce simp: inputs_fed_def sample_manager_producers)
qed

lemma sample_settled: "settled (watermarks sample_scheduler)"
  by code_simp

lemma sample_next: "map_option (\<lambda>(sc, nodes). map (\<lambda>(i, n). (i, node_id n)) nodes) (next_nodes sample_scheduler) = Some [(0, ''A'')]"
  by code_simp

section \<open>Properties\<close>

text \<open>
  C27: the scheduler never deadlocks. In every state it can reach on an acyclic graph whose
  PCollections all have a producer, when nothing outside is outstanding (no bundle in
  flight, no hold, no empty or missing side input, completed sources finished), asking
  for the next nodes returns, and it returns no node exactly when the job is complete.
\<close>

theorem scheduler_never_stuck:
  assumes "sched_reachable dec n g sc" and "acyclic (feeds (from_executable_graph dec g))"
    and "inputs_fed (from_executable_graph dec g)" and "settled (watermarks sc)"
  shows "\<exists>sc' nodes. next_nodes sc = Some (sc', nodes)
    \<and> (nodes = [] \<longleftrightarrow> is_complete (fst (refresh (watermarks sc))))"
proof -
  let ?m = "fst (refresh (watermarks sc))"
  note inv = sched_reachable_inv [OF assms(1)]
  have re: "wm_reachable ?m" "open_ok ?m"
    using inv keeps_refresh [of "watermarks sc"] by (simp_all add: sched_inv_def keeps_def)
  have w: "same_wiring (from_executable_graph dec g) ?m"
    using inv same_wiring_trans refresh_same_wiring by (auto simp: sched_inv_def)
  have "settled ?m"
    using settled_refresh [OF assms(4)] inv wm_reachable_inv by (auto simp: sched_inv_def)
  then have q: "quiet ?m"
    using re wm_reachable_inv refresh_stable inputs_fed_wiring [OF w assms(3)] assms(2) same_wiring_feeds_eq [OF w]
    by (simp add: quiet_def)
  obtain sc' nodes where nx: "next_nodes sc = Some (sc', nodes)"
    "\<And>stage. 0 < started_of stage nodes \<longleftrightarrow> stage_is_ready ?m stage = Some True"
    using next_nodes_decides [OF inv assms(2)] by metis
  have "nodes = [] \<longleftrightarrow> (\<forall>stage. started_of stage nodes = 0)"
    by (cases nodes) (auto simp: started_of_def split: prod.splits)
  also have "\<dots> \<longleftrightarrow> is_complete ?m"
    using nx(2) quiet_progress [OF q] complete_nothing_ready [of ?m] by (metis neq0_conv)
  finally show ?thesis
    using nx(1) by blast
qed

theorem scheduler_never_stuck_witness:
  "\<exists>sc' nodes. next_nodes sample_scheduler = Some (sc', nodes)
    \<and> (nodes = [] \<longleftrightarrow> is_complete (fst (refresh (watermarks sample_scheduler))))"
  by (rule scheduler_never_stuck [OF sample_scheduler_reachable sample_manager_acyclic sample_manager_fed sample_settled])

text \<open>
  C28: the scheduler starts a node only when it may run: in every reachable state, each
  node \<open>next_nodes\<close> returns is the graph's node at its index, its main and side inputs
  have been produced, a watermark gate it has is satisfied, and the number of times it is
  returned is what its count of running bundles grows by, which stays within its ceiling.
\<close>

theorem started_nodes_may_run:
  assumes "sched_reachable dec n g sc" and "next_nodes sc = Some (sc', nodes)" and "(i, node) \<in> set nodes"
  shows "node_at sc i = Some node
    \<and> (\<exists>s. hm_get (stages (fst (refresh (watermarks sc)))) (node_id node) = Some s
        \<and> unproduced s = {} \<and> unproduced_side_inputs s = {}
        \<and> (kind s \<noteq> Ordinary \<longrightarrow> required_watermark s \<le> input_wm s))
    \<and> in_flight_bundles (watermarks sc') (node_id node) =
        in_flight_bundles (watermarks sc) (node_id node) + started_of (node_id node) nodes
    \<and> in_flight_bundles (watermarks sc') (node_id node) \<le> max_in_flight_of (watermarks sc') (node_id node)"
proof -
  let ?m = "fst (refresh (watermarks sc))"
  note idx = sched_inv_index [OF sched_reachable_inv [OF assms(1)]]
  obtain ready m' where r: "ready_stages ?m = Some ready"
    "start_ready (index_of sc) (sched_graph sc) ready ?m = (m', nodes)" "sc' = sc\<lparr>watermarks := m'\<rparr>"
    using next_nodes_unfold [OF assms(2)] .
  have node: "i < length (graph_nodes (sched_graph sc))" "node = graph_nodes (sched_graph sc) ! i" "node_id node \<in> set ready"
    using start_ready_nodes [OF r(2) idx assms(3)] by auto
  obtain s where s: "hm_get (stages ?m) (node_id node) = Some s" "unproduced s = {}" "unproduced_side_inputs s = {}"
    "kind s \<noteq> Ordinary \<longrightarrow> required_watermark s \<le> input_wm s"
    using ready_stage_state [OF r(1) node(3)] .
  have "0 < started_of (node_id node) nodes"
    using assms(3) by (auto simp: started_of_def filter_empty_conv)
  moreover have "bundles_started (node_id node) (started_of (node_id node) nodes) ?m m'"
    by (rule start_ready_started [OF r(2) idx])
  ultimately show ?thesis
    using node(1,2) s r(3) by (auto simp: node_at_def bundles_started_def refresh_in_flight)
qed

theorem started_nodes_may_run_witness:
  "\<exists>sc' nodes. next_nodes sample_scheduler = Some (sc', nodes) \<and> 0 < started_of ''A'' nodes
     \<and> in_flight_bundles (watermarks sc') ''A'' \<le> max_in_flight_of (watermarks sc') ''A''"
proof -
  obtain sc' nodes where nx: "next_nodes sample_scheduler = Some (sc', nodes)"
    and ids: "map (\<lambda>(i, n). (i, node_id n)) nodes = [(0, ''A'')]"
    using sample_next by auto
  then obtain node where node: "nodes = [(0, node)]" "node_id node = ''A''"
    by auto
  show ?thesis
    using started_nodes_may_run [OF sample_scheduler_reachable nx, of 0 node] nx node by (auto simp: started_of_def)
qed

text \<open>
  C29: due event-time timers reach the stage that owns them: promoting a list of timers
  groups, for every stage, exactly the timers it owns whose fire time its effective input
  watermark has reached, in their order; a stage with a due timer is re-armed, every other
  stage is left as it was, and no watermark moves.
\<close>

theorem due_event_timers_promoted:
  assumes "promote_due_event_time_timers timers sc = (sc', groups)"
  shows "group_of groups stage = filter (due_for (transform_to_stage sc) (watermarks sc) stage) timers
    \<and> hm_get (stages (watermarks sc')) stage =
        (if group_of groups stage = [] then hm_get (stages (watermarks sc)) stage
         else map_option (\<lambda>s. s\<lparr>rerun_pending := True\<rparr>) (hm_get (stages (watermarks sc)) stage))
    \<and> owner_watermark (watermarks sc') stage = owner_watermark (watermarks sc) stage"
proof -
  obtain m' where loop: "promote_event_loop (transform_to_stage sc) timers (watermarks sc) [] = (m', groups)"
    and sc': "watermarks sc' = m'"
    using assms by (auto simp: promote_due_event_time_timers_def split: prod.splits)
  have "bt_wf ([] :: (string, timer_entry list) btreemap)"
    by (simp add: bt_wf_def)
  then have groups: "group_of groups stage = filter (due_for (transform_to_stage sc) (watermarks sc) stage) timers"
    using promote_event_groups [OF loop] by (simp add: group_of_def)
  then have st: "hm_get (stages m') stage =
      (if group_of groups stage = [] then hm_get (stages (watermarks sc)) stage
       else map_option (\<lambda>s. s\<lparr>rerun_pending := True\<rparr>) (hm_get (stages (watermarks sc)) stage))"
    using promote_event_stages [OF loop, of stage] by (auto simp: filter_empty_conv)
  then have "owner_watermark m' stage = owner_watermark (watermarks sc) stage"
    by (cases "hm_get (stages (watermarks sc)) stage")
      (auto simp: owner_watermark_def effective_input_watermark_def)
  then show ?thesis
    using groups st sc' by simp
qed

definition event_timer_at :: "int \<Rightarrow> timer_entry" where
  "event_timer_at t = \<lparr>te_key = \<lparr>tk_transform_id = ''t'', tk_timer_family_id = '''', tk_tag = '''', tk_window = '''', tk_user_key = []\<rparr>,
     te_domain = EventTime, te_fire_timestamp = t, te_hold_timestamp = t\<rparr>"

theorem due_event_timers_promoted_witness:
  "map te_fire_timestamp (group_of (snd (promote_due_event_time_timers
     [event_timer_at MIN_TIMESTAMP, event_timer_at 7] sample_scheduler)) ''B'') = [MIN_TIMESTAMP]"
proof -
  have eval: "map te_fire_timestamp (filter (due_for (transform_to_stage sample_scheduler) (watermarks sample_scheduler) ''B'')
      [event_timer_at MIN_TIMESTAMP, event_timer_at 7]) = [MIN_TIMESTAMP]"
    by code_simp
  then show ?thesis
    using due_event_timers_promoted [of "[event_timer_at MIN_TIMESTAMP, event_timer_at 7]" sample_scheduler
        "fst (promote_due_event_time_timers [event_timer_at MIN_TIMESTAMP, event_timer_at 7] sample_scheduler)"
        "snd (promote_due_event_time_timers [event_timer_at MIN_TIMESTAMP, event_timer_at 7] sample_scheduler)" "''B''"] by simp
qed

text \<open>
  The scheduler of a graph is wired as the graph: with distinct stage ids and one
  producer per PCollection, every node becomes a stage with the PCollections of its
  incoming edges as main inputs, its stages' side inputs, its outputs, the gate its
  windowing strategy asks for and nothing produced, started or pending; the lookup by
  stage id is exact, and only process stages of splittable transforms get a ceiling
  other than one.
\<close>

lemma scheduler_mirrors_graph:
  assumes "graph_ok g" and "i < length (graph_nodes g)"
  shows "hm_get (index_of (new_scheduler dec n g)) (node_id (graph_nodes g ! i)) = Some i
    \<and> (\<exists>s. hm_get (stages (watermarks (new_scheduler dec n g))) (node_id (graph_nodes g ! i)) = Some s
        \<and> s = (node_stage dec g i (graph_nodes g ! i))\<lparr>max_in_flight := max_in_flight s\<rparr>
        \<and> max_in_flight s = (case graph_nodes g ! i of
             Splittable _ _ _ _ plan \<Rightarrow> if process_kind plan = ProcessSizedElementsAndRestrictions then max n 1 else 1 | _ \<Rightarrow> 1))"
proof -
  let ?id = "node_id (graph_nodes g ! i)"
  let ?m0 = "from_executable_graph dec g"
  have "hm_get (index_of (new_scheduler dec n g)) ?id = Some i"
    using node_index_iff [OF assms(1)] assms(2) by (simp add: new_scheduler_def node_index_def)
  moreover have "hm_get (stages (fold (set_concurrency n) (graph_nodes g) ?m0)) ?id =
      map_option (set_ceiling n (graph_nodes g ! i)) (hm_get (stages ?m0) ?id)"
    using set_concurrency_fold [of "graph_nodes g" i n ?m0] assms by (simp add: graph_ok_def)
  ultimately show ?thesis
    using node_stage_of [OF assms, of dec]
    by (auto simp: new_scheduler_def set_ceiling_def node_stage_def new_stage_def split: executable_node.split)
qed

end
