(* ===== verification/Graph_Props.thy ===== *)
theory Graph_Props
  imports Splittable_Runs Scheduler_Props
begin

text \<open>
  The executable graph built from a fused pipeline is fit for the scheduler: node
  identifiers are distinct and no PCollection has two producing nodes. The proof follows
  the traversal: every node it creates is a plain stage, a runner transform or a whole
  splittable run, and all of these write different PCollections.
\<close>

section \<open>The nodes of the graph\<close>

definition owned :: "executable_node \<Rightarrow> string set" where
  "owned node = (case node of Runner r \<Rightarrow> set (rt_output_pcol_ids r) | _ \<Rightarrow> (\<Union>s \<in> set (worker_stages node). produced_ids s))"

definition run_node :: "toposort \<Rightarrow> build_context \<Rightarrow> string set \<Rightarrow> executable_node \<Rightarrow> executable_stage \<Rightarrow> bool" where
  "run_node topo bc K node s \<longleftrightarrow>
     run_start bc s \<and> (\<exists>members. build_splittable_node topo bc s = Ok (node, members)) \<and> es_id ` run_of bc s \<subseteq> K"

text \<open>\<open>K\<close> holds the stages the cache knows.\<close>

definition node_ok :: "toposort \<Rightarrow> build_context \<Rightarrow> runner_transform set \<Rightarrow> string set \<Rightarrow> executable_node \<Rightarrow> bool" where
  "node_ok topo bc R K node \<longleftrightarrow>
     (\<exists>s \<in> set (bc_sdk_stages bc). node = Worker s \<and> \<not> is_splittable s) \<or> (\<exists>r \<in> R. node = Runner r)
     \<or> (\<exists>s. run_node topo bc K node s)"

lemma node_ok_cases [consumes 1, case_names worker runner run]:
  assumes "node_ok topo bc R K node"
  obtains s where "s \<in> set (bc_sdk_stages bc)" "node = Worker s" "\<not> is_splittable s"
  | r where "r \<in> R" "node = Runner r"
  | s where "run_node topo bc K node s"
  using assms unfolding node_ok_def by blast

lemma node_ok_mono: "node_ok topo bc R K node \<Longrightarrow> K \<subseteq> K' \<Longrightarrow> node_ok topo bc R K' node"
  unfolding node_ok_def run_node_def by (elim disjE exE bexE conjE) (blast intro: subset_trans)+

lemma run_nodeD:
  assumes "build_sources bc R" and "run_node topo bc K node s"
  shows "s \<in> set (bc_sdk_stages bc)" and "is_splittable s" and "run_start bc s" and "run_of bc s \<subseteq> set (bc_sdk_stages bc)"
    and "owned node = (\<Union>t \<in> run_of bc s. produced_ids t)" and "set (output_pcols node) \<subseteq> owned node"
    and "\<exists>members. node_id node = split_name members \<and> set members = es_id ` run_of bc s"
proof -
  show s: "s \<in> set (bc_sdk_stages bc)" "is_splittable s" "run_start bc s"
    using assms(2) by (simp_all add: run_node_def run_start_def)
  show "run_of bc s \<subseteq> set (bc_sdk_stages bc)"
    by (rule run_of_sdk [OF assms(1) s(1)])
  obtain members where "build_splittable_node topo bc s = Ok (node, members)"
    using assms(2) by (auto simp: run_node_def)
  note b = built_run [OF this run_of_inj [OF assms(1) s(1)] s(2)]
  show o: "owned node = (\<Union>t \<in> run_of bc s. produced_ids t)"
    using b(1,5) by (auto simp: owned_def)
  show "set (output_pcols node) \<subseteq> owned node"
    unfolding o by (rule b(4))
  show "\<exists>members. node_id node = split_name members \<and> set members = es_id ` run_of bc s"
    using b(2,3) by blast
qed

lemma output_owned:
  assumes "build_sources bc R" and "node_ok topo bc R K node"
  shows "set (output_pcols node) \<subseteq> owned node"
  using assms(2)
proof (cases rule: node_ok_cases)
  case (run s)
  then show ?thesis
    by (rule run_nodeD(6) [OF assms(1)])
qed (simp_all add: owned_def produced_ids_def)

lemma colon_in_split_name: "CHR '':'' \<in> set (split_name members)"
  by (simp add: split_name_def)

abbreviation apart :: "executable_node \<Rightarrow> executable_node \<Rightarrow> bool" where
  "apart x y \<equiv> owned x \<inter> owned y = {} \<and> node_id x \<noteq> node_id y"

lemma run_apart_other:
  assumes src: "build_sources bc R" and x: "run_node topo bc K x s"
  shows "t \<in> set (bc_sdk_stages bc) \<Longrightarrow> \<not> is_splittable t \<Longrightarrow> apart x (Worker t)" and "r \<in> R \<Longrightarrow> apart x (Runner r)"
proof -
  note D = run_nodeD [OF src x]
  obtain members where id: "node_id x = split_name members"
    using D(7) by blast
  show "apart x (Worker t)" if t: "t \<in> set (bc_sdk_stages bc)" "\<not> is_splittable t"
  proof
    have "produced_ids u \<inter> produced_ids t = {}" if u: "u \<in> run_of bc s" for u
      using build_sourcesD(4) [OF src _ t(1)] u D(4) run_of_splittable [OF u D(2)] t(2) by blast
    then show "owned x \<inter> owned (Worker t) = {}"
      unfolding D(5) by (auto simp: owned_def)
    show "node_id x \<noteq> node_id (Worker t)"
      using build_sourcesD(6) [OF src t(1)] colon_in_split_name [of members] by (metis id node_id.simps(1))
  qed
  show "apart x (Runner r)" if r: "r \<in> R"
  proof
    have "produced_ids u \<inter> set (rt_output_pcol_ids r) = {}" if u: "u \<in> run_of bc s" for u
      using build_sourcesD(3) [OF src _ r] u D(4) by blast
    then show "owned x \<inter> owned (Runner r) = {}"
      unfolding D(5) by (auto simp: owned_def)
    show "node_id x \<noteq> node_id (Runner r)"
      using build_sourcesD(7) [OF src r] colon_in_split_name [of members] by (metis id node_id.simps(2))
  qed
qed

lemma runs_apart:
  assumes src: "build_sources bc R" and x: "run_node topo bc K x s" and y: "run_node topo bc K' y t" and "x \<noteq> y"
  shows "apart x y"
proof -
  note D = run_nodeD [OF src x] and E = run_nodeD [OF src y]
  have "s \<noteq> t"
    using x y \<open>x \<noteq> y\<close> by (auto simp: run_node_def)
  then have disj: "run_of bc s \<inter> run_of bc t = {}"
    by (rule runs_disjoint [OF src D(3) E(3)])
  have "produced_ids u \<inter> produced_ids v = {}" if "u \<in> run_of bc s" "v \<in> run_of bc t" for u v
    using build_sourcesD(4) [OF src, of u v] that D(4) E(4) disj by blast
  then have "owned x \<inter> owned y = {}"
    unfolding D(5) E(5) by blast
  moreover have "node_id x \<noteq> node_id y"
  proof
    obtain ms ns where ms: "node_id x = split_name ms" "set ms = es_id ` run_of bc s" and ns: "node_id y = split_name ns" "set ns = es_id ` run_of bc t"
      using D(7) E(7) by blast
    assume "node_id x = node_id y"
    then have eq: "join_with CHR '','' ms = join_with CHR '','' ns"
      by (simp add: ms ns split_name_def)
    have self: "s \<in> run_of bc s" "t \<in> run_of bc t"
      by (rule run_of_self)+
    have "es_id s \<in> set ms" "es_id t \<in> set ns"
      unfolding ms(2) ns(2) by (rule imageI [OF self(1)], rule imageI [OF self(2)])
    then have "ms \<noteq> []" "ns \<noteq> []"
      by auto
    moreover have "\<forall>i \<in> set ms \<union> set ns. CHR '','' \<notin> set i"
      using build_sourcesD(6) [OF src] D(4) E(4) unfolding ms(2) ns(2) by blast
    ultimately have "ms = ns"
      using join_with_inj eq by blast
    then have "es_id s \<in> es_id ` run_of bc t"
      using ms(2) ns(2) self(1) by blast
    then obtain u where "u \<in> run_of bc t" "es_id u = es_id s"
      by force
    then have "u = s"
      using inj_onD [OF build_sourcesD(1) [OF src], of u s] D(1) E(4) by blast
    then show False
      using disj \<open>u \<in> run_of bc t\<close> self(1) by blast
  qed
  ultimately show ?thesis
    by blast
qed

lemma plain_apart:
  assumes src: "build_sources bc R"
  shows "s \<in> set (bc_sdk_stages bc) \<Longrightarrow> t \<in> set (bc_sdk_stages bc) \<Longrightarrow> s \<noteq> t \<Longrightarrow> apart (Worker s) (Worker t)"
    and "s \<in> set (bc_sdk_stages bc) \<Longrightarrow> r \<in> R \<Longrightarrow> apart (Worker s) (Runner r)"
    and "r \<in> R \<Longrightarrow> r' \<in> R \<Longrightarrow> r \<noteq> r' \<Longrightarrow> apart (Runner r) (Runner r')"
proof -
  show "apart (Worker s) (Worker t)" if "s \<in> set (bc_sdk_stages bc)" "t \<in> set (bc_sdk_stages bc)" "s \<noteq> t"
    using build_sourcesD(4) [OF src that] inj_onD [OF build_sourcesD(1) [OF src] _ that(1,2)] that(3) by (auto simp: owned_def)
  show "apart (Worker s) (Runner r)" if "s \<in> set (bc_sdk_stages bc)" "r \<in> R"
    using build_sourcesD(3) [OF src that] by (simp add: owned_def)
  show "apart (Runner r) (Runner r')" if "r \<in> R" "r' \<in> R" "r \<noteq> r'"
    using build_sourcesD(5) [OF src that] inj_onD [OF build_sourcesD(2) [OF src] _ that(1,2)] that(3) by (auto simp: owned_def)
qed

lemma nodes_apart:
  assumes src: "build_sources bc R" and x: "node_ok topo bc R K x" and y: "node_ok topo bc R K' y" and ne: "x \<noteq> y"
  shows "apart x y"
  using x
proof (cases rule: node_ok_cases)
  case (worker s)
  from y show ?thesis
  proof (cases rule: node_ok_cases)
    case (worker t)
    then show ?thesis
      using plain_apart(1) [OF src] \<open>s \<in> _\<close> \<open>x = _\<close> ne by blast
  next
    case (runner r)
    then show ?thesis
      using plain_apart(2) [OF src] worker by blast
  next
    case (run t)
    then show ?thesis
      using run_apart_other(1) [OF src run] worker by (metis Int_commute)
  qed
next
  case (runner r)
  from y show ?thesis
  proof (cases rule: node_ok_cases)
    case (worker t)
    then show ?thesis
      using plain_apart(2) [OF src] runner by (metis Int_commute)
  next
    case (runner r')
    then show ?thesis
      using plain_apart(3) [OF src] \<open>r \<in> R\<close> \<open>x = _\<close> ne by blast
  next
    case (run t)
    then show ?thesis
      using run_apart_other(2) [OF src run] runner by (metis Int_commute)
  qed
next
  case (run s)
  from y show ?thesis
  proof (cases rule: node_ok_cases)
    case (run t)
    then show ?thesis
      using runs_apart [OF src \<open>run_node topo bc K x s\<close>] ne by blast
  qed (use run_apart_other [OF src run] in auto)
qed

section \<open>Resolving a consumer\<close>

definition run_cache_ok :: "toposort \<Rightarrow> build_context \<Rightarrow> (string, executable_node) hashmap \<Rightarrow> bool" where
  "run_cache_ok topo bc sc \<longleftrightarrow> (\<forall>node \<in> snd ` set sc. \<exists>s. run_node topo bc (fst ` set sc) node s)"

lemma run_node_mono: "run_node topo bc K node s \<Longrightarrow> K \<subseteq> K' \<Longrightarrow> run_node topo bc K' node s"
  unfolding run_node_def by (blast intro: subset_trans)

text \<open>A stage that has to be built starts a run: its producer is not a splittable stage that feeds it.\<close>

lemma built_starts_run:
  assumes src: "build_sources bc R" and P: "node_ok topo bc R (fst ` set sc) P" and p: "p \<in> owned P"
    and l: "l \<in> set (links_of bc p)" "cl_node l = Worker s" and s: "is_splittable s" and new: "es_id s \<notin> fst ` set sc"
  shows "run_start bc s"
  unfolding run_start_def
proof (intro conjI ballI notI)
  note sdk = build_sourcesD(8) [OF src l]
  show "s \<in> set (bc_sdk_stages bc)" "is_splittable s"
    using sdk s by simp_all
  fix x
  assume x: "x \<in> set (bc_sdk_stages bc)" and step: "run_step bc x s"
  obtain p' l' where p': "p' \<in> produced_ids x" "l' \<in> set (links_of bc p')" "cl_node l' = Worker s"
    using step unfolding run_step_def by blast
  then have px: "p \<in> produced_ids x"
    using build_sourcesD(8) [OF src p'(2,3)] sdk by simp
  from P show False
  proof (cases rule: node_ok_cases)
    case (worker w)
    then have "p \<in> produced_ids w"
      using p by (simp add: owned_def)
    then have "w = x"
      using build_sourcesD(4) [OF src worker(1) x] px by blast
    then show ?thesis
      using worker(3) step by (simp add: run_step_def)
  next
    case (runner r)
    then show ?thesis
      using build_sourcesD(3) [OF src x runner(1)] px p by (auto simp: owned_def)
  next
    case (run t)
    note D = run_nodeD [OF src run]
    obtain y where y: "y \<in> run_of bc t" "p \<in> produced_ids y"
      using p unfolding D(5) by blast
    then have "y = x"
      using build_sourcesD(4) [OF src, of y x] x px D(4) by blast
    then have "s \<in> run_of bc t"
      using run_of_step [OF y(1)] step by simp
    then show ?thesis
      using run new unfolding run_node_def by blast
  qed
qed

lemma resolve_ok:
  assumes src: "build_sources bc R" and P: "node_ok topo bc R (fst ` set sc) P" and p: "p \<in> owned P" and l: "l \<in> set (links_of bc p)"
    and sc: "run_cache_ok topo bc sc" and res: "resolve_consumer topo bc (cl_node l) sc = Ok (node, sc')"
  shows "node_ok topo bc R (fst ` set sc') node" and "run_cache_ok topo bc sc'" and "fst ` set sc \<subseteq> fst ` set sc'"
proof -
  from res have "node_ok topo bc R (fst ` set sc') node \<and> run_cache_ok topo bc sc' \<and> fst ` set sc \<subseteq> fst ` set sc'"
  proof (cases rule: resolve_consumer_cases)
    case plain
    have "node_ok topo bc R (fst ` set sc) (cl_node l)"
    proof (cases "\<exists>s. cl_node l = Worker s")
      case True
      then show ?thesis
        using build_sourcesD(8) [OF src l] plain(3) unfolding node_ok_def by blast
    next
      case False
      then show ?thesis
        using build_sourcesD(9) [OF src l] unfolding node_ok_def by blast
    qed
    then show ?thesis
      using plain sc by simp
  next
    case (cached s)
    have "node \<in> snd ` set sc"
      using map_of_SomeD [OF cached(3)] by force
    then have "\<exists>s. run_node topo bc (fst ` set sc) node s"
      using sc unfolding run_cache_ok_def by blast
    then show ?thesis
      using sc cached(4) unfolding node_ok_def by simp
  next
    case (built s members)
    have new: "es_id s \<notin> fst ` set sc"
      using built(3) by (simp add: map_of_eq_None_iff)
    have start: "run_start bc s"
      by (rule built_starts_run [OF src P p l built(1,2) new])
    have sdk: "s \<in> set (bc_sdk_stages bc)"
      using start by (simp add: run_start_def)
    have keys: "fst ` set sc' = set members \<union> fst ` set sc"
      unfolding built(5) by (rule keys_fold_insert)
    have vals: "snd ` set sc' \<subseteq> insert node (snd ` set sc)"
      unfolding built(5) by (rule values_fold_insert)
    have here: "run_node topo bc (fst ` set sc') node s"
      using start built(4) built_run(2) [OF built(4) run_of_inj [OF src sdk] built(2)] by (simp add: run_node_def keys)
    have sub: "fst ` set sc \<subseteq> fst ` set sc'"
      by (simp add: keys)
    have "run_cache_ok topo bc sc'"
      unfolding run_cache_ok_def
    proof
      fix n
      assume "n \<in> snd ` set sc'"
      then consider "n = node" | "n \<in> snd ` set sc"
        using vals by blast
      then show "\<exists>s. run_node topo bc (fst ` set sc') n s"
      proof cases
        case 1
        then show ?thesis
          using here by blast
      next
        case 2
        then show ?thesis
          using sc run_node_mono [OF _ sub] unfolding run_cache_ok_def by blast
      qed
    qed
    then show ?thesis
      using here sub unfolding node_ok_def by blast
  qed
  then show "node_ok topo bc R (fst ` set sc') node" and "run_cache_ok topo bc sc'" and "fst ` set sc \<subseteq> fst ` set sc'"
    by blast+
qed

section \<open>The traversal\<close>

definition graph_inv :: "toposort \<Rightarrow> build_context \<Rightarrow> runner_transform set \<Rightarrow> graph_builder \<Rightarrow> bool" where
  "graph_inv topo bc R gb \<longleftrightarrow>
     (\<forall>node \<in> set (gb_nodes gb) \<union> set (gb_queue gb). node_ok topo bc R (fst ` set (gb_cache gb)) node)
     \<and> run_cache_ok topo bc (gb_cache gb)
     \<and> (\<forall>k i. hm_get (gb_indices gb) k = Some i \<longleftrightarrow> i < length (gb_nodes gb) \<and> node_id (gb_nodes gb ! i) = k)
     \<and> (\<forall>e \<in> set (gb_edges gb). edge_source e < length (gb_nodes gb) \<and> produced_pcol_id (edge_weight e) \<in> owned (gb_nodes gb ! edge_source e))"

lemma graph_invD:
  assumes "graph_inv topo bc R gb"
  shows "node \<in> set (gb_nodes gb) \<Longrightarrow> node_ok topo bc R (fst ` set (gb_cache gb)) node"
    and "node \<in> set (gb_queue gb) \<Longrightarrow> node_ok topo bc R (fst ` set (gb_cache gb)) node"
    and "run_cache_ok topo bc (gb_cache gb)"
    and "hm_get (gb_indices gb) k = Some i \<longleftrightarrow> i < length (gb_nodes gb) \<and> node_id (gb_nodes gb ! i) = k"
    and "e \<in> set (gb_edges gb) \<Longrightarrow> edge_source e < length (gb_nodes gb) \<and> produced_pcol_id (edge_weight e) \<in> owned (gb_nodes gb ! edge_source e)"
  using assms unfolding graph_inv_def by blast+

lemma graph_inv_cache:
  assumes "graph_inv topo bc R gb" and "run_cache_ok topo bc sc" and "fst ` set (gb_cache gb) \<subseteq> fst ` set sc"
  shows "graph_inv topo bc R (gb\<lparr>gb_cache := sc\<rparr>)"
  using assms node_ok_mono [OF _ assms(3)] unfolding graph_inv_def by simp

lemma ensure_node_inv:
  assumes src: "build_sources bc R" and inv: "graph_inv topo bc R gb" and node: "node_ok topo bc R (fst ` set (gb_cache gb)) node"
    and e: "ensure_node_exists node gb = (i, gb')"
  shows "graph_inv topo bc R gb'" and "i < length (gb_nodes gb')" and "gb_nodes gb' ! i = node"
    and "\<exists>ns. gb_nodes gb' = gb_nodes gb @ ns" and "gb_cache gb' = gb_cache gb"
proof -
  note I = graph_invD [OF inv]
  have "graph_inv topo bc R gb' \<and> i < length (gb_nodes gb') \<and> gb_nodes gb' ! i = node
    \<and> (\<exists>ns. gb_nodes gb' = gb_nodes gb @ ns) \<and> gb_cache gb' = gb_cache gb"
  proof (cases "hm_get (gb_indices gb) (node_id node)")
    case None
    then have gb': "gb' = gb\<lparr>gb_nodes := gb_nodes gb @ [node], gb_indices := hm_insert (node_id node) (length (gb_nodes gb)) (gb_indices gb)\<rparr>"
      and i: "i = length (gb_nodes gb)"
      using e by (auto simp: ensure_node_exists_def)
    have fresh: "node_id (gb_nodes gb ! j) \<noteq> node_id node" if "j < length (gb_nodes gb)" for j
      using I(4) [of "node_id node" j] None that by auto
    have "graph_inv topo bc R gb'"
      unfolding graph_inv_def
    proof (intro conjI ballI allI)
      show "node_ok topo bc R (fst ` set (gb_cache gb')) n" if "n \<in> set (gb_nodes gb') \<union> set (gb_queue gb')" for n
        using that I(1,2) node by (auto simp: gb')
      show "run_cache_ok topo bc (gb_cache gb')"
        using I(3) by (simp add: gb')
      show "hm_get (gb_indices gb') k = Some j \<longleftrightarrow> j < length (gb_nodes gb') \<and> node_id (gb_nodes gb' ! j) = k" for k j
        using I(4) [of k j] fresh [of j] by (auto simp: gb' nth_append less_Suc_eq)
      fix d
      assume "d \<in> set (gb_edges gb')"
      then show "edge_source d < length (gb_nodes gb')" "produced_pcol_id (edge_weight d) \<in> owned (gb_nodes gb' ! edge_source d)"
        using I(5) [of d] by (simp_all add: gb' nth_append)
    qed
    then show ?thesis
      by (simp add: gb' i)
  next
    case (Some j)
    then have gb': "gb' = gb" "i = j"
      using e by (simp_all add: ensure_node_exists_def)
    have j: "j < length (gb_nodes gb)" "node_id (gb_nodes gb ! j) = node_id node"
      using I(4) [of "node_id node" j] Some by simp_all
    then have "gb_nodes gb ! j = node"
      using nodes_apart [OF src I(1) node, of "gb_nodes gb ! j"] by fastforce
    then show ?thesis
      using inv j(1) by (simp add: gb')
  qed
  then show "graph_inv topo bc R gb'" and "i < length (gb_nodes gb')" and "gb_nodes gb' ! i = node"
    and "\<exists>ns. gb_nodes gb' = gb_nodes gb @ ns" and "gb_cache gb' = gb_cache gb"
    by blast+
qed

text \<open>The node \<open>P\<close> sits at position \<open>i\<close>, and stays there.\<close>

definition graph_at :: "toposort \<Rightarrow> build_context \<Rightarrow> runner_transform set \<Rightarrow> nat \<Rightarrow> executable_node \<Rightarrow> graph_builder \<Rightarrow> bool" where
  "graph_at topo bc R i P gb \<longleftrightarrow> graph_inv topo bc R gb \<and> i < length (gb_nodes gb) \<and> gb_nodes gb ! i = P"

lemma enqueue_inv:
  "graph_inv topo bc R gb \<Longrightarrow> node_ok topo bc R (fst ` set (gb_cache gb)) node \<Longrightarrow> graph_inv topo bc R (enqueue node gb)"
  unfolding graph_inv_def enqueue_def by auto

lemma connect_inv:
  assumes src: "build_sources bc R" and at: "graph_at topo bc R i P gb" and p: "p \<in> owned P"
    and node: "node_ok topo bc R (fst ` set (gb_cache gb)) node" and ok: "connect bc root i p t node gb = Ok gb'"
  shows "graph_at topo bc R i P gb'"
proof -
  have inv: "graph_inv topo bc R gb" and i: "i < length (gb_nodes gb)" "gb_nodes gb ! i = P"
    using at by (simp_all add: graph_at_def)
  obtain j gb1 where gb1: "ensure_node_exists node gb = (j, gb1)"
    by (cases "ensure_node_exists node gb")
  note E = ensure_node_inv [OF src inv node gb1]
  have i1: "i < length (gb_nodes gb1)" "gb_nodes gb1 ! i = P"
    using E(4) i by (auto simp: nth_append)
  obtain w gb2 where w: "build_consumer_metadata bc p t = Ok w"
    and gb2: "gb2 = (if root \<and> gb_root_metadata gb1 = None then gb1\<lparr>gb_root_metadata := Some w\<rparr> else gb1)"
    and gb': "gb' = enqueue node (gb2\<lparr>gb_edges := \<lparr>edge_source = i, edge_target = j, edge_weight = w\<rparr> # gb_edges gb2\<rparr>)"
    using ok by (auto simp: connect_def gb1 Let_def)
  have "produced_pcol_id w = p"
    using w by (auto simp: build_consumer_metadata_def split: option.splits)
  then have "graph_inv topo bc R (gb2\<lparr>gb_edges := \<lparr>edge_source = i, edge_target = j, edge_weight = w\<rparr> # gb_edges gb2\<rparr>)"
    using E(1) i1 p unfolding graph_inv_def gb2 by simp
  then have "graph_inv topo bc R gb'"
    unfolding gb' by (rule enqueue_inv) (use node E(5) in \<open>simp add: gb2\<close>)
  then show ?thesis
    using i1 by (simp add: graph_at_def gb' gb2 enqueue_def)
qed

lemma link_inv:
  assumes src: "build_sources bc R" and at: "graph_at topo bc R i P gb" and p: "p \<in> owned P" and l: "l \<in> set (links_of bc p)"
  shows "producer_link topo bc P i p l gb = Ok gb' \<Longrightarrow> graph_at topo bc R i P gb'" and "root_link topo bc i p l gb = Ok gb' \<Longrightarrow> graph_at topo bc R i P gb'"
proof -
  have inv: "graph_inv topo bc R gb" and i: "i < length (gb_nodes gb)" "gb_nodes gb ! i = P"
    using at by (simp_all add: graph_at_def)
  have P: "node_ok topo bc R (fst ` set (gb_cache gb)) P"
    using graph_invD(1) [OF inv, of P] i nth_mem by blast
  have after: "graph_at topo bc R i P (gb\<lparr>gb_cache := sc\<rparr>) \<and> node_ok topo bc R (fst ` set sc) node"
    if "resolve_consumer topo bc (cl_node l) (gb_cache gb) = Ok (node, sc)" for node sc
    using resolve_ok [OF src P p l graph_invD(3) [OF inv] that] graph_inv_cache [OF inv] i by (simp add: graph_at_def)
  show "graph_at topo bc R i P gb'" if ok: "producer_link topo bc P i p l gb = Ok gb'"
  proof -
    obtain node sc where r: "resolve_consumer topo bc (cl_node l) (gb_cache gb) = Ok (node, sc)"
      and gb': "(if node_id node = node_id P then Ok (gb\<lparr>gb_cache := sc\<rparr>) else connect bc False i p (cl_transform_id l) node (gb\<lparr>gb_cache := sc\<rparr>)) = Ok gb'"
      using ok by (auto simp: producer_link_def)
    then show ?thesis
      using after [OF r] connect_inv [OF src _ p, of topo i "gb\<lparr>gb_cache := sc\<rparr>" node False] by (auto split: if_splits)
  qed
  show "graph_at topo bc R i P gb'" if ok: "root_link topo bc i p l gb = Ok gb'"
  proof -
    obtain node sc where r: "resolve_consumer topo bc (cl_node l) (gb_cache gb) = Ok (node, sc)"
      and gb': "connect bc True i p (cl_transform_id l) node (gb\<lparr>gb_cache := sc\<rparr>) = Ok gb'"
      using ok by (auto simp: root_link_def)
    then show ?thesis
      using after [OF r] connect_inv [OF src _ p, of topo i "gb\<lparr>gb_cache := sc\<rparr>" node True] by auto
  qed
qed

text \<open>Visiting the consumers of every output of \<open>P\<close>, with either kind of link.\<close>

lemma outputs_inv:
  assumes link: "\<And>p l g g'. p \<in> owned P \<Longrightarrow> l \<in> set (links_of bc p) \<Longrightarrow> graph_at topo bc R i P g \<Longrightarrow> f p l g = Ok g' \<Longrightarrow> graph_at topo bc R i P g'"
    and at: "graph_at topo bc R i P gb" and ps: "set ps \<subseteq> owned P"
    and fold: "rfold (\<lambda>p. rfold (f p) (links_of bc p)) ps gb = Ok gb'"
  shows "graph_at topo bc R i P gb'"
proof (rule rfold_invariant [where P = "graph_at topo bc R i P", OF fold at])
  fix p g g'
  assume "p \<in> set ps" and g: "graph_at topo bc R i P g" and inner: "rfold (f p) (links_of bc p) g = Ok g'"
  then have p: "p \<in> owned P"
    using ps by blast
  show "graph_at topo bc R i P g'"
    by (rule rfold_invariant [where P = "graph_at topo bc R i P", OF inner g]) (rule link [OF p])
qed

lemma expand_node_inv:
  assumes src: "build_sources bc R" and inv: "graph_inv topo bc R gb" and P: "node_ok topo bc R (fst ` set (gb_cache gb)) P"
    and ok: "expand_node topo bc P gb = Ok gb'"
  shows "graph_inv topo bc R gb'"
proof -
  obtain i gb1 where gb1: "ensure_node_exists P gb = (i, gb1)"
    by (cases "ensure_node_exists P gb")
  have at: "graph_at topo bc R i P gb1"
    using ensure_node_inv [OF src inv P gb1] by (simp add: graph_at_def)
  have fold: "rfold (\<lambda>p. rfold (producer_link topo bc P i p) (links_of bc p)) (output_pcols P) gb1 = Ok gb'"
    using ok by (simp add: expand_node_def gb1)
  have "graph_at topo bc R i P gb'"
    by (rule outputs_inv [OF _ at output_owned [OF src P] fold]) (rule link_inv(1) [OF src])
  then show ?thesis
    by (simp add: graph_at_def)
qed

lemma work_loop_inv:
  "work_loop topo bc gb = Ok gb' \<Longrightarrow> build_sources bc R \<Longrightarrow> graph_inv topo bc R gb \<Longrightarrow> graph_inv topo bc R gb'"
proof (induction topo bc gb rule: work_loop.induct)
  case (1 topo bc gb)
  show ?case
  proof (cases "gb_queue gb")
    case Nil
    then show ?thesis
      using 1(2,4) by (simp add: work_loop.simps)
  next
    case (Cons P rest)
    then obtain gb1 where gb1: "expand_node topo bc P (gb\<lparr>gb_queue := rest\<rparr>) = Ok gb1" and loop: "work_loop topo bc gb1 = Ok gb'"
      using 1(2) by (subst (asm) work_loop.simps) auto
    have "graph_inv topo bc R (gb\<lparr>gb_queue := rest\<rparr>)" "node_ok topo bc R (fst ` set (gb_cache gb)) P"
      using 1(4) Cons unfolding graph_inv_def by simp_all
    then have "graph_inv topo bc R gb1"
      using expand_node_inv [OF 1(3) _ _ gb1] by simp
    then show ?thesis
      using 1(1) [OF Cons] gb1 loop 1(3) by blast
  qed
qed

section \<open>Where the nodes come from\<close>

abbreviation link_list :: "consumer_map \<Rightarrow> string \<Rightarrow> consumer_link list" where
  "link_list m p \<equiv> (case hm_get m p of Some ls \<Rightarrow> ls | None \<Rightarrow> [])"

lemma link_list_push: "link_list (push_link k l m) p = link_list m p @ (if p = k then [l] else [])"
  by (simp add: push_link_def split: option.split)

lemma link_list_pushes:
  "k \<in> set (link_list (fold (\<lambda>p. push_link p l) ps m) p) \<Longrightarrow> k \<in> set (link_list m p) \<or> k = l \<and> p \<in> set ps"
proof (induction ps arbitrary: m)
  case (Cons q ps)
  then have "k \<in> set (link_list (push_link q l m) p) \<or> k = l \<and> p \<in> set ps"
    by simp
  then show ?case
    unfolding link_list_push by (auto split: if_splits)
qed simp

lemma worker_links_spec:
  "l \<in> set (link_list (worker_links s m) p) \<Longrightarrow> l \<in> set (link_list m p) \<or> cl_node l = Worker s \<and> pcn_id (es_input_pcol s) = p"
proof -
  have "l \<in> set (link_list (fold (\<lambda>t m. if pcn_id (es_input_pcol s) \<in> set (map snd (pt_inputs (ptn_transform t)))
                 then push_link (pcn_id (es_input_pcol s)) \<lparr>cl_node = Worker s, cl_transform_id = pt_unique_name (ptn_transform t)\<rparr> m
                 else m) ts m) p) \<Longrightarrow> l \<in> set (link_list m p) \<or> cl_node l = Worker s \<and> pcn_id (es_input_pcol s) = p" for ts
  proof (induction ts arbitrary: m)
    case (Cons t ts)
    let ?m = "if pcn_id (es_input_pcol s) \<in> set (map snd (pt_inputs (ptn_transform t)))
      then push_link (pcn_id (es_input_pcol s)) \<lparr>cl_node = Worker s, cl_transform_id = pt_unique_name (ptn_transform t)\<rparr> m else m"
    have "l \<in> set (link_list ?m p) \<or> cl_node l = Worker s \<and> pcn_id (es_input_pcol s) = p"
      by (rule Cons.IH) (use Cons.prems in simp)
    moreover have "l \<in> set (link_list m p) \<or> cl_node l = Worker s \<and> pcn_id (es_input_pcol s) = p" if "l \<in> set (link_list ?m p)"
    proof (cases "pcn_id (es_input_pcol s) \<in> set (map snd (pt_inputs (ptn_transform t)))")
      case True
      then show ?thesis
        using that unfolding if_P [OF True] link_list_push by (auto split: if_splits)
    next
      case False
      then show ?thesis
        using that unfolding if_not_P [OF False] by blast
    qed
    ultimately show ?case
      by blast
  qed simp
  then show "l \<in> set (link_list (worker_links s m) p) \<Longrightarrow> l \<in> set (link_list m p) \<or> cl_node l = Worker s \<and> pcn_id (es_input_pcol s) = p"
    unfolding worker_links_def by blast
qed

lemma all_worker_links:
  "l \<in> set (link_list (fold worker_links sdk m) p) \<Longrightarrow> l \<in> set (link_list m p) \<or> (\<exists>s \<in> set sdk. cl_node l = Worker s \<and> pcn_id (es_input_pcol s) = p)"
proof (induction sdk arbitrary: m)
  case (Cons s sdk)
  then show ?case
    using worker_links_spec [of l s m p] by fastforce
qed simp

text \<open>The runner nodes made for a list of transforms, one identifier after the other.\<close>

fun runner_nodes :: "(nat \<Rightarrow> string) \<Rightarrow> bytes \<Rightarrow> nat \<Rightarrow> ptransform_node list \<Rightarrow> (runner_transform \<times> ptransform_node) list" where
  "runner_nodes uuid port n [] = []"
| "runner_nodes uuid port n (t # ts) =
     (case pt_spec (ptn_transform t) of
        None \<Rightarrow> runner_nodes uuid port n ts
      | Some spec \<Rightarrow>
          (case from_urn_with_payload port (uuid n) (spec_urn spec) (pt_unique_name (ptn_transform t)) (pt_inputs (ptn_transform t)) (pt_outputs (ptn_transform t)) of
             Ok r \<Rightarrow> (r, t) # runner_nodes uuid port (Suc n) ts
           | _ \<Rightarrow> []))"

lemma from_urn_fields:
  assumes "from_urn_with_payload port i urn name ins outs = Ok r"
  shows "rt_id r = i" and "set (rt_output_pcol_ids r) = snd ` set outs"
  using assms by (force simp: from_urn_with_payload_def Let_def split: if_splits)+

lemma runner_nodes_spec:
  "inj uuid \<Longrightarrow> (\<forall>(r, t) \<in> set (runner_nodes uuid port n ts). t \<in> set ts \<and> set (rt_output_pcol_ids r) = transform_outs t \<and> rt_id r \<in> uuid ` {n..})
    \<and> distinct (map (rt_id \<circ> fst) (runner_nodes uuid port n ts)) \<and> (distinct ts \<longrightarrow> distinct (map snd (runner_nodes uuid port n ts)))"
proof (induction uuid port n ts rule: runner_nodes.induct)
  case (2 uuid port n t ts)
  show ?case
  proof (cases "pt_spec (ptn_transform t)")
    case None
    then show ?thesis
      using 2(1,3) by auto
  next
    case (Some spec)
    show ?thesis
    proof (cases "from_urn_with_payload port (uuid n) (spec_urn spec) (pt_unique_name (ptn_transform t)) (pt_inputs (ptn_transform t)) (pt_outputs (ptn_transform t))")
      case (Ok r)
      let ?rs = "runner_nodes uuid port (Suc n) ts"
      have ih: "\<forall>(r, t) \<in> set ?rs. t \<in> set ts \<and> set (rt_output_pcol_ids r) = transform_outs t \<and> rt_id r \<in> uuid ` {Suc n..}"
        "distinct (map (rt_id \<circ> fst) ?rs)" "distinct ts \<longrightarrow> distinct (map snd ?rs)"
        using 2(2) [OF Some Ok 2(3)] by blast+
      note f = from_urn_fields [OF Ok]
      have "uuid n \<notin> uuid ` {Suc n..}"
        using 2(3) by (auto dest: injD)
      then have fresh: "uuid n \<notin> (rt_id \<circ> fst) ` set ?rs"
        using ih(1) by force
      have other: "t \<notin> snd ` set ?rs" if "t \<notin> set ts"
        using ih(1) that by force
      have mine: "set (rt_output_pcol_ids r) = transform_outs t" "rt_id r \<in> uuid ` {n..}"
        using f by (simp_all add: transform_outs_def)
      have old: "t' \<in> set (t # ts) \<and> set (rt_output_pcol_ids r') = transform_outs t' \<and> rt_id r' \<in> uuid ` {n..}" if rt: "(r', t') \<in> set ?rs" for r' t'
      proof -
        have "t' \<in> set ts" "set (rt_output_pcol_ids r') = transform_outs t'" "rt_id r' \<in> uuid ` {Suc n..}"
          using bspec [OF ih(1) rt] by simp_all
        then show ?thesis
          by auto
      qed
      have "t' \<in> set (t # ts) \<and> set (rt_output_pcol_ids r') = transform_outs t' \<and> rt_id r' \<in> uuid ` {n..}" if "(r', t') \<in> set ((r, t) # ?rs)" for r' t'
        using that old [of r' t'] mine by auto
      then have all: "\<forall>(r', t') \<in> set ((r, t) # ?rs). t' \<in> set (t # ts) \<and> set (rt_output_pcol_ids r') = transform_outs t' \<and> rt_id r' \<in> uuid ` {n..}"
        by blast
      have d: "distinct (map (rt_id \<circ> fst) ((r, t) # ?rs))" "distinct (t # ts) \<longrightarrow> distinct (map snd ((r, t) # ?rs))"
        using ih(2,3) f(1) fresh other by simp_all
      have eq: "runner_nodes uuid port n (t # ts) = (r, t) # ?rs"
        by (simp add: Some Ok)
      show ?thesis
        unfolding eq by (intro conjI all d)
    qed (simp_all add: Some)
  qed
qed simp

lemma runner_links_spec:
  "rfold (runner_links uuid port) ts (m, n) = Ok (m', n') \<Longrightarrow>
   n \<le> n' \<and> rt_id ` fst ` set (runner_nodes uuid port n ts) \<subseteq> uuid ` {n..<n'}
   \<and> (\<forall>p. \<forall>l \<in> set (link_list m' p). l \<in> set (link_list m p)
        \<or> (\<exists>(r, t) \<in> set (runner_nodes uuid port n ts). cl_node l = Runner r \<and> pt_inputs (ptn_transform t) \<noteq> []))"
proof (induction uuid port n ts arbitrary: m rule: runner_nodes.induct)
  case (2 uuid port n t ts)
  obtain m1 n1 where one: "runner_links uuid port t (m, n) = Ok (m1, n1)" and rest: "rfold (runner_links uuid port) ts (m1, n1) = Ok (m', n')"
    using 2(3) by auto
  show ?case
  proof (cases "pt_spec (ptn_transform t)")
    case None
    then have "m1 = m" "n1 = n"
      using one by (simp_all add: runner_links_def)
    then show ?thesis
      using 2(1) [OF None] rest None by simp
  next
    case (Some spec)
    let ?ins = "pt_inputs (ptn_transform t)"
    obtain r where r: "from_urn_with_payload port (uuid n) (spec_urn spec) (pt_unique_name (ptn_transform t)) ?ins (pt_outputs (ptn_transform t)) = Ok r"
      and m1: "m1 = fold (\<lambda>p. push_link p \<lparr>cl_node = Runner r, cl_transform_id = pt_unique_name (ptn_transform t)\<rparr>) (map snd ?ins) m" and n1: "n1 = Suc n"
      using one Some by (auto simp: runner_links_def)
    let ?rs = "runner_nodes uuid port (Suc n) ts"
    have rs: "runner_nodes uuid port n (t # ts) = (r, t) # ?rs"
      by (simp add: Some r)
    have ih: "Suc n \<le> n'" "rt_id ` fst ` set ?rs \<subseteq> uuid ` {Suc n..<n'}"
      "\<forall>p. \<forall>l \<in> set (link_list m' p). l \<in> set (link_list m1 p) \<or> (\<exists>(r, t) \<in> set ?rs. cl_node l = Runner r \<and> pt_inputs (ptn_transform t) \<noteq> [])"
      using 2(2) [OF Some r] rest n1 by blast+
    have new: "l \<in> set (link_list m p) \<or> cl_node l = Runner r \<and> ?ins \<noteq> []" if "l \<in> set (link_list m1 p)" for l p
      using link_list_pushes [OF that [unfolded m1]] by auto
    have "rt_id r \<in> uuid ` {n..<n'}" "uuid ` {Suc n..<n'} \<subseteq> uuid ` {n..<n'}"
      using from_urn_fields(1) [OF r] ih(1) by auto
    then have "rt_id ` fst ` set (runner_nodes uuid port n (t # ts)) \<subseteq> uuid ` {n..<n'}"
      using ih(2) unfolding rs by auto
    moreover have "l \<in> set (link_list m p) \<or> (\<exists>(r, t) \<in> set ((r, t) # ?rs). cl_node l = Runner r \<and> pt_inputs (ptn_transform t) \<noteq> [])"
      if "l \<in> set (link_list m' p)" for l p
    proof -
      from ih(3) that consider "l \<in> set (link_list m1 p)" | r' t' where "(r', t') \<in> set ?rs" "cl_node l = Runner r'" "pt_inputs (ptn_transform t') \<noteq> []"
        by blast
      then show ?thesis
      proof cases
        case 1
        then show ?thesis
          using new [OF 1] by auto
      next
        case 2
        then show ?thesis
          by (intro disjI2 bexI [of _ "(r', t')"]) simp_all
      qed
    qed
    ultimately show ?thesis
      using ih(1) unfolding rs by simp
  qed
qed simp

lemma add_roots_inv:
  "rfold (add_root uuid port topo bc) ts (gb, n) = Ok (gb', n') \<Longrightarrow> build_sources bc R \<Longrightarrow>
   fst ` set (runner_nodes uuid port n ts) \<subseteq> R \<Longrightarrow> graph_inv topo bc R gb \<Longrightarrow> graph_inv topo bc R gb'"
proof (induction uuid port n ts arbitrary: gb rule: runner_nodes.induct)
  case (2 uuid port n t ts)
  obtain gb1 n1 where one: "add_root uuid port topo bc t (gb, n) = Ok (gb1, n1)" and rest: "rfold (add_root uuid port topo bc) ts (gb1, n1) = Ok (gb', n')"
    using 2(3) by auto
  show ?case
  proof (cases "pt_spec (ptn_transform t)")
    case None
    then have "gb1 = gb" "n1 = n"
      using one by (simp_all add: add_root_def)
    then show ?thesis
      using 2(1) [OF None] rest None 2(4-6) by simp
  next
    case (Some spec)
    obtain r where r: "from_urn_with_payload port (uuid n) (spec_urn spec) (pt_unique_name (ptn_transform t)) (pt_inputs (ptn_transform t)) (pt_outputs (ptn_transform t)) = Ok r"
      using one Some by (auto simp: add_root_def)
    obtain i gb2 where gb2: "ensure_node_exists (Runner r) gb = (i, gb2)"
      by (cases "ensure_node_exists (Runner r) gb")
    let ?gb3 = "gb2\<lparr>gb_queued := List.insert (rt_id r) (gb_queued gb2)\<rparr>" and ?ps = "map snd (pt_outputs (ptn_transform t))"
    have fold: "rfold (\<lambda>p. rfold (root_link topo bc i p) (links_of bc p)) ?ps ?gb3 = Ok gb1" and n1: "n1 = Suc n"
      using one Some r gb2 by (auto simp: add_root_def Let_def)
    have R: "r \<in> R" "fst ` set (runner_nodes uuid port (Suc n) ts) \<subseteq> R"
      using 2(5) by (simp_all add: Some r)
    then have node: "node_ok topo bc R (fst ` set (gb_cache gb)) (Runner r)"
      by (simp add: node_ok_def)
    note E = ensure_node_inv [OF 2(4,6) node gb2]
    have at: "graph_at topo bc R i (Runner r) ?gb3"
      using E(1-3) by (simp add: graph_at_def graph_inv_def)
    have "set ?ps \<subseteq> owned (Runner r)"
      using from_urn_fields(2) [OF r] by (simp add: owned_def)
    then have "graph_at topo bc R i (Runner r) gb1"
      by (rule outputs_inv [OF _ at _ fold, rotated]) (rule link_inv(2) [OF 2(4)])
    then have "graph_inv topo bc R gb1"
      by (simp add: graph_at_def)
    then show ?thesis
      using 2(2) [OF Some r] rest n1 2(4) R(2) by blast
  qed
qed simp

section \<open>The sources of a fused pipeline\<close>

lemma disjoint_of_list:
  "sorted_wrt (\<lambda>A B. A \<inter> B = {}) (map f xs) \<Longrightarrow> x \<in> set xs \<Longrightarrow> y \<in> set xs \<Longrightarrow> x \<noteq> y \<Longrightarrow> f x \<inter> f y = {}"
  by (induction xs) auto

text \<open>Consuming runner transforms come from the consumer map, the roots are made after it.\<close>

definition runner_set :: "(nat \<Rightarrow> string) \<Rightarrow> bytes \<Rightarrow> nat \<Rightarrow> nat \<Rightarrow> ptransform_node list \<Rightarrow> runner_transform set" where
  "runner_set uuid port n n1 runner =
     {r. \<exists>t. (r, t) \<in> set (runner_nodes uuid port n runner) \<and> pt_inputs (ptn_transform t) \<noteq> []}
     \<union> fst ` set (runner_nodes uuid port n1 (get_roots runner))"

lemma runner_set_cases:
  assumes "r \<in> runner_set uuid port n n1 runner"
  obtains (consuming) t where "(r, t) \<in> set (runner_nodes uuid port n runner)" "pt_inputs (ptn_transform t) \<noteq> []"
  | (root) t where "(r, t) \<in> set (runner_nodes uuid port n1 (get_roots runner))"
  using assms by (auto simp: runner_set_def)

lemma runner_set_origin:
  assumes inj: "inj uuid" and le: "n \<le> n1" and ids: "rt_id ` fst ` set (runner_nodes uuid port n runner) \<subseteq> uuid ` {n..<n1}"
    and r: "r \<in> runner_set uuid port n n1 runner"
  obtains t where "t \<in> set runner" "set (rt_output_pcol_ids r) = transform_outs t" "rt_id r \<in> uuid ` {n..}"
    "(r, t) \<in> set (runner_nodes uuid port n runner) \<and> pt_inputs (ptn_transform t) \<noteq> [] \<and> rt_id r \<in> uuid ` {n..<n1}
      \<or> (r, t) \<in> set (runner_nodes uuid port n1 (get_roots runner)) \<and> pt_inputs (ptn_transform t) = [] \<and> rt_id r \<in> uuid ` {n1..}"
  using r
proof (cases rule: runner_set_cases)
  case (consuming t)
  have "t \<in> set runner" "set (rt_output_pcol_ids r) = transform_outs t" "rt_id r \<in> uuid ` {n..}"
    using bspec [OF conjunct1 [OF runner_nodes_spec [OF inj]] consuming(1)] by simp_all
  moreover have "rt_id r \<in> uuid ` {n..<n1}"
    by (rule subsetD [OF ids]) (use consuming(1) in force)
  ultimately show thesis
    using that [of t] consuming by blast
next
  case (root t)
  have t: "t \<in> set (get_roots runner)" "set (rt_output_pcol_ids r) = transform_outs t" "rt_id r \<in> uuid ` {n1..}"
    using bspec [OF conjunct1 [OF runner_nodes_spec [OF inj]] root] by simp_all
  then have "t \<in> set runner" "pt_inputs (ptn_transform t) = []"
    by (simp_all add: get_roots_def)
  moreover have "uuid ` {n1..} \<subseteq> uuid ` {n..}"
    using le by auto
  ultimately show thesis
    using that [of t] t(2,3) root by blast
qed

lemma pair_by_key: "distinct (map f xs) \<Longrightarrow> x \<in> set xs \<Longrightarrow> y \<in> set xs \<Longrightarrow> f x = f y \<Longrightarrow> x = y"
  by (auto simp: distinct_map dest: inj_onD)

lemma runner_set_apart:
  assumes inj: "inj uuid" and le: "n \<le> n1" and ids: "rt_id ` fst ` set (runner_nodes uuid port n runner) \<subseteq> uuid ` {n..<n1}"
    and distinct: "distinct runner" and outs: "sorted_wrt (\<lambda>A B. A \<inter> B = {}) (map transform_outs runner)"
    and r: "r \<in> runner_set uuid port n n1 runner" and r': "r' \<in> runner_set uuid port n n1 runner" and "r \<noteq> r'"
  shows "rt_id r \<noteq> rt_id r'" and "set (rt_output_pcol_ids r) \<inter> set (rt_output_pcol_ids r') = {}"
proof -
  let ?N = "runner_nodes uuid port n runner" and ?M = "runner_nodes uuid port n1 (get_roots runner)"
  obtain t where t: "t \<in> set runner" "set (rt_output_pcol_ids r) = transform_outs t"
    and tN: "(r, t) \<in> set ?N \<and> pt_inputs (ptn_transform t) \<noteq> [] \<and> rt_id r \<in> uuid ` {n..<n1}
      \<or> (r, t) \<in> set ?M \<and> pt_inputs (ptn_transform t) = [] \<and> rt_id r \<in> uuid ` {n1..}"
    by (rule runner_set_origin [OF inj le ids r]) blast
  obtain t' where t': "t' \<in> set runner" "set (rt_output_pcol_ids r') = transform_outs t'"
    and tN': "(r', t') \<in> set ?N \<and> pt_inputs (ptn_transform t') \<noteq> [] \<and> rt_id r' \<in> uuid ` {n..<n1}
      \<or> (r', t') \<in> set ?M \<and> pt_inputs (ptn_transform t') = [] \<and> rt_id r' \<in> uuid ` {n1..}"
    by (rule runner_set_origin [OF inj le ids r']) blast
  have "distinct (get_roots runner)"
    using distinct by (simp add: get_roots_def)
  then have d: "distinct (map (rt_id \<circ> fst) ?N)" "distinct (map snd ?N)" "distinct (map (rt_id \<circ> fst) ?M)" "distinct (map snd ?M)"
    using runner_nodes_spec [OF inj, of port n runner] runner_nodes_spec [OF inj, of port n1 "get_roots runner"] distinct by simp_all
  have sep: "uuid ` {n..<n1} \<inter> uuid ` {n1..} = {}"
    using inj by (auto dest: injD)
  have same: "t \<noteq> t'"
  proof
    assume "t = t'"
    then have "(r, t) \<in> set ?N \<and> (r', t) \<in> set ?N \<or> (r, t) \<in> set ?M \<and> (r', t) \<in> set ?M"
      using tN tN' by blast
    then show False
      using pair_by_key [OF d(2), of "(r, t)" "(r', t)"] pair_by_key [OF d(4), of "(r, t)" "(r', t)"] \<open>r \<noteq> r'\<close> by auto
  qed
  show "rt_id r \<noteq> rt_id r'"
  proof
    assume eq: "rt_id r = rt_id r'"
    then have "(r, t) \<in> set ?N \<and> (r', t') \<in> set ?N \<or> (r, t) \<in> set ?M \<and> (r', t') \<in> set ?M"
      using tN tN' sep by auto
    then show False
      using pair_by_key [OF d(1), of "(r, t)" "(r', t')"] pair_by_key [OF d(3), of "(r, t)" "(r', t')"] eq \<open>r \<noteq> r'\<close> by auto
  qed
  show "set (rt_output_pcol_ids r) \<inter> set (rt_output_pcol_ids r') = {}"
    unfolding t(2) t'(2) by (rule disjoint_of_list [OF outs t(1) t'(1) same])
qed

lemma sources_of_fused:
  assumes inj: "inj uuid" and chars: "\<And>k. CHR '':'' \<notin> set (uuid k) \<and> CHR '','' \<notin> set (uuid k)"
    and sdk: "distinct (map es_id sdk)" "es_id ` set sdk \<subseteq> uuid ` {..<n}" and runner: "distinct runner"
    and outs: "sorted_wrt (\<lambda>A B. A \<inter> B = {}) (map produced_ids sdk @ map transform_outs runner)"
    and links: "rfold (runner_links uuid port) runner (fold worker_links sdk [], n) = Ok (bc_consumers bc, n1)"
    and bc: "bc_sdk_stages bc = sdk"
  shows "build_sources bc (runner_set uuid port n n1 runner)"
proof -
  let ?R = "runner_set uuid port n n1 runner"
  note spec = runner_links_spec [OF links]
  have le: "n \<le> n1" and ids: "rt_id ` fst ` set (runner_nodes uuid port n runner) \<subseteq> uuid ` {n..<n1}"
    using spec by blast+
  have outs': "sorted_wrt (\<lambda>A B. A \<inter> B = {}) (map produced_ids sdk)" "sorted_wrt (\<lambda>A B. A \<inter> B = {}) (map transform_outs runner)"
    and cross: "\<And>s t. s \<in> set sdk \<Longrightarrow> t \<in> set runner \<Longrightarrow> produced_ids s \<inter> transform_outs t = {}"
    using outs by (simp_all add: sorted_wrt_append)
  note apart = runner_set_apart [OF inj le ids runner outs'(2)]
  have ids_R: "rt_id r \<in> uuid ` {n..}" if "r \<in> ?R" for r
    by (rule runner_set_origin [OF inj le ids that])
  have f1: "inj_on es_id (set sdk)"
    using sdk(1) by (simp add: distinct_map)
  have f2: "inj_on rt_id ?R"
    using apart(1) by (meson inj_onI)
  have f3: "es_id s \<noteq> rt_id r \<and> produced_ids s \<inter> set (rt_output_pcol_ids r) = {}" if s: "s \<in> set sdk" and r: "r \<in> ?R" for s r
  proof
    have "uuid ` {..<n} \<inter> uuid ` {n..} = {}"
      using inj by (auto dest: injD)
    then show "es_id s \<noteq> rt_id r"
      using subsetD [OF sdk(2) imageI [OF s]] ids_R [OF r] by (metis disjoint_iff)
    show "produced_ids s \<inter> set (rt_output_pcol_ids r) = {}"
      by (rule runner_set_origin [OF inj le ids r]) (use cross [OF s] in simp)
  qed
  have f4: "produced_ids s \<inter> produced_ids t = {}" if "s \<in> set sdk" "t \<in> set sdk" "s \<noteq> t" for s t
    by (rule disjoint_of_list [OF outs'(1) that])
  have f5: "CHR '':'' \<notin> set i \<and> CHR '','' \<notin> set i" if i: "i \<in> es_id ` set sdk \<union> rt_id ` ?R" for i
  proof -
    have "i \<in> range uuid"
      using i
    proof
      assume "i \<in> es_id ` set sdk"
      then show ?thesis
        using subsetD [OF sdk(2)] by blast
    next
      assume "i \<in> rt_id ` ?R"
      then show ?thesis
        using ids_R by blast
    qed
    then show ?thesis
      using chars by auto
  qed
  have f6: "(\<exists>s \<in> set sdk. cl_node l = Worker s \<and> pcn_id (es_input_pcol s) = p) \<or> (\<exists>r \<in> ?R. cl_node l = Runner r)"
    if l: "l \<in> set (links_of bc p)" for l p
  proof -
    have "l \<in> set (link_list (bc_consumers bc) p)"
      using l by (simp add: links_of_def)
    with spec consider "l \<in> set (link_list (fold worker_links sdk []) p)"
      | r t where "(r, t) \<in> set (runner_nodes uuid port n runner)" "cl_node l = Runner r" "pt_inputs (ptn_transform t) \<noteq> []"
      by blast
    then show ?thesis
    proof cases
      case 1
      then show ?thesis
        using all_worker_links [OF 1] by simp
    next
      case 2
      then have "r \<in> ?R"
        by (auto simp: runner_set_def)
      then show ?thesis
        using 2(2) by blast
    qed
  qed
  show ?thesis
    unfolding build_sources_def bc by (intro conjI [OF f1] conjI [OF f2] conjI ballI allI impI)
      (simp_all only: f3 f4 f5 f6 apart(2) simp_thms)
qed

section \<open>The graph is fit for the scheduler\<close>

lemma distinct_sort_dedup: "distinct (sort_dedup xs)"
proof -
  have "distinct (remdups_adj ys)" if "sorted ys" for ys :: "string list"
    using that by (induction ys rule: remdups_adj.induct) auto
  then show ?thesis
    by (simp add: sort_dedup_def)
qed

lemma distinct_enumerated:
  assumes "\<And>i. i < length xs \<Longrightarrow> distinct (f i (xs ! i))"
    and "\<And>i j. i < j \<Longrightarrow> j < length xs \<Longrightarrow> set (f i (xs ! i)) \<inter> set (f j (xs ! j)) = {}"
  shows "distinct (concat (map (\<lambda>(i, x). f i x) (enumerate 0 xs)))"
  using assms
proof (induction xs rule: rev_induct)
  case (snoc x xs)
  have "distinct (concat (map (\<lambda>(i, x). f i x) (enumerate 0 xs)))"
  proof (rule snoc.IH)
    show "distinct (f i (xs ! i))" if "i < length xs" for i
      using snoc.prems(1) [of i] that by (simp add: nth_append)
    show "set (f i (xs ! i)) \<inter> set (f j (xs ! j)) = {}" if "i < j" "j < length xs" for i j
      using snoc.prems(2) [of i j] that by (simp add: nth_append)
  qed
  moreover have "distinct (f (length xs) x)"
    using snoc.prems(1) [of "length xs"] by simp
  moreover have "set (f i (xs ! i)) \<inter> set (f (length xs) x) = {}" if "i < length xs" for i
    using snoc.prems(2) [of i "length xs"] that by (simp add: nth_append)
  ultimately show ?case
    by (fastforce simp: enumerate_append_eq in_set_enumerate_eq)
qed simp

lemma graph_inv_ok:
  assumes src: "build_sources bc R" and inv: "graph_inv topo bc R gb"
    and g: "graph_nodes g = gb_nodes gb" "graph_edges g = gb_edges gb"
  shows "graph_ok g"
proof -
  note I = graph_invD [OF inv]
  let ?ns = "gb_nodes gb"
  have diff: "?ns ! i \<noteq> ?ns ! j \<and> node_id (?ns ! i) \<noteq> node_id (?ns ! j)" if "i < length ?ns" "j < length ?ns" "i \<noteq> j" for i j
    using I(4) [of "node_id (?ns ! i)" i] I(4) [of "node_id (?ns ! i)" j] that by auto
  have outs: "set (node_outs g i (?ns ! i)) \<subseteq> owned (?ns ! i)" if i: "i < length ?ns" for i
  proof -
    have "set (output_pcols (?ns ! i)) \<subseteq> owned (?ns ! i)"
      by (rule output_owned [OF src I(1)]) (simp add: i)
    moreover have "produced_pcol_id (edge_weight e) \<in> owned (?ns ! i)" if "e \<in> set (outgoing g i)" for e
      using I(5) [of e] that g(2) by (auto simp: outgoing_def)
    ultimately show ?thesis
      by (auto simp: node_outs_def)
  qed
  have "set (node_outs g i (?ns ! i)) \<inter> set (node_outs g j (?ns ! j)) = {}" if ij: "i < j" "j < length ?ns" for i j
  proof -
    have "owned (?ns ! i) \<inter> owned (?ns ! j) = {}"
      using nodes_apart [OF src I(1) I(1), of "?ns ! i" "?ns ! j"] diff [of i j] ij by simp
    then show ?thesis
      using outs [of i] outs [of j] ij by fastforce
  qed
  then have "distinct (concat (map (\<lambda>(i, node). node_outs g i node) (enumerate 0 ?ns)))"
    by (intro distinct_enumerated) (simp_all add: node_outs_def distinct_sort_dedup)
  moreover have "distinct (map node_id ?ns)"
    using diff by (simp add: distinct_conv_nth)
  ultimately show ?thesis
    by (simp add: graph_ok_def g)
qed

text \<open>
  From a pipeline definition to the scheduler. Whatever graph is built from a fused
  pipeline, its nodes (stages, runner transforms and whole splittable runs) have distinct
  identifiers and no PCollection is produced by two of them, so that the watermark manager
  derived from it is one the scheduler's invariants hold for. The pipeline's transforms
  write known PCollections, and the identifiers drawn for stages do not repeat and contain
  neither a colon nor a comma, as UUIDs do not.
\<close>

lemma built_graph_single_producer:
  assumes inj: "inj uuid" and chars: "\<And>k. CHR '':'' \<notin> set (uuid k) \<and> CHR '','' \<notin> set (uuid k)"
    and known: "outputs_known comps" and fused: "fuse_pipeline uuid fuel dec comps = Some (Ok (fp, n))"
    and built: "build_executable_graph uuid port topo n (fp_components fp) (fp_sdk_stages fp) (fp_runner_stages fp) = Ok (g, n')"
  shows "distinct (map node_id (graph_nodes g))
    \<and> distinct (concat (map (\<lambda>(i, node). node_outs g i node) (enumerate 0 (graph_nodes g))))
    \<and> wm_reachable (from_executable_graph dec g)"
proof -
  obtain q s dr where run: "fusion_run uuid q s dr fp n"
    by (rule fuse_pipeline_run [OF inj known fused])
  have sdk: "distinct (map es_id (fp_sdk_stages fp))" "es_id ` set (fp_sdk_stages fp) \<subseteq> uuid ` {..<n}"
    and runner: "fp_runner_stages fp = get_runner_stages dr (fs_unfused s)"
    using run unfolding fusion_run_def by blast+
  have "distinct (map ptn_id (fp_runner_stages fp))"
    unfolding runner get_runner_stages_def by (intro distinct_ext_by) simp
  then have "distinct (fp_runner_stages fp)"
    by (simp add: distinct_map)
  note sources = sources_of_fused [OF inj chars sdk this fusion_run_producers [OF run]]
  obtain consumers n1 gb0 n2 gb where links: "rfold (runner_links uuid port) (fp_runner_stages fp) (fold worker_links (fp_sdk_stages fp) [], n) = Ok (consumers, n1)"
    and roots: "rfold (add_root uuid port topo \<lparr>bc_components = fp_components fp, bc_sdk_stages = fp_sdk_stages fp, bc_runner_stages = fp_runner_stages fp,
        bc_consumers = consumers, bc_side_inputs = side_input_pcollections (fp_sdk_stages fp)\<rparr>) (get_roots (fp_runner_stages fp))
        (\<lparr>gb_nodes = [], gb_edges = [], gb_indices = [], gb_root_metadata = None, gb_cache = [], gb_queue = [], gb_queued = []\<rparr>, n1) = Ok (gb0, n2)"
    and loop: "work_loop topo \<lparr>bc_components = fp_components fp, bc_sdk_stages = fp_sdk_stages fp, bc_runner_stages = fp_runner_stages fp,
        bc_consumers = consumers, bc_side_inputs = side_input_pcollections (fp_sdk_stages fp)\<rparr> gb0 = Ok gb"
    and g: "graph_nodes g = gb_nodes gb" "graph_edges g = gb_edges gb"
    using built by (auto simp: build_executable_graph_def Let_def)
  let ?bc = "\<lparr>bc_components = fp_components fp, bc_sdk_stages = fp_sdk_stages fp, bc_runner_stages = fp_runner_stages fp,
        bc_consumers = consumers, bc_side_inputs = side_input_pcollections (fp_sdk_stages fp)\<rparr>"
  let ?R = "runner_set uuid port n n1 (fp_runner_stages fp)"
  have src: "build_sources ?bc ?R"
    by (rule sources) (simp_all add: links)
  have "graph_inv topo ?bc ?R gb0"
    by (rule add_roots_inv [OF roots src]) (simp_all add: runner_set_def graph_inv_def run_cache_ok_def)
  then have "graph_inv topo ?bc ?R gb"
    by (rule work_loop_inv [OF loop src])
  then have ok: "graph_ok g"
    by (rule graph_inv_ok [OF src _ g])
  show ?thesis
    using ok from_executable_graph_reachable(1) [OF ok] by (simp add: graph_ok_def)
qed

lemma show_nat_digits: "c \<in> set (show_nat n) \<Longrightarrow> \<exists>d < 10. c = digit_char d"
proof (induction n rule: show_nat.induct)
  case (1 n)
  show ?case
  proof (cases "n < 10")
    case False
    then have "c \<in> set (show_nat (n div 10)) \<or> c = digit_char (n mod 10)"
      using 1(2) by (subst (asm) show_nat.simps) auto
    then show ?thesis
    proof
      assume "c = digit_char (n mod 10)"
      then show ?thesis
        by (intro exI [of _ "n mod 10"]) simp
    qed (rule 1(1) [OF False])
  qed (use 1(2) in \<open>subst (asm) show_nat.simps, auto\<close>)
qed

lemma show_nat_plain: "CHR '':'' \<notin> set (show_nat k) \<and> CHR '','' \<notin> set (show_nat k)"
proof -
  have "digit_char d \<noteq> CHR '':'' \<and> digit_char d \<noteq> CHR '',''" if "d < 10" for d
  proof -
    have "(of_char (digit_char d) :: nat) = 48 + d"
      using that by (simp add: digit_char_def)
    then show ?thesis
      using that by auto
  qed
  then show ?thesis
    using show_nat_digits [of _ k] by metis
qed

end
