(* ===== verification/Job.thy ===== *)
theory Job
  imports Expander Graph_Props
begin

text \<open>
  From a submitted pipeline to its executable graph (\<open>Job::create_job\<close> of
  \<open>jobservice/job.rs\<close>): splittable ParDos are expanded, the pipeline is fused, and the graph
  is built from what fusion returns. Debug files and logging are left out.
\<close>

text \<open>\<open>Result::unwrap\<close>\<close>

fun unwrap :: "('e, 'a) rust \<Rightarrow> ('f, 'a) rust" where
  "unwrap (Ok x) = Ok x"
| "unwrap (Err e) = Panic"
| "unwrap Panic = Panic"

lemma unwrap_Ok [simp]: "unwrap r = Ok x \<longleftrightarrow> r = Ok x"
  by (cases r) simp_all

definition plain_decoder :: "splittable_decoder \<Rightarrow> pardo_decoder" where
  "plain_decoder dec bs = map_option pardo_payload.truncate (dec bs)"

text \<open>
  \<open>fuel\<close> bounds the recursion over subtransforms and runner transforms, which a cyclic
  pipeline would make endless.
\<close>

definition create_job :: "(nat \<Rightarrow> string) \<Rightarrow> bytes \<Rightarrow> toposort \<Rightarrow> nat \<Rightarrow> splittable_decoder \<Rightarrow> components
   \<Rightarrow> (executable_graph \<times> nat) translation option" where
  "create_job uuid port topo fuel dec comps =
     Option.bind (update_transform fuel PAR_DO_TRANSFORM (get_replacement dec False) comps) (\<lambda>r.
       case r of
         Ok comps' \<Rightarrow>
           map_option (\<lambda>f. rbind (unwrap f) (\<lambda>(fp, n).
               build_executable_graph uuid port topo n (fp_components fp) (fp_sdk_stages fp) (fp_runner_stages fp)))
             (fuse_pipeline uuid fuel (plain_decoder dec) comps')
       | Err e \<Rightarrow> Some (Err e)
       | Panic \<Rightarrow> Some Panic)"

text \<open>
  C14: from a submitted pipeline to the scheduler. Whatever graph a job gets, after
  splittable ParDos were expanded and the pipeline was fused, its nodes (stages, runner
  transforms and whole splittable runs) have distinct identifiers and no PCollection is
  produced by two of them, so that the watermark manager derived from it is one that the
  invariants of the scheduler hold for. The transforms of the pipeline read and write known
  PCollections, and the identifiers drawn for stages do not repeat and contain neither a
  colon nor a comma, as UUIDs do not.
\<close>

theorem created_job_graph_ok:
  assumes "inj uuid" and "\<And>k. CHR '':'' \<notin> set (uuid k) \<and> CHR '','' \<notin> set (uuid k)"
    and "pipeline_ok dec comps" and "outputs_known comps" and "create_job uuid port topo (Suc fuel) dec comps = Some (Ok (g, n))"
  shows "distinct (map node_id (graph_nodes g))
    \<and> distinct (concat (map (\<lambda>(i, node). node_outs g i node) (enumerate 0 (graph_nodes g))))
    \<and> wm_reachable (from_executable_graph (plain_decoder dec) g)"
proof -
  obtain comps' fp k where expand: "update_transform (Suc fuel) PAR_DO_TRANSFORM (get_replacement dec False) comps = Some (Ok comps')"
    and fuse: "fuse_pipeline uuid (Suc fuel) (plain_decoder dec) comps' = Some (Ok (fp, k))"
    and build: "build_executable_graph uuid port topo k (fp_components fp) (fp_sdk_stages fp) (fp_runner_stages fp) = Ok (g, n)"
    using assms(5) unfolding create_job_def bind_eq_Some_conv
    by (elim exE conjE, rename_tac r, case_tac r) auto
  show ?thesis
    by (rule built_graph_single_producer [OF assms(1,2) expansion_keeps_outputs [OF assms(3,4) expand] fuse build])
qed

definition sdf_source_pipeline :: components where
  "sdf_source_pipeline =
     \<lparr>c_transforms = [sample_transform ''i'' IMPULSE_TRANSFORM [] [''p''], sdf_pardo ''r'' [2] [(''in'', ''p'')] [(''main'', ''s'')]],
      c_pcollections = map sample_collection [''p'', ''s''],
      c_windowing_strategies = [], c_coders = [], c_environments = [(''e'', sample_env)]\<rparr>"

definition sdf_job :: "(executable_graph \<times> nat) translation option" where
  "sdf_job = create_job show_nat [] (\<lambda>n es. Some [0..<n]) 9 sdf_decoder sdf_source_pipeline"

lemma sdf_job_created:
  "case sdf_job of Some (Ok (g, _)) \<Rightarrow> map node_id (graph_nodes g) = [''3'', ''splittable:0,1''] | _ \<Rightarrow> False"
  by code_simp

theorem created_job_graph_ok_witness:
  "\<exists>g n. sdf_job = Some (Ok (g, n)) \<and> map node_id (graph_nodes g) = [''3'', ''splittable:0,1'']
    \<and> wm_reachable (from_executable_graph (plain_decoder sdf_decoder) g)"
proof -
  obtain g n where g: "sdf_job = Some (Ok (g, n))" "map node_id (graph_nodes g) = [''3'', ''splittable:0,1'']"
    using sdf_job_created by (auto split: option.splits rust.splits)
  have ok: "pipeline_ok sdf_decoder sdf_source_pipeline" and known: "outputs_known sdf_source_pipeline"
    by code_simp+
  have "create_job show_nat [] (\<lambda>n es. Some [0..<n]) (Suc 8) sdf_decoder sdf_source_pipeline = Some (Ok (g, n))"
    using g(1) by (simp add: sdf_job_def)
  then have "wm_reachable (from_executable_graph (plain_decoder sdf_decoder) g)"
    using created_job_graph_ok [OF inj_show_nat show_nat_plain ok known] by blast
  with g show ?thesis
    by (intro exI conjI)
qed

end
