(* ===== verification/Trigger.thy ===== *)
theory Trigger
  imports Windows "HOL-Library.Extended_Nat"
begin

text \<open>
  Beam triggers, \<open>engine/trigger.rs\<close>: the trigger tree parsed from the windowing strategy,
  its per-window state, and the three functions that run it (\<open>element\<close>, \<open>should_fire\<close>,
  \<open>fire\<close>). Indexing a node's children out of range would panic, so the functions return
  options; \<open>shaped\<close> is the invariant under which they never do. \<open>remaining\<close> bounds how
  often a trigger can still fire.
\<close>

section \<open>The trigger message\<close>

text \<open>The generated protobuf types, as far as \<open>Trigger::from_proto\<close> reads them.\<close>

datatype timestamp_transform = Delay int | AlignTo int int

datatype trigger_proto = TriggerProto "trigger_oneof option"
  and trigger_oneof =
    ProtoDefault
  | ProtoNever
  | ProtoAlways
  | ProtoElementCount int
  | ProtoAfterProcessingTime "timestamp_transform option list"
  | ProtoAfterSynchronizedProcessingTime
  | ProtoAfterEndOfWindow "trigger_proto option" "trigger_proto option"
  | ProtoAfterAll "trigger_proto list"
  | ProtoAfterAny "trigger_proto list"
  | ProtoAfterEach "trigger_proto list"
  | ProtoRepeat "trigger_proto option"
  | ProtoOrFinally "trigger_proto option" "trigger_proto option"

section \<open>Triggers\<close>

datatype trigger =
    Default
  | Never
  | Always
  | ElementCount nat
  | AfterProcessingTime int
  | AfterSynchronizedProcessingTime
  | AfterWatermark "trigger option" "trigger option"
  | AfterAll "trigger list"
  | AfterAny "trigger list"
  | AfterEach "trigger list"
  | Repeat trigger
  | OrFinally trigger trigger

definition total_delay_millis :: "timestamp_transform option list \<Rightarrow> int" where
  "total_delay_millis ts =
     foldl (\<lambda>total t. case t of Some (Delay d) \<Rightarrow> wrap_i64 (total + max d 0) | _ \<Rightarrow> total) 0 ts"

fun from_proto :: "trigger_proto option \<Rightarrow> trigger" and
  from_oneof :: "trigger_oneof \<Rightarrow> trigger" where
  "from_proto None = Default"
| "from_proto (Some (TriggerProto None)) = Default"
| "from_proto (Some (TriggerProto (Some inner))) = from_oneof inner"
| "from_oneof ProtoDefault = Default"
| "from_oneof ProtoNever = Never"
| "from_oneof ProtoAlways = Always"
| "from_oneof (ProtoElementCount n) = ElementCount (nat (max n 1))"
| "from_oneof (ProtoAfterProcessingTime ts) = AfterProcessingTime (total_delay_millis ts)"
| "from_oneof ProtoAfterSynchronizedProcessingTime = AfterSynchronizedProcessingTime"
| "from_oneof (ProtoAfterEndOfWindow early late) =
     AfterWatermark (map_option (\<lambda>t. from_proto (Some t)) early) (map_option (\<lambda>t. from_proto (Some t)) late)"
| "from_oneof (ProtoAfterAll subs) = AfterAll (map (\<lambda>t. from_proto (Some t)) subs)"
| "from_oneof (ProtoAfterAny subs) = AfterAny (map (\<lambda>t. from_proto (Some t)) subs)"
| "from_oneof (ProtoAfterEach subs) = AfterEach (map (\<lambda>t. from_proto (Some t)) subs)"
| "from_oneof (ProtoRepeat sub) = Repeat (from_proto sub)"
| "from_oneof (ProtoOrFinally main fin) = OrFinally (from_proto main) (from_proto fin)"

datatype accumulation_mode = Discarding | Accumulating | Retracting

text \<open>Enum values of the pipeline protocol: 1 discarding, 2 accumulating, 3 retracting.\<close>

definition accumulation_from_proto :: "int \<Rightarrow> accumulation_mode" where
  "accumulation_from_proto v = (if v = 2 \<or> v = 3 then Accumulating else Discarding)"

datatype output_time_kind = EndOfWindow | LatestInPane | EarliestInPane

definition output_time_from_proto :: "int \<Rightarrow> output_time_kind" where
  "output_time_from_proto v = (if v = 2 then LatestInPane else if v = 3 then EarliestInPane else EndOfWindow)"

record windowing_strategy =
  ws_trigger :: "trigger_proto option"
  ws_accumulation_mode :: int
  ws_output_time :: int
  ws_allowed_lateness :: int

record trigger_spec =
  spec_trigger :: trigger
  spec_accumulation :: accumulation_mode
  spec_output_time :: output_time_kind
  spec_allowed_lateness :: int

definition from_windowing_strategy :: "windowing_strategy option \<Rightarrow> trigger_spec" where
  "from_windowing_strategy s =
     (case s of
        None \<Rightarrow> \<lparr>spec_trigger = Default, spec_accumulation = Discarding,
                 spec_output_time = EndOfWindow, spec_allowed_lateness = 0\<rparr>
      | Some st \<Rightarrow> \<lparr>spec_trigger = from_proto (ws_trigger st),
                    spec_accumulation = accumulation_from_proto (ws_accumulation_mode st),
                    spec_output_time = output_time_from_proto (ws_output_time st),
                    spec_allowed_lateness = ws_allowed_lateness st\<rparr>)"

definition earliest_completion :: "trigger_spec \<Rightarrow> int \<Rightarrow> int" where
  "earliest_completion spec window_end = saturating_add window_end (spec_allowed_lateness spec)"

record trigger_context =
  end_of_window :: bool
  expired :: bool
  processing_time :: int

section \<open>Trigger state\<close>

text \<open>The element counter is a \<open>u64\<close> that grows by one per element, modelled as a \<open>nat\<close>.\<close>

datatype node_state = NodeState
  (fired_once: bool) (node_count: nat) (first_arrival: "int option") (node_index: nat)
  (node_finished: bool) (children: "node_state list")

definition node_default :: node_state where
  "node_default = NodeState False 0 None 0 False []"

fun set_fired_once :: "node_state \<Rightarrow> node_state" where
  "set_fired_once (NodeState f c a i d ch) = NodeState True c a i d ch"

fun set_children :: "node_state list \<Rightarrow> node_state \<Rightarrow> node_state" where
  "set_children ch' (NodeState f c a i d ch) = NodeState f c a i d ch'"

fun set_finished :: "node_state \<Rightarrow> node_state" where
  "set_finished (NodeState f c a i d ch) = NodeState f c a i True ch"

lemma node_selectors [simp]:
  "fired_once (set_fired_once s) = True" "children (set_fired_once s) = children s"
  "node_finished (set_fired_once s) = node_finished s" "node_index (set_fired_once s) = node_index s"
  "fired_once (set_children ch s) = fired_once s" "children (set_children ch s) = ch"
  "node_finished (set_children ch s) = node_finished s" "node_index (set_children ch s) = node_index s"
  "node_count (set_children ch s) = node_count s" "first_arrival (set_children ch s) = first_arrival s"
  "fired_once (set_finished s) = fired_once s" "children (set_finished s) = children s"
  "node_finished (set_finished s) = True" "node_index (set_finished s) = node_index s"
  by (cases s; simp)+

fun fresh :: "trigger \<Rightarrow> node_state" where
  "fresh (AfterWatermark early late) =
     set_children [case early of None \<Rightarrow> node_default | Some t \<Rightarrow> fresh t,
                   case late of None \<Rightarrow> node_default | Some t \<Rightarrow> fresh t] node_default"
| "fresh (AfterAll subs) = set_children (map fresh subs) node_default"
| "fresh (AfterAny subs) = set_children (map fresh subs) node_default"
| "fresh (AfterEach subs) = set_children (map fresh subs) node_default"
| "fresh (Repeat sub) = set_children [fresh sub] node_default"
| "fresh (OrFinally main fin) = set_children [fresh main, fresh fin] node_default"
| "fresh _ = node_default"

section \<open>Running a trigger\<close>

text \<open>\<open>f(&mut state.children[i])\<close>: out of range panics (\<open>None\<close>).\<close>

definition with_child :: "nat \<Rightarrow> (node_state \<Rightarrow> node_state option) \<Rightarrow> node_state \<Rightarrow> node_state option" where
  "with_child i f s =
     (if i < length (children s)
      then map_option (\<lambda>c. set_children ((children s)[i := c]) s) (f (children s ! i)) else None)"

text \<open>\<open>for (sub, child) in subs.iter().zip(children.iter_mut()) { f(sub, child) }\<close>\<close>

fun zip_opt :: "('t \<Rightarrow> 'n \<Rightarrow> 'n option) \<Rightarrow> 't list \<Rightarrow> 'n list \<Rightarrow> 'n list option" where
  "zip_opt f (t # ts) (c # cs) =
     (case f t c of None \<Rightarrow> None | Some c' \<Rightarrow> map_option ((#) c') (zip_opt f ts cs))"
| "zip_opt f _ cs = Some cs"

primrec any_opt :: "('a \<Rightarrow> bool option) \<Rightarrow> 'a list \<Rightarrow> bool option" where
  "any_opt f [] = Some False"
| "any_opt f (x # xs) =
     (case f x of None \<Rightarrow> None | Some b \<Rightarrow> if b then Some True else any_opt f xs)"

lemma zip_opt_cong [fundef_cong]:
  "ts = ts' \<Longrightarrow> cs = cs' \<Longrightarrow> (\<And>t c. t \<in> set ts' \<Longrightarrow> f t c = g t c) \<Longrightarrow> zip_opt f ts cs = zip_opt g ts' cs'"
  by (induction f ts cs arbitrary: ts' cs' rule: zip_opt.induct) (auto split: option.split)

lemma any_opt_cong [fundef_cong]:
  "xs = ys \<Longrightarrow> (\<And>x. x \<in> set ys \<Longrightarrow> f x = g x) \<Longrightarrow> any_opt f xs = any_opt g ys"
  by (induction xs arbitrary: ys) (auto split: option.split)

lemma all_opt_cong [fundef_cong]:
  "xs = ys \<Longrightarrow> (\<And>x. x \<in> set ys \<Longrightarrow> f x = g x) \<Longrightarrow> all_opt f xs = all_opt g ys"
  by (induction xs arbitrary: ys) (auto split: option.split)

fun element :: "int \<Rightarrow> trigger \<Rightarrow> node_state \<Rightarrow> node_state option" where
  "element pt (ElementCount n) (NodeState f c a i d ch) = Some (NodeState f (c + 1) a i d ch)"
| "element pt (AfterProcessingTime delay) (NodeState f c a i d ch) =
     Some (NodeState f c (case a of None \<Rightarrow> Some pt | Some t \<Rightarrow> Some t) i d ch)"
| "element pt (AfterWatermark early late) s =
     (if \<not> fired_once s
      then (case early of None \<Rightarrow> Some s | Some t \<Rightarrow> with_child 0 (\<lambda>c. element pt t c) s)
      else (case late of None \<Rightarrow> Some s | Some t \<Rightarrow> with_child 1 (\<lambda>c. element pt t c) s))"
| "element pt (AfterAll subs) s =
     map_option (\<lambda>cs. set_children cs s) (zip_opt (\<lambda>t c. element pt t c) subs (children s))"
| "element pt (AfterAny subs) s =
     map_option (\<lambda>cs. set_children cs s) (zip_opt (\<lambda>t c. element pt t c) subs (children s))"
| "element pt (AfterEach subs) s =
     map_option (\<lambda>cs. set_children cs s) (zip_opt (\<lambda>t c. element pt t c) subs (children s))"
| "element pt (Repeat sub) s =
     (if children s = [] then Some s else with_child 0 (\<lambda>c. element pt sub c) s)"
| "element pt (OrFinally main fin) s =
     Option.bind (with_child 0 (\<lambda>c. element pt main c) s) (\<lambda>s1. with_child 1 (\<lambda>c. element pt fin c) s1)"
| "element pt Default s = Some s"
| "element pt Never s = Some s"
| "element pt Always s = Some s"
| "element pt AfterSynchronizedProcessingTime s = Some s"

definition child_fires :: "nat \<Rightarrow> (node_state \<Rightarrow> bool option) \<Rightarrow> node_state \<Rightarrow> bool option" where
  "child_fires i f s = (if i < length (children s) then f (children s ! i) else None)"

lemma size_sub: "t \<in> set ts \<Longrightarrow> size t < Suc (size_list size ts)"
  by (simp add: size_list_estimation' less_Suc_eq_le)

function should_fire :: "trigger_context \<Rightarrow> trigger \<Rightarrow> node_state \<Rightarrow> bool option" where
  "should_fire ctx Default s = Some (end_of_window ctx \<and> \<not> fired_once s)"
| "should_fire ctx Never s = Some (expired ctx \<and> \<not> fired_once s)"
| "should_fire ctx Always s = Some True"
| "should_fire ctx AfterSynchronizedProcessingTime s = Some True"
| "should_fire ctx (ElementCount n) s = Some (node_count s \<ge> n \<and> \<not> fired_once s)"
| "should_fire ctx (AfterProcessingTime delay) s =
     Some ((case first_arrival s of None \<Rightarrow> False
            | Some first \<Rightarrow> processing_time ctx \<ge> wrap_i64 (first + delay)) \<and> \<not> fired_once s)"
| "should_fire ctx (AfterWatermark early late) s =
     (if \<not> end_of_window ctx
      then (case early of None \<Rightarrow> Some False | Some t \<Rightarrow> child_fires 0 (\<lambda>c. should_fire ctx t c) s)
      else if \<not> fired_once s then Some True
      else (case late of None \<Rightarrow> Some True | Some t \<Rightarrow> child_fires 1 (\<lambda>c. should_fire ctx t c) s))"
| "should_fire ctx (AfterAll subs) s =
     all_opt (\<lambda>(t, c). should_fire ctx t c) (zip subs (children s))"
| "should_fire ctx (AfterAny subs) s =
     any_opt (\<lambda>(t, c). should_fire ctx t c) (zip subs (children s))"
| "should_fire ctx (AfterEach subs) s =
     (if node_index s < length subs
      then child_fires (node_index s) (\<lambda>c. should_fire ctx (subs ! node_index s) c) s else Some False)"
| "should_fire ctx (Repeat sub) s =
     (case children s of [] \<Rightarrow> Some False | c # _ \<Rightarrow> should_fire ctx sub c)"
| "should_fire ctx (OrFinally main fin) s =
     (if node_finished s then Some False
      else case child_fires 0 (\<lambda>c. should_fire ctx main c) s of
             None \<Rightarrow> None
           | Some True \<Rightarrow> Some True
           | Some False \<Rightarrow> child_fires 1 (\<lambda>c. should_fire ctx fin c) s)"
  by pat_completeness auto
termination
  by (relation "measure (\<lambda>(ctx, t, s). size t)") (auto intro!: size_sub dest: set_zip_leftD)

function fire :: "trigger_context \<Rightarrow> trigger \<Rightarrow> node_state \<Rightarrow> node_state option" where
  "fire ctx Default s = Some (set_fired_once s)"
| "fire ctx Never s = Some (set_fired_once s)"
| "fire ctx (ElementCount n) s = Some (set_fired_once s)"
| "fire ctx (AfterProcessingTime delay) s = Some (set_fired_once s)"
| "fire ctx (AfterWatermark early late) s =
     (if \<not> end_of_window ctx
      then (case early of None \<Rightarrow> Some s | Some t \<Rightarrow> with_child 0 (\<lambda>c. fire ctx t c) s)
      else if \<not> fired_once s
      then (case early of None \<Rightarrow> Some (set_fired_once s)
            | Some t \<Rightarrow> with_child 0 (\<lambda>c. Some (fresh t)) (set_fired_once s))
      else (case late of None \<Rightarrow> Some s | Some t \<Rightarrow> with_child 1 (\<lambda>c. fire ctx t c) s))"
| "fire ctx Always s = Some s"
| "fire ctx AfterSynchronizedProcessingTime s = Some s"
| "fire ctx (AfterAll subs) s =
     map_option (\<lambda>cs. set_children cs s) (zip_opt (\<lambda>t c. fire ctx t c) subs (children s))"
| "fire ctx (AfterAny subs) s =
     map_option (\<lambda>cs. set_children cs s) (zip_opt (\<lambda>t c. fire ctx t c) subs (children s))"
| "fire ctx (AfterEach subs) s =
     map_option
       (\<lambda>s1. case s1 of NodeState f c a i d ch \<Rightarrow> NodeState f c a (i + 1) (d \<or> i + 1 \<ge> length subs) ch)
       (if node_index s < length subs
        then with_child (node_index s) (\<lambda>c. fire ctx (subs ! node_index s) c) s else Some s)"
| "fire ctx (Repeat sub) s =
     (if children s = [] then Some s
      else Option.bind (with_child 0 (\<lambda>c. fire ctx sub c) s) (with_child 0 (\<lambda>c. Some (fresh sub))))"
| "fire ctx (OrFinally main fin) s =
     (case child_fires 1 (should_fire ctx fin) s of
        None \<Rightarrow> None
      | Some True \<Rightarrow> Some (set_finished s)
      | Some False \<Rightarrow> with_child 0 (\<lambda>c. fire ctx main c) s)"
  by pat_completeness auto
termination
  by (relation "measure (\<lambda>(ctx, t, s). size t)") (auto intro!: size_sub)

subsection \<open>The runner\<close>

record trigger_runner =
  runner_trigger :: trigger
  runner_state :: node_state

definition runner_new :: "trigger \<Rightarrow> trigger_runner" where
  "runner_new t = \<lparr>runner_trigger = t, runner_state = fresh t\<rparr>"

definition on_element :: "int \<Rightarrow> trigger_runner \<Rightarrow> trigger_runner option" where
  "on_element pt r =
     map_option (\<lambda>s. r\<lparr>runner_state := s\<rparr>) (element pt (runner_trigger r) (runner_state r))"

definition runner_should_fire :: "trigger_context \<Rightarrow> trigger_runner \<Rightarrow> bool option" where
  "runner_should_fire ctx r = should_fire ctx (runner_trigger r) (runner_state r)"

definition on_fire :: "trigger_context \<Rightarrow> trigger_runner \<Rightarrow> trigger_runner option" where
  "on_fire ctx r = map_option (\<lambda>s. r\<lparr>runner_state := s\<rparr>) (fire ctx (runner_trigger r) (runner_state r))"

definition runner_is_finished :: "trigger_runner \<Rightarrow> bool" where
  "runner_is_finished r = node_finished (runner_state r)"

section \<open>Panes of a firing\<close>

definition pane_info :: "pane_timing_kind \<Rightarrow> int \<Rightarrow> bool \<Rightarrow> bool \<Rightarrow> pane_info_rec" where
  "pane_info tm idx fst_pane last_pane =
     \<lparr>is_first = fst_pane, is_last = last_pane, timing = tm, pane_index = idx,
      non_speculative_index = (if tm = Early then - 1 else idx)\<rparr>"

definition pane_timing :: "bool \<Rightarrow> bool \<Rightarrow> pane_timing_kind" where
  "pane_timing eow is_first_firing = (if \<not> eow then Early else if is_first_firing then OnTime else Late)"

section \<open>The shape of the state\<close>

text \<open>The state tree mirrors the trigger tree, so that no child index is out of range.\<close>

fun shaped :: "trigger \<Rightarrow> node_state \<Rightarrow> bool" where
  "shaped (AfterWatermark early late) s =
     (length (children s) = 2
      \<and> (case early of None \<Rightarrow> True | Some t \<Rightarrow> shaped t (children s ! 0))
      \<and> (case late of None \<Rightarrow> True | Some t \<Rightarrow> shaped t (children s ! 1)))"
| "shaped (AfterAll subs) s = list_all2 shaped subs (children s)"
| "shaped (AfterAny subs) s = list_all2 shaped subs (children s)"
| "shaped (AfterEach subs) s = list_all2 shaped subs (children s)"
| "shaped (Repeat sub) s = (length (children s) = 1 \<and> shaped sub (children s ! 0))"
| "shaped (OrFinally main fin) s =
     (length (children s) = 2 \<and> shaped main (children s ! 0) \<and> shaped fin (children s ! 1))"
| "shaped _ s = True"

lemma zip_opt_total:
  assumes "list_all2 P ts cs"
    and "\<And>t c. t \<in> set ts \<Longrightarrow> P t c \<Longrightarrow> \<exists>c'. f t c = Some c' \<and> Q t c'"
  shows "\<exists>cs'. zip_opt f ts cs = Some cs' \<and> list_all2 Q ts cs'"
  using assms by (induction ts cs rule: list_all2_induct) fastforce+

lemma with_child_total:
  "i < length (children s) \<Longrightarrow> \<exists>c'. f (children s ! i) = Some c' \<and> Q c' \<Longrightarrow>
   \<exists>c'. with_child i f s = Some (set_children ((children s)[i := c']) s) \<and> Q c'"
  by (auto simp: with_child_def)

lemma all_opt_zip_total:
  "list_all2 P ts cs \<Longrightarrow> (\<And>t c. t \<in> set ts \<Longrightarrow> P t c \<Longrightarrow> \<exists>b. f t c = Some b) \<Longrightarrow>
   \<exists>b. all_opt (\<lambda>(t, c). f t c) (zip ts cs) = Some b"
  by (induction ts cs rule: list_all2_induct) fastforce+

lemma any_opt_zip_total:
  "list_all2 P ts cs \<Longrightarrow> (\<And>t c. t \<in> set ts \<Longrightarrow> P t c \<Longrightarrow> \<exists>b. f t c = Some b) \<Longrightarrow>
   \<exists>b. any_opt (\<lambda>(t, c). f t c) (zip ts cs) = Some b"
  by (induction ts cs rule: list_all2_induct) fastforce+

lemma shaped_fresh: "shaped t (fresh t)"
  by (induction t) (auto simp: list_all2_conv_all_nth split: option.split)

lemma element_total: "shaped t s \<Longrightarrow> \<exists>s'. element pt t s = Some s' \<and> shaped t s'"
proof (induction t arbitrary: s)
  case (AfterWatermark early late)
  then show ?case
    using with_child_total [of 0 s "element pt (the early)" "shaped (the early)"]
      with_child_total [of 1 s "element pt (the late)" "shaped (the late)"]
    by (fastforce split: option.splits)
next
  case (OrFinally main fin)
  obtain c0 where c0: "element pt main (children s ! 0) = Some c0" "shaped main c0"
    using OrFinally by auto
  obtain c1 where c1: "element pt fin (children s ! 1) = Some c1" "shaped fin c1"
    using OrFinally by auto
  show ?case
    using OrFinally.prems c0 c1 by (simp add: with_child_def)
next
  case (Repeat sub)
  then show ?case
    using with_child_total [of 0 s "element pt sub" "shaped sub"] by fastforce
next
  case (ElementCount n)
  then show ?case
    by (cases s) auto
next
  case (AfterProcessingTime d)
  then show ?case
    by (cases s) auto
next
  case (AfterAll subs)
  then show ?case
    using zip_opt_total [of shaped subs "children s" "\<lambda>t c. element pt t c" shaped] by fastforce
next
  case (AfterAny subs)
  then show ?case
    using zip_opt_total [of shaped subs "children s" "\<lambda>t c. element pt t c" shaped] by fastforce
next
  case (AfterEach subs)
  then show ?case
    using zip_opt_total [of shaped subs "children s" "\<lambda>t c. element pt t c" shaped] by fastforce
qed auto

lemma should_fire_total: "shaped t s \<Longrightarrow> \<exists>b. should_fire ctx t s = Some b"
proof (induction t arbitrary: s)
  case (AfterEach subs)
  then show ?case
    by (auto simp: child_fires_def list_all2_conv_all_nth)
next
  case (Repeat sub)
  then show ?case
    by (cases "children s") auto
next
  case (AfterAll subs)
  then show ?case
    using all_opt_zip_total [of shaped subs "children s" "\<lambda>t c. should_fire ctx t c"] by fastforce
next
  case (AfterAny subs)
  then show ?case
    using any_opt_zip_total [of shaped subs "children s" "\<lambda>t c. should_fire ctx t c"] by fastforce
next
  case (OrFinally main fin)
  obtain b0 b1 where "should_fire ctx main (children s ! 0) = Some b0" "should_fire ctx fin (children s ! 1) = Some b1"
    using OrFinally by fastforce
  with OrFinally.prems show ?case
    by (auto simp: child_fires_def split: bool.split)
qed (auto simp: child_fires_def split: option.splits)

lemma fire_total: "shaped t s \<Longrightarrow> \<exists>s'. fire ctx t s = Some s' \<and> shaped t s'"
proof (induction t arbitrary: s)
  case (AfterWatermark early late)
  have early: "\<exists>c. fire ctx t (children s ! 0) = Some c \<and> shaped t c" if "early = Some t" for t
    using AfterWatermark that by auto
  have late: "\<exists>c. fire ctx t (children s ! 1) = Some c \<and> shaped t c" if "late = Some t" for t
    using AfterWatermark that by auto
  show ?case
    using AfterWatermark.prems early late
    by (fastforce simp: with_child_def shaped_fresh split: option.splits)
next
  case (AfterEach subs)
  let ?i = "node_index s"
  have "\<exists>s'. (if ?i < length subs then with_child ?i (\<lambda>c. fire ctx (subs ! ?i) c) s else Some s) = Some s'
      \<and> list_all2 shaped subs (children s')"
  proof (cases "?i < length subs")
    case True
    then obtain c where "fire ctx (subs ! ?i) (children s ! ?i) = Some c" "shaped (subs ! ?i) c"
      using AfterEach.IH [OF nth_mem [OF True]] list_all2_nthD [OF AfterEach.prems [unfolded shaped.simps] True] by blast
    with True AfterEach.prems show ?thesis
      by (auto simp: with_child_def list_all2_conv_all_nth nth_list_update)
  qed (use AfterEach.prems in simp)
  then obtain s1 where s1: "(if ?i < length subs then with_child ?i (\<lambda>c. fire ctx (subs ! ?i) c) s else Some s) = Some s1"
      "list_all2 shaped subs (children s1)"
    by blast
  show ?case
    unfolding fire.simps shaped.simps s1(1) using s1(2) by (cases s1) simp
next
  case (Repeat sub)
  then obtain c where "fire ctx sub (children s ! 0) = Some c"
    by fastforce
  with Repeat.prems show ?case
    by (auto simp: with_child_def shaped_fresh)
next
  case (OrFinally main fin)
  obtain b where b: "should_fire ctx fin (children s ! 1) = Some b"
    using should_fire_total OrFinally.prems by fastforce
  obtain c where "fire ctx main (children s ! 0) = Some c" "shaped main c"
    using OrFinally by fastforce
  with OrFinally.prems b show ?case
    by (auto simp: with_child_def child_fires_def split: bool.split)
next
  case (AfterAll subs)
  then show ?case
    using zip_opt_total [of shaped subs "children s" "\<lambda>t c. fire ctx t c" shaped] by fastforce
next
  case (AfterAny subs)
  then show ?case
    using zip_opt_total [of shaped subs "children s" "\<lambda>t c. fire ctx t c" shaped] by fastforce
qed auto

section \<open>How often a trigger fires\<close>

text \<open>
  \<open>remaining\<close> is an upper bound on the firings a trigger still has in a state: one for the
  latching triggers, none after the last step of a sequence, unbounded for the repeating
  ones and for early firings.
\<close>

definition min_all :: "enat list \<Rightarrow> enat" where "min_all xs = foldr min xs \<infinity>"

function remaining :: "trigger \<Rightarrow> node_state \<Rightarrow> enat" where
  "remaining Default s = (if fired_once s then 0 else 1)"
| "remaining Never s = (if fired_once s then 0 else 1)"
| "remaining (ElementCount n) s = (if fired_once s then 0 else 1)"
| "remaining (AfterProcessingTime d) s = (if fired_once s then 0 else 1)"
| "remaining Always s = \<infinity>"
| "remaining AfterSynchronizedProcessingTime s = \<infinity>"
| "remaining (AfterWatermark early late) s =
     (case (early, late) of
        (None, Some l) \<Rightarrow> (if fired_once s then 0 else 1) + remaining l (children s ! 1)
      | _ \<Rightarrow> \<infinity>)"
| "remaining (AfterAll subs) s =
     min_all (map (\<lambda>i. remaining (subs ! i) (children s ! i)) [0..<length subs])"
| "remaining (AfterAny subs) s =
     sum_list (map (\<lambda>i. remaining (subs ! i) (children s ! i)) [0..<length subs])"
| "remaining (AfterEach subs) s = enat (length subs - node_index s)"
| "remaining (Repeat sub) s = \<infinity>"
| "remaining (OrFinally main fin) s =
     (if node_finished s then 0 else remaining main (children s ! 0) + 1)"
  by pat_completeness auto
termination
  by (relation "measure (\<lambda>(t, s). size t)") (auto intro!: size_sub)

lemma zip_opt_nth:
  "length ts = length cs \<Longrightarrow> zip_opt f ts cs = Some cs' \<Longrightarrow>
   length cs' = length cs \<and> (\<forall>i < length ts. f (ts ! i) (cs ! i) = Some (cs' ! i))"
  by (induction f ts cs arbitrary: cs' rule: zip_opt.induct)
    (auto simp: nth_Cons split: option.splits nat.splits)

lemma min_all_mono: "(\<And>x. x \<in> set xs \<Longrightarrow> f x \<le> g x) \<Longrightarrow> min_all (map f xs) \<le> min_all (map g xs)"
  by (induction xs) (auto simp: min_all_def intro: min.coboundedI1 min.coboundedI2)

lemma min_all_less:
  "(\<And>x. x \<in> set xs \<Longrightarrow> f x + 1 \<le> (g x :: enat)) \<Longrightarrow> min_all (map f xs) + 1 \<le> min_all (map g xs)"
proof (induction xs)
  case (Cons x xs)
  then have "f x + 1 \<le> g x" "min_all (map f xs) + 1 \<le> min_all (map g xs)"
    by simp_all
  then show ?case
    by (simp add: min_all_def min_add_distrib_left) (meson add_right_mono min.cobounded1 min.cobounded2 order_trans)
qed (simp add: min_all_def)

lemma sum_list_less:
  assumes "\<And>x. x \<in> set xs \<Longrightarrow> f x \<le> (g x :: enat)" and "y \<in> set xs" and "f y + 1 \<le> g y"
  shows "sum_list (map f xs) + 1 \<le> sum_list (map g xs)"
  using assms
proof (induction xs)
  case (Cons x xs)
  show ?case
  proof (cases "y = x")
    case True
    have "sum_list (map f xs) \<le> sum_list (map g xs)"
      using Cons.prems(1) by (intro sum_list_mono) simp
    then have "(f x + 1) + sum_list (map f xs) \<le> g x + sum_list (map g xs)"
      using Cons.prems(3) True by (intro add_mono) simp_all
    then show ?thesis
      by (simp add: ac_simps)
  next
    case False
    then have "sum_list (map f xs) + 1 \<le> sum_list (map g xs)"
      using Cons by auto
    then have "f x + (sum_list (map f xs) + 1) \<le> g x + sum_list (map g xs)"
      using Cons.prems(1) by (intro add_mono) simp_all
    then show ?thesis
      by (simp add: ac_simps)
  qed
qed simp

subsection \<open>Elements keep the bound, firings lower it\<close>

lemma zip_opt_remaining:
  assumes "list_all2 shaped subs cs" and "zip_opt f subs cs = Some cs'"
    and "\<And>i. i < length subs \<Longrightarrow> f (subs ! i) (cs ! i) = Some (cs' ! i) \<Longrightarrow> shaped (subs ! i) (cs ! i)
           \<Longrightarrow> P (remaining (subs ! i) (cs' ! i)) (remaining (subs ! i) (cs ! i))"
  shows "\<forall>i \<in> set [0..<length subs]. P (remaining (subs ! i) (cs' ! i)) (remaining (subs ! i) (cs ! i))"
  using assms zip_opt_nth [of subs cs f cs'] by (auto simp: list_all2_conv_all_nth)

lemma element_remaining: "shaped t s \<Longrightarrow> element pt t s = Some s' \<Longrightarrow> remaining t s' = remaining t s"
proof (induction t arbitrary: s s')
  case (AfterWatermark early late)
  then show ?case
    by (cases early; cases late) (auto simp: with_child_def split: if_splits)
next
  case (AfterAll subs)
  obtain cs where cs: "zip_opt (\<lambda>t c. element pt t c) subs (children s) = Some cs" "s' = set_children cs s"
    using AfterAll.prems by auto
  have "map (\<lambda>i. remaining (subs ! i) (cs ! i)) [0..<length subs]
      = map (\<lambda>i. remaining (subs ! i) (children s ! i)) [0..<length subs]"
    using zip_opt_remaining [OF _ cs(1), of "(=)"] AfterAll by (auto intro!: map_cong)
  then show ?case
    by (simp only: cs(2) remaining.simps node_selectors)
next
  case (AfterAny subs)
  obtain cs where cs: "zip_opt (\<lambda>t c. element pt t c) subs (children s) = Some cs" "s' = set_children cs s"
    using AfterAny.prems by auto
  have "map (\<lambda>i. remaining (subs ! i) (cs ! i)) [0..<length subs]
      = map (\<lambda>i. remaining (subs ! i) (children s ! i)) [0..<length subs]"
    using zip_opt_remaining [OF _ cs(1), of "(=)"] AfterAny by (auto intro!: map_cong)
  then show ?case
    by (simp only: cs(2) remaining.simps node_selectors)
next
  case (OrFinally main fin)
  then show ?case
    by (auto simp: with_child_def bind_eq_Some_conv split: if_splits)
next
  case (ElementCount n)
  then show ?case
    by (cases s) auto
next
  case (AfterProcessingTime d)
  then show ?case
    by (cases s) auto
qed (auto simp: with_child_def split: if_splits)

lemma fire_remaining_le: "shaped t s \<Longrightarrow> fire ctx t s = Some s' \<Longrightarrow> remaining t s' \<le> remaining t s"
proof (induction t arbitrary: s s')
  case (AfterWatermark early late)
  then show ?case
    by (cases early; cases late) (auto simp: with_child_def intro!: add_left_mono add_mono split: if_splits)
next
  case (AfterAll subs)
  obtain cs where cs: "zip_opt (\<lambda>t c. fire ctx t c) subs (children s) = Some cs" "s' = set_children cs s"
    using AfterAll.prems by auto
  show ?case
    using zip_opt_remaining [OF _ cs(1), of "(\<le>)"] AfterAll by (auto simp: cs(2) intro!: min_all_mono)
next
  case (AfterAny subs)
  obtain cs where cs: "zip_opt (\<lambda>t c. fire ctx t c) subs (children s) = Some cs" "s' = set_children cs s"
    using AfterAny.prems by auto
  show ?case
    using zip_opt_remaining [OF _ cs(1), of "(\<le>)"] AfterAny by (auto simp: cs(2) intro!: sum_list_mono)
next
  case (AfterEach subs)
  then show ?case
    by (cases s) (auto simp: with_child_def split: if_splits)
next
  case (OrFinally main fin)
  then show ?case
    by (auto simp: with_child_def child_fires_def intro!: add_right_mono split: if_splits option.splits bool.splits)
qed (auto simp: with_child_def split: if_splits)

lemma all_opt_zip_True:
  "length ts = length cs \<Longrightarrow> all_opt (\<lambda>(t, c). f t c) (zip ts cs) = Some True \<Longrightarrow>
   \<forall>i < length ts. f (ts ! i) (cs ! i) = Some True"
  by (induction ts cs rule: list_induct2) (auto simp: nth_Cons split: option.splits if_splits nat.splits)

lemma any_opt_zip_True:
  "length ts = length cs \<Longrightarrow> any_opt (\<lambda>(t, c). f t c) (zip ts cs) = Some True \<Longrightarrow>
   \<exists>i < length ts. f (ts ! i) (cs ! i) = Some True"
  by (induction ts cs rule: list_induct2) (fastforce split: option.splits if_splits)+

lemma fire_remaining_less:
  "shaped t s \<Longrightarrow> should_fire ctx t s = Some True \<Longrightarrow> fire ctx t s = Some s' \<Longrightarrow> remaining t s' + 1 \<le> remaining t s"
proof (induction t arbitrary: s s')
  case (AfterWatermark early late)
  then show ?case
    by (cases early; cases late)
      (auto simp: with_child_def child_fires_def add.commute split: if_splits)
next
  case (AfterAll subs)
  have len: "length subs = length (children s)"
    using AfterAll.prems by (simp add: list_all2_conv_all_nth)
  obtain cs where cs: "zip_opt (\<lambda>t c. fire ctx t c) subs (children s) = Some cs" "s' = set_children cs s"
    using AfterAll.prems by auto
  have "\<forall>i < length subs. should_fire ctx (subs ! i) (children s ! i) = Some True"
    using all_opt_zip_True [OF len] AfterAll.prems by auto
  then show ?case
    using zip_opt_remaining [OF _ cs(1), of "\<lambda>x y. x + 1 \<le> y"] AfterAll
    by (auto simp: cs(2) intro!: min_all_less)
next
  case (AfterAny subs)
  have len: "length subs = length (children s)"
    using AfterAny.prems by (simp add: list_all2_conv_all_nth)
  obtain cs where cs: "zip_opt (\<lambda>t c. fire ctx t c) subs (children s) = Some cs" "s' = set_children cs s"
    using AfterAny.prems by auto
  obtain i where i: "i < length subs" "should_fire ctx (subs ! i) (children s ! i) = Some True"
    using any_opt_zip_True [OF len] AfterAny.prems by auto
  have "fire ctx (subs ! i) (children s ! i) = Some (cs ! i)" "shaped (subs ! i) (children s ! i)"
    using zip_opt_nth [OF len cs(1)] i AfterAny.prems(1) by (auto simp: list_all2_conv_all_nth)
  then have dec: "remaining (subs ! i) (cs ! i) + 1 \<le> remaining (subs ! i) (children s ! i)"
    using AfterAny.IH [OF nth_mem [OF i(1)]] i by blast
  have "\<forall>i \<in> set [0..<length subs]. remaining (subs ! i) (cs ! i) \<le> remaining (subs ! i) (children s ! i)"
    using zip_opt_remaining [OF _ cs(1), of "(\<le>)"] AfterAny.prems(1) fire_remaining_le by auto
  then show ?case
    using sum_list_less [of "[0..<length subs]" "\<lambda>i. remaining (subs ! i) (cs ! i)" "\<lambda>i. remaining (subs ! i) (children s ! i)" i] dec i
    by (simp add: cs(2))
next
  case (AfterEach subs)
  then show ?case
    by (cases s) (auto simp: with_child_def one_enat_def split: if_splits)
next
  case (OrFinally main fin)
  then show ?case
    by (auto simp: with_child_def child_fires_def split: if_splits option.splits bool.splits)
qed (auto simp: with_child_def split: if_splits)

section \<open>Properties\<close>

text \<open>A run of a trigger for one window: elements arrive, and a firing is recorded when the
  runner said it may fire. The number counts the firings.\<close>

inductive trigger_run :: "trigger \<Rightarrow> trigger_runner \<Rightarrow> nat \<Rightarrow> bool" where
  run_new: "trigger_run t (runner_new t) 0"
| run_element: "trigger_run t r n \<Longrightarrow> on_element pt r = Some r' \<Longrightarrow> trigger_run t r' n"
| run_fire: "trigger_run t r n \<Longrightarrow> runner_should_fire ctx r = Some True \<Longrightarrow> on_fire ctx r = Some r'
    \<Longrightarrow> trigger_run t r' (Suc n)"

lemma trigger_run_shaped: "trigger_run t r n \<Longrightarrow> runner_trigger r = t \<and> shaped t (runner_state r)"
proof (induction rule: trigger_run.induct)
  case (run_element t r n pt r')
  then show ?case
    using element_total [of t "runner_state r" pt] by (auto simp: on_element_def)
next
  case (run_fire t r n ctx r')
  then show ?case
    using fire_total [of t "runner_state r" ctx] by (auto simp: on_fire_def)
qed (simp add: runner_new_def shaped_fresh)

text \<open>
  C23: running a trigger never panics: in every state a run reaches, all three operations of
  the runner return (no child of the state tree is indexed out of range), whatever the
  trigger tree, the processing time and the watermark context are.
\<close>

theorem trigger_never_panics:
  assumes "trigger_run t r n"
  shows "(\<exists>r'. on_element pt r = Some r') \<and> (\<exists>b. runner_should_fire ctx r = Some b) \<and> (\<exists>r'. on_fire ctx r = Some r')"
  using trigger_run_shaped [OF assms] element_total [of t "runner_state r" pt]
    should_fire_total [of t "runner_state r" ctx] fire_total [of t "runner_state r" ctx]
  by (auto simp: on_element_def runner_should_fire_def on_fire_def)

theorem trigger_never_panics_witness:
  "\<exists>r'. on_fire \<lparr>end_of_window = True, expired = False, processing_time = 0\<rparr>
     (runner_new (AfterWatermark (Some (Repeat (ElementCount 2))) None)) = Some r'"
  using trigger_never_panics [OF trigger_run.run_new] by blast

text \<open>
  C22: once-triggers latch: along any run the number of firings is at most
  \<open>remaining t (fresh t)\<close>. That is one for the default trigger, element count, processing
  time and never; the length of the sequence for \<open>AfterEach\<close>; the least of the parts for
  \<open>AfterAll\<close>, their sum for \<open>AfterAny\<close>, one more than the main trigger for \<open>OrFinally\<close>;
  no bound for the repeating triggers.
\<close>

theorem firings_bounded:
  assumes "trigger_run t r n"
  shows "enat n + remaining t (runner_state r) \<le> remaining t (fresh t)"
  using assms
proof (induction rule: trigger_run.induct)
  case (run_element t r n pt r')
  then show ?case
    using trigger_run_shaped [OF run_element.hyps(1)] element_remaining [of t "runner_state r" pt]
    by (auto simp: on_element_def)
next
  case (run_fire t r n ctx r')
  have "remaining t (runner_state r') + 1 \<le> remaining t (runner_state r)"
    using run_fire trigger_run_shaped [OF run_fire.hyps(1)] fire_remaining_less [of t "runner_state r" ctx]
    by (auto simp: on_fire_def runner_should_fire_def)
  then have "enat n + (remaining t (runner_state r') + 1) \<le> enat n + remaining t (runner_state r)"
    by (rule add_left_mono)
  moreover have "enat (Suc n) + remaining t (runner_state r') = enat n + (remaining t (runner_state r') + 1)"
    by (simp only: eSuc_enat [symmetric] plus_1_eSuc iadd_Suc iadd_Suc_right)
  ultimately show ?case
    using run_fire.IH by (metis order_trans)
qed (simp add: runner_new_def zero_enat_def [symmetric])

theorem firings_bounded_witness:
  "\<exists>r. trigger_run (OrFinally Default (ElementCount 3)) r 1 \<and> remaining (OrFinally Default (ElementCount 3)) (runner_state r) \<le> 1"
proof -
  let ?t = "OrFinally Default (ElementCount 3)"
  let ?ctx = "\<lparr>end_of_window = True, expired = False, processing_time = 0\<rparr>"
  have "runner_should_fire ?ctx (runner_new ?t) = Some True"
    by (simp add: runner_should_fire_def runner_new_def node_default_def child_fires_def)
  moreover obtain r where "on_fire ?ctx (runner_new ?t) = Some r"
    by (auto simp: on_fire_def runner_new_def node_default_def with_child_def child_fires_def)
  ultimately have run: "trigger_run ?t r 1"
    using trigger_run.run_fire [OF trigger_run.run_new] by simp
  have "remaining ?t (fresh ?t) = enat 2"
    by (simp add: node_default_def one_enat_def)
  then have "enat 1 + remaining ?t (runner_state r) \<le> enat 2"
    using firings_bounded [OF run] by (simp only:)
  then have "remaining ?t (runner_state r) \<le> 1"
    by (cases "remaining ?t (runner_state r)") (auto simp: one_enat_def simp del: remaining.simps)
  with run show ?thesis
    by blast
qed

text \<open>\<open>k\<close> elements fed one at a time, the runner fired whenever it is ready.\<close>

primrec feed :: "trigger_context \<Rightarrow> nat \<Rightarrow> trigger_runner \<Rightarrow> (trigger_runner \<times> nat) option" where
  "feed ctx 0 r = Some (r, 0)"
| "feed ctx (Suc k) r =
     Option.bind (feed ctx k r) (\<lambda>(r1, f). Option.bind (on_element (processing_time ctx) r1) (\<lambda>r2.
       Option.bind (runner_should_fire ctx r2) (\<lambda>b.
         if b then map_option (\<lambda>r3. (r3, f + 1)) (on_fire ctx r2) else Some (r2, f))))"

text \<open>
  A repeated element count fires on every \<open>n\<close>-th element: after \<open>k\<close> elements it has fired
  \<open>k div n\<close> times and its counter is \<open>k mod n\<close>, since each firing re-arms the subtrigger.
\<close>

lemma repeat_element_count_fires:
  assumes "1 \<le> n"
  shows "feed ctx k (runner_new (Repeat (ElementCount n)))
    = Some (\<lparr>runner_trigger = Repeat (ElementCount n),
             runner_state = set_children [NodeState False (k mod n) None 0 False []] node_default\<rparr>, k div n)"
proof (induction k)
  case 0
  then show ?case
    by (simp add: runner_new_def node_default_def)
next
  case (Suc k)
  note ops = on_element_def on_fire_def runner_should_fire_def with_child_def node_default_def
  show ?case
  proof (cases "Suc (k mod n) = n")
    case True
    then have "Suc k mod n = 0" "Suc k div n = Suc (k div n)"
      using assms by (simp_all add: mod_Suc div_Suc)
    with True show ?thesis
      by (simp add: Suc.IH ops)
  next
    case False
    then have "Suc k mod n = Suc (k mod n)" "Suc k div n = k div n"
      by (simp_all add: mod_Suc div_Suc)
    moreover have "\<not> n \<le> Suc (k mod n)"
      using assms False mod_less_divisor [of n k] by linarith
    ultimately show ?thesis
      by (simp add: Suc.IH ops)
  qed
qed

end
