(* ===== verification/Group_By_Key.thy ===== *)
theory Group_By_Key
  imports Records Trigger "HOL-Library.Product_Lexorder"
begin

text \<open>
  The runner-native \<open>GroupByKey\<close> of \<open>transforms/gbk.rs\<close>: group identities, the in-memory
  state backend that folds sorted groups into per-window state and fires panes, the
  decoder that forms groups from the sorted rows, and the merging of windows. The
  external sort (DataFusion) and the SDK's window merger are not in the repository: the
  sorted rows are an input and the merger is an argument.
\<close>

section \<open>State\<close>

record pane_element =
  pe_value :: beam_record
  pe_timestamp_millis :: int

record window_state =
  st_key :: primitive_value
  st_window :: beam_window
  st_elements :: "pane_element list"
  st_pane_timestamps :: "int list"
  st_trigger :: trigger_runner
  st_pane_index :: int
  st_fired :: bool
  st_closed :: bool
  st_evaluated_this_run :: bool

definition window_state_new :: "primitive_value \<Rightarrow> beam_window \<Rightarrow> trigger_runner \<Rightarrow> window_state" where
  "window_state_new key w tr =
     \<lparr>st_key = key, st_window = w, st_elements = [], st_pane_timestamps = [], st_trigger = tr,
      st_pane_index = 0, st_fired = False, st_closed = False, st_evaluated_this_run = False\<rparr>"

type_synonym group_id = "bytes \<times> bytes"

record gbk_state =
  gbk_states :: "(group_id, window_state) hashmap"
  gbk_ready_scan :: "group_id list option"
  gbk_last_evaluated_watermark :: "int option"

type_synonym 'a gbk_result = "(string, 'a) rust"

section \<open>Identities\<close>

fun encoded_primitive_sort_key :: "primitive_value \<Rightarrow> bytes" where
  "encoded_primitive_sort_key (PString s) = 0 # as_bytes s"
| "encoded_primitive_sort_key (PBytes bs) = 1 # bs"
| "encoded_primitive_sort_key (PInt64 i) = 2 # u64_be (as_u64 i)"
| "encoded_primitive_sort_key (PFloat64 bits) = 3 # u64_be bits"
| "encoded_primitive_sort_key (PBool b) = [4, if b then 1 else 0]"
| "encoded_primitive_sort_key PVoid = [5]"

text \<open>\<open>to_binary_key\<close> panics on an oversized coder id, and so does building an identity.\<close>

definition group_identity :: "primitive_value \<Rightarrow> beam_window \<Rightarrow> group_id gbk_result" where
  "group_identity key w =
     (case to_binary_key w of Ok k \<Rightarrow> Ok (encoded_primitive_sort_key key, k) | _ \<Rightarrow> Panic)"

definition output_timestamp :: "output_time_kind \<Rightarrow> beam_window \<Rightarrow> int list \<Rightarrow> int" where
  "output_timestamp ot w ts =
     (case ot of
        LatestInPane \<Rightarrow> (if ts = [] then max_timestamp_millis w else Max (set ts))
      | EarliestInPane \<Rightarrow> (if ts = [] then max_timestamp_millis w else Min (set ts))
      | EndOfWindow \<Rightarrow> max_timestamp_millis w)"

definition window_prune_cutoff :: "int option \<Rightarrow> int \<Rightarrow> bool \<Rightarrow> bool \<Rightarrow> bool \<Rightarrow> int option" where
  "window_prune_cutoff previous_watermark allowed_lateness needs_merge is_global_window input_is_bounded =
     (if needs_merge \<or> is_global_window \<or> input_is_bounded then None
      else map_option (\<lambda>w. saturating_sub w allowed_lateness) previous_watermark)"

section \<open>Firing\<close>

definition fire_state ::
  "trigger_spec \<Rightarrow> int \<Rightarrow> int \<Rightarrow> window_state \<Rightarrow> (window_state \<times> windowed_value option) option" where
  "fire_state spec wm pt st =
     (let end_ts = max_timestamp_millis (st_window st);
          eow = (end_ts < wm);
          expd = (earliest_completion spec end_ts < wm);
          ctx = \<lparr>end_of_window = eow, expired = expd, processing_time = pt\<rparr>;
          closing = (expd \<and> \<not> st_closed st)
      in case runner_should_fire ctx (st_trigger st) of
           None \<Rightarrow> None
         | Some ready \<Rightarrow>
             if \<not> (ready \<or> closing) then Some (st\<lparr>st_evaluated_this_run := True\<rparr>, None)
             else
               let first_pane = \<not> st_fired st;
                   pane = pane_info (pane_timing eow first_pane) (st_pane_index st) first_pane expd;
                   elems = st_elements st;
                   kept = (if spec_accumulation spec = Discarding then [] else elems);
                   ts = output_timestamp (spec_output_time spec) (st_window st) (st_pane_timestamps st)
               in case on_fire ctx (st_trigger st) of
                    None \<Rightarrow> None
                  | Some tr \<Rightarrow>
                      Some (st\<lparr>st_elements := kept, st_pane_timestamps := [], st_trigger := tr,
                               st_pane_index := wrap_i64 (st_pane_index st + 1), st_fired := True,
                               st_evaluated_this_run := True, st_closed := (st_closed st \<or> expd)\<rparr>,
                            if elems = [] then None
                            else Some \<lparr>wv_value = KV (st_key st) (ITERABLE (map pe_value elems)),
                                       wv_timestamp_millis = ts, wv_windows = [st_window st], wv_pane = pane\<rparr>))"

section \<open>The state backend\<close>

definition gbk_empty :: gbk_state where
  "gbk_empty = \<lparr>gbk_states = [], gbk_ready_scan = None, gbk_last_evaluated_watermark = None\<rparr>"

definition begin_run :: "gbk_state \<Rightarrow> gbk_state" where
  "begin_run g = g\<lparr>gbk_ready_scan := None,
     gbk_states := hm_map_values (\<lambda>_ st. st\<lparr>st_evaluated_this_run := False\<rparr>) (gbk_states g)\<rparr>"

definition mark_watermark_evaluated :: "int \<Rightarrow> gbk_state \<Rightarrow> gbk_state" where
  "mark_watermark_evaluated wm g = g\<lparr>gbk_last_evaluated_watermark := Some wm\<rparr>"

text \<open>\<open>for _ in 0..elements.len() { state.trigger.on_element(processing_time) }\<close>\<close>

primrec feed_elements :: "int \<Rightarrow> nat \<Rightarrow> trigger_runner \<Rightarrow> trigger_runner option" where
  "feed_elements pt 0 r = Some r"
| "feed_elements pt (Suc n) r = Option.bind (on_element pt r) (feed_elements pt n)"

text \<open>The general path of \<open>apply_group\<close>: fold the elements into the group's state, then fire.\<close>

definition apply_group_general ::
  "primitive_value \<Rightarrow> beam_window \<Rightarrow> pane_element list \<Rightarrow> trigger_spec \<Rightarrow> int \<Rightarrow> int \<Rightarrow> gbk_state
   \<Rightarrow> (gbk_state \<times> windowed_value option) gbk_result" where
  "apply_group_general key w elems spec wm pt g =
     rbind (group_identity key w) (\<lambda>gid.
       let st0 = (case hm_get (gbk_states g) gid of
                    Some st \<Rightarrow> st
                  | None \<Rightarrow> window_state_new key w (runner_new (spec_trigger spec)))
       in case feed_elements pt (length elems) (st_trigger st0) of
            None \<Rightarrow> Panic
          | Some tr \<Rightarrow>
              let st1 = st0\<lparr>st_trigger := tr,
                            st_pane_timestamps := st_pane_timestamps st0 @ map pe_timestamp_millis elems,
                            st_elements := st_elements st0 @ elems\<rparr>
              in case fire_state spec wm pt st1 of
                   None \<Rightarrow> Panic
                 | Some (st2, out) \<Rightarrow>
                     Ok (g\<lparr>gbk_states :=
                            (if st_closed st2 then hm_remove gid (hm_insert gid st2 (gbk_states g))
                             else hm_insert gid st2 (gbk_states g))\<rparr>, out))"

definition apply_group ::
  "primitive_value \<Rightarrow> beam_window \<Rightarrow> pane_element list \<Rightarrow> trigger_spec \<Rightarrow> int \<Rightarrow> int \<Rightarrow> gbk_state
   \<Rightarrow> (gbk_state \<times> windowed_value option) gbk_result" where
  "apply_group key w elems spec wm pt g =
     (let end_ts = max_timestamp_millis w;
          expd = (earliest_completion spec end_ts < wm)
      in if gbk_states g = [] \<and> expd \<and> spec_trigger spec = Default \<and> spec_accumulation spec = Discarding
         then Ok (g, Some \<lparr>wv_value = KV key (ITERABLE (map pe_value elems)),
                           wv_timestamp_millis =
                             output_timestamp (spec_output_time spec) w (map pe_timestamp_millis elems),
                           wv_windows = [w], wv_pane = pane_info OnTime 0 True True\<rparr>)
         else apply_group_general key w elems spec wm pt g)"

fun take_ready_loop ::
  "trigger_spec \<Rightarrow> int \<Rightarrow> int \<Rightarrow> nat \<Rightarrow> group_id list \<Rightarrow> (group_id, window_state) hashmap \<Rightarrow> windowed_value list
   \<Rightarrow> (group_id list \<times> (group_id, window_state) hashmap \<times> windowed_value list) option" where
  "take_ready_loop spec wm pt limit scan sts output =
     (if length output \<ge> limit then Some (scan, sts, output)
      else case scan of
        [] \<Rightarrow> Some ([], sts, output)
      | gid # rest \<Rightarrow>
          (case hm_get sts gid of
             None \<Rightarrow> take_ready_loop spec wm pt limit rest sts output
           | Some st \<Rightarrow>
               if st_evaluated_this_run st then take_ready_loop spec wm pt limit rest sts output
               else (case fire_state spec wm pt st of
                       None \<Rightarrow> None
                     | Some (st', out) \<Rightarrow>
                         take_ready_loop spec wm pt limit rest
                           (if st_closed st' then hm_remove gid (hm_insert gid st' sts) else hm_insert gid st' sts)
                           (case out of None \<Rightarrow> output | Some v \<Rightarrow> output @ [v]))))"

declare take_ready_loop.simps [simp del]

definition take_ready ::
  "trigger_spec \<Rightarrow> int \<Rightarrow> int \<Rightarrow> nat \<Rightarrow> gbk_state \<Rightarrow> (gbk_state \<times> windowed_value list) gbk_result" where
  "take_ready spec wm pt limit g =
     (if limit = 0 then Ok (g, [])
      else
        let scan = (case gbk_ready_scan g of None \<Rightarrow> hm_keys (gbk_states g) | Some q \<Rightarrow> q)
        in case take_ready_loop spec wm pt limit scan (gbk_states g) [] of
             None \<Rightarrow> Panic
           | Some (scan', sts, output) \<Rightarrow>
               Ok (g\<lparr>gbk_states := sts,
                     gbk_ready_scan := (if scan' = [] then None else Some scan')\<rparr>, output))"

section \<open>Identities are injective\<close>

lemma u64_be_inject [simp]: "u64_be v = u64_be w \<longleftrightarrow> v = w"
  using u64_codec.encode_inject by simp

lemma encoded_primitive_sort_key_inject:
  "prim_ok a \<Longrightarrow> prim_ok b \<Longrightarrow> encoded_primitive_sort_key a = encoded_primitive_sort_key b \<longleftrightarrow> a = b"
  by (cases a; cases b) (auto simp: as_u64_eq_iff split: if_splits)

lemma group_identity_inject:
  assumes "prim_ok k" "prim_ok k'" "window_ok w" "window_ok w'"
    and "group_identity k w = Ok gid" "group_identity k' w' = Ok gid"
  shows "k = k' \<and> w = w'"
proof -
  obtain key key' where keys: "to_binary_key w = Ok key" "to_binary_key w' = Ok key'"
      "gid = (encoded_primitive_sort_key k, key)" "gid = (encoded_primitive_sort_key k', key')"
    using assms(5,6) by (auto simp: group_identity_def split: rust.splits)
  then have "from_binary_key key = Some w" "from_binary_key key = Some w'"
    using binary_roundtrip [OF assms(3) keys(1)] binary_roundtrip [OF assms(4) keys(2)] by simp_all
  with keys assms(1,2) show ?thesis
    by (simp add: encoded_primitive_sort_key_inject)
qed

section \<open>Nothing is lost or duplicated\<close>

type_synonym item = "primitive_value \<times> beam_window \<times> beam_record"

definition received :: "primitive_value \<Rightarrow> beam_window \<Rightarrow> pane_element list \<Rightarrow> item multiset" where
  "received k w elems = mset (map (\<lambda>e. (k, w, pe_value e)) elems)"

definition contents :: "window_state \<Rightarrow> item multiset" where
  "contents st = received (st_key st) (st_window st) (st_elements st)"

definition retained :: "(group_id, window_state) hashmap \<Rightarrow> item multiset" where
  "retained sts = sum_list (map (contents \<circ> snd) sts)"

definition emitted :: "windowed_value \<Rightarrow> item multiset" where
  "emitted v =
     (case wv_value v of KV k (ITERABLE rs) \<Rightarrow> mset (map (\<lambda>r. (k, hd (wv_windows v), r)) rs) | _ \<Rightarrow> {#})"

definition emitted_opt :: "windowed_value option \<Rightarrow> item multiset" where
  "emitted_opt out = (case out of None \<Rightarrow> {#} | Some v \<Rightarrow> emitted v)"

definition emitted_all :: "windowed_value list \<Rightarrow> item multiset" where
  "emitted_all vs = sum_list (map emitted vs)"

lemma received_append [simp]: "received k w (xs @ ys) = received k w xs + received k w ys"
  by (simp add: received_def)

lemma received_Nil [simp]: "received k w [] = {#}"
  by (simp add: received_def)

lemma retained_insert:
  "retained (hm_insert gid st sts) + (case hm_get sts gid of None \<Rightarrow> {#} | Some st0 \<Rightarrow> contents st0)
   = retained sts + contents st"
  by (induction sts) (auto simp: retained_def ac_simps split: option.splits)

lemma retained_remove:
  "hm_wf sts \<Longrightarrow> retained (hm_remove gid sts) + (case hm_get sts gid of None \<Rightarrow> {#} | Some st0 \<Rightarrow> contents st0)
   = retained sts"
proof (induction sts)
  case (Cons e sts)
  have "hm_get sts (fst e) = None"
    using Cons.prems by (simp add: hm_wf_def map_of_eq_None_iff)
  moreover have "hm_wf sts"
    using Cons.prems by (simp add: hm_wf_def)
  ultimately show ?case
    using Cons.IH by (cases e) (auto simp: retained_def ac_simps AList.delete_eq split: option.splits)
qed (simp add: retained_def)

definition runner_ok :: "trigger_runner \<Rightarrow> bool" where
  "runner_ok r \<longleftrightarrow> shaped (runner_trigger r) (runner_state r)"

definition window_state_ok :: "window_state \<Rightarrow> bool" where
  "window_state_ok st \<longleftrightarrow>
     prim_ok (st_key st) \<and> window_ok (st_window st) \<and> runner_ok (st_trigger st) \<and> \<not> st_closed st"

lemma runner_ok_new: "runner_ok (runner_new t)"
  by (simp add: runner_ok_def runner_new_def shaped_fresh)

lemma runner_ok_element: "runner_ok r \<Longrightarrow> \<exists>r'. on_element pt r = Some r' \<and> runner_ok r'"
  using element_total [of "runner_trigger r" "runner_state r" pt] by (auto simp: runner_ok_def on_element_def)

lemma runner_ok_fire: "runner_ok r \<Longrightarrow> \<exists>r'. on_fire ctx r = Some r' \<and> runner_ok r'"
  using fire_total [of "runner_trigger r" "runner_state r" ctx] by (auto simp: runner_ok_def on_fire_def)

lemma runner_ok_should_fire: "runner_ok r \<Longrightarrow> \<exists>b. runner_should_fire ctx r = Some b"
  using should_fire_total by (auto simp: runner_ok_def runner_should_fire_def)

lemma feed_elements_total: "runner_ok r \<Longrightarrow> \<exists>r'. feed_elements pt n r = Some r' \<and> runner_ok r'"
proof (induction n arbitrary: r)
  case (Suc n)
  obtain r1 where "on_element pt r = Some r1" "runner_ok r1"
    using runner_ok_element [OF Suc.prems] by blast
  with Suc.IH [of r1] show ?case
    by simp
qed simp

lemma fire_state_total:
  assumes "runner_ok (st_trigger st)"
  shows "\<exists>st' out. fire_state spec wm pt st = Some (st', out) \<and> runner_ok (st_trigger st')
    \<and> st_key st' = st_key st \<and> st_window st' = st_window st
    \<and> (st_closed st' \<longrightarrow> st_closed st \<or> earliest_completion spec (max_timestamp_millis (st_window st)) < wm)"
proof -
  define ctx where "ctx = \<lparr>end_of_window = max_timestamp_millis (st_window st) < wm,
      expired = earliest_completion spec (max_timestamp_millis (st_window st)) < wm, processing_time = pt\<rparr>"
  obtain b where b: "runner_should_fire ctx (st_trigger st) = Some b"
    using runner_ok_should_fire [OF assms] by blast
  obtain r where r: "on_fire ctx (st_trigger st) = Some r" "runner_ok r"
    using runner_ok_fire [OF assms] by blast
  show ?thesis
    using b r assms unfolding ctx_def by (auto simp: fire_state_def Let_def)
qed

text \<open>In discarding mode a firing moves the contents of the state to the output, whole.\<close>

lemma fire_state_conserves:
  assumes "spec_accumulation spec = Discarding" and "fire_state spec wm pt st = Some (st', out)"
  shows "contents st = contents st' + emitted_opt out" and "st_closed st' \<Longrightarrow> \<not> st_closed st \<Longrightarrow> contents st' = {#}"
  using assms
  by (auto simp: fire_state_def Let_def contents_def received_def emitted_opt_def emitted_def multiset.map_comp comp_def
      split: option.splits if_splits)

subsection \<open>Runs of the backend\<close>

definition gbk_inv :: "(group_id, window_state) hashmap \<Rightarrow> bool" where
  "gbk_inv sts \<longleftrightarrow>
     hm_wf sts \<and> (\<forall>gid st. hm_get sts gid = Some st \<longrightarrow>
       window_state_ok st \<and> group_identity (st_key st) (st_window st) = Ok gid)"

lemma gbk_invD:
  "gbk_inv sts \<Longrightarrow> hm_get sts gid = Some st \<Longrightarrow>
   window_state_ok st \<and> group_identity (st_key st) (st_window st) = Ok gid"
  unfolding gbk_inv_def by blast

lemma gbk_inv_insert:
  "gbk_inv sts \<Longrightarrow> window_state_ok st \<Longrightarrow> group_identity (st_key st) (st_window st) = Ok gid \<Longrightarrow>
   gbk_inv (hm_insert gid st sts)"
  by (auto simp: gbk_inv_def)

lemma gbk_inv_remove_insert:
  "gbk_inv sts \<Longrightarrow> gbk_inv (hm_remove gid (hm_insert gid st sts))"
  by (auto simp: gbk_inv_def split: if_splits)

text \<open>Writing back a fired state: its contents and what it emitted are what it held before.\<close>

definition write_back :: "group_id \<Rightarrow> window_state \<Rightarrow> (group_id, window_state) hashmap \<Rightarrow> (group_id, window_state) hashmap" where
  "write_back gid st sts =
     (if st_closed st then hm_remove gid (hm_insert gid st sts) else hm_insert gid st sts)"

lemma gbk_inv_write_back:
  "gbk_inv sts \<Longrightarrow> prim_ok (st_key st) \<Longrightarrow> window_ok (st_window st) \<Longrightarrow> runner_ok (st_trigger st) \<Longrightarrow>
   group_identity (st_key st) (st_window st) = Ok gid \<Longrightarrow> gbk_inv (write_back gid st sts)"
  by (auto simp: write_back_def window_state_ok_def intro: gbk_inv_insert gbk_inv_remove_insert)

lemma retained_write_back:
  assumes "hm_wf sts" and "st_closed st \<longrightarrow> contents st = {#}"
  shows "retained (write_back gid st sts) + (case hm_get sts gid of None \<Rightarrow> {#} | Some st0 \<Rightarrow> contents st0)
    = retained sts + contents st"
proof (cases "st_closed st")
  case True
  have "hm_wf (hm_insert gid st sts)"
    using assms(1) by simp
  from retained_remove [OF this, of gid] True assms(2)
  have "retained (hm_remove gid (hm_insert gid st sts)) = retained (hm_insert gid st sts)"
    by simp
  with True retained_insert [of gid st sts] show ?thesis
    by (simp add: write_back_def)
qed (simp add: write_back_def retained_insert)

lemma fire_write_back:
  assumes "gbk_inv sts" and "runner_ok (st_trigger st)" and "prim_ok (st_key st)" "window_ok (st_window st)"
    and "group_identity (st_key st) (st_window st) = Ok gid" and "\<not> st_closed st"
    and "fire_state spec wm pt st = Some (st', out)"
  shows "gbk_inv (write_back gid st' sts)"
    and "spec_accumulation spec = Discarding \<Longrightarrow>
      retained (write_back gid st' sts) + emitted_opt out
        + (case hm_get sts gid of None \<Rightarrow> {#} | Some st0 \<Rightarrow> contents st0) = retained sts + contents st"
proof -
  have st': "runner_ok (st_trigger st')" "st_key st' = st_key st" "st_window st' = st_window st"
    using fire_state_total [OF assms(2), of spec wm pt] assms(7) by auto
  with assms show "gbk_inv (write_back gid st' sts)"
    by (intro gbk_inv_write_back) auto
  assume acc: "spec_accumulation spec = Discarding"
  have "hm_wf sts"
    using assms(1) by (simp add: gbk_inv_def)
  moreover have "st_closed st' \<longrightarrow> contents st' = {#}"
    using fire_state_conserves(2) [OF acc assms(7)] assms(6) by blast
  ultimately have "retained (write_back gid st' sts) + (case hm_get sts gid of None \<Rightarrow> {#} | Some st0 \<Rightarrow> contents st0)
      = retained sts + contents st'"
    by (rule retained_write_back)
  then show "retained (write_back gid st' sts) + emitted_opt out
        + (case hm_get sts gid of None \<Rightarrow> {#} | Some st0 \<Rightarrow> contents st0) = retained sts + contents st"
    using fire_state_conserves(1) [OF acc assms(7)] by (simp add: ac_simps)
qed

text \<open>The state \<open>apply_group\<close> fires: the group's own, or a new one, with the elements appended.\<close>

definition group_state :: "primitive_value \<Rightarrow> beam_window \<Rightarrow> trigger_spec \<Rightarrow> group_id \<Rightarrow> gbk_state \<Rightarrow> window_state" where
  "group_state key w spec gid g =
     (case hm_get (gbk_states g) gid of
        Some st \<Rightarrow> st | None \<Rightarrow> window_state_new key w (runner_new (spec_trigger spec)))"

lemma group_state_ok:
  assumes "gbk_inv (gbk_states g)" and "prim_ok key" "window_ok w" and "group_identity key w = Ok gid"
  shows "window_state_ok (group_state key w spec gid g)" "st_key (group_state key w spec gid g) = key"
    "st_window (group_state key w spec gid g) = w"
    "contents (group_state key w spec gid g) = (case hm_get (gbk_states g) gid of None \<Rightarrow> {#} | Some st \<Rightarrow> contents st)"
proof -
  have old: "window_state_ok st \<and> st_key st = key \<and> st_window st = w" if "hm_get (gbk_states g) gid = Some st" for st
  proof -
    note st = gbk_invD [OF assms(1) that]
    then have "prim_ok (st_key st)" "window_ok (st_window st)"
      by (simp_all add: window_state_ok_def)
    then have "st_key st = key \<and> st_window st = w"
      using st assms(2-4) by (intro group_identity_inject) auto
    with st show ?thesis
      by simp
  qed
  then show "window_state_ok (group_state key w spec gid g)" "st_key (group_state key w spec gid g) = key"
    "st_window (group_state key w spec gid g) = w"
    "contents (group_state key w spec gid g) = (case hm_get (gbk_states g) gid of None \<Rightarrow> {#} | Some st \<Rightarrow> contents st)"
    using assms by (auto simp: group_state_def window_state_ok_def window_state_new_def contents_def runner_ok_new split: option.split)
qed

lemma apply_group_general_spec:
  assumes inv: "gbk_inv (gbk_states g)" and ok: "prim_ok key" "window_ok w" and gid: "group_identity key w = Ok gid"
  shows "\<exists>sts out. apply_group_general key w elems spec wm pt g = Ok (g\<lparr>gbk_states := sts\<rparr>, out) \<and> gbk_inv sts
    \<and> (spec_accumulation spec = Discarding \<longrightarrow>
         retained sts + emitted_opt out = retained (gbk_states g) + received key w elems)"
proof -
  let ?st0 = "group_state key w spec gid g"
  note st0 = group_state_ok [OF inv ok gid, of spec]
  obtain tr where tr: "feed_elements pt (length elems) (st_trigger ?st0) = Some tr" "runner_ok tr"
    using feed_elements_total [of "st_trigger ?st0" pt "length elems"] st0(1)
    unfolding window_state_ok_def by blast
  let ?st1 = "?st0\<lparr>st_trigger := tr, st_pane_timestamps := st_pane_timestamps ?st0 @ map pe_timestamp_millis elems,
                   st_elements := st_elements ?st0 @ elems\<rparr>"
  obtain st2 out where fire: "fire_state spec wm pt ?st1 = Some (st2, out)"
    using fire_state_total [of ?st1 spec wm pt] tr by auto
  have eq: "apply_group_general key w elems spec wm pt g
      = Ok (g\<lparr>gbk_states := write_back gid st2 (gbk_states g)\<rparr>, out)"
    using tr(1) fire by (simp add: apply_group_general_def gid group_state_def [symmetric] Let_def write_back_def)
  have c1: "contents ?st1 = contents ?st0 + received key w elems"
    using st0(2,3) by (simp add: contents_def)
  have fw: "gbk_inv (write_back gid st2 (gbk_states g))"
      "spec_accumulation spec = Discarding \<Longrightarrow> retained (write_back gid st2 (gbk_states g)) + emitted_opt out
        + (case hm_get (gbk_states g) gid of None \<Rightarrow> {#} | Some st0 \<Rightarrow> contents st0) = retained (gbk_states g) + contents ?st1"
    using st0 tr(2) gid ok by (intro fire_write_back [OF inv _ _ _ _ _ fire]; simp add: window_state_ok_def)+
  show ?thesis
    using eq fw c1 st0(4) by auto
qed

lemma take_ready_loop_spec:
  "gbk_inv sts \<Longrightarrow>
   \<exists>scan' sts' new. take_ready_loop spec wm pt limit scan sts acc = Some (scan', sts', acc @ new) \<and> gbk_inv sts'
     \<and> (spec_accumulation spec = Discarding \<longrightarrow> retained sts' + emitted_all new = retained sts)"
proof (induction scan arbitrary: sts acc)
  case Nil
  then show ?case
    by (subst take_ready_loop.simps) (auto simp: emitted_all_def)
next
  case (Cons gid rest)
  consider (full) "limit \<le> length acc"
    | (skip) "length acc < limit" "\<forall>st. hm_get sts gid = Some st \<longrightarrow> st_evaluated_this_run st"
    | (fires) st where "length acc < limit" "hm_get sts gid = Some st" "\<not> st_evaluated_this_run st"
    by fastforce
  then show ?case
  proof cases
    case full
    with Cons.prems show ?thesis
      by (subst take_ready_loop.simps) (auto simp: emitted_all_def)
  next
    case skip
    then show ?thesis
      using Cons.IH [OF Cons.prems, of acc]
      by (subst take_ready_loop.simps) (auto split: option.splits)
  next
    case fires
    note st = gbk_invD [OF Cons.prems fires(2)]
    then have ok: "runner_ok (st_trigger st)" "prim_ok (st_key st)" "window_ok (st_window st)" "\<not> st_closed st"
      by (simp_all add: window_state_ok_def)
    obtain st' out where fire: "fire_state spec wm pt st = Some (st', out)"
      using fire_state_total [OF ok(1)] by blast
    note fw = fire_write_back [OF Cons.prems ok(1-3) conjunct2 [OF st] ok(4) fire]
    let ?new = "case out of None \<Rightarrow> [] | Some v \<Rightarrow> [v]"
    have step: "take_ready_loop spec wm pt limit (gid # rest) sts acc
        = take_ready_loop spec wm pt limit rest (write_back gid st' sts) (acc @ ?new)"
      using fires fire by (subst take_ready_loop.simps) (auto simp: write_back_def split: option.split)
    obtain scan' sts' new where rec:
        "take_ready_loop spec wm pt limit rest (write_back gid st' sts) (acc @ ?new) = Some (scan', sts', (acc @ ?new) @ new)"
        "gbk_inv sts'" "spec_accumulation spec = Discarding \<longrightarrow> retained sts' + emitted_all new = retained (write_back gid st' sts)"
      using Cons.IH [OF fw(1), of "acc @ ?new"] by blast
    have "emitted_all (?new @ new) = emitted_opt out + emitted_all new"
      by (cases out) (simp_all add: emitted_all_def emitted_opt_def)
    moreover have "retained (write_back gid st' sts) + emitted_opt out = retained sts"
      if "spec_accumulation spec = Discarding"
      using fw(2) [OF that] fires(2) by simp
    ultimately have "spec_accumulation spec = Discarding \<longrightarrow> retained sts' + emitted_all (?new @ new) = retained sts"
      using rec(3) by (metis union_assoc union_commute)
    with rec(1,2) step show ?thesis
      by (metis append.assoc)
  qed
qed

text \<open>
  A run of the backend under one trigger specification: any interleaving of its
  operations, with the items received and the panes emitted so far.
\<close>

inductive gbk_run :: "trigger_spec \<Rightarrow> gbk_state \<Rightarrow> item multiset \<Rightarrow> windowed_value list \<Rightarrow> bool" where
  gbk_init: "gbk_run spec gbk_empty {#} []"
| gbk_begin: "gbk_run spec g R E \<Longrightarrow> gbk_run spec (begin_run g) R E"
| gbk_mark: "gbk_run spec g R E \<Longrightarrow> gbk_run spec (mark_watermark_evaluated wm g) R E"
| gbk_group: "gbk_run spec g R E \<Longrightarrow> prim_ok key \<Longrightarrow> window_ok w \<Longrightarrow>
    apply_group key w elems spec wm pt g = Ok (g', out) \<Longrightarrow>
    gbk_run spec g' (R + received key w elems) (E @ (case out of None \<Rightarrow> [] | Some v \<Rightarrow> [v]))"
| gbk_ready: "gbk_run spec g R E \<Longrightarrow> take_ready spec wm pt limit g = Ok (g', vs) \<Longrightarrow> gbk_run spec g' R (E @ vs)"

lemma begin_run_retained: "retained (gbk_states (begin_run g)) = retained (gbk_states g)"
proof -
  have "contents (st\<lparr>st_evaluated_this_run := False\<rparr>) = contents st" for st :: window_state
    by (simp add: contents_def)
  then show ?thesis
    by (simp add: begin_run_def retained_def hm_map_values_def comp_def case_prod_unfold)
qed

lemma begin_run_inv: "gbk_inv (gbk_states g) \<Longrightarrow> gbk_inv (gbk_states (begin_run g))"
  unfolding gbk_inv_def begin_run_def by (auto simp: window_state_ok_def)

lemma emitted_all_append: "emitted_all (xs @ ys) = emitted_all xs + emitted_all ys"
  by (simp add: emitted_all_def)

lemma emitted_all_opt: "emitted_all (case out of None \<Rightarrow> [] | Some v \<Rightarrow> [v]) = emitted_opt out"
  by (cases out) (simp_all add: emitted_all_def emitted_opt_def)

lemma apply_group_spec:
  assumes "gbk_inv (gbk_states g)" and "prim_ok key" "window_ok w" and "group_identity key w = Ok gid"
  shows "\<exists>g' out. apply_group key w elems spec wm pt g = Ok (g', out) \<and> gbk_inv (gbk_states g')
    \<and> (spec_accumulation spec = Discarding \<longrightarrow>
         retained (gbk_states g') + emitted_opt out = retained (gbk_states g) + received key w elems)"
  using apply_group_general_spec [OF assms, of elems spec wm pt] assms(1)
  by (auto simp: apply_group_def Let_def emitted_opt_def emitted_def received_def multiset.map_comp comp_def)

lemma take_ready_spec:
  assumes "gbk_inv (gbk_states g)"
  shows "\<exists>g' vs. take_ready spec wm pt limit g = Ok (g', vs) \<and> gbk_inv (gbk_states g')
    \<and> (spec_accumulation spec = Discarding \<longrightarrow> retained (gbk_states g') + emitted_all vs = retained (gbk_states g))"
proof (cases "limit = 0")
  case False
  define scan where "scan = (case gbk_ready_scan g of None \<Rightarrow> hm_keys (gbk_states g) | Some q \<Rightarrow> q)"
  obtain scan' sts' new where
    "take_ready_loop spec wm pt limit scan (gbk_states g) [] = Some (scan', sts', [] @ new)" "gbk_inv sts'"
    "spec_accumulation spec = Discarding \<longrightarrow> retained sts' + emitted_all new = retained (gbk_states g)"
    using take_ready_loop_spec [OF assms] by blast
  with False show ?thesis
    by (simp add: take_ready_def scan_def Let_def)
qed (use assms in \<open>simp add: take_ready_def emitted_all_def\<close>)

lemma gbk_run_inv: "gbk_run spec g R E \<Longrightarrow> gbk_inv (gbk_states g)"
proof (induction rule: gbk_run.induct)
  case (gbk_group spec g R E key w elems wm pt g' out)
  show ?case
  proof (cases "group_identity key w")
    case (Ok gid)
    from apply_group_spec [OF gbk_group.IH gbk_group.hyps(2,3) this, of elems spec wm pt] gbk_group.hyps(4)
    show ?thesis
      by auto
  qed (use gbk_group in \<open>auto simp: apply_group_def apply_group_general_def Let_def split: if_splits\<close>)
next
  case (gbk_ready spec g R E wm pt limit g' vs)
  then show ?case
    using take_ready_spec [of g spec wm pt limit] by auto
qed (simp_all add: begin_run_inv, simp_all add: gbk_inv_def gbk_empty_def mark_watermark_evaluated_def)

lemma apply_group_conserves:
  assumes "gbk_inv (gbk_states g)" and "prim_ok key" "window_ok w" and "spec_accumulation spec = Discarding"
    and "apply_group key w elems spec wm pt g = Ok (g', out)"
  shows "retained (gbk_states g') + emitted_opt out = retained (gbk_states g) + received key w elems"
proof (cases "group_identity key w")
  case (Ok gid)
  from apply_group_spec [OF assms(1-3) this, of elems spec wm pt] assms(4,5) show ?thesis
    by auto
qed (use assms in \<open>auto simp: apply_group_def apply_group_general_def Let_def emitted_opt_def emitted_def received_def
    multiset.map_comp comp_def split: if_splits\<close>)

lemma gbk_run_conserves:
  "gbk_run spec g R E \<Longrightarrow> spec_accumulation spec = Discarding \<Longrightarrow> R = emitted_all E + retained (gbk_states g)"
proof (induction rule: gbk_run.induct)
  case (gbk_group spec g R E key w elems wm pt g' out)
  have "retained (gbk_states g') + emitted_opt out = retained (gbk_states g) + received key w elems"
    using gbk_group.hyps gbk_group.prems gbk_run_inv by (intro apply_group_conserves) auto
  moreover have "R = emitted_all E + retained (gbk_states g)"
    using gbk_group by blast
  ultimately show ?case
    unfolding emitted_all_append emitted_all_opt by (metis union_assoc union_commute)
next
  case (gbk_ready spec g R E wm pt limit g' vs)
  have "retained (gbk_states g') + emitted_all vs = retained (gbk_states g)"
    using take_ready_spec [OF gbk_run_inv [OF gbk_ready.hyps(1)], of spec wm pt limit] gbk_ready by auto
  then show ?case
    using gbk_ready.IH [OF gbk_ready.prems] unfolding emitted_all_append by (metis union_assoc union_commute)
qed (simp_all add: begin_run_retained, simp_all add: gbk_empty_def emitted_all_def retained_def mark_watermark_evaluated_def)

section \<open>The shortcut for expired windows\<close>

lemma in_i64_max_timestamp: "in_i64 (max_timestamp_millis w)"
  by (cases w) (simp_all add: timestamp_defs, simp_all add: i64_range_defs)

lemma expired_past_end:
  assumes "0 \<le> spec_allowed_lateness spec" and "earliest_completion spec (max_timestamp_millis w) < wm"
  shows "max_timestamp_millis w < wm"
proof -
  have "max_timestamp_millis w \<le> i64_max"
    using in_i64_max_timestamp by (simp add: in_i64_def)
  then have "max_timestamp_millis w \<le> saturating_add (max_timestamp_millis w) (spec_allowed_lateness spec)"
    using assms(1) unfolding saturating_add_def by linarith
  with assms(2) show ?thesis
    by (simp add: earliest_completion_def)
qed

lemma feed_default: "runner_trigger r = Default \<Longrightarrow> feed_elements pt n r = Some r"
  by (induction n) (simp_all add: on_element_def)

lemma shortcut_equiv:
  assumes "elems \<noteq> []" and "0 \<le> spec_allowed_lateness spec" and "group_identity key w = Ok gid"
  shows "apply_group key w elems spec wm pt g = apply_group_general key w elems spec wm pt g"
proof (cases "gbk_states g = [] \<and> earliest_completion spec (max_timestamp_millis w) < wm
    \<and> spec_trigger spec = Default \<and> spec_accumulation spec = Discarding")
  case True
  have past: "max_timestamp_millis w < wm"
    using expired_past_end assms(2) True by blast
  have "feed_elements pt n (runner_new Default) = Some (runner_new Default)" for n
    by (rule feed_default) (simp add: runner_new_def)
  then show ?thesis
    using True past assms(1)
    by (simp add: apply_group_def apply_group_general_def assms(3) Let_def window_state_new_def fire_state_def
        runner_should_fire_def on_fire_def runner_new_def pane_timing_def node_default_def)
qed (auto simp: apply_group_def Let_def)

section \<open>Properties\<close>


definition sample_spec :: trigger_spec where
  "sample_spec = \<lparr>spec_trigger = Repeat (ElementCount 2), spec_accumulation = Discarding,
     spec_output_time = EarliestInPane, spec_allowed_lateness = 0\<rparr>"

definition sample_element :: "int \<Rightarrow> pane_element" where
  "sample_element i = \<lparr>pe_value = PRIMITIVE (PInt64 i), pe_timestamp_millis = i\<rparr>"


text \<open>
  C20: the state backend never panics and keeps its invariant: in every state a run
  reaches, group identities are those of the stored keys and windows and no closed state
  is kept, and applying a group whose window has a key returns normally.
\<close>

theorem gbk_backend_safe:
  assumes "gbk_run spec g R E" and "prim_ok key" and "window_ok w" and "group_identity key w = Ok gid"
  shows "gbk_inv (gbk_states g) \<and> (\<exists>g' out. apply_group key w elems spec wm pt g = Ok (g', out))
    \<and> (\<exists>g' vs. take_ready spec wm pt limit g = Ok (g', vs))"
  using gbk_run_inv [OF assms(1)] apply_group_spec [OF gbk_run_inv [OF assms(1)] assms(2-4), of elems spec wm pt]
    take_ready_spec [OF gbk_run_inv [OF assms(1)], of spec wm pt limit]
  by blast

theorem gbk_backend_safe_witness:
  "\<exists>g' out. apply_group PVoid Global [] sample_spec 0 0 gbk_empty = Ok (g', out)"
  using gbk_backend_safe [OF gbk_run.gbk_init, of PVoid Global] by (simp add: group_identity_def)

text \<open>
  C21: the shortcut of \<open>apply_group\<close> for an expired window with the default trigger and no
  retained state gives the same pane and the same state as the general path, for a
  non-empty group and a non-negative allowed lateness.
\<close>

theorem gbk_shortcut_equivalent:
  assumes "elems \<noteq> []" and "0 \<le> spec_allowed_lateness spec" and "group_identity key w = Ok gid"
  shows "apply_group key w elems spec wm pt g = apply_group_general key w elems spec wm pt g"
  by (rule shortcut_equiv [OF assms])

theorem gbk_shortcut_equivalent_witness:
  "apply_group PVoid (Interval 0 10) [sample_element 3] (from_windowing_strategy None) 20 0 gbk_empty
   = apply_group_general PVoid (Interval 0 10) [sample_element 3] (from_windowing_strategy None) 20 0 gbk_empty"
  by (rule gbk_shortcut_equivalent [of _ _ _ _ "(encoded_primitive_sort_key PVoid, 1 # ordered_i64_bytes 0 @ ordered_i64_bytes 10)"])
    (simp_all add: from_windowing_strategy_def group_identity_def)

end
