(* ===== verification/Gbk_Groups.thy ===== *)
theory Gbk_Groups
  imports Group_By_Key
begin

text \<open>
  Group formation of \<open>transforms/gbk.rs\<close>: the decoder that turns the sorted rows into one
  group per key, the merging of interval windows, the application of the SDK's merge
  results, and the function that feeds the groups of a batch to the state backend. The
  debug rendering of a key (a \<open>HashMap\<close> key inside \<open>merge_interval_groups\<close>) and the SDK
  window merger are arguments.
\<close>

section \<open>Decoding sorted rows\<close>

text \<open>One row of the sorted stream, after Arrow decoding.\<close>

record sorted_row =
  row_encoded_key :: bytes
  row_window_key :: bytes
  row_timestamp :: int
  row_record :: beam_record

type_synonym window_values = "(beam_window \<times> pane_element list) list"

record in_progress_group =
  ip_encoded_key :: bytes
  ip_key :: primitive_value
  ip_windows :: window_values

record decoded_group =
  dg_key :: primitive_value
  dg_windows :: window_values

type_synonym decoder = "in_progress_group option"

definition push_window :: "beam_window \<Rightarrow> pane_element \<Rightarrow> window_values \<Rightarrow> window_values" where
  "push_window w e ws =
     (if ws \<noteq> [] \<and> to_binary_key (fst (last ws)) = to_binary_key w
      then butlast ws @ [(fst (last ws), snd (last ws) @ [e])]
      else ws @ [(w, [e])])"

definition finish_group :: "in_progress_group \<Rightarrow> decoded_group" where
  "finish_group c = \<lparr>dg_key = ip_key c, dg_windows = ip_windows c\<rparr>"

definition push_row :: "sorted_row \<Rightarrow> decoder \<Rightarrow> (decoder \<times> decoded_group list) gbk_result" where
  "push_row row cur =
     (case row_record row of
        KV key value \<Rightarrow>
          (case from_binary_key (row_window_key row) of
             None \<Rightarrow> Err ''malformed binary window key''
           | Some w \<Rightarrow>
               let e = \<lparr>pe_value = value, pe_timestamp_millis = row_timestamp row\<rparr>;
                   replaced = (case cur of None \<Rightarrow> False | Some c \<Rightarrow> ip_encoded_key c \<noteq> row_encoded_key row);
                   completed = (if replaced then [finish_group (the cur)] else []);
                   c = (if replaced \<or> cur = None
                        then \<lparr>ip_encoded_key = row_encoded_key row, ip_key = key, ip_windows = []\<rparr>
                        else the cur)
               in Ok (Some (c\<lparr>ip_windows := push_window w e (ip_windows c)\<rparr>), completed))
      | _ \<Rightarrow> Err ''expected KV input'')"

primrec push_batch :: "sorted_row list \<Rightarrow> decoder \<Rightarrow> (decoder \<times> decoded_group list) gbk_result" where
  "push_batch [] cur = Ok (cur, [])"
| "push_batch (row # rows) cur =
     rbind (push_row row cur) (\<lambda>(cur1, gs1).
       rbind (push_batch rows cur1) (\<lambda>(cur2, gs2). Ok (cur2, gs1 @ gs2)))"

definition decoder_finish :: "decoder \<Rightarrow> decoded_group option" where
  "decoder_finish cur = map_option finish_group cur"

section \<open>Merging windows\<close>

text \<open>The loop of \<open>merge_interval_groups\<close> over the windows of one key, sorted by bounds.\<close>

fun merge_run :: "int \<Rightarrow> int \<Rightarrow> 'v list \<Rightarrow> (int \<times> int \<times> 'v list) list \<Rightarrow> (int \<times> int \<times> 'v list) list" where
  "merge_run s e vs [] = [(s, e, vs)]"
| "merge_run s e vs ((ns, ne, nvs) # rest) =
     (if ns < e then merge_run s (max e ne) (vs @ nvs) rest
      else (s, e, vs) # merge_run ns ne nvs rest)"

definition merge_intervals :: "(int \<times> int \<times> 'v list) list \<Rightarrow> (int \<times> int \<times> 'v list) list" where
  "merge_intervals ws =
     (case sort_key (\<lambda>(s, e, _). (s, e)) ws of [] \<Rightarrow> [] | (s, e, vs) # rest \<Rightarrow> merge_run s e vs rest)"

type_synonym keyed_group = "primitive_value \<times> beam_window \<times> pane_element list"

fun collect_by_key ::
  "(primitive_value \<Rightarrow> string) \<Rightarrow> keyed_group list
   \<Rightarrow> (string, primitive_value \<times> (int \<times> int \<times> pane_element list) list) hashmap
   \<Rightarrow> (string, primitive_value \<times> (int \<times> int \<times> pane_element list) list) hashmap gbk_result" where
  "collect_by_key dbg [] m = Ok m"
| "collect_by_key dbg ((key, Interval s e, values) # groups) m =
     (let entry = (case hm_get m (dbg key) of None \<Rightarrow> (key, []) | Some x \<Rightarrow> x)
      in collect_by_key dbg groups (hm_insert (dbg key) (fst entry, snd entry @ [(s, e, values)]) m))"
| "collect_by_key dbg (_ # groups) m = Err ''native interval merge received a non-interval window''"

definition merge_interval_groups ::
  "(primitive_value \<Rightarrow> string) \<Rightarrow> keyed_group list \<Rightarrow> keyed_group list gbk_result" where
  "merge_interval_groups dbg groups =
     rbind (collect_by_key dbg groups []) (\<lambda>m.
       Ok (concat (map (\<lambda>(_, key, ws). map (\<lambda>(s, e, vs). (key, Interval s e, vs)) (merge_intervals ws)) m)))"

record merged_windows =
  mw_merged :: beam_window
  mw_originals :: "beam_window list"

text \<open>\<open>original_to_merged\<close>: a later result overwrites an earlier one for the same window.\<close>

fun map_originals ::
  "beam_window \<Rightarrow> beam_window list \<Rightarrow> (bytes, beam_window) hashmap \<Rightarrow> (bytes, beam_window) hashmap gbk_result" where
  "map_originals merged [] m = Ok m"
| "map_originals merged (orig # os) m =
     (case to_binary_key orig of Ok k \<Rightarrow> map_originals merged os (hm_insert k merged m) | _ \<Rightarrow> Panic)"

fun original_to_merged ::
  "merged_windows list \<Rightarrow> (bytes, beam_window) hashmap \<Rightarrow> (bytes, beam_window) hashmap gbk_result" where
  "original_to_merged [] m = Ok m"
| "original_to_merged (r # rs) m =
     rbind (map_originals (mw_merged r) (mw_originals r) m) (original_to_merged rs)"

fun merge_groups ::
  "(bytes, beam_window) hashmap \<Rightarrow> window_values \<Rightarrow> (bytes, beam_window \<times> pane_element list) hashmap
   \<Rightarrow> (bytes, beam_window \<times> pane_element list) hashmap gbk_result" where
  "merge_groups o2m [] acc = Ok acc"
| "merge_groups o2m ((orig, values) # groups) acc =
     (case to_binary_key orig of
        Ok k \<Rightarrow>
          (case hm_get o2m k of
             None \<Rightarrow> Err ''MergeWindows did not map an original window''
           | Some w \<Rightarrow>
               (case to_binary_key w of
                  Ok wk \<Rightarrow>
                    let entry = (case hm_get acc wk of None \<Rightarrow> (w, []) | Some x \<Rightarrow> x)
                    in merge_groups o2m groups (hm_insert wk (fst entry, snd entry @ values) acc)
                | _ \<Rightarrow> Panic))
      | _ \<Rightarrow> Panic)"

definition apply_merge_results ::
  "primitive_value \<Rightarrow> window_values \<Rightarrow> merged_windows list \<Rightarrow> keyed_group list gbk_result" where
  "apply_merge_results key groups results =
     rbind (original_to_merged results []) (\<lambda>o2m.
       rbind (merge_groups o2m groups []) (\<lambda>m. Ok (map (\<lambda>(_, w, vs). (key, w, vs)) m)))"

section \<open>Processing a batch of groups\<close>

definition is_interval :: "beam_window \<Rightarrow> bool" where
  "is_interval w = (case w of Interval _ _ \<Rightarrow> True | _ \<Rightarrow> False)"

fun split_groups ::
  "(primitive_value \<Rightarrow> string) \<Rightarrow> bool \<Rightarrow> decoded_group list \<Rightarrow> (keyed_group list \<times> decoded_group list) gbk_result" where
  "split_groups dbg needs_merge [] = Ok ([], [])"
| "split_groups dbg needs_merge (kg # kgs) =
     (let all_intervals = list_all (\<lambda>(w, _). is_interval w) (dg_windows kg)
      in if needs_merge \<and> \<not> all_intervals
         then rbind (split_groups dbg needs_merge kgs) (\<lambda>(gs, custom). Ok (gs, kg # custom))
         else let for_key = map (\<lambda>(w, vs). (dg_key kg, w, vs)) (dg_windows kg)
              in rbind (if needs_merge then merge_interval_groups dbg for_key else Ok for_key) (\<lambda>here.
                   rbind (split_groups dbg needs_merge kgs) (\<lambda>(gs, custom). Ok (here @ gs, custom))))"

fun apply_all_merges :: "(decoded_group \<times> merged_windows list) list \<Rightarrow> keyed_group list gbk_result" where
  "apply_all_merges [] = Ok []"
| "apply_all_merges ((kg, results) # rest) =
     rbind (apply_merge_results (dg_key kg) (dg_windows kg) results) (\<lambda>gs.
       rbind (apply_all_merges rest) (\<lambda>more. Ok (gs @ more)))"

fun apply_groups ::
  "trigger_spec \<Rightarrow> int \<Rightarrow> int \<Rightarrow> keyed_group list \<Rightarrow> gbk_state \<Rightarrow> (gbk_state \<times> windowed_value list) gbk_result" where
  "apply_groups spec wm pt [] g = Ok (g, [])"
| "apply_groups spec wm pt ((key, w, vs) # groups) g =
     rbind (apply_group key w vs spec wm pt g) (\<lambda>(g1, out).
       rbind (apply_groups spec wm pt groups g1) (\<lambda>(g2, outs).
         Ok (g2, (case out of None \<Rightarrow> outs | Some v \<Rightarrow> v # outs))))"

text \<open>
  \<open>process_key_groups_batch\<close>; \<open>merger\<close> is the SDK's window merger, absent when no harness
  offers one. The result is the new state and the panes pushed to \<open>output\<close>; \<open>fired\<close> is
  their number.
\<close>

definition process_key_groups_batch ::
  "(primitive_value \<Rightarrow> string) \<Rightarrow> (beam_window list list \<Rightarrow> merged_windows list list gbk_result) option
   \<Rightarrow> bool \<Rightarrow> trigger_spec \<Rightarrow> int \<Rightarrow> int \<Rightarrow> decoded_group list \<Rightarrow> gbk_state
   \<Rightarrow> (gbk_state \<times> windowed_value list) gbk_result" where
  "process_key_groups_batch dbg merger needs_merge spec wm pt key_groups g =
     (if key_groups = [] then Ok (g, [])
      else rbind (split_groups dbg needs_merge key_groups) (\<lambda>(gs, custom).
        rbind (if custom = [] then Ok []
               else case merger of
                 None \<Rightarrow> Err ''the SDK window merger is unavailable''
               | Some mg \<Rightarrow>
                   rbind (mg (map (\<lambda>kg. map fst (dg_windows kg)) custom)) (\<lambda>results.
                     apply_all_merges (zip custom results)))
          (\<lambda>merged. apply_groups spec wm pt (gs @ merged) g)))"

section \<open>Interval merging is correct\<close>

abbreviation w_start :: "int \<times> int \<times> 'v list \<Rightarrow> int" where "w_start w \<equiv> fst w"
abbreviation w_end :: "int \<times> int \<times> 'v list \<Rightarrow> int" where "w_end w \<equiv> fst (snd w)"
abbreviation w_vals :: "int \<times> int \<times> 'v list \<Rightarrow> 'v list" where "w_vals w \<equiv> snd (snd w)"

definition spans :: "(int \<times> int \<times> 'v list) list \<Rightarrow> int set" where
  "spans ws = (\<Union>w \<in> set ws. {w_start w..<w_end w})"

definition covers :: "(int \<times> int \<times> 'v list) \<Rightarrow> (int \<times> int \<times> 'v list) \<Rightarrow> bool" where
  "covers W w \<longleftrightarrow> w_start W \<le> w_start w \<and> w_end w \<le> w_end W \<and> set (w_vals w) \<subseteq> set (w_vals W)"

lemma merge_run_vals: "concat (map w_vals (merge_run s e vs rest)) = vs @ concat (map w_vals rest)"
  by (induction s e vs rest rule: merge_run.induct) auto

lemma merge_run_starts:
  "w \<in> set (merge_run s e vs rest) \<Longrightarrow> w_start w = s \<or> (\<exists>r \<in> set rest. w_start w = w_start r)"
  by (induction s e vs rest rule: merge_run.induct) (auto split: if_splits)

lemma merge_run_disjoint:
  "sorted (s # map w_start rest) \<Longrightarrow> sorted_wrt (\<lambda>a b. w_end a \<le> w_start b) (merge_run s e vs rest)"
proof (induction s e vs rest rule: merge_run.induct)
  case (2 s e vs ns ne nvs rest)
  have "e \<le> w_start w" if "\<not> ns < e" "w \<in> set (merge_run ns ne nvs rest)" for w
    using merge_run_starts [OF that(2)] that(1) "2.prems" by force
  with 2 show ?case
    by auto
qed simp

lemma merge_run_spans:
  "sorted (s # map w_start rest) \<Longrightarrow> spans (merge_run s e vs rest) = {s..<e} \<union> spans rest"
proof (induction s e vs rest rule: merge_run.induct)
  case (2 s e vs ns ne nvs rest)
  show ?case
  proof (cases "ns < e")
    case True
    with "2.prems" have "{s..<max e ne} = {s..<e} \<union> {ns..<ne}"
      by auto
    with 2 True show ?thesis
      by (auto simp: spans_def)
  next
    case False
    with 2 show ?thesis
      by (auto simp: spans_def)
  qed
qed (simp add: spans_def)

lemma merge_run_covers:
  "sorted (s # map w_start rest) \<Longrightarrow> w \<in> set ((s, e, vs) # rest) \<Longrightarrow> \<exists>W \<in> set (merge_run s e vs rest). covers W w"
proof (induction s e vs rest arbitrary: w rule: merge_run.induct)
  case (2 s e vs ns ne nvs rest)
  show ?case
  proof (cases "ns < e")
    case True
    have sorted: "sorted (s # map w_start rest)" and le: "s \<le> ns"
      using "2.prems"(1) by auto
    obtain W where W: "W \<in> set (merge_run s (max e ne) (vs @ nvs) rest)" "covers W (s, max e ne, vs @ nvs)"
      using "2.IH"(1) [OF True sorted, of "(s, max e ne, vs @ nvs)"] by auto
    then have "covers W (s, e, vs)" "covers W (ns, ne, nvs)"
      using le by (auto simp: covers_def)
    moreover have "\<exists>W \<in> set (merge_run s (max e ne) (vs @ nvs) rest). covers W w" if "w \<in> set rest"
      using "2.IH"(1) [OF True sorted, of w] that by simp
    ultimately show ?thesis
      using True W(1) "2.prems"(2) by auto
  next
    case False
    have sorted: "sorted (ns # map w_start rest)"
      using "2.prems"(1) by auto
    have "covers (s, e, vs) (s, e, vs)"
      by (simp add: covers_def)
    then show ?thesis
      using "2.IH"(2) [OF False sorted, of w] False "2.prems"(2) by auto
  qed
qed (simp add: covers_def)

lemma sorted_starts: "sorted (map w_start (sort_key (\<lambda>(s, e, _). (s, e)) ws))"
proof -
  have le: "fst x \<le> fst y" if "x \<le> y" for x y :: "int \<times> int"
    using that by (auto simp: less_eq_prod_def)
  have "sorted (map (\<lambda>(s, e, _). (s, e)) (sort_key (\<lambda>(s, e, _). (s, e)) ws))"
    by simp
  then show ?thesis
    unfolding sorted_map by (rule sorted_wrt_mono_rel [rotated]) (force dest: le)
qed

lemma mset_concat_map: "mset (concat (map f xs)) = (\<Sum>x \<in># mset xs. mset (f x))"
  by (induction xs) auto

lemma merge_intervals_correct:
  "sorted_wrt (\<lambda>a b. w_end a \<le> w_start b) (merge_intervals ws)
   \<and> spans (merge_intervals ws) = spans ws
   \<and> mset (concat (map w_vals (merge_intervals ws))) = mset (concat (map w_vals ws))
   \<and> (\<forall>w \<in> set ws. \<exists>W \<in> set (merge_intervals ws). covers W w)"
proof (cases "sort_key (\<lambda>(s, e, _). (s, e)) ws")
  case Nil
  then have "ws = []"
    by (metis set_sort set_empty)
  then show ?thesis
    by (simp add: merge_intervals_def spans_def)
next
  case (Cons x rest)
  obtain s e vs where x: "x = (s, e, vs)"
    by (cases x)
  have sorted: "sorted (s # map w_start rest)"
    using sorted_starts [of ws] by (simp add: Cons x)
  have perm: "mset ((s, e, vs) # rest) = mset ws"
    using mset_sort [of "\<lambda>(s, e, _). (s, e)" ws] by (simp add: Cons x)
  then have set: "set ((s, e, vs) # rest) = set ws"
    by (rule mset_eq_setD)
  have "mset (concat (map w_vals ((s, e, vs) # rest))) = mset (concat (map w_vals ws))"
    unfolding mset_concat_map perm ..
  moreover have "{s..<e} \<union> spans rest = spans ws"
    unfolding spans_def set [symmetric] by simp
  moreover have "\<forall>w \<in> set ws. \<exists>W \<in> set (merge_run s e vs rest). covers W w"
    using merge_run_covers [OF sorted, of _ e vs] set by blast
  moreover have eq: "merge_intervals ws = merge_run s e vs rest"
    by (simp add: merge_intervals_def Cons x)
  ultimately show ?thesis
    unfolding eq merge_run_spans [OF sorted] merge_run_vals
    using merge_run_disjoint [OF sorted, of e vs] by simp
qed

definition interval_group :: "primitive_value \<Rightarrow> int \<times> int \<times> pane_element list \<Rightarrow> keyed_group" where
  "interval_group key = (\<lambda>(s, e, vs). (key, Interval s e, vs))"

lemma collect_by_key_single:
  "collect_by_key dbg (map (interval_group key) ws) [(dbg key, key, acc)] = Ok [(dbg key, key, acc @ ws)]"
  by (induction ws arbitrary: acc) (auto simp: interval_group_def)

lemma merge_interval_groups_single:
  "merge_interval_groups dbg (map (interval_group key) ws) = Ok (map (interval_group key) (merge_intervals ws))"
proof (cases ws)
  case (Cons w rest)
  obtain s e vs where w: "w = (s, e, vs)"
    by (cases w)
  have "collect_by_key dbg (map (interval_group key) ws) [] = Ok [(dbg key, key, ws)]"
    using collect_by_key_single [of dbg key rest "[w]"] by (simp add: Cons w interval_group_def)
  then show ?thesis
    by (simp add: merge_interval_groups_def interval_group_def)
qed (simp add: merge_interval_groups_def merge_intervals_def)

section \<open>The decoder\<close>

text \<open>The rows a decoder accounts for, in order, as key, window and element.\<close>

definition flat_windows :: "primitive_value \<Rightarrow> window_values \<Rightarrow> (primitive_value \<times> beam_window \<times> pane_element) list" where
  "flat_windows k ws = concat (map (\<lambda>(w, es). map (\<lambda>e. (k, w, e)) es) ws)"

definition flat_groups :: "decoded_group list \<Rightarrow> (primitive_value \<times> beam_window \<times> pane_element) list" where
  "flat_groups gs = concat (map (\<lambda>g. flat_windows (dg_key g) (dg_windows g)) gs)"

definition flat_decoder :: "decoder \<Rightarrow> (primitive_value \<times> beam_window \<times> pane_element) list" where
  "flat_decoder cur = (case cur of None \<Rightarrow> [] | Some c \<Rightarrow> flat_windows (ip_key c) (ip_windows c))"

definition row_ok :: "sorted_row \<Rightarrow> bool" where
  "row_ok r \<longleftrightarrow>
     (\<exists>k v. row_record r = KV k v \<and> prim_ok k \<and> row_encoded_key r = encoded_primitive_sort_key k)
     \<and> from_binary_key (row_window_key r) \<noteq> None"

definition row_key :: "sorted_row \<Rightarrow> primitive_value" where
  "row_key r = (case row_record r of KV k v \<Rightarrow> k | _ \<Rightarrow> PVoid)"

definition row_item :: "sorted_row \<Rightarrow> primitive_value \<times> beam_window \<times> pane_element" where
  "row_item r =
     (row_key r, the (from_binary_key (row_window_key r)),
      \<lparr>pe_value = (case row_record r of KV k v \<Rightarrow> v | x \<Rightarrow> x), pe_timestamp_millis = row_timestamp r\<rparr>)"

definition decoder_ok :: "decoder \<Rightarrow> bool" where
  "decoder_ok cur =
     (case cur of None \<Rightarrow> True
      | Some c \<Rightarrow> prim_ok (ip_key c) \<and> ip_encoded_key c = encoded_primitive_sort_key (ip_key c)
          \<and> (\<forall>(w, es) \<in> set (ip_windows c). \<exists>k. from_binary_key k = Some w))"

lemma from_binary_key_same:
  "from_binary_key k = Some w \<Longrightarrow> from_binary_key k' = Some w' \<Longrightarrow> to_binary_key w = to_binary_key w' \<Longrightarrow> w = w'"
  by (metis binary_canonical option.inject rust.inject(1))

lemma flat_windows_push:
  assumes "from_binary_key k = Some w" and "\<forall>(w', es) \<in> set ws. \<exists>k. from_binary_key k = Some w'"
  shows "flat_windows key (push_window w e ws) = flat_windows key ws @ [(key, w, e)]"
proof (cases "ws \<noteq> [] \<and> to_binary_key (fst (last ws)) = to_binary_key w")
  case True
  then obtain pre x where ws: "ws = pre @ [x]"
    by (cases ws rule: rev_cases) auto
  obtain k' where "from_binary_key k' = Some (fst x)"
    using assms(2) by (auto simp: ws case_prod_unfold)
  then have "fst x = w"
    using True assms(1) from_binary_key_same by (auto simp: ws)
  then show ?thesis
    using True by (cases x) (simp add: ws push_window_def flat_windows_def)
qed (auto simp: push_window_def flat_windows_def)

lemma push_row_ok:
  assumes "row_ok r" and "decoder_ok cur"
  shows "\<exists>cur' gs. push_row r cur = Ok (cur', gs) \<and> decoder_ok cur'
    \<and> flat_groups gs @ flat_decoder cur' = flat_decoder cur @ [row_item r]
    \<and> (\<exists>c. cur' = Some c \<and> ip_encoded_key c = row_encoded_key r)
    \<and> map (\<lambda>g. encoded_primitive_sort_key (dg_key g)) gs =
        (case cur of None \<Rightarrow> [] | Some c \<Rightarrow> if ip_encoded_key c = row_encoded_key r then [] else [ip_encoded_key c])"
proof -
  obtain k v where kv: "row_record r = KV k v" "prim_ok k" "row_encoded_key r = encoded_primitive_sort_key k"
    using assms(1) by (auto simp: row_ok_def)
  obtain w where w: "from_binary_key (row_window_key r) = Some w"
    using assms(1) by (auto simp: row_ok_def)
  let ?e = "\<lparr>pe_value = v, pe_timestamp_millis = row_timestamp r\<rparr>"
  have item: "row_item r = (k, w, ?e)"
    by (simp add: row_item_def row_key_def kv w)
  have wins: "\<forall>(w', es) \<in> set (push_window w ?e ws). \<exists>k. from_binary_key k = Some w'"
    if "\<forall>(w', es) \<in> set ws. \<exists>k. from_binary_key k = Some w'" for ws
    using that w last_in_set [of ws] unfolding push_window_def
    by (cases "last ws") (auto dest: in_set_butlastD)
  have fresh: "flat_windows k (push_window w ?e []) = [(k, w, ?e)]"
    by (simp add: push_window_def flat_windows_def)
  show ?thesis
  proof (cases cur)
    case None
    then show ?thesis
      using kv w wins [of "[]"] fresh item
      by (simp add: push_row_def flat_groups_def flat_decoder_def decoder_ok_def)
  next
    case (Some c)
    have c: "prim_ok (ip_key c)" "ip_encoded_key c = encoded_primitive_sort_key (ip_key c)"
        "\<forall>(w, es) \<in> set (ip_windows c). \<exists>k. from_binary_key k = Some w"
      using assms(2) by (auto simp: decoder_ok_def Some)
    show ?thesis
    proof (cases "ip_encoded_key c = row_encoded_key r")
      case True
      then have "ip_key c = k"
        using c kv encoded_primitive_sort_key_inject by simp
      then show ?thesis
        using True Some kv w wins [OF c(3)] flat_windows_push [OF w c(3)] c item
        by (simp add: push_row_def flat_groups_def flat_decoder_def decoder_ok_def)
    next
      case False
      then show ?thesis
        using Some kv w wins [of "[]"] fresh c item
        by (simp add: push_row_def flat_groups_def flat_decoder_def decoder_ok_def finish_group_def)
    qed
  qed
qed

lemma push_batch_append:
  "push_batch (xs @ ys) cur =
     rbind (push_batch xs cur) (\<lambda>(cur1, gs1). rbind (push_batch ys cur1) (\<lambda>(cur2, gs2). Ok (cur2, gs1 @ gs2)))"
proof (induction xs arbitrary: cur)
  case Nil
  show ?case
    by (cases "push_batch ys cur") auto
next
  case (Cons x xs)
  show ?case
  proof (cases "push_row x cur")
    case (Ok p)
    then show ?thesis
      using Cons.IH [of "fst p"] by (cases p; cases "push_batch xs (fst p)"; cases "push_batch ys (fst (case push_batch xs (fst p) of Ok q \<Rightarrow> q))") auto
  qed simp_all
qed

definition group_keys :: "decoded_group list \<Rightarrow> bytes list" where
  "group_keys gs = map (\<lambda>g. encoded_primitive_sort_key (dg_key g)) gs"

definition decoder_keys :: "decoder \<Rightarrow> bytes list" where
  "decoder_keys cur = (case cur of None \<Rightarrow> [] | Some c \<Rightarrow> [ip_encoded_key c])"

lemma push_batch_ok:
  assumes "list_all row_ok rows" and "decoder_ok cur"
    and "sorted (decoder_keys cur @ map row_encoded_key rows)"
  shows "\<exists>cur' gs. push_batch rows cur = Ok (cur', gs) \<and> decoder_ok cur'
    \<and> flat_groups gs @ flat_decoder cur' = flat_decoder cur @ map row_item rows
    \<and> sorted_wrt (<) (group_keys gs @ decoder_keys cur')
    \<and> (\<forall>k \<in> set (group_keys gs @ decoder_keys cur'). \<forall>c \<in> set (decoder_keys cur). c \<le> k)"
  using assms
proof (induction rows arbitrary: cur)
  case Nil
  then show ?case
    by (auto simp: flat_groups_def group_keys_def decoder_keys_def split: option.split)
next
  case (Cons r rows)
  obtain cur1 gs1 c1 where r: "push_row r cur = Ok (cur1, gs1)" "decoder_ok cur1"
      "flat_groups gs1 @ flat_decoder cur1 = flat_decoder cur @ [row_item r]"
      "cur1 = Some c1" "ip_encoded_key c1 = row_encoded_key r"
      "group_keys gs1 = (case cur of None \<Rightarrow> [] | Some c \<Rightarrow> if ip_encoded_key c = row_encoded_key r then [] else [ip_encoded_key c])"
    using push_row_ok [of r cur] Cons.prems by (auto simp: group_keys_def)
  have keys1: "decoder_keys cur1 = [row_encoded_key r]"
    by (simp add: decoder_keys_def r(4,5))
  have "sorted (decoder_keys cur1 @ map row_encoded_key rows)"
    using Cons.prems(3) by (simp add: keys1 sorted_append)
  then obtain cur2 gs2 where rec: "push_batch rows cur1 = Ok (cur2, gs2)" "decoder_ok cur2"
      "flat_groups gs2 @ flat_decoder cur2 = flat_decoder cur1 @ map row_item rows"
      "sorted_wrt (<) (group_keys gs2 @ decoder_keys cur2)"
      "\<forall>k \<in> set (group_keys gs2 @ decoder_keys cur2). row_encoded_key r \<le> k"
    using Cons.IH [of cur1] Cons.prems(1) r(2) keys1 by auto
  have le: "\<forall>c \<in> set (decoder_keys cur). c \<le> row_encoded_key r"
    using Cons.prems(3) by (auto simp: sorted_append)
  have gs: "\<forall>k \<in> set (group_keys gs1). k \<in> set (decoder_keys cur) \<and> k < row_encoded_key r"
    using r(6) le by (auto simp: decoder_keys_def split: option.splits if_splits)
  have cat: "group_keys (gs1 @ gs2) = group_keys gs1 @ group_keys gs2" "flat_groups (gs1 @ gs2) = flat_groups gs1 @ flat_groups gs2"
    by (simp_all add: group_keys_def flat_groups_def)
  have "sorted_wrt (<) (group_keys (gs1 @ gs2) @ decoder_keys cur2)"
  proof -
    have "sorted_wrt (<) (group_keys gs1)"
      by (simp add: r(6) split: option.split)
    moreover have "\<forall>x \<in> set (group_keys gs1). \<forall>y \<in> set (group_keys gs2 @ decoder_keys cur2). x < y"
      using gs rec(5) by (meson less_le_trans)
    ultimately show ?thesis
      using rec(4) unfolding cat append_assoc by (subst sorted_wrt_append) blast
  qed
  moreover have "\<forall>k \<in> set (group_keys (gs1 @ gs2) @ decoder_keys cur2). \<forall>c \<in> set (decoder_keys cur). c \<le> k"
    using rec(5) gs le r(6) unfolding cat by (fastforce simp: decoder_keys_def split: option.splits if_splits)
  moreover have "flat_groups (gs1 @ gs2) @ flat_decoder cur2 = flat_decoder cur @ map row_item (r # rows)"
    using r(3) rec(3) unfolding cat by (metis append.assoc append_Cons append_Nil list.simps(9))
  moreover have "push_batch (r # rows) cur = Ok (cur2, gs1 @ gs2)"
    using r(1) rec(1) by simp
  ultimately show ?case
    using rec(2) by blast
qed

lemma decoded_groups:
  assumes "list_all row_ok rows" and "sorted (map row_encoded_key rows)"
  shows "\<exists>cur gs. push_batch rows None = Ok (cur, gs)
    \<and> (let all = gs @ (case decoder_finish cur of None \<Rightarrow> [] | Some g \<Rightarrow> [g])
       in flat_groups all = map row_item rows \<and> distinct (map dg_key all))"
proof -
  obtain cur gs where push: "push_batch rows None = Ok (cur, gs)" "decoder_ok cur"
      "flat_groups gs @ flat_decoder cur = map row_item rows" "sorted_wrt (<) (group_keys gs @ decoder_keys cur)"
    using push_batch_ok [of rows None] assms by (auto simp: decoder_ok_def decoder_keys_def flat_decoder_def)
  define all where "all = gs @ (case decoder_finish cur of None \<Rightarrow> [] | Some g \<Rightarrow> [g])"
  have "group_keys all = group_keys gs @ decoder_keys cur"
    using push(2) by (auto simp: all_def group_keys_def decoder_keys_def decoder_finish_def finish_group_def decoder_ok_def split: option.splits)
  then have "distinct (map encoded_primitive_sort_key (map dg_key all))"
    using push(4) strict_sorted_iff by (fastforce simp: group_keys_def comp_def)
  then have "distinct (map dg_key all)"
    by (rule distinct_map [THEN iffD1, THEN conjunct1])
  moreover have "flat_groups all = map row_item rows"
    using push(3) by (auto simp: all_def flat_groups_def flat_decoder_def decoder_finish_def finish_group_def split: option.splits)
  ultimately show ?thesis
    using push(1) unfolding Let_def all_def by blast
qed

section \<open>A batch loses no element\<close>

text \<open>The key and value of every element of a list of groups, whatever its window.\<close>

definition kv_items :: "keyed_group list \<Rightarrow> (primitive_value \<times> beam_record) multiset" where
  "kv_items gs = (\<Sum>(k, w, vs) \<in># mset gs. mset (map (\<lambda>e. (k, pe_value e)) vs))"

definition for_key :: "decoded_group \<Rightarrow> keyed_group list" where
  "for_key kg = map (\<lambda>(w, vs). (dg_key kg, w, vs)) (dg_windows kg)"

definition dg_items :: "decoded_group list \<Rightarrow> (primitive_value \<times> beam_record) multiset" where
  "dg_items kgs = kv_items (concat (map for_key kgs))"

definition group_ok :: "keyed_group \<Rightarrow> bool" where
  "group_ok g = (case g of (k, w, vs) \<Rightarrow> prim_ok k \<and> window_ok w)"

lemma kv_items_append [simp]: "kv_items (xs @ ys) = kv_items xs + kv_items ys"
  by (simp add: kv_items_def)

lemma kv_items_Nil [simp]: "kv_items [] = {#}"
  by (simp add: kv_items_def)

lemma kv_items_Cons [simp]: "kv_items ((k, w, vs) # gs) = mset (map (\<lambda>e. (k, pe_value e)) vs) + kv_items gs"
  by (simp add: kv_items_def)

lemma dg_items_simps [simp]: "dg_items [] = {#}" "dg_items (kg # kgs) = kv_items (for_key kg) + dg_items kgs"
  by (simp_all add: dg_items_def)

lemma kv_items_interval:
  "kv_items (map (interval_group key) ws) = image_mset (\<lambda>e. (key, pe_value e)) (mset (concat (map w_vals ws)))"
  by (induction ws) (auto simp: interval_group_def)

lemma all_intervals_groups:
  "list_all (\<lambda>(w, _). is_interval w) (dg_windows kg) \<Longrightarrow> \<exists>ws. for_key kg = map (interval_group (dg_key kg)) ws"
proof -
  have "list_all (\<lambda>(w, _). is_interval w) xs \<Longrightarrow> \<exists>ws. map (\<lambda>(w, vs). (k, w, vs)) xs = map (interval_group k) ws"
    for xs :: window_values and k
  proof (induction xs)
    case (Cons x xs)
    then obtain ws where "map (\<lambda>(w, vs). (k, w, vs)) xs = map (interval_group k) ws"
      by auto
    moreover obtain s e where "fst x = Interval s e"
      using Cons.prems by (cases x) (auto simp: is_interval_def split: beam_window.splits)
    ultimately have "map (\<lambda>(w, vs). (k, w, vs)) (x # xs) = map (interval_group k) ((s, e, snd x) # ws)"
      by (cases x) (simp add: interval_group_def)
    then show ?case
      by blast
  qed simp
  then show "list_all (\<lambda>(w, _). is_interval w) (dg_windows kg) \<Longrightarrow> \<exists>ws. for_key kg = map (interval_group (dg_key kg)) ws"
    by (simp add: for_key_def)
qed

lemma merge_run_ok:
  "in_i64 s \<Longrightarrow> in_i64 e \<Longrightarrow> \<forall>w \<in> set rest. in_i64 (w_start w) \<and> in_i64 (w_end w) \<Longrightarrow>
   \<forall>w \<in> set (merge_run s e vs rest). in_i64 (w_start w) \<and> in_i64 (w_end w)"
  by (induction s e vs rest rule: merge_run.induct) (auto simp: max_def)

lemma merge_intervals_ok:
  "\<forall>w \<in> set ws. in_i64 (w_start w) \<and> in_i64 (w_end w) \<Longrightarrow>
   \<forall>w \<in> set (merge_intervals ws). in_i64 (w_start w) \<and> in_i64 (w_end w)"
proof (cases "sort_key (\<lambda>(s, e, _). (s, e)) ws")
  case (Cons x rest)
  assume ok: "\<forall>w \<in> set ws. in_i64 (w_start w) \<and> in_i64 (w_end w)"
  have "set (x # rest) = set ws"
    using set_sort [of "\<lambda>(s, e, _). (s, e)" ws] by (simp add: Cons)
  with ok have "\<forall>w \<in> set (x # rest). in_i64 (w_start w) \<and> in_i64 (w_end w)"
    by blast
  then show ?thesis
    using merge_run_ok [of "w_start x" "w_end x" rest "w_vals x"] by (cases x) (simp add: merge_intervals_def Cons)
qed (simp add: merge_intervals_def)

lemma merge_native_items:
  assumes "list_all (\<lambda>(w, _). is_interval w) (dg_windows kg)"
    and "merge_interval_groups dbg (for_key kg) = Ok out" and "list_all group_ok (for_key kg)"
  shows "kv_items out = kv_items (for_key kg)" and "list_all group_ok out"
proof -
  obtain ws where ws: "for_key kg = map (interval_group (dg_key kg)) ws"
    using all_intervals_groups [OF assms(1)] by blast
  then have out: "out = map (interval_group (dg_key kg)) (merge_intervals ws)"
    using assms(2) by (simp add: merge_interval_groups_single)
  show "kv_items out = kv_items (for_key kg)"
    using merge_intervals_correct [of ws] by (simp add: out ws kv_items_interval)
  have "\<forall>w \<in> set ws. in_i64 (w_start w) \<and> in_i64 (w_end w)" "ws \<noteq> [] \<Longrightarrow> prim_ok (dg_key kg)"
    using assms(3) by (cases ws; auto simp: ws list_all_iff group_ok_def interval_group_def split: prod.splits)+
  moreover have "ws = [] \<Longrightarrow> merge_intervals ws = []"
    by (simp add: merge_intervals_def)
  ultimately show "list_all group_ok out"
    using merge_intervals_ok [of ws]
    by (cases "ws = []") (auto simp: out list_all_iff group_ok_def interval_group_def split: prod.splits)
qed

text \<open>The SDK's results: every entry of the map being built holds the values of its originals.\<close>

definition acc_items :: "primitive_value \<Rightarrow> (bytes, beam_window \<times> pane_element list) hashmap \<Rightarrow> (primitive_value \<times> beam_record) multiset" where
  "acc_items k acc = kv_items (map (\<lambda>(_, w, vs). (k, w, vs)) acc)"

lemma acc_items_insert:
  "acc_items k (hm_insert wk (w, (case hm_get acc wk of None \<Rightarrow> [] | Some x \<Rightarrow> snd x) @ values) acc)
   = acc_items k acc + mset (map (\<lambda>e. (k, pe_value e)) values)"
  by (induction acc) (auto simp: acc_items_def ac_simps)

lemma merge_groups_items:
  "merge_groups o2m groups acc = Ok m \<Longrightarrow>
   acc_items k m = acc_items k acc + kv_items (map (\<lambda>(w, vs). (k, w, vs)) groups)"
proof (induction o2m groups acc rule: merge_groups.induct)
  case (2 o2m orig vals groups acc)
  from "2.prems" obtain ok w wk where step: "to_binary_key orig = Ok ok" "hm_get o2m ok = Some w" "to_binary_key w = Ok wk"
      "merge_groups o2m groups (hm_insert wk (fst (case hm_get acc wk of None \<Rightarrow> (w, []) | Some x \<Rightarrow> x),
         snd (case hm_get acc wk of None \<Rightarrow> (w, []) | Some x \<Rightarrow> x) @ vals) acc) = Ok m"
    by (auto simp: Let_def split: rust.splits option.splits)
  have snd: "snd (case hm_get acc wk of None \<Rightarrow> (w, []) | Some x \<Rightarrow> x) = (case hm_get acc wk of None \<Rightarrow> [] | Some x \<Rightarrow> snd x)"
    by (simp split: option.split)
  show ?case
    using "2.IH" [OF step(1-3) refl] step(4) acc_items_insert [of k wk _ acc vals]
    unfolding snd by (simp add: ac_simps)
qed simp

lemma map_originals_ok:
  "map_originals merged os m = Ok m' \<Longrightarrow> window_ok merged \<Longrightarrow> \<forall>e \<in> set m. window_ok (snd e)
   \<Longrightarrow> \<forall>e \<in> set m'. window_ok (snd e)"
proof (induction merged os m rule: map_originals.induct)
  case (2 merged orig os m)
  then obtain k where "to_binary_key orig = Ok k" "map_originals merged os (hm_insert k merged m) = Ok m'"
    by (auto split: rust.splits)
  then show ?case
    using "2.IH" hm_insert_all [of m window_ok merged k] "2.prems"(2,3) by blast
qed simp

lemma original_to_merged_ok:
  "original_to_merged rs m = Ok m' \<Longrightarrow> \<forall>r \<in> set rs. window_ok (mw_merged r) \<Longrightarrow> \<forall>e \<in> set m. window_ok (snd e)
   \<Longrightarrow> \<forall>e \<in> set m'. window_ok (snd e)"
proof (induction rs m rule: original_to_merged.induct)
  case (2 r rs m)
  then obtain m1 where m1: "map_originals (mw_merged r) (mw_originals r) m = Ok m1" "original_to_merged rs m1 = Ok m'"
    by auto
  have "\<forall>e \<in> set m1. window_ok (snd e)"
    using map_originals_ok [OF m1(1)] "2.prems" by simp
  with 2 m1 show ?case
    by simp
qed simp

lemma merge_groups_ok:
  "merge_groups o2m groups acc = Ok m \<Longrightarrow> \<forall>e \<in> set o2m. window_ok (snd e) \<Longrightarrow> \<forall>e \<in> set acc. window_ok (fst (snd e))
   \<Longrightarrow> \<forall>e \<in> set m. window_ok (fst (snd e))"
proof (induction o2m groups acc rule: merge_groups.induct)
  case (2 o2m orig vals groups acc)
  from "2.prems" obtain ok w wk where step: "to_binary_key orig = Ok ok" "hm_get o2m ok = Some w" "to_binary_key w = Ok wk"
      "merge_groups o2m groups (hm_insert wk (fst (case hm_get acc wk of None \<Rightarrow> (w, []) | Some x \<Rightarrow> x),
         snd (case hm_get acc wk of None \<Rightarrow> (w, []) | Some x \<Rightarrow> x) @ vals) acc) = Ok m"
    by (auto simp: Let_def split: rust.splits option.splits)
  have "window_ok w"
    using "2.prems"(2) map_of_SomeD [OF step(2)] by force
  then have "window_ok (fst (case hm_get acc wk of None \<Rightarrow> (w, []) | Some x \<Rightarrow> x))"
    using "2.prems"(3) by (force split: option.split dest: map_of_SomeD)
  then have "\<forall>e \<in> set (hm_insert wk (fst (case hm_get acc wk of None \<Rightarrow> (w, []) | Some x \<Rightarrow> x),
         snd (case hm_get acc wk of None \<Rightarrow> (w, []) | Some x \<Rightarrow> x) @ vals) acc). window_ok (fst (snd e))"
    using "2.prems"(3) by (intro hm_insert_all [of acc "\<lambda>v. window_ok (fst v)"]) simp_all
  then show ?case
    by (rule "2.IH" [OF step(1-3) refl step(4) "2.prems"(2)])
qed simp

lemma apply_merge_items:
  assumes "apply_merge_results (dg_key kg) (dg_windows kg) results = Ok out"
  shows "kv_items out = kv_items (for_key kg)"
    and "prim_ok (dg_key kg) \<Longrightarrow> \<forall>r \<in> set results. window_ok (mw_merged r) \<Longrightarrow> list_all group_ok out"
proof -
  obtain o2m m where m: "original_to_merged results [] = Ok o2m" "merge_groups o2m (dg_windows kg) [] = Ok m"
      "out = map (\<lambda>(_, w, vs). (dg_key kg, w, vs)) m"
    using assms by (auto simp: apply_merge_results_def)
  show "kv_items out = kv_items (for_key kg)"
    using merge_groups_items [OF m(2), of "dg_key kg"] by (simp add: m(3) acc_items_def for_key_def)
  assume ok: "prim_ok (dg_key kg)" "\<forall>r \<in> set results. window_ok (mw_merged r)"
  have "\<forall>e \<in> set m. window_ok (fst (snd e))"
    using merge_groups_ok [OF m(2)] original_to_merged_ok [OF m(1) ok(2)] by simp
  with ok(1) show "list_all group_ok out"
    by (auto simp: m(3) list_all_iff group_ok_def case_prod_unfold)
qed

definition decoded_ok :: "decoded_group \<Rightarrow> bool" where
  "decoded_ok kg \<longleftrightarrow> prim_ok (dg_key kg) \<and> (\<forall>e \<in> set (dg_windows kg). window_ok (fst e))"

lemma decoded_ok_groups: "decoded_ok kg \<Longrightarrow> list_all group_ok (for_key kg)"
  by (auto simp: decoded_ok_def for_key_def list_all_iff group_ok_def)

lemma split_groups_items:
  "split_groups dbg nm kgs = Ok (gs, custom) \<Longrightarrow> list_all decoded_ok kgs \<Longrightarrow>
   kv_items gs + dg_items custom = dg_items kgs \<and> list_all group_ok gs \<and> list_all decoded_ok custom"
proof (induction kgs arbitrary: gs custom)
  case (Cons kg kgs)
  let ?ints = "list_all (\<lambda>(w, _). is_interval w) (dg_windows kg)"
  show ?case
  proof (cases "nm \<and> \<not> ?ints")
    case True
    then obtain custom' where "split_groups dbg nm kgs = Ok (gs, custom')" "custom = kg # custom'"
      using Cons.prems(1) by auto
    with Cons show ?thesis
      by (auto simp: ac_simps)
  next
    case False
    then obtain here gs' where split: "split_groups dbg nm kgs = Ok (gs', custom)" "gs = here @ gs'"
        "(if nm then merge_interval_groups dbg (for_key kg) else Ok (for_key kg)) = Ok here"
      using Cons.prems(1) unfolding split_groups.simps Let_def for_key_def [symmetric] by auto
    have ok: "list_all group_ok (for_key kg)"
      using Cons.prems(2) decoded_ok_groups by simp
    then have "kv_items here = kv_items (for_key kg) \<and> list_all group_ok here"
      using split(3) False merge_native_items [of kg dbg here] by (auto split: if_splits)
    with Cons split show ?thesis
      by (auto simp: ac_simps)
  qed
qed simp

lemma apply_all_merges_items:
  "apply_all_merges zs = Ok out \<Longrightarrow> \<forall>(kg, results) \<in> set zs. decoded_ok kg \<and> (\<forall>r \<in> set results. window_ok (mw_merged r)) \<Longrightarrow>
   kv_items out = dg_items (map fst zs) \<and> list_all group_ok out"
proof (induction zs arbitrary: out rule: apply_all_merges.induct)
  case (2 kg results rest)
  then obtain gs more where "apply_merge_results (dg_key kg) (dg_windows kg) results = Ok gs" "apply_all_merges rest = Ok more"
      "out = gs @ more"
    by auto
  with 2 show ?case
    using apply_merge_items [of kg results gs] by (auto simp: decoded_ok_def)
qed simp

lemma apply_groups_run:
  "apply_groups spec wm pt groups g = Ok (g', outs) \<Longrightarrow> gbk_run spec g R E \<Longrightarrow> list_all group_ok groups \<Longrightarrow>
   \<exists>R'. gbk_run spec g' (R + R') (E @ outs) \<and> image_mset (\<lambda>(k, w, v). (k, v)) R' = kv_items groups"
proof (induction spec wm pt groups g arbitrary: g' outs R E rule: apply_groups.induct)
  case (1 spec wm pt g)
  then show ?case
    by (intro exI [of _ "{#}"]) simp
next
  case (2 spec wm pt key w vs groups g)
  obtain g1 out outs' where step: "apply_group key w vs spec wm pt g = Ok (g1, out)" "apply_groups spec wm pt groups g1 = Ok (g', outs')"
      "outs = (case out of None \<Rightarrow> outs' | Some v \<Rightarrow> v # outs')"
    using "2.prems"(1) by auto
  have run1: "gbk_run spec g1 (R + received key w vs) (E @ (case out of None \<Rightarrow> [] | Some v \<Rightarrow> [v]))"
    using gbk_run.gbk_group [OF "2.prems"(2) _ _ step(1)] "2.prems"(3) by (simp add: group_ok_def)
  have groups_ok: "list_all group_ok groups"
    using "2.prems"(3) by simp
  obtain R' where R': "gbk_run spec g' ((R + received key w vs) + R') ((E @ (case out of None \<Rightarrow> [] | Some v \<Rightarrow> [v])) @ outs')"
      "image_mset (\<lambda>(k, w, v). (k, v)) R' = kv_items groups"
    using "2.IH" [OF step(1) refl step(2) run1 groups_ok] by blast
  have "(E @ (case out of None \<Rightarrow> [] | Some v \<Rightarrow> [v])) @ outs' = E @ outs"
    by (simp add: step(3) split: option.split)
  moreover have "image_mset (\<lambda>(k, w, v). (k, v)) (received key w vs + R') = kv_items ((key, w, vs) # groups)"
    using R'(2) by (simp add: received_def multiset.map_comp comp_def)
  ultimately show ?case
    using R'(1) by (metis union_assoc)
qed

section \<open>Properties\<close>

text \<open>
  C18: merging the interval windows of a key is correct: the result is a list of disjoint
  windows in increasing order that covers exactly the same instants, every input window
  lies inside one result window that holds its values, and no value is lost or repeated.
\<close>

theorem session_merge_correct:
  "\<exists>out. merge_interval_groups dbg (map (interval_group key) ws) = Ok (map (interval_group key) out)
    \<and> sorted_wrt (\<lambda>a b. w_end a \<le> w_start b) out \<and> spans out = spans ws
    \<and> mset (concat (map w_vals out)) = mset (concat (map w_vals ws))
    \<and> (\<forall>w \<in> set ws. \<exists>W \<in> set out. covers W w)"
  using merge_interval_groups_single merge_intervals_correct by blast

theorem session_merge_correct_witness:
  "\<exists>out. merge_interval_groups (\<lambda>_. '''') (map (interval_group PVoid) [(5, 15, [sample_element 6]), (0, 10, []), (20, 30, [])])
      = Ok (map (interval_group PVoid) out)
    \<and> spans out = spans [(5, 15, [sample_element 6]), (0, 10, []), (20, 30, [])]"
  using session_merge_correct [of "\<lambda>_. ''''" PVoid "[(5, 15, [sample_element 6]), (0, 10, []), (20, 30, [])]"] by blast

text \<open>The rows of a sorted stream, batch by batch.\<close>

primrec push_batches :: "sorted_row list list \<Rightarrow> decoder \<Rightarrow> (decoder \<times> decoded_group list) gbk_result" where
  "push_batches [] cur = Ok (cur, [])"
| "push_batches (b # bs) cur =
     rbind (push_batch b cur) (\<lambda>(cur1, gs1). rbind (push_batches bs cur1) (\<lambda>(cur2, gs2). Ok (cur2, gs1 @ gs2)))"

lemma push_batches_concat: "push_batches bs cur = push_batch (concat bs) cur"
proof (induction bs arbitrary: cur)
  case (Cons b bs)
  have IH: "push_batches bs = push_batch (concat bs)"
    by (rule ext) (rule Cons.IH)
  show ?case
    by (simp only: push_batches.simps concat.simps push_batch_append IH)
qed simp


definition sample_row :: "bool \<Rightarrow> int \<Rightarrow> sorted_row" where
  "sample_row b i = \<lparr>row_encoded_key = encoded_primitive_sort_key (PBool b), row_window_key = [0],
     row_timestamp = i, row_record = KV (PBool b) (PRIMITIVE (PInt64 i))\<rparr>"



definition sample_group :: decoded_group where
  "sample_group = \<lparr>dg_key = PVoid, dg_windows = [(Interval 0 10, [sample_element 1]), (Interval 5 15, [sample_element 6])]\<rparr>"

lemma sample_group_applies:
  "\<exists>g' out. apply_group PVoid (Interval 0 15) [sample_element 1, sample_element 6] sample_spec 0 0 gbk_empty = Ok (g', out)"
proof -
  have "group_identity PVoid (Interval 0 15) = Ok (encoded_primitive_sort_key PVoid, 1 # ordered_i64_bytes 0 @ ordered_i64_bytes 15)"
    by (simp add: group_identity_def)
  moreover have "window_ok (Interval 0 15)" "gbk_inv (gbk_states gbk_empty)"
    by (simp_all add: i64_range_defs gbk_inv_def gbk_empty_def)
  ultimately show ?thesis
    using apply_group_spec [of gbk_empty PVoid "Interval 0 15"] by fastforce
qed


section \<open>Behaviours worth knowing\<close>

text \<open>
  \<open>fire_state\<close> passes \<open>!state.fired\<close> to \<open>pane_timing\<close>: once a window has fired at all, even
  only early, its first firing after the end of the window is labelled late.
\<close>

lemma first_firing_after_end_is_late:
  assumes "st_fired st" and "max_timestamp_millis (st_window st) < wm"
    and "fire_state spec wm pt st = Some (st', Some v)"
  shows "timing (wv_pane v) = Late"
  using assms by (auto simp: fire_state_def Let_def pane_info_def pane_timing_def split: option.splits if_splits)

text \<open>
  Windows are merged within one batch of groups only: a session retained in state and an
  overlapping one that arrives in a later run stay two windows.
\<close>

definition sample_late_group :: decoded_group where
  "sample_late_group = \<lparr>dg_key = PVoid, dg_windows = [(Interval 5 15, [sample_element 6])]\<rparr>"

definition sample_two_runs :: "(gbk_state \<times> windowed_value list) gbk_result" where
  "sample_two_runs =
     rbind (process_key_groups_batch (\<lambda>_. '''') None True sample_spec 0 0
              [\<lparr>dg_key = PVoid, dg_windows = [(Interval 0 10, [sample_element 1])]\<rparr>] gbk_empty)
       (\<lambda>(g, _). process_key_groups_batch (\<lambda>_. '''') None True sample_spec 0 0 [sample_late_group] g)"

lemma sessions_across_runs_not_merged:
  "\<exists>g. sample_two_runs = Ok (g, []) \<and> map (st_window \<circ> snd) (gbk_states g) = [Interval 0 10, Interval 5 15]"
proof -
  have "ordered_i64_bytes 5 \<noteq> ordered_i64_bytes 0"
    by (simp add: ordered_is_timestamp timestamp.encode_inject i64_range_defs)
  then show ?thesis
    by (simp add: sample_two_runs_def sample_late_group_def process_key_groups_batch_def is_interval_def
        merge_interval_groups_def merge_intervals_def apply_group_def apply_group_general_def gbk_empty_def
        sample_spec_def group_identity_def Let_def window_state_new_def runner_new_def on_element_def with_child_def
        fire_state_def runner_should_fire_def earliest_completion_def saturating_add_def i64_range_defs node_default_def
        sample_element_def)
qed

end
