(* ===== verification/State_Service.thy ===== *)
theory State_Service
  imports User_State
begin

text \<open>
  The state service of the Fn API (\<open>engine/harness/state.rs\<close>): the dispatch of a worker's
  state requests to user state and to materialized side inputs, and the grouping and
  encoding of a side input's elements by window. The element store's scan of a PCollection
  is an argument. A handler returns \<open>None\<close> where the source does not return.
\<close>

section \<open>Materialized side inputs\<close>

record side_input_key =
  sk_transform_id :: string
  sk_side_input_id :: string

datatype side_input_materialization =
    IterableMaterialization standard_coder
  | MultimapMaterialization standard_coder standard_coder

record side_input_spec =
  sis_pcollection_id :: string
  sis_materialization :: side_input_materialization
  sis_window_coder :: window_coder

type_synonym side_input_registry = "(side_input_key, side_input_spec) hashmap"

record iterable_side_input_address =
  isa_key :: side_input_key
  isa_window :: bytes

datatype multimap_read_kind = ReadKeys | ReadValues bytes | ReadKeysValues

record multimap_side_input_address =
  msa_key :: side_input_key
  msa_window :: bytes
  msa_kind :: multimap_read_kind

datatype encoded_side_input_window =
    EncodedIterable bytes
  | EncodedMultimap bytes "(bytes, bytes) hashmap"

type_synonym encoded_side_input_windows = "(beam_window, encoded_side_input_window) hashmap"
type_synonym side_input_cache = "(side_input_key, encoded_side_input_windows) hashmap"

text \<open>An element of no bytes takes one, which a decoder of a data stream skips.\<close>

definition append_encoded_element :: "standard_coder \<Rightarrow> beam_record \<Rightarrow> bytes \<Rightarrow> (string, bytes) rust" where
  "append_encoded_element c v encoded =
     (case encode c v of Ok bs \<Rightarrow> Ok (encoded @ (if bs = [] then [0] else bs)) | _ \<Rightarrow> Panic)"

fun iterable_windows :: "standard_coder \<Rightarrow> beam_record \<Rightarrow> beam_window list \<Rightarrow> beam_window list \<Rightarrow> encoded_side_input_windows
   \<Rightarrow> (string, encoded_side_input_windows) rust" where
  "iterable_windows c v seen [] grouped = Ok grouped"
| "iterable_windows c v seen (w # ws) grouped =
     (if w \<in> set seen then iterable_windows c v seen ws grouped
      else (case (case hm_get grouped w of Some e \<Rightarrow> e | None \<Rightarrow> EncodedIterable []) of
              EncodedIterable encoded \<Rightarrow>
                rbind (append_encoded_element c v encoded) (\<lambda>encoded'.
                  iterable_windows c v (w # seen) ws (hm_insert w (EncodedIterable encoded') grouped))
            | EncodedMultimap _ _ \<Rightarrow> Err ''side-input PCollection mixed iterable and multimap values''))"

definition encode_iterable_windows :: "windowed_value list \<Rightarrow> standard_coder \<Rightarrow> (string, encoded_side_input_windows) rust" where
  "encode_iterable_windows vs c = rfold (\<lambda>v. iterable_windows c (wv_value v) [] (wv_windows v)) vs []"

fun multimap_windows :: "standard_coder \<Rightarrow> standard_coder \<Rightarrow> primitive_value \<Rightarrow> beam_record \<Rightarrow> beam_window list \<Rightarrow> beam_window list
   \<Rightarrow> encoded_side_input_windows \<Rightarrow> (string, encoded_side_input_windows) rust" where
  "multimap_windows kc vc key v seen [] grouped = Ok grouped"
| "multimap_windows kc vc key v seen (w # ws) grouped =
     (if w \<in> set seen then multimap_windows kc vc key v seen ws grouped
      else (case (case hm_get grouped w of Some e \<Rightarrow> e | None \<Rightarrow> EncodedMultimap [] []) of
              EncodedMultimap ks vals \<Rightarrow>
                rbind (append_encoded_element kc (PRIMITIVE key) []) (\<lambda>k.
                rbind (append_encoded_element vc v (case hm_get vals k of Some e \<Rightarrow> e | None \<Rightarrow> [])) (\<lambda>encoded.
                  multimap_windows kc vc key v (w # seen) ws
                    (hm_insert w (EncodedMultimap (if hm_get vals k = None then ks @ k else ks) (hm_insert k encoded vals)) grouped)))
            | EncodedIterable _ \<Rightarrow> Err ''side-input PCollection mixed iterable and multimap values''))"

definition encode_multimap_windows :: "windowed_value list \<Rightarrow> standard_coder \<Rightarrow> standard_coder \<Rightarrow> (string, encoded_side_input_windows) rust" where
  "encode_multimap_windows vs kc vc =
     rfold (\<lambda>v. case wv_value v of
                  KV key x \<Rightarrow> multimap_windows kc vc key x [] (wv_windows v)
                | _ \<Rightarrow> (\<lambda>_. Err ''multimap side input requires KV values, found a different BeamRecord'')) vs []"

text \<open>
  The loops of \<open>encode_multimap_key_values\<close> run while bytes remain, whether or not a
  decoder takes any; \<open>None\<close> stands for a loop that never ends.
\<close>

partial_function (option) decode_remaining :: "string \<Rightarrow> standard_coder \<Rightarrow> bytes \<Rightarrow> (string, beam_record list) rust option" where
  "decode_remaining what c buf =
     (if buf = [] then Some (Ok [])
      else (case decode c buf of
              Ok (r, rest) \<Rightarrow> Option.bind (decode_remaining what c rest) (\<lambda>x. Some (rbind x (\<lambda>rs. Ok (r # rs))))
            | Err (WhileDecoding s) \<Rightarrow> Some (Err (what @ s))
            | Panic \<Rightarrow> Some Panic))"

partial_function (option) key_values_loop ::
  "standard_coder \<Rightarrow> standard_coder \<Rightarrow> (bytes, bytes) hashmap \<Rightarrow> bytes \<Rightarrow> bytes \<Rightarrow> (string, bytes) rust option" where
  "key_values_loop kc vc vals ks encoded =
     (if ks = [] then Some (Ok encoded)
      else (case decode kc ks of
              Err (WhileDecoding s) \<Rightarrow> Some (Err (''failed to decode cached multimap key: '' @ s))
            | Panic \<Rightarrow> Some Panic
            | Ok (key, rest) \<Rightarrow>
                (case append_encoded_element kc key [] of
                   Ok k \<Rightarrow>
                     (case hm_get vals k of
                        None \<Rightarrow> Some (Err ''cached multimap key has no corresponding encoded value list'')
                      | Some encoded_values \<Rightarrow>
                          Option.bind (decode_remaining ''failed to decode cached multimap value: '' vc encoded_values) (\<lambda>x.
                            case x of
                              Ok rs \<Rightarrow>
                                (case rbind (append_encoded_element kc key encoded) (append_encoded_element (Iterable vc) (ITERABLE rs)) of
                                   Ok encoded' \<Rightarrow> key_values_loop kc vc vals rest encoded'
                                 | Err e \<Rightarrow> Some (Err e)
                                 | Panic \<Rightarrow> Some Panic)
                            | Err e \<Rightarrow> Some (Err e)
                            | Panic \<Rightarrow> Some Panic))
                 | Err e \<Rightarrow> Some (Err e)
                 | Panic \<Rightarrow> Some Panic)))"

definition encode_multimap_key_values :: "bytes \<Rightarrow> (bytes, bytes) hashmap \<Rightarrow> standard_coder \<Rightarrow> standard_coder \<Rightarrow> (string, bytes) rust option" where
  "encode_multimap_key_values ks vals kc vc = key_values_loop kc vc vals ks []"

section \<open>Reading a side input\<close>

text \<open>\<open>scan\<close> is \<open>FlareElementStore::scan_windowed_values\<close>.\<close>

type_synonym scan = "string \<Rightarrow> (string, windowed_value list) rust"

definition materialize :: "scan \<Rightarrow> side_input_spec \<Rightarrow> (string, encoded_side_input_windows) rust" where
  "materialize scan spec =
     rbind (scan (sis_pcollection_id spec)) (\<lambda>vs.
       case sis_materialization spec of
         IterableMaterialization c \<Rightarrow> encode_iterable_windows vs c
       | MultimapMaterialization kc vc \<Rightarrow> encode_multimap_windows vs kc vc)"

definition cached_windows :: "scan \<Rightarrow> side_input_key \<Rightarrow> side_input_spec \<Rightarrow> side_input_cache
   \<Rightarrow> (string, encoded_side_input_windows) rust \<times> side_input_cache" where
  "cached_windows scan key spec sc =
     (case hm_get sc key of
        Some windows \<Rightarrow> (Ok windows, sc)
      | None \<Rightarrow>
          (case materialize scan spec of
             Ok windows \<Rightarrow> (Ok windows, hm_insert key windows sc)
           | r \<Rightarrow> (r, sc)))"

fun window_error :: "(coders_error, 'a) rust \<Rightarrow> (string, 'a) rust" where
  "window_error (Ok x) = Ok x"
| "window_error (Err (WhileDecoding s)) = Err (''invalid side-input window: '' @ s)"
| "window_error Panic = Panic"

definition read_iterable :: "scan \<Rightarrow> side_input_registry \<Rightarrow> iterable_side_input_address \<Rightarrow> side_input_cache
   \<Rightarrow> (string, bytes) rust \<times> side_input_cache" where
  "read_iterable scan registry address sc =
     (case hm_get registry (isa_key address) of
        None \<Rightarrow> (Err ''unknown iterable side input'', sc)
      | Some spec \<Rightarrow>
          (case sis_materialization spec of
             MultimapMaterialization _ _ \<Rightarrow> (Err ''side input is not iterable'', sc)
           | IterableMaterialization _ \<Rightarrow>
               (case window_error (decode_window (sis_window_coder spec) (isa_window address)) of
                  Ok window \<Rightarrow>
                    (case cached_windows scan (isa_key address) spec sc of
                       (Ok windows, sc') \<Rightarrow>
                         (case hm_get windows window of
                            Some (EncodedIterable data) \<Rightarrow> (Ok data, sc')
                          | Some (EncodedMultimap _ _) \<Rightarrow> (Err ''side input is not iterable'', sc')
                          | None \<Rightarrow> (Ok [], sc'))
                     | (Err e, sc') \<Rightarrow> (Err e, sc')
                     | (Panic, sc') \<Rightarrow> (Panic, sc'))
                | Err e \<Rightarrow> (Err e, sc)
                | Panic \<Rightarrow> (Panic, sc))))"

definition read_multimap :: "scan \<Rightarrow> side_input_registry \<Rightarrow> multimap_side_input_address \<Rightarrow> side_input_cache
   \<Rightarrow> ((string, bytes) rust \<times> side_input_cache) option" where
  "read_multimap scan registry address sc =
     (case hm_get registry (msa_key address) of
        None \<Rightarrow> Some (Err ''unknown multimap side input'', sc)
      | Some spec \<Rightarrow>
          (case sis_materialization spec of
             IterableMaterialization _ \<Rightarrow> Some (Err ''side input is not a multimap'', sc)
           | MultimapMaterialization kc vc \<Rightarrow>
               (case window_error (decode_window (sis_window_coder spec) (msa_window address)) of
                  Ok window \<Rightarrow>
                    (case cached_windows scan (msa_key address) spec sc of
                       (Ok windows, sc') \<Rightarrow>
                         (case hm_get windows window of
                            Some (EncodedMultimap ks vals) \<Rightarrow>
                              (case msa_kind address of
                                 ReadKeys \<Rightarrow> Some (Ok ks, sc')
                               | ReadValues k \<Rightarrow> Some (Ok (case hm_get vals k of Some e \<Rightarrow> e | None \<Rightarrow> []), sc')
                               | ReadKeysValues \<Rightarrow> map_option (\<lambda>r. (r, sc')) (encode_multimap_key_values ks vals kc vc))
                          | _ \<Rightarrow> Some (Ok [], sc'))
                     | (Err e, sc') \<Rightarrow> Some (Err e, sc')
                     | (Panic, sc') \<Rightarrow> Some (Panic, sc'))
                | Err e \<Rightarrow> Some (Err e, sc)
                | Panic \<Rightarrow> Some (Panic, sc))))"

section \<open>State requests\<close>

text \<open>\<open>UserStateRegistry\<close>: the coders of map state, by transform and state identifier.\<close>

record user_state_coders =
  usc_key :: standard_coder
  usc_value :: standard_coder

type_synonym user_state_registry = "(string \<times> string, user_state_coders) hashmap"

definition map_coders :: "user_state_registry option \<Rightarrow> user_state_address \<Rightarrow> user_state_coders option" where
  "map_coders registry a = Option.bind registry (\<lambda>m. hm_get m (addr_transform_id a, addr_user_state_id a))"

text \<open>\<open>StateKey\<close>: transform, state or side input, window, and the keys of the variant.\<close>

datatype state_key =
    Runner_Key bytes
  | MultimapSideInput string string bytes bytes
  | BagUserState string string bytes bytes
  | IterableSideInput string string bytes
  | MultimapKeysSideInput string string bytes
  | MultimapKeysValuesSideInput string string bytes
  | MultimapKeysUserState string string bytes bytes
  | MultimapEntriesUserState string string bytes bytes
  | MultimapUserState string string bytes bytes bytes
  | OrderedListUserState string string bytes bytes

datatype state_request_body = GetRequest bytes | AppendRequest bytes | ClearRequest

record state_request =
  req_id :: string
  req_key :: "state_key option"
  req_body :: "state_request_body option"

datatype state_response_body = GetResponse bytes | AppendResponse | ClearResponse

record state_response =
  resp_id :: string
  resp_body :: state_response_body

datatype state_target =
    UserStateTarget user_state_address
  | IterableTarget iterable_side_input_address
  | MultimapTarget multimap_side_input_address

fun state_key_kind :: "state_key \<Rightarrow> string" where
  "state_key_kind (Runner_Key _) = ''runner''"
| "state_key_kind (MultimapSideInput _ _ _ _) = ''multimap_side_input''"
| "state_key_kind (BagUserState _ _ _ _) = ''bag_user_state''"
| "state_key_kind (IterableSideInput _ _ _) = ''iterable_side_input''"
| "state_key_kind (MultimapKeysSideInput _ _ _) = ''multimap_keys_side_input''"
| "state_key_kind (MultimapKeysValuesSideInput _ _ _) = ''multimap_keys_values_side_input''"
| "state_key_kind (MultimapKeysUserState _ _ _ _) = ''multimap_keys_user_state''"
| "state_key_kind (MultimapEntriesUserState _ _ _ _) = ''multimap_entries_user_state''"
| "state_key_kind (MultimapUserState _ _ _ _ _) = ''multimap_user_state''"
| "state_key_kind (OrderedListUserState _ _ _ _) = ''ordered_list_user_state''"

text \<open>The function \<open>state_target\<close>.\<close>

fun target_of_key :: "state_key \<Rightarrow> (string, state_target) rust" where
  "target_of_key (BagUserState t u w k) = Ok (UserStateTarget (new_address Bag t u w k))"
| "target_of_key (MultimapKeysUserState t u w k) = Ok (UserStateTarget (new_multimap MultimapKeys t u w k []))"
| "target_of_key (MultimapEntriesUserState t u w k) = Ok (UserStateTarget (new_multimap MultimapEntries t u w k []))"
| "target_of_key (MultimapUserState t u w k mk) = Ok (UserStateTarget (new_multimap MultimapValues t u w k mk))"
| "target_of_key (IterableSideInput t s w) =
     Ok (IterableTarget \<lparr>isa_key = \<lparr>sk_transform_id = t, sk_side_input_id = s\<rparr>, isa_window = w\<rparr>)"
| "target_of_key (MultimapKeysSideInput t s w) =
     Ok (MultimapTarget \<lparr>msa_key = \<lparr>sk_transform_id = t, sk_side_input_id = s\<rparr>, msa_window = w, msa_kind = ReadKeys\<rparr>)"
| "target_of_key (MultimapSideInput t s w k) =
     Ok (MultimapTarget \<lparr>msa_key = \<lparr>sk_transform_id = t, sk_side_input_id = s\<rparr>, msa_window = w, msa_kind = ReadValues k\<rparr>)"
| "target_of_key (MultimapKeysValuesSideInput t s w) =
     Ok (MultimapTarget \<lparr>msa_key = \<lparr>sk_transform_id = t, sk_side_input_id = s\<rparr>, msa_window = w, msa_kind = ReadKeysValues\<rparr>)"
| "target_of_key other = Err (''unsupported state key type '' @ state_key_kind other)"

text \<open>What the service works on: the user state of the job and the encoded side inputs.\<close>

record 'db service =
  sv_backend :: "'db state_backend"
  sv_cache :: side_input_cache

record resolver =
  rs_scan :: scan
  rs_registry :: side_input_registry

type_synonym 'db answer = "((string \<times> string, state_response) rust \<times> 'db service) option"

definition reply :: "string \<Rightarrow> string \<Rightarrow> ('a \<Rightarrow> state_response_body) \<Rightarrow> (string, 'a) rust \<Rightarrow> (string \<times> string, state_response) rust" where
  "reply i what body r =
     (case r of Ok x \<Rightarrow> Ok \<lparr>resp_id = i, resp_body = body x\<rparr> | Err e \<Rightarrow> Err (i, what @ e) | Panic \<Rightarrow> Panic)"

definition user_reply :: "'db service \<Rightarrow> string \<Rightarrow> string \<Rightarrow> ('a \<Rightarrow> state_response_body) \<Rightarrow> ('a, 'db) state_result \<Rightarrow> 'db answer" where
  "user_reply sv i what body r = Some (reply i what body (fst r), sv\<lparr>sv_backend := snd r\<rparr>)"

definition split_or_whole :: "standard_coder \<Rightarrow> bytes \<Rightarrow> (string, bytes list) rust" where
  "split_or_whole c data = (case split_encoded_values c data of Err _ \<Rightarrow> Ok [data] | r \<Rightarrow> r)"

definition user_append :: "'db kv_store \<Rightarrow> user_state_registry option \<Rightarrow> 'db state_backend \<Rightarrow> user_state_address \<Rightarrow> bytes
   \<Rightarrow> (unit, 'db) state_result" where
  "user_append kv registry b a data =
     (case addr_kind a of
        Bag \<Rightarrow> user_state_append kv b a data
      | MultimapKeys \<Rightarrow>
          (case map_option (\<lambda>coders. split_or_whole (usc_key coders) data) (map_coders registry a) of
             Some (Ok ks) \<Rightarrow> append_multimap_keys kv b a ks | Some (Err e) \<Rightarrow> (Err e, b) | _ \<Rightarrow> (Panic, b))
      | MultimapValues \<Rightarrow>
          (case map_option (\<lambda>coders. split_or_whole (usc_value coders) data) (map_coders registry a) of
             Some (Ok vs) \<Rightarrow> append_multimap_values kv b a vs | Some (Err e) \<Rightarrow> (Err e, b) | _ \<Rightarrow> (Panic, b))
      | MultimapEntries \<Rightarrow> (Err ''append is not supported for multimap entries state'', b))"

definition handle_user_state_request :: "'db kv_store \<Rightarrow> user_state_registry option \<Rightarrow> string \<Rightarrow> user_state_address
   \<Rightarrow> state_request_body option \<Rightarrow> 'db service \<Rightarrow> 'db answer" where
  "handle_user_state_request kv registry i a body sv =
     (case body of
        Some (GetRequest token) \<Rightarrow>
          if token \<noteq> [] then Some (Err (i, ''continuation tokens are not supported''), sv)
          else user_reply sv i ''get state failed: '' GetResponse (user_state_get kv (sv_backend sv) a)
      | Some (AppendRequest data) \<Rightarrow>
          if addr_kind a = MultimapKeys \<and> map_coders registry a = None then Some (Err (i, ''multimap state key coder is not registered''), sv)
          else if addr_kind a = MultimapValues \<and> map_coders registry a = None then Some (Err (i, ''multimap state value coder is not registered''), sv)
          else user_reply sv i ''append state failed: '' (\<lambda>_. AppendResponse) (user_append kv registry (sv_backend sv) a data)
      | Some ClearRequest \<Rightarrow> user_reply sv i ''clear state failed: '' (\<lambda>_. ClearResponse) (user_state_clear kv (sv_backend sv) a)
      | None \<Rightarrow> Some (Err (i, ''state request has no request body''), sv))"

definition handle_iterable_side_input_request :: "resolver option \<Rightarrow> string \<Rightarrow> iterable_side_input_address
   \<Rightarrow> state_request_body option \<Rightarrow> 'db service \<Rightarrow> 'db answer" where
  "handle_iterable_side_input_request si i a body sv =
     (case body of
        Some (GetRequest token) \<Rightarrow>
          if token \<noteq> [] then Some (Err (i, ''continuation tokens are not supported''), sv)
          else (case si of
                  None \<Rightarrow> Some (Err (i, ''iterable side-input resolver is not initialized''), sv)
                | Some rs \<Rightarrow>
                    (case read_iterable (rs_scan rs) (rs_registry rs) a (sv_cache sv) of
                       (r, sc) \<Rightarrow> Some (reply i ''get iterable side input failed: '' GetResponse r, sv\<lparr>sv_cache := sc\<rparr>)))
      | Some (AppendRequest _) \<Rightarrow> Some (Err (i, ''append is not supported for iterable side inputs''), sv)
      | Some ClearRequest \<Rightarrow> Some (Err (i, ''clear is not supported for iterable side inputs''), sv)
      | None \<Rightarrow> Some (Err (i, ''state request has no request body''), sv))"

definition handle_multimap_side_input_request :: "resolver option \<Rightarrow> string \<Rightarrow> multimap_side_input_address
   \<Rightarrow> state_request_body option \<Rightarrow> 'db service \<Rightarrow> 'db answer" where
  "handle_multimap_side_input_request si i a body sv =
     (case body of
        Some (GetRequest token) \<Rightarrow>
          if token \<noteq> [] then Some (Err (i, ''continuation tokens are not supported''), sv)
          else (case si of
                  None \<Rightarrow> Some (Err (i, ''multimap side-input resolver is not initialized''), sv)
                | Some rs \<Rightarrow>
                    map_option (\<lambda>(r, sc). (reply i ''get multimap side input failed: '' GetResponse r, sv\<lparr>sv_cache := sc\<rparr>))
                      (read_multimap (rs_scan rs) (rs_registry rs) a (sv_cache sv)))
      | Some (AppendRequest _) \<Rightarrow> Some (Err (i, ''append is not supported for multimap side inputs''), sv)
      | Some ClearRequest \<Rightarrow> Some (Err (i, ''clear is not supported for multimap side inputs''), sv)
      | None \<Rightarrow> Some (Err (i, ''state request has no request body''), sv))"

text \<open>\<open>handle_state_request_with_registries\<close>\<close>

definition handle_state_request :: "'db kv_store \<Rightarrow> user_state_registry option \<Rightarrow> resolver option \<Rightarrow> state_request \<Rightarrow> 'db service \<Rightarrow> 'db answer" where
  "handle_state_request kv user_states si req sv =
     (case req_key req of
        None \<Rightarrow> Some (Err (req_id req, ''state request has no state key''), sv)
      | Some key \<Rightarrow>
          (case target_of_key key of
             Err message \<Rightarrow> Some (Err (req_id req, message), sv)
           | Panic \<Rightarrow> Some (Panic, sv)
           | Ok (UserStateTarget a) \<Rightarrow> handle_user_state_request kv user_states (req_id req) a (req_body req) sv
           | Ok (IterableTarget a) \<Rightarrow> handle_iterable_side_input_request si (req_id req) a (req_body req) sv
           | Ok (MultimapTarget a) \<Rightarrow> handle_multimap_side_input_request si (req_id req) a (req_body req) sv))"

text \<open>
  The driver: every request that arrives is answered, an error as a response that carries
  its message; when the stream ends, the user state is flushed. \<open>None\<close> is a request that
  never returns or that panics.
\<close>

datatype wire_response = Answered state_response | Failed string string

fun drive_state_requests :: "'db kv_store \<Rightarrow> user_state_registry option \<Rightarrow> resolver option \<Rightarrow> state_request list \<Rightarrow> 'db service
   \<Rightarrow> (wire_response list \<times> 'db service) option" where
  "drive_state_requests kv us si [] sv = Some ([], sv\<lparr>sv_backend := snd (state_flush kv (sv_backend sv))\<rparr>)"
| "drive_state_requests kv us si (req # reqs) sv =
     (case handle_state_request kv us si req sv of
        Some (Ok resp, sv') \<Rightarrow> map_option (apfst ((#) (Answered resp))) (drive_state_requests kv us si reqs sv')
      | Some (Err (i, e), sv') \<Rightarrow> map_option (apfst ((#) (Failed i e))) (drive_state_requests kv us si reqs sv')
      | _ \<Rightarrow> None)"

section \<open>The elements of a side input by window\<close>

definition padded :: "standard_coder \<Rightarrow> beam_record \<Rightarrow> bytes" where
  "padded c v = (if encode_bytes c v = [] then [0] else encode_bytes c v)"

lemma append_encoded_fits: "fits c v \<Longrightarrow> append_encoded_element c v encoded = Ok (encoded @ padded c v)"
  by (simp add: append_encoded_element_def fits_encode padded_def)

definition iterable_of :: "encoded_side_input_windows \<Rightarrow> beam_window \<Rightarrow> bytes" where
  "iterable_of g w = (case hm_get g w of Some (EncodedIterable e) \<Rightarrow> e | _ \<Rightarrow> [])"

definition only_iterable :: "encoded_side_input_windows \<Rightarrow> bool" where
  "only_iterable g \<longleftrightarrow> (\<forall>w ks vals. hm_get g w \<noteq> Some (EncodedMultimap ks vals))"

lemma iterable_windows_spec:
  assumes "fits c v"
  shows "only_iterable g \<Longrightarrow> \<exists>g'. iterable_windows c v seen ws g = Ok g' \<and> only_iterable g'
    \<and> (\<forall>w. iterable_of g' w = iterable_of g w @ (if w \<in> set ws - set seen then padded c v else []))"
proof (induction ws arbitrary: seen g)
  case (Cons u ws)
  show ?case
  proof (cases "u \<in> set seen")
    case True
    then show ?thesis
      using Cons.IH [OF Cons.prems, of seen] by (auto simp: insert_Diff_if)
  next
    case False
    let ?g = "hm_insert u (EncodedIterable (iterable_of g u @ padded c v)) g"
    have entry: "(case hm_get g u of Some e \<Rightarrow> e | None \<Rightarrow> EncodedIterable []) = EncodedIterable (iterable_of g u)"
      using Cons.prems by (auto simp: iterable_of_def only_iterable_def split: option.split encoded_side_input_window.split)
    have "only_iterable ?g"
      using Cons.prems by (simp add: only_iterable_def)
    from Cons.IH [OF this, of "u # seen"] obtain g' where g': "iterable_windows c v (u # seen) ws ?g = Ok g'" "only_iterable g'"
      "\<And>w. iterable_of g' w = iterable_of ?g w @ (if w \<in> set ws - set (u # seen) then padded c v else [])"
      by blast
    have "iterable_windows c v seen (u # ws) g = Ok g'"
      using False entry g'(1) by (simp add: append_encoded_fits [OF assms])
    moreover have "iterable_of g' w = iterable_of g w @ (if w \<in> set (u # ws) - set seen then padded c v else [])" for w
      using False g'(3) [of w] by (auto simp: iterable_of_def)
    ultimately show ?thesis
      using g'(2) by blast
  qed
qed simp

definition in_window :: "beam_window \<Rightarrow> windowed_value list \<Rightarrow> windowed_value list" where
  "in_window w vs = filter (\<lambda>v. w \<in> set (wv_windows v)) vs"

lemma in_window_simps [simp]:
  "in_window w [] = []" "in_window w (v # vs) = (if w \<in> set (wv_windows v) then v # in_window w vs else in_window w vs)"
  by (simp_all add: in_window_def)

lemma encode_iterable_windows_spec:
  assumes "list_all (fits c \<circ> wv_value) vs"
  shows "\<exists>g. encode_iterable_windows vs c = Ok g \<and> only_iterable g
    \<and> (\<forall>w. iterable_of g w = concat (map (padded c \<circ> wv_value) (in_window w vs)))"
proof -
  have "\<exists>g'. rfold (\<lambda>v. iterable_windows c (wv_value v) [] (wv_windows v)) vs g = Ok g' \<and> only_iterable g'
    \<and> (\<forall>w. iterable_of g' w = iterable_of g w @ concat (map (padded c \<circ> wv_value) (in_window w vs)))" if "only_iterable g" for g
    using assms that
  proof (induction vs arbitrary: g)
    case (Cons v vs)
    obtain g1 where g1: "iterable_windows c (wv_value v) [] (wv_windows v) g = Ok g1" "only_iterable g1"
      "\<And>w. iterable_of g1 w = iterable_of g w @ (if w \<in> set (wv_windows v) then padded c (wv_value v) else [])"
      using iterable_windows_spec [of c "wv_value v" g "[]" "wv_windows v"] Cons.prems by auto
    obtain g2 where g2: "rfold (\<lambda>v. iterable_windows c (wv_value v) [] (wv_windows v)) vs g1 = Ok g2" "only_iterable g2"
      "\<And>w. iterable_of g2 w = iterable_of g1 w @ concat (map (padded c \<circ> wv_value) (in_window w vs))"
      using Cons.IH [OF _ g1(2)] Cons.prems(1) unfolding list.pred_inject(2) by blast
    show ?case
      by (rule exI [of _ g2]) (use g1 g2 in \<open>auto simp: comp_def\<close>)
  qed simp
  from this [of "[]"] show ?thesis
    by (simp add: encode_iterable_windows_def only_iterable_def iterable_of_def)
qed

section \<open>Decoding what a worker reads\<close>

lemma decode_remaining_concat:
  "list_all (fits c) rs \<Longrightarrow> list_all (\<lambda>r. encode_bytes c r \<noteq> []) rs \<Longrightarrow> decode_remaining what c (concat (map (padded c) rs)) = Some (Ok rs)"
proof (induction rs)
  case Nil
  show ?case
    by (simp add: decode_remaining.simps)
next
  case (Cons r rs)
  have "decode c (padded c r @ concat (map (padded c) rs)) = Ok (r, concat (map (padded c) rs))"
    using Cons.prems element.roundtrip [of c r] by (simp add: decode_def padded_def)
  moreover have "padded c r \<noteq> []"
    by (simp add: padded_def)
  ultimately show ?case
    using Cons by (subst decode_remaining.simps) simp
qed

section \<open>Multimap side inputs\<close>

fun mm_add :: "bytes \<times> bytes \<Rightarrow> bytes \<times> (bytes, bytes) hashmap \<Rightarrow> bytes \<times> (bytes, bytes) hashmap" where
  "mm_add (k, e) (ks, vals) =
     (if hm_get vals k = None then ks @ k else ks, hm_insert k ((case hm_get vals k of Some x \<Rightarrow> x | None \<Rightarrow> []) @ e) vals)"

definition multimap_of :: "encoded_side_input_windows \<Rightarrow> beam_window \<Rightarrow> bytes \<times> (bytes, bytes) hashmap" where
  "multimap_of g w = (case hm_get g w of Some (EncodedMultimap ks vals) \<Rightarrow> (ks, vals) | _ \<Rightarrow> ([], []))"

definition only_multimap :: "encoded_side_input_windows \<Rightarrow> bool" where
  "only_multimap g \<longleftrightarrow> (\<forall>w e. hm_get g w \<noteq> Some (EncodedIterable e))"

lemma multimap_windows_spec:
  assumes "fits kc (PRIMITIVE key)" and "fits vc v"
  shows "only_multimap g \<Longrightarrow> \<exists>g'. multimap_windows kc vc key v seen ws g = Ok g' \<and> only_multimap g'
    \<and> (\<forall>w. multimap_of g' w = (if w \<in> set ws - set seen then mm_add (padded kc (PRIMITIVE key), padded vc v) (multimap_of g w) else multimap_of g w))"
proof (induction ws arbitrary: seen g)
  case (Cons u ws)
  show ?case
  proof (cases "u \<in> set seen")
    case True
    then show ?thesis
      using Cons.IH [OF Cons.prems, of seen] by (auto simp: insert_Diff_if)
  next
    case False
    obtain ks vals where m: "multimap_of g u = (ks, vals)"
      by (cases "multimap_of g u")
    let ?m = "mm_add (padded kc (PRIMITIVE key), padded vc v) (ks, vals)"
    let ?g = "hm_insert u (EncodedMultimap (fst ?m) (snd ?m)) g"
    have entry: "(case hm_get g u of Some e \<Rightarrow> e | None \<Rightarrow> EncodedMultimap [] []) = EncodedMultimap ks vals"
      using Cons.prems m by (auto simp: multimap_of_def only_multimap_def split: option.splits encoded_side_input_window.splits)
    have "only_multimap ?g"
      using Cons.prems by (simp add: only_multimap_def)
    from Cons.IH [OF this, of "u # seen"] obtain g' where g': "multimap_windows kc vc key v (u # seen) ws ?g = Ok g'" "only_multimap g'"
      "\<And>w. multimap_of g' w = (if w \<in> set ws - set (u # seen) then mm_add (padded kc (PRIMITIVE key), padded vc v) (multimap_of ?g w) else multimap_of ?g w)"
      by blast
    have "multimap_windows kc vc key v seen (u # ws) g = Ok g'"
      using False g'(1) by (simp add: entry append_encoded_fits [OF assms(1)] append_encoded_fits [OF assms(2)])
    moreover have "multimap_of g' w = (if w \<in> set (u # ws) - set seen then mm_add (padded kc (PRIMITIVE key), padded vc v) (multimap_of g w) else multimap_of g w)" for w
    proof (cases "w = u")
      case True
      then show ?thesis
        using False g'(3) [of u] m by (simp add: multimap_of_def del: mm_add.simps)
    next
      case neq: False
      then have "multimap_of ?g w = multimap_of g w"
        by (simp add: multimap_of_def)
      then show ?thesis
        using neq g'(3) [of w] by (simp del: mm_add.simps)
    qed
    ultimately show ?thesis
      using g'(2) by blast
  qed
qed simp

definition kv_fits :: "standard_coder \<Rightarrow> standard_coder \<Rightarrow> windowed_value \<Rightarrow> bool" where
  "kv_fits kc vc v \<longleftrightarrow> (case wv_value v of KV key x \<Rightarrow> fits kc (PRIMITIVE key) \<and> fits vc x | _ \<Rightarrow> False)"

definition kv_bytes :: "standard_coder \<Rightarrow> standard_coder \<Rightarrow> windowed_value \<Rightarrow> bytes \<times> bytes" where
  "kv_bytes kc vc v = (case wv_value v of KV key x \<Rightarrow> (padded kc (PRIMITIVE key), padded vc x) | _ \<Rightarrow> ([], []))"

lemma encode_multimap_windows_spec:
  assumes "list_all (kv_fits kc vc) vs"
  shows "\<exists>g. encode_multimap_windows vs kc vc = Ok g \<and> only_multimap g
    \<and> (\<forall>w. multimap_of g w = fold mm_add (map (kv_bytes kc vc) (in_window w vs)) ([], []))"
proof -
  let ?f = "\<lambda>v. case wv_value v of KV key x \<Rightarrow> multimap_windows kc vc key x [] (wv_windows v)
                | _ \<Rightarrow> (\<lambda>_. Err ''multimap side input requires KV values, found a different BeamRecord'')"
  have "\<exists>g'. rfold ?f vs g = Ok g' \<and> only_multimap g' \<and> (\<forall>w. multimap_of g' w = fold mm_add (map (kv_bytes kc vc) (in_window w vs)) (multimap_of g w))"
    if "only_multimap g" for g
    using assms that
  proof (induction vs arbitrary: g)
    case (Cons v vs)
    obtain key x where kv: "wv_value v = KV key x" and f: "fits kc (PRIMITIVE key)" "fits vc x"
      using Cons.prems(1) by (auto simp: kv_fits_def split: beam_record.splits)
    obtain g1 where g1: "multimap_windows kc vc key x [] (wv_windows v) g = Ok g1" "only_multimap g1"
      "\<And>w. multimap_of g1 w = (if w \<in> set (wv_windows v) then mm_add (padded kc (PRIMITIVE key), padded vc x) (multimap_of g w) else multimap_of g w)"
      using multimap_windows_spec [OF f Cons.prems(2), of "[]" "wv_windows v"] by auto
    obtain g2 where g2: "rfold ?f vs g1 = Ok g2" "only_multimap g2"
      "\<And>w. multimap_of g2 w = fold mm_add (map (kv_bytes kc vc) (in_window w vs)) (multimap_of g1 w)"
      using Cons.IH [OF _ g1(2)] Cons.prems(1) by auto
    have "rfold ?f (v # vs) g = Ok g2"
      using g1(1) g2(1) by (simp add: kv)
    moreover have "multimap_of g2 w = fold mm_add (map (kv_bytes kc vc) (in_window w (v # vs))) (multimap_of g w)" for w
      by (simp add: g1(3) g2(3) kv_bytes_def kv del: mm_add.simps)
    ultimately show ?case
      using g2(2) by blast
  qed simp
  from this [of "[]"] show ?thesis
    by (simp add: encode_multimap_windows_def only_multimap_def multimap_of_def)
qed

lemma fold_mm_add_values:
  "hm_get (snd (fold mm_add kvs (ks, vals))) k =
     (if k \<in> fst ` set kvs \<or> hm_get vals k \<noteq> None
      then Some ((case hm_get vals k of Some x \<Rightarrow> x | None \<Rightarrow> []) @ concat (map snd (filter (\<lambda>p. fst p = k) kvs))) else None)"
proof (induction kvs arbitrary: ks vals)
  case (Cons p kvs)
  obtain k' e where p: "p = (k', e)"
    by (cases p)
  show ?case
    using Cons.IH by (auto simp: p split: option.splits)
qed auto

lemma fold_mm_add_keys:
  "\<exists>new. fst (fold mm_add kvs (ks, vals)) = ks @ concat new \<and> distinct new \<and> set new = {k \<in> fst ` set kvs. hm_get vals k = None}"
proof (induction kvs arbitrary: ks vals)
  case Nil
  show ?case
    by (intro exI [of _ "[]"]) simp
next
  case (Cons p kvs)
  obtain k e where p: "p = (k, e)"
    by (cases p)
  let ?vals = "hm_insert k ((case hm_get vals k of Some x \<Rightarrow> x | None \<Rightarrow> []) @ e) vals"
  obtain new where new: "fst (fold mm_add kvs (if hm_get vals k = None then ks @ k else ks, ?vals)) = (if hm_get vals k = None then ks @ k else ks) @ concat new"
    "distinct new" "set new = {j \<in> fst ` set kvs. hm_get ?vals j = None}"
    using Cons.IH by blast
  show ?case
  proof (cases "hm_get vals k")
    case None
    then show ?thesis
      using new by (intro exI [of _ "k # new"]) (auto simp: p)
  next
    case (Some x)
    then show ?thesis
      using new by (intro exI [of _ new]) (auto simp: p)
  qed
qed

section \<open>The cache\<close>

definition cache_coherent :: "resolver \<Rightarrow> side_input_cache \<Rightarrow> bool" where
  "cache_coherent rs sc \<longleftrightarrow> (\<forall>key windows. hm_get sc key = Some windows \<longrightarrow>
     (\<exists>spec. hm_get (rs_registry rs) key = Some spec \<and> materialize (rs_scan rs) spec = Ok windows))"

lemma cached_windows_coherent:
  assumes "cache_coherent rs sc" and "hm_get (rs_registry rs) key = Some spec" and "materialize (rs_scan rs) spec = Ok windows"
  obtains sc' where "cached_windows (rs_scan rs) key spec sc = (Ok windows, sc')" and "cache_coherent rs sc'"
proof (cases "hm_get sc key")
  case None
  then have "cached_windows (rs_scan rs) key spec sc = (Ok windows, hm_insert key windows sc)"
    using assms(3) by (simp add: cached_windows_def)
  moreover have "cache_coherent rs (hm_insert key windows sc)"
    using assms unfolding cache_coherent_def by simp
  ultimately show thesis
    by (rule that)
next
  case (Some w)
  then have "w = windows"
    using assms unfolding cache_coherent_def by fastforce
  then show thesis
    using that [of sc] Some assms(1) by (simp add: cached_windows_def)
qed

text \<open>A get request is answered with \<open>data\<close>, and only the cache may change.\<close>

definition answers_get :: "resolver \<Rightarrow> string \<Rightarrow> bytes \<Rightarrow> 'db service \<Rightarrow> 'db answer \<Rightarrow> bool" where
  "answers_get rs i data sv ans \<longleftrightarrow>
     (\<exists>sc. ans = Some (Ok \<lparr>resp_id = i, resp_body = GetResponse data\<rparr>, sv\<lparr>sv_cache := sc\<rparr>) \<and> cache_coherent rs sc)"

abbreviation get_request :: "string \<Rightarrow> state_key \<Rightarrow> state_request" where
  "get_request i key \<equiv> \<lparr>req_id = i, req_key = Some key, req_body = Some (GetRequest [])\<rparr>"

lemma iterable_read:
  assumes coh: "cache_coherent rs (sv_cache sv)" and spec: "hm_get (rs_registry rs) \<lparr>sk_transform_id = t, sk_side_input_id = s\<rparr> = Some spec"
    and mat: "sis_materialization spec = IterableMaterialization c" and w: "decode_window (sis_window_coder spec) wb = Ok w"
    and scan: "rs_scan rs (sis_pcollection_id spec) = Ok vs" and fit: "list_all (fits c \<circ> wv_value) vs"
  shows "answers_get rs i (concat (map (padded c \<circ> wv_value) (in_window w vs))) sv
    (handle_state_request kv us (Some rs) (get_request i (IterableSideInput t s wb)) sv)"
proof -
  obtain g where g: "encode_iterable_windows vs c = Ok g" "only_iterable g" "\<And>w. iterable_of g w = concat (map (padded c \<circ> wv_value) (in_window w vs))"
    using encode_iterable_windows_spec [OF fit] by blast
  have "materialize (rs_scan rs) spec = Ok g"
    by (simp add: materialize_def scan mat g(1) del: rbind_eq_Ok)
  from cached_windows_coherent [OF coh spec this] obtain sc' where sc':
    "cached_windows (rs_scan rs) \<lparr>sk_transform_id = t, sk_side_input_id = s\<rparr> spec (sv_cache sv) = (Ok g, sc')" "cache_coherent rs sc'" .
  have "read_iterable (rs_scan rs) (rs_registry rs) \<lparr>isa_key = \<lparr>sk_transform_id = t, sk_side_input_id = s\<rparr>, isa_window = wb\<rparr> (sv_cache sv)
      = (Ok (iterable_of g w), sc')"
    using g(2) by (auto simp: read_iterable_def spec mat w sc'(1) iterable_of_def only_iterable_def split: option.split encoded_side_input_window.split)
  then show ?thesis
    using sc'(2) by (auto simp: answers_get_def handle_state_request_def handle_iterable_side_input_request_def reply_def g(3))
qed

lemma multimap_read:
  assumes coh: "cache_coherent rs (sv_cache sv)" and spec: "hm_get (rs_registry rs) \<lparr>sk_transform_id = t, sk_side_input_id = s\<rparr> = Some spec"
    and mat: "sis_materialization spec = MultimapMaterialization kc vc" and w: "decode_window (sis_window_coder spec) wb = Ok w"
    and scan: "rs_scan rs (sis_pcollection_id spec) = Ok vs" and fit: "list_all (kv_fits kc vc) vs"
  shows "answers_get rs i (concat (map snd (filter (\<lambda>p. fst p = k) (map (kv_bytes kc vc) (in_window w vs))))) sv
      (handle_state_request kv us (Some rs) (get_request i (MultimapSideInput t s wb k)) sv)"
    and "\<exists>ks. distinct ks \<and> set ks = fst ` kv_bytes kc vc ` set (in_window w vs)
      \<and> answers_get rs i (concat ks) sv (handle_state_request kv us (Some rs) (get_request i (MultimapKeysSideInput t s wb)) sv)"
proof -
  let ?m = "fold mm_add (map (kv_bytes kc vc) (in_window w vs)) ([], [])"
  obtain g where g: "encode_multimap_windows vs kc vc = Ok g" "only_multimap g" "multimap_of g w = ?m"
    using encode_multimap_windows_spec [OF fit] by blast
  have "materialize (rs_scan rs) spec = Ok g"
    by (simp add: materialize_def scan mat g(1) del: rbind_eq_Ok)
  from cached_windows_coherent [OF coh spec this] obtain sc' where sc':
    "cached_windows (rs_scan rs) \<lparr>sk_transform_id = t, sk_side_input_id = s\<rparr> spec (sv_cache sv) = (Ok g, sc')" "cache_coherent rs sc'" .
  have read: "read_multimap (rs_scan rs) (rs_registry rs) \<lparr>msa_key = \<lparr>sk_transform_id = t, sk_side_input_id = s\<rparr>, msa_window = wb, msa_kind = ReadValues k\<rparr> (sv_cache sv)
      = Some (Ok (case hm_get (snd ?m) k of Some e \<Rightarrow> e | None \<Rightarrow> []), sc')"
    and keys: "read_multimap (rs_scan rs) (rs_registry rs) \<lparr>msa_key = \<lparr>sk_transform_id = t, sk_side_input_id = s\<rparr>, msa_window = wb, msa_kind = ReadKeys\<rparr> (sv_cache sv)
      = Some (Ok (fst ?m), sc')"
    using g(2) unfolding g(3) [symmetric]
    by (auto simp: read_multimap_def spec mat w sc'(1) multimap_of_def only_multimap_def split: option.splits encoded_side_input_window.split)
  have none: "filter (\<lambda>p. fst p = k) kvs = []" if "k \<notin> fst ` set kvs" for kvs :: "(bytes \<times> bytes) list"
    using that by (auto simp: filter_empty_conv)
  have "(case hm_get (snd ?m) k of Some e \<Rightarrow> e | None \<Rightarrow> []) = concat (map snd (filter (\<lambda>p. fst p = k) (map (kv_bytes kc vc) (in_window w vs))))"
    unfolding fold_mm_add_values using none [of "map (kv_bytes kc vc) (in_window w vs)"] by simp
  then show "answers_get rs i (concat (map snd (filter (\<lambda>p. fst p = k) (map (kv_bytes kc vc) (in_window w vs))))) sv
      (handle_state_request kv us (Some rs) (get_request i (MultimapSideInput t s wb k)) sv)"
    using read sc'(2) by (auto simp: answers_get_def handle_state_request_def handle_multimap_side_input_request_def reply_def)
  obtain ks where ks: "fst ?m = concat ks" "distinct ks" "set ks = fst ` kv_bytes kc vc ` set (in_window w vs)"
    using fold_mm_add_keys [of "map (kv_bytes kc vc) (in_window w vs)" "[]" "[]"] by auto
  then show "\<exists>ks. distinct ks \<and> set ks = fst ` kv_bytes kc vc ` set (in_window w vs)
      \<and> answers_get rs i (concat ks) sv (handle_state_request kv us (Some rs) (get_request i (MultimapKeysSideInput t s wb)) sv)"
    using keys sc'(2) by (intro exI [of _ ks]) (auto simp: answers_get_def handle_state_request_def handle_multimap_side_input_request_def reply_def)
qed

section \<open>Two reads that go wrong\<close>

text \<open>A decoder that takes no bytes never reaches the end of the padded values.\<close>

lemma void_values_never_decode: "buf \<noteq> [] \<Longrightarrow> decode_remaining what VoidC buf = None"
proof (rule ccontr)
  assume ne: "buf \<noteq> []" and "decode_remaining what VoidC buf \<noteq> None"
  then obtain y where "decode_remaining what VoidC buf = Some y"
    by blast
  moreover have "c = VoidC \<longrightarrow> b = []" if "decode_remaining w c b = Some y" for w c b y
  proof (rule decode_remaining.raw_induct [where P = "\<lambda>w c b y. c = VoidC \<longrightarrow> b = []", OF _ that], goal_cases)
    case (1 f w c b y)
    then show ?case
      by (cases "b = []") (auto simp: decode_def bind_eq_Some_conv)
  qed
  ultimately show False
    using ne by blast
qed

lemma void_multimap_read_never_returns:
  "encode_multimap_windows [\<lparr>wv_value = KV (PInt64 7) (PRIMITIVE PVoid), wv_timestamp_millis = 0, wv_windows = [Global], wv_pane = no_firing\<rparr>] VarInt VoidC
     = Ok [(Global, EncodedMultimap [7] [([7], [0])])]"
  "encode_multimap_key_values [7] [([7], [0])] VarInt VoidC = None"
proof -
  have enc: "encode VarInt (PRIMITIVE (PInt64 7)) = Ok [7]" "encode VoidC (PRIMITIVE PVoid) = Ok []" "decode VarInt [7] = Ok (PRIMITIVE (PInt64 7), [])"
    by code_simp+
  show "encode_multimap_windows [\<lparr>wv_value = KV (PInt64 7) (PRIMITIVE PVoid), wv_timestamp_millis = 0, wv_windows = [Global], wv_pane = no_firing\<rparr>] VarInt VoidC
     = Ok [(Global, EncodedMultimap [7] [([7], [0])])]"
    by (simp add: encode_multimap_windows_def append_encoded_element_def enc del: rbind_eq_Ok)
  show "encode_multimap_key_values [7] [([7], [0])] VarInt VoidC = None"
    unfolding encode_multimap_key_values_def
    by (subst key_values_loop.simps) (simp add: enc append_encoded_element_def void_values_never_decode)
qed

text \<open>A composite key reaches the encoder as its raw bytes, which only \<open>encode_key\<close> accepts.\<close>

lemma composite_key_side_input_panics:
  "encode_multimap_windows [\<lparr>wv_value = KV (PBytes [1, 2]) (PRIMITIVE (PInt64 3)), wv_timestamp_millis = 0, wv_windows = [Global], wv_pane = no_firing\<rparr>]
     (Kv VarInt VarInt) VarInt = Panic"
  "decode (Kv (Kv VarInt VarInt) VarInt) [1, 2, 3] = Ok (KV (PBytes [1, 2]) (PRIMITIVE (PInt64 3)), [])"
proof -
  have "encode (Kv VarInt VarInt) (PRIMITIVE (PBytes [1, 2])) = Panic"
    by code_simp
  then show "encode_multimap_windows [\<lparr>wv_value = KV (PBytes [1, 2]) (PRIMITIVE (PInt64 3)), wv_timestamp_millis = 0, wv_windows = [Global], wv_pane = no_firing\<rparr>]
     (Kv VarInt VarInt) VarInt = Panic"
    by (simp add: encode_multimap_windows_def append_encoded_element_def)
  show "decode (Kv (Kv VarInt VarInt) VarInt) [1, 2, 3] = Ok (KV (PBytes [1, 2]) (PRIMITIVE (PInt64 3)), [])"
    by code_simp
qed

section \<open>Answers\<close>

fun body_matches :: "state_request_body option \<Rightarrow> state_response_body \<Rightarrow> bool" where
  "body_matches (Some (GetRequest _)) (GetResponse _) = True"
| "body_matches (Some (AppendRequest _)) AppendResponse = True"
| "body_matches (Some ClearRequest) ClearResponse = True"
| "body_matches _ _ = False"

definition answer_fits :: "state_request \<Rightarrow> (string \<times> string, state_response) rust \<Rightarrow> bool" where
  "answer_fits req r \<longleftrightarrow>
     (case r of Ok resp \<Rightarrow> resp_id resp = req_id req \<and> body_matches (req_body req) (resp_body resp) | Err (i, _) \<Rightarrow> i = req_id req | Panic \<Rightarrow> True)"

text \<open>The requests the service turns down, by their form alone.\<close>

definition target_rejects :: "user_state_registry option \<Rightarrow> resolver option \<Rightarrow> state_request_body option \<Rightarrow> state_target \<Rightarrow> bool" where
  "target_rejects us si body target \<longleftrightarrow>
     (case body of
        None \<Rightarrow> True
      | Some (GetRequest token) \<Rightarrow> token \<noteq> [] \<or> (\<forall>a. target \<noteq> UserStateTarget a) \<and> si = None
      | Some (AppendRequest _) \<Rightarrow>
          (case target of UserStateTarget a \<Rightarrow> addr_kind a = MultimapEntries \<or> addr_kind a \<noteq> Bag \<and> map_coders us a = None | _ \<Rightarrow> True)
      | Some ClearRequest \<Rightarrow> (\<forall>a. target \<noteq> UserStateTarget a))"

definition rejected :: "user_state_registry option \<Rightarrow> resolver option \<Rightarrow> state_request \<Rightarrow> bool" where
  "rejected us si req \<longleftrightarrow>
     (case req_key req of None \<Rightarrow> True | Some key \<Rightarrow> (case target_of_key key of Ok target \<Rightarrow> target_rejects us si (req_body req) target | _ \<Rightarrow> True))"

lemma target_of_key_returns: "target_of_key key \<noteq> Panic"
  by (cases key) simp_all

lemmas handler_defs = handle_state_request_def handle_user_state_request_def handle_iterable_side_input_request_def
  handle_multimap_side_input_request_def user_reply_def reply_def

lemma reply_fits: "(\<And>x. body_matches (req_body req) (body x)) \<Longrightarrow> answer_fits req (reply (req_id req) what body r)"
  by (cases r) (simp_all add: answer_fits_def reply_def)

lemma error_fits [simp]: "answer_fits req (Err (req_id req, e))"
  by (simp add: answer_fits_def)

lemma answer_fits_handled:
  assumes "handle_state_request kv us si req sv = Some (r, sv')"
  shows "answer_fits req r"
proof -
  have "answer_fits req Panic"
    by (simp add: answer_fits_def)
  then show ?thesis
    using assms unfolding handle_state_request_def handle_user_state_request_def handle_iterable_side_input_request_def
      handle_multimap_side_input_request_def user_reply_def
    by (auto intro!: reply_fits split: option.splits rust.splits state_target.splits state_request_body.splits if_splits prod.splits)
qed

lemma rejected_fails:
  assumes "rejected us si req"
  shows "\<exists>e. handle_state_request kv us si req sv = Some (Err (req_id req, e), sv)"
proof (cases "req_key req")
  case (Some key)
  show ?thesis
  proof (cases "target_of_key key")
    case (Ok target)
    then have "target_rejects us si (req_body req) target"
      using assms Some by (simp add: rejected_def)
    then show ?thesis
      by (cases target) (auto simp: handler_defs Some Ok target_rejects_def user_append_def split: option.splits state_request_body.splits user_state_kind.splits)
  qed (use Some target_of_key_returns in \<open>auto simp: handle_state_request_def\<close>)
qed (simp add: handle_state_request_def)

fun wire_id :: "wire_response \<Rightarrow> string" where
  "wire_id (Answered resp) = resp_id resp"
| "wire_id (Failed i _) = i"

lemma drive_answers:
  "drive_state_requests kv us si reqs sv = Some (ws, sv') \<Longrightarrow> map wire_id ws = map req_id reqs"
proof (induction reqs arbitrary: ws sv)
  case (Cons req reqs)
  obtain r sv1 where h: "handle_state_request kv us si req sv = Some (r, sv1)"
    using Cons.prems by (auto split: option.splits)
  note fit = answer_fits_handled [OF h]
  obtain w ws' where "ws = w # ws'" "wire_id w = req_id req" "drive_state_requests kv us si reqs sv1 = Some (ws', sv')"
    using Cons.prems fit by (auto simp: h answer_fits_def split: rust.splits)
  then show ?case
    using Cons.IH by simp
qed simp

section \<open>Properties\<close>

text \<open>
  C32: a worker that reads a side input gets the elements of the PCollection that lie in
  the window it names, no others, in their order: for an iterable side input one encoding
  per element, from which the element coder recovers exactly these elements when none of
  them encodes to nothing; for a multimap the values stored under the key it names, and
  each key once. Answers come from the cache or fill it, and leave user state alone.
\<close>

theorem side_inputs_read_by_window:
  assumes "cache_coherent rs (sv_cache sv)" and "hm_get (rs_registry rs) \<lparr>sk_transform_id = t, sk_side_input_id = s\<rparr> = Some spec"
    and "decode_window (sis_window_coder spec) wb = Ok w" and "rs_scan rs (sis_pcollection_id spec) = Ok vs"
  shows "(\<forall>c. sis_materialization spec = IterableMaterialization c \<and> list_all (fits c \<circ> wv_value) vs \<longrightarrow>
        answers_get rs i (concat (map (padded c \<circ> wv_value) (in_window w vs))) sv
          (handle_state_request kv us (Some rs) (get_request i (IterableSideInput t s wb)) sv)
        \<and> (list_all (\<lambda>v. encode_bytes c (wv_value v) \<noteq> []) vs \<longrightarrow>
             decode_remaining what c (concat (map (padded c \<circ> wv_value) (in_window w vs))) = Some (Ok (map wv_value (in_window w vs)))))
    \<and> (\<forall>kc vc. sis_materialization spec = MultimapMaterialization kc vc \<and> list_all (kv_fits kc vc) vs \<longrightarrow>
        (\<forall>k. answers_get rs i (concat (map snd (filter (\<lambda>p. fst p = k) (map (kv_bytes kc vc) (in_window w vs))))) sv
           (handle_state_request kv us (Some rs) (get_request i (MultimapSideInput t s wb k)) sv))
        \<and> (\<exists>ks. distinct ks \<and> set ks = fst ` kv_bytes kc vc ` set (in_window w vs)
             \<and> answers_get rs i (concat ks) sv (handle_state_request kv us (Some rs) (get_request i (MultimapKeysSideInput t s wb)) sv)))"
proof ((intro conjI allI impI; elim conjE), goal_cases)
  case (1 c)
  then show ?case
    by (rule iterable_read [OF assms(1,2) _ assms(3,4)])
next
  case (2 c)
  then have "list_all (fits c) (map wv_value (in_window w vs))" "list_all (\<lambda>r. encode_bytes c r \<noteq> []) (map wv_value (in_window w vs))"
    by (auto simp: list_all_iff in_window_def)
  from decode_remaining_concat [OF this] show ?case
    by simp
next
  case (3 kc vc k)
  then show ?case
    by (rule multimap_read(1) [OF assms(1,2) _ assms(3,4)])
next
  case (4 kc vc)
  then show ?case
    by (rule multimap_read(2) [OF assms(1,2) _ assms(3,4)])
qed

definition sample_resolver :: resolver where
  "sample_resolver =
     \<lparr>rs_scan = (\<lambda>p. Ok [\<lparr>wv_value = PRIMITIVE (PInt64 5), wv_timestamp_millis = 0, wv_windows = [Global], wv_pane = no_firing\<rparr>,
                         \<lparr>wv_value = PRIMITIVE (PInt64 6), wv_timestamp_millis = 0, wv_windows = [Interval 0 1], wv_pane = no_firing\<rparr>]),
      rs_registry = [(\<lparr>sk_transform_id = ''t'', sk_side_input_id = ''s''\<rparr>,
        \<lparr>sis_pcollection_id = ''p'', sis_materialization = IterableMaterialization VarInt, sis_window_coder = WindowCoderGlobal\<rparr>)]\<rparr>"

definition sample_service :: "(bytes, bytes) hashmap service" where
  "sample_service = \<lparr>sv_backend = with_store [], sv_cache = []\<rparr>"

theorem side_inputs_read_by_window_witness:
  "answers_get sample_resolver ''1'' [5] sample_service
     (handle_state_request (slate_kv mem_slate) None (Some sample_resolver) (get_request ''1'' (IterableSideInput ''t'' ''s'' [])) sample_service)"
proof -
  let ?vs = "[\<lparr>wv_value = PRIMITIVE (PInt64 5), wv_timestamp_millis = 0, wv_windows = [Global], wv_pane = no_firing\<rparr>,
    \<lparr>wv_value = PRIMITIVE (PInt64 6), wv_timestamp_millis = 0, wv_windows = [Interval 0 1], wv_pane = no_firing\<rparr>]"
  let ?spec = "\<lparr>sis_pcollection_id = ''p'', sis_materialization = IterableMaterialization VarInt, sis_window_coder = WindowCoderGlobal\<rparr>"
  have "cache_coherent sample_resolver (sv_cache sample_service)"
    by (simp add: cache_coherent_def sample_service_def)
  moreover have "hm_get (rs_registry sample_resolver) \<lparr>sk_transform_id = ''t'', sk_side_input_id = ''s''\<rparr> = Some ?spec"
    "rs_scan sample_resolver (sis_pcollection_id ?spec) = Ok ?vs"
    by (simp_all add: sample_resolver_def)
  moreover have "decode_window (sis_window_coder ?spec) [] = Ok Global"
    by (simp add: decode_window_def)
  moreover have "list_all (fits VarInt \<circ> wv_value) ?vs"
    by (simp add: fits.simps i64_range_defs)
  moreover have "concat (map (padded VarInt \<circ> wv_value) (in_window Global ?vs)) = [5]"
    by code_simp
  ultimately show ?thesis
    using side_inputs_read_by_window [of sample_resolver sample_service "''t''" "''s''" ?spec "[]" Global ?vs "''1''" "slate_kv mem_slate" None] by simp
qed



end
