(* ===== verification/Spec2Isabelle.thy ===== *)
theory Spec2Isabelle
  imports Job Gbk_Groups State_Service
begin

text \<open>
  FlareDB runs Apache Beam pipelines on one machine. A submitted pipeline is fused into
  stages, the stages become the nodes of an executable graph, a scheduler starts the nodes
  whose inputs and watermarks allow it, SDK workers run the stages, and runner-implemented
  transforms (GroupByKey, Impulse, Flatten, TestStream) run inside the process. This
  development models the parts of \<open>src/flaredb/src\<close> that decide what runs, when it runs and
  what is emitted, and the encodings they share. All file names below are relative to that
  directory.

  \<^bold>\<open>Prelude.\<close> \<open>Flare_Base\<close>: outcomes of Rust code (\<open>Ok\<close>, \<open>Err\<close>, \<open>Panic\<close>) with their
  sequencing, \<open>i64\<close> as integers with explicit wrap-around, and the two map types behind the
  locale \<open>rust_map\<close>, interpreted on the models of \<open>HashMap\<close> and \<open>BTreeMap\<close>.

  \<^bold>\<open>Watermarks\<close> (\<open>engine/watermark.rs\<close>). \<open>Watermark\<close>: the manager's state and operations;
  \<open>Watermark_Refresh\<close>: propagation, proved to end and to compute the least fixpoint;
  \<open>Watermark_Props\<close>: the operations as the step relation \<open>wm_step\<close>, the invariant of every
  reachable state, monotonicity, and that no watermark overtakes the stages it is computed
  from. Reference-counted holds refine a multiset.

  \<^bold>\<open>Encodings\<close> (\<open>coders/primitives.rs\<close>, \<open>coders/mod.rs\<close>). \<open>Wire\<close>: varints, big-endian
  integers, timestamps; \<open>Windows\<close>: windows, panes and the windowed-value header; \<open>Coders\<close>:
  the element coders, their resolution from a coder table (with fuel, which the depth of an
  acyclic table bounds) and the wrapping of pickled coders. The lemmas are round trips,
  canonicity and termination.

  \<^bold>\<open>Triggers and GroupByKey\<close> (\<open>engine/trigger.rs\<close>, \<open>transforms/gbk.rs\<close>, \<open>store/record.rs\<close>).
  \<open>Trigger\<close>: the trigger tree and its state machine; \<open>Records\<close>: element values;
  \<open>Group_By_Key\<close>: windows held in state and their firing; \<open>Gbk_Groups\<close>: the decoder of
  sorted rows, session merging, and the processing of batches. Shown: elements are neither
  lost nor duplicated, merged sessions cover what was merged, firings are bounded, the
  shortcut for expired windows equals the general path.

  \<^bold>\<open>State and timers\<close> (\<open>engine/kv.rs\<close>, \<open>engine/state.rs\<close>, \<open>engine/timer.rs\<close>). \<open>Kv_Store\<close>:
  the store interface, with SlateDB as a parameter; \<open>State_Backend\<close>: the write-back cache, a
  refinement of a plain map; \<open>User_State\<close>: bag and multimap state, isolation of addresses;
  \<open>Timers\<close>: storage keys, the timer store and the timer service. \<open>State_Service\<close>
  (\<open>engine/harness/state.rs\<close>): a worker's state requests, served from user state and from
  materialized side inputs; a read returns exactly the elements of its window, every request
  is answered, and a request that cannot be served changes nothing.

  \<^bold>\<open>Pipeline, fusion and the executable graph\<close> (\<open>fusion/pipeline.rs\<close>, \<open>fusion/refs.rs\<close>,
  \<open>fusion/stage.rs\<close>, \<open>fusion/fuser.rs\<close>, \<open>jobservice/urns.rs\<close>, \<open>jobservice/job.rs\<close>).
  \<open>Pipeline_Model\<close>: protocol messages, nodes, references, stages; \<open>Queryable_Pipeline\<close>: the
  graph of primitives and its queries, each characterised by the pipeline's components;
  \<open>Fuser\<close>: growing stages, sibling groups and the walk over the pipeline; \<open>Single_Producer\<close>:
  the rewriting that gives a PCollection one producer; \<open>Fusion_Props\<close>: what a stage
  guarantees; \<open>Dedup_Props\<close>: the rewriting is correct; \<open>Fusion_Walk\<close>: no consumer is lost on
  the walk; \<open>Fusion_Complete\<close>: the guarantees of the whole of \<open>fuse_pipeline\<close> (one producer
  per PCollection, completeness, termination); \<open>Exec_Graph\<close>: the executable graph as the
  scheduler reads it and the watermark manager built from it; \<open>Graph_Builder\<close>: its
  construction from a fused pipeline; \<open>Splittable_Runs\<close>: the runs of splittable stages it
  folds into one node; \<open>Graph_Props\<close>: the built graph meets what the scheduler assumes;
  \<open>Expander\<close> (\<open>fusion/expander.rs\<close>): the expansion of splittable ParDos into chains; \<open>Job\<close>:
  \<open>create_job\<close>, from a submitted pipeline to its graph, with the guarantee for the whole path.

  \<^bold>\<open>Scheduler\<close> (\<open>engine/scheduler.rs\<close>). \<open>Scheduler\<close>: the node scheduler; \<open>Scheduler_Props\<close>:
  its reachable states, that a started node may run, and that on an acyclic graph it never
  gets stuck.

  \<^bold>\<open>This theory\<close> holds the properties that span GroupByKey and the watermark manager.

  \<^bold>\<open>Conventions.\<close> A \<open>HashMap\<close> is an association list and a \<open>BTreeMap\<close> one in increasing
  key order; a \<open>HashSet\<close> or \<open>IndexSet\<close> of nodes is a list without repeated identifiers. A
  petgraph graph is its node list and its edge list, newest edge first. \<open>async\<close> functions are
  modelled as the sequence of their effects; a mutex held over a method makes the method one
  step. Loops are recursive functions with termination proofs; where the source may not
  return (a cyclic coder table, a cycle of runner transforms or of subtransforms) the
  definition takes fuel and \<open>None\<close> means that it ran out, and a theorem states how much is
  enough.

  \<^bold>\<open>Parameters.\<close> SlateDB, serde_json, the DataFusion sort, the SDK's merge of custom windows,
  the decoding of protocol payloads and random UUIDs are arguments or locale parameters;
  hypotheses on them are stated in the theorems that need them.

  \<^bold>\<open>Not modelled.\<close> The gRPC transport of the Fn API and the job service, worker processes,
  logging and metrics (I/O around the core); the Arrow and Paimon table formats of the
  element store (third-party data types carry the behaviour); the generated protocol
  bindings. Not modelled yet: the execution of splittable transforms, the bundle runtime and
  dispatcher, the execution of the runner transforms other than GroupByKey, the row coder.
\<close>

section \<open>Group by key behind the watermark manager\<close>

lemma bundle_watermark_bounds:
  assumes "wm_reachable m" and "bundle_input_watermark m stage = Some wm"
  obtains s where "hm_get (stages m) stage = Some s" "wm \<le> input_wm s" "wm \<le> MAX_TIMESTAMP"
proof -
  obtain s where s: "hm_get (stages m) stage = Some s" "wm = watermark_at_last_run s"
    using assms(2) by (auto simp: bundle_input_watermark_def)
  then have "stage_ok s"
    using wm_reachable_inv [OF assms(1)] by (auto simp: wm_inv_def)
  then show thesis
    using that [OF s(1)] s(2) by (auto simp: stage_ok_def)
qed

definition sample_window :: "beam_window \<Rightarrow> window_state" where
  "sample_window w = (window_state_new PVoid w (runner_new Default))\<lparr>st_elements := [sample_element 1]\<rparr>"

lemma sample_bundle_watermark: "bundle_input_watermark sample_running ''B'' = Some 5"
  by code_simp


lemma sample_pane:
  "\<exists>st' v. fire_state sample_spec 5 0 (sample_window (Interval 0 3)) = Some (st', Some v) \<and> timing (wv_pane v) = OnTime"
  by (simp add: sample_window_def window_state_new_def sample_spec_def fire_state_def runner_should_fire_def runner_new_def
      node_default_def on_fire_def pane_info_def pane_timing_def sample_element_def Let_def wrap_i64_id i64_range_defs
      earliest_completion_def saturating_add_def)




end
